(* ===== verification/Prelude.thy ===== *)
theory Prelude
  imports Main "HOL-Library.Word" "HOL-Library.List_Lexorder" "HOL-Library.Monad_Syntax"
    "HOL-Library.Sublist"
begin

unbundle bit_operations_syntax

text \<open>
  Shared vocabulary of the development: Go byte slices as lists of 8-bit words, the
  fixed-width integer codecs of \<^verbatim>\<open>encoding/binary\<close>, slice reads and writes whose bounds
  violations are panics, \<^verbatim>\<open>bytes.Compare\<close>, and the generic lemmas every component uses.

  Conventions. A Go panic (a failed \<^verbatim>\<open>assert\<close>, an index out of range) is the value
  \<open>None\<close> of an option; an ordinary Go error is a value of a sum type inside it. A \<^verbatim>\<open>uint16\<close>
  or \<^verbatim>\<open>uint64\<close> is a natural number and every arithmetic step that can wrap is written with
  \<open>u16\<close>, \<open>u64\<close>, \<open>sub16\<close>.
\<close>

section \<open>Collections of rewrite rules\<close>

named_theorems format_consts \<open>sizes and tags of the on-disk formats\<close>
named_theorems buffer_layout \<open>reads after writes in a byte buffer\<close>

section \<open>Types\<close>

type_synonym byte = "8 word"
type_synonym bytes = "byte list"

section \<open>Panics and machine integers\<close>

text \<open>\<^verbatim>\<open>assert\<close> of \<^verbatim>\<open>utils.go\<close>: panics when the condition is false.\<close>

definition go_assert :: "bool \<Rightarrow> unit option" where
  "go_assert b = (if b then Some () else None)"

lemma go_assert_simps [simp]:
  "go_assert True = Some ()" "go_assert False = None"
  "go_assert b = Some u \<longleftrightarrow> b" "go_assert b = None \<longleftrightarrow> \<not> b"
  by (simp_all add: go_assert_def)

definition u16 :: "nat \<Rightarrow> nat" where
  "u16 n = n mod 65536"

definition u64 :: "nat \<Rightarrow> nat" where
  "u64 n = n mod 2 ^ 64"

definition sub16 :: "nat \<Rightarrow> nat \<Rightarrow> nat" where
  "sub16 a b = u16 (a + 65536 - u16 b)"

lemma u16_id [simp]: "n < 65536 \<Longrightarrow> u16 n = n"
  by (simp add: u16_def)

lemma u16_less [simp]: "u16 n < 65536"
  by (simp add: u16_def)

lemma u64_id [simp]: "n < 2 ^ 64 \<Longrightarrow> u64 n = n"
  by (simp add: u64_def)

lemma u64_less [simp]: "u64 n < 2 ^ 64"
  by (simp add: u64_def)

lemma sub16_le [simp]: "b \<le> a \<Longrightarrow> a < 65536 \<Longrightarrow> sub16 a b = a - b"
  by (simp add: sub16_def u16_def mod_if)

lemma sub16_less [simp]: "sub16 a b < 65536"
  by (simp add: sub16_def)

section \<open>Fixed-width integer codecs\<close>

text \<open>Little-endian: \<open>le_bytes n v\<close> are the \<open>n\<close> bytes \<^verbatim>\<open>PutUint\<close> writes, \<open>le_val\<close> reads them.\<close>

primrec le_bytes :: "nat \<Rightarrow> nat \<Rightarrow> bytes" where
  "le_bytes 0 v = []"
| "le_bytes (Suc n) v = of_nat v # le_bytes n (v div 256)"

primrec le_val :: "bytes \<Rightarrow> nat" where
  "le_val [] = 0"
| "le_val (b # bs) = unat b + 256 * le_val bs"

definition be_bytes :: "nat \<Rightarrow> nat \<Rightarrow> bytes" where
  "be_bytes n v = rev (le_bytes n v)"

definition be_val :: "bytes \<Rightarrow> nat" where
  "be_val bs = le_val (rev bs)"

lemma length_le_bytes [simp]: "length (le_bytes n v) = n"
  by (induction n arbitrary: v) auto

lemma length_be_bytes [simp]: "length (be_bytes n v) = n"
  by (simp add: be_bytes_def)

lemma unat_of_nat_byte [simp]: "unat (of_nat v :: byte) = v mod 256"
  by (simp add: unat_of_nat)

lemma unat_byte_less [simp]: "unat (b :: byte) < 256"
  using unsigned_less [of b, where ?'a = nat] by simp

lemma le_val_le_bytes: "le_val (le_bytes n v) = v mod 256 ^ n"
proof (induction n arbitrary: v)
  case (Suc n)
  have "le_val (le_bytes (Suc n) v) = v mod 256 + 256 * (v div 256 mod 256 ^ n)"
    by (simp add: Suc.IH)
  also have "\<dots> = v mod (256 * 256 ^ n)"
    by (simp add: mod_mult2_eq)
  finally show ?case by simp
qed simp

lemma le_val_le_bytes_id [simp]: "v < 256 ^ n \<Longrightarrow> le_val (le_bytes n v) = v"
  by (simp add: le_val_le_bytes)

lemma le_val_less: "le_val bs < 256 ^ length bs"
proof (induction bs)
  case (Cons b bs)
  have "unat b + 256 * le_val bs < 256 + 256 * le_val bs" by simp
  also have "\<dots> = 256 * (1 + le_val bs)" by simp
  also have "\<dots> \<le> 256 * 256 ^ length bs"
    by (rule mult_le_mono2) (use Cons in linarith)
  finally show ?case by simp
qed simp

lemma le_bytes_le_val [simp]: "le_bytes (length bs) (le_val bs) = bs"
proof (induction bs)
  case (Cons b bs)
  have "(unat b + 256 * le_val bs) div 256 = le_val bs" by simp
  moreover have "(of_nat (unat b + 256 * le_val bs) :: byte) = b"
  proof (rule word_unat_eq_iff [THEN iffD2])
    have "unat (of_nat (unat b + 256 * le_val bs) :: byte) = (unat b + 256 * le_val bs) mod 256"
      by (rule unat_of_nat_byte)
    then show "unat (of_nat (unat b + 256 * le_val bs) :: byte) = unat b" by simp
  qed
  ultimately show ?case using Cons by simp
qed simp

lemma be_val_be_bytes [simp]: "v < 256 ^ n \<Longrightarrow> be_val (be_bytes n v) = v"
  by (simp add: be_val_def be_bytes_def)


section \<open>Byte buffers\<close>

text \<open>
  \<open>sub bs pos n\<close> is the window \<^verbatim>\<open>bs[pos:pos+n]\<close>, \<open>patch\<close> overwrites a window.
  \<open>get_le\<close> and \<open>put_le\<close> are \<^verbatim>\<open>binary.LittleEndian.UintN(bs[pos:])\<close> and
  \<^verbatim>\<open>PutUintN(bs[pos:], v)\<close>, which panic when the window leaves the slice. \<open>copy_at\<close> is
  \<^verbatim>\<open>copy(bs[pos:], xs)\<close>: slicing panics beyond the end, the copy itself stops silently at
  the end of the destination. \<open>slice_at\<close> is \<^verbatim>\<open>bs[pos:][:n]\<close>.
\<close>

definition sub :: "'a list \<Rightarrow> nat \<Rightarrow> nat \<Rightarrow> 'a list" where
  "sub bs pos n = take n (drop pos bs)"

definition patch :: "'a list \<Rightarrow> nat \<Rightarrow> 'a list \<Rightarrow> 'a list" where
  "patch bs pos xs = take pos bs @ take (length bs - pos) xs @ drop (pos + length xs) bs"

definition get_le :: "nat \<Rightarrow> bytes \<Rightarrow> nat \<Rightarrow> nat option" where
  "get_le n bs pos = (if pos + n \<le> length bs then Some (le_val (sub bs pos n)) else None)"

definition put_le :: "nat \<Rightarrow> bytes \<Rightarrow> nat \<Rightarrow> nat \<Rightarrow> bytes option" where
  "put_le n bs pos v =
     (if pos + n \<le> length bs then Some (patch bs pos (le_bytes n v)) else None)"

definition copy_at :: "bytes \<Rightarrow> nat \<Rightarrow> bytes \<Rightarrow> bytes option" where
  "copy_at bs pos xs = (if pos \<le> length bs then Some (patch bs pos xs) else None)"

definition slice_at :: "bytes \<Rightarrow> nat \<Rightarrow> nat \<Rightarrow> bytes option" where
  "slice_at bs pos n = (if pos + n \<le> length bs then Some (sub bs pos n) else None)"

lemma length_patch [simp]: "pos \<le> length bs \<Longrightarrow> length (patch bs pos xs) = length bs"
  by (simp add: patch_def)

lemma length_sub: "length (sub bs pos n) = min n (length bs - pos)"
  by (simp add: sub_def)

lemma length_sub_fits [simp]: "pos + n \<le> length bs \<Longrightarrow> length (sub bs pos n) = n"
  by (simp add: sub_def)

lemma sub_0 [simp]: "sub bs pos 0 = []"
  by (simp add: sub_def)

lemma sub_sub: "a + n \<le> m \<Longrightarrow> sub (sub bs pos m) a n = sub bs (pos + a) n"
  by (simp add: sub_def take_drop drop_drop add.commute min_def)

lemma sub_append: "sub bs pos (m + n) = sub bs pos m @ sub bs (pos + m) n"
  by (simp add: sub_def take_add add.commute)

lemma nth_patch:
  assumes "pos + length xs \<le> length bs" "i < length bs"
  shows "patch bs pos xs ! i =
    (if pos \<le> i \<and> i < pos + length xs then xs ! (i - pos) else bs ! i)"
  using assms by (auto simp: patch_def nth_append min_def)

lemma sub_patch_same [buffer_layout]:
  assumes "pos + length xs \<le> length bs"
  shows "sub (patch bs pos xs) pos (length xs) = xs"
  using assms by (simp add: patch_def sub_def min_def)

lemma sub_patch_other [buffer_layout]:
  assumes "pos + length xs \<le> length bs" "q + n \<le> pos \<or> pos + length xs \<le> q"
  shows "sub (patch bs pos xs) q n = sub bs q n"
proof (rule nth_equalityI)
  show len: "length (sub (patch bs pos xs) q n) = length (sub bs q n)"
    using assms by (simp add: length_sub)
  fix i assume "i < length (sub (patch bs pos xs) q n)"
  then have i: "i < n" "q + i < length bs"
    using assms by (auto simp: length_sub)
  then show "sub (patch bs pos xs) q n ! i = sub bs q n ! i"
    using assms by (auto simp: sub_def nth_patch)
qed

lemma get_le_sub: "pos + n \<le> length bs \<Longrightarrow> get_le n bs pos = Some (le_val (sub bs pos n))"
  by (simp add: get_le_def)

lemma get_le_less: "get_le n bs pos = Some v \<Longrightarrow> v < 256 ^ n"
  using le_val_less [of "sub bs pos n"] by (auto simp: get_le_def length_sub split: if_splits)

lemma put_le_length: "put_le n bs pos v = Some bs' \<Longrightarrow> length bs' = length bs"
  by (auto simp: put_le_def split: if_splits)

section \<open>The order of byte strings\<close>

text \<open>\<^verbatim>\<open>bytes.Compare\<close>; the order on \<open>bytes\<close> used in statements is the library's lexicographic one.\<close>

fun bytesCompare :: "bytes \<Rightarrow> bytes \<Rightarrow> int" where
  "bytesCompare [] [] = 0"
| "bytesCompare [] (y # ys) = -1"
| "bytesCompare (x # xs) [] = 1"
| "bytesCompare (x # xs) (y # ys) = (if x < y then -1 else if y < x then 1 else bytesCompare xs ys)"

lemma bytesCompare_eq: "bytesCompare a b = (if a < b then -1 else if a = b then 0 else 1)"
  by (induction a b rule: bytesCompare.induct) auto

lemma bytesCompare_cases [simp]:
  "bytesCompare a b = 0 \<longleftrightarrow> a = b"
  "bytesCompare a b < 0 \<longleftrightarrow> a < b"
  "0 < bytesCompare a b \<longleftrightarrow> b < a"
  "bytesCompare a b \<le> 0 \<longleftrightarrow> a \<le> b"
  "0 \<le> bytesCompare a b \<longleftrightarrow> b \<le> a"
  by (auto simp: bytesCompare_eq)

lemma Nil_le_bytes [simp]: "[] \<le> (b :: bytes)"
  by simp

lemma not_less_Nil_bytes [simp]: "\<not> (b :: bytes) < []"
  by (simp add: not_less)

lemma append_less_append [simp]: "(p @ a < p @ b) = ((a :: bytes) < b)"
  by (induction p) auto

lemma append_le_append [simp]: "(p @ a \<le> p @ b) = ((a :: bytes) \<le> b)"
  by (induction p) auto

section \<open>Indexing\<close>

text \<open>\<^verbatim>\<open>xs[i]\<close> and \<^verbatim>\<open>xs[i] = x\<close>, which panic when the index is out of range.\<close>

definition list_at :: "'a list \<Rightarrow> nat \<Rightarrow> 'a option" where
  "list_at xs i = (if i < length xs then Some (xs ! i) else None)"

definition list_set :: "'a list \<Rightarrow> nat \<Rightarrow> 'a \<Rightarrow> 'a list option" where
  "list_set xs i x = (if i < length xs then Some (xs[i := x]) else None)"

lemma list_at_simps [simp]:
  "i < length xs \<Longrightarrow> list_at xs i = Some (xs ! i)" "list_at xs i = Some x \<longleftrightarrow> i < length xs \<and> xs ! i = x"
  "i < length xs \<Longrightarrow> list_set xs i x = Some (xs[i := x])"
  by (auto simp: list_at_def list_set_def)

end
