(* ===== verification/BNode.thy ===== *)
theory BNode
  imports Prelude
begin

text \<open>
  The B+tree node format of \<^verbatim>\<open>db/btree.go\<close>, byte for byte: header, child pointers, offsets
  and key/value area of a page held in a byte slice, with the getters, setters and the
  append operations that fill a node. Every accessor returns \<open>None\<close> where the Go code
  panics. The second half relates a buffer to the list of entries it stores (\<open>holds\<close>,
  \<open>node_rep\<close>) and shows that appending at the byte level appends to that list.
\<close>

section \<open>Format\<close>

definition HEADER_SIZE :: nat where [format_consts]: "HEADER_SIZE = 4"
definition BTREE_PAGE_SIZE :: nat where [format_consts]: "BTREE_PAGE_SIZE = 4096"
definition BTREE_MAX_KEY_SIZE :: nat where [format_consts]: "BTREE_MAX_KEY_SIZE = 1000"
definition BTREE_MAX_VAL_SIZE :: nat where [format_consts]: "BTREE_MAX_VAL_SIZE = 3000"
definition BNODE_NODE :: nat where [format_consts]: "BNODE_NODE = 1"
definition BNODE_LEAF :: nat where [format_consts]: "BNODE_LEAF = 2"

type_synonym BNode = bytes

text \<open>\<^verbatim>\<open>make([]byte, n)\<close>\<close>

definition make_buf :: "nat \<Rightarrow> BNode" where
  "make_buf n = replicate n 0"

definition node1max :: nat where
  "node1max = HEADER_SIZE + 8 * 1 + 2 * 1 + 4 + BTREE_MAX_KEY_SIZE + BTREE_MAX_VAL_SIZE"

subsection \<open>Header\<close>

definition btype :: "BNode \<Rightarrow> nat option" where
  "btype node = get_le 2 node 0"

definition nkeys :: "BNode \<Rightarrow> nat option" where
  "nkeys node = get_le 2 node 2"

definition setHeader :: "BNode \<Rightarrow> nat \<Rightarrow> nat \<Rightarrow> BNode option" where
  "setHeader node ty n = do {
     node \<leftarrow> put_le 2 node 0 ty;
     put_le 2 node 2 n
   }"

subsection \<open>Child pointers\<close>

definition getPtr :: "BNode \<Rightarrow> nat \<Rightarrow> nat option" where
  "getPtr node idx = do {
     n \<leftarrow> nkeys node;
     _ \<leftarrow> go_assert (idx < n);
     get_le 8 node (u16 (HEADER_SIZE + 8 * idx))
   }"

definition setPtr :: "BNode \<Rightarrow> nat \<Rightarrow> nat \<Rightarrow> BNode option" where
  "setPtr node idx val = do {
     n \<leftarrow> nkeys node;
     _ \<leftarrow> go_assert (idx < n);
     put_le 8 node (u16 (HEADER_SIZE + 8 * idx)) val
   }"

subsection \<open>Offsets\<close>

definition offsetPos :: "BNode \<Rightarrow> nat \<Rightarrow> nat option" where
  "offsetPos node idx = do {
     n \<leftarrow> nkeys node;
     _ \<leftarrow> go_assert (1 \<le> idx \<and> idx \<le> n);
     Some (u16 (HEADER_SIZE + 8 * n + 2 * (idx - 1)))
   }"

definition getOffset :: "BNode \<Rightarrow> nat \<Rightarrow> nat option" where
  "getOffset node idx =
     (if idx = 0 then Some 0
      else do {
        pos \<leftarrow> offsetPos node idx;
        get_le 2 node pos
      })"

definition setOffset :: "BNode \<Rightarrow> nat \<Rightarrow> nat \<Rightarrow> BNode option" where
  "setOffset node idx offset = do {
     pos \<leftarrow> offsetPos node idx;
     put_le 2 node pos offset
   }"

subsection \<open>Keys and values\<close>

definition kvPos :: "BNode \<Rightarrow> nat \<Rightarrow> nat option" where
  "kvPos node idx = do {
     n \<leftarrow> nkeys node;
     _ \<leftarrow> go_assert (idx \<le> n);
     off \<leftarrow> getOffset node idx;
     Some (u16 (HEADER_SIZE + 8 * n + 2 * n + off))
   }"

definition getKey :: "BNode \<Rightarrow> nat \<Rightarrow> bytes option" where
  "getKey node idx = do {
     n \<leftarrow> nkeys node;
     _ \<leftarrow> go_assert (idx < n);
     pos \<leftarrow> kvPos node idx;
     klen \<leftarrow> get_le 2 node pos;
     slice_at node (u16 (pos + 4)) klen
   }"

definition getVal :: "BNode \<Rightarrow> nat \<Rightarrow> bytes option" where
  "getVal node idx = do {
     n \<leftarrow> nkeys node;
     _ \<leftarrow> go_assert (idx < n);
     pos \<leftarrow> kvPos node idx;
     klen \<leftarrow> get_le 2 node pos;
     vlen \<leftarrow> get_le 2 node (u16 (pos + 2));
     slice_at node (u16 (pos + 4 + klen)) vlen
   }"

definition nodeAppendKV :: "BNode \<Rightarrow> nat \<Rightarrow> nat \<Rightarrow> bytes \<Rightarrow> bytes \<Rightarrow> BNode option" where
  "nodeAppendKV new idx ptr key val = do {
     new \<leftarrow> setPtr new idx ptr;
     pos \<leftarrow> kvPos new idx;
     new \<leftarrow> put_le 2 new pos (u16 (length key));
     new \<leftarrow> put_le 2 new (u16 (pos + 2)) (u16 (length val));
     new \<leftarrow> copy_at new (u16 (pos + 4)) key;
     new \<leftarrow> copy_at new (u16 (pos + 4 + u16 (length key))) val;
     off \<leftarrow> getOffset new idx;
     setOffset new (u16 (idx + 1)) (u16 (off + 4 + u16 (length key + length val)))
   }"

definition nbytes :: "BNode \<Rightarrow> nat option" where
  "nbytes node = do {
     n \<leftarrow> nkeys node;
     kvPos node n
   }"

text \<open>Copy \<open>n\<close> entries from \<open>old\<close> at \<open>srcOld\<close> to \<open>new\<close> at \<open>dstNew\<close>.\<close>

fun nodeAppendRange :: "BNode \<Rightarrow> BNode \<Rightarrow> nat \<Rightarrow> nat \<Rightarrow> nat \<Rightarrow> BNode option" where
  "nodeAppendRange new old dstNew srcOld 0 = Some new"
| "nodeAppendRange new old dstNew srcOld (Suc n) = do {
     ptr \<leftarrow> getPtr old srcOld;
     key \<leftarrow> getKey old srcOld;
     val \<leftarrow> getVal old srcOld;
     new \<leftarrow> nodeAppendKV new dstNew ptr key val;
     nodeAppendRange new old (u16 (dstNew + 1)) (u16 (srcOld + 1)) n
   }"

section \<open>The entries a buffer stores\<close>

type_synonym entry = "nat \<times> bytes \<times> bytes"

abbreviation ent_ptr :: "entry \<Rightarrow> nat" where "ent_ptr e \<equiv> fst e"
abbreviation ent_key :: "entry \<Rightarrow> bytes" where "ent_key e \<equiv> fst (snd e)"
abbreviation ent_val :: "entry \<Rightarrow> bytes" where "ent_val e \<equiv> snd (snd e)"

definition kv_bytes :: "entry \<Rightarrow> bytes" where
  "kv_bytes e = le_bytes 2 (length (ent_key e)) @ le_bytes 2 (length (ent_val e))
     @ ent_key e @ ent_val e"

definition koff :: "entry list \<Rightarrow> nat" where
  "koff es = length (concat (map kv_bytes es))"

text \<open>The size in bytes of a node with these entries.\<close>

definition nsize :: "entry list \<Rightarrow> nat" where
  "nsize es = 4 + 10 * length es + koff es"

text \<open>\<open>holds bs ty n es\<close>: the header announces \<open>n\<close> keys and the first entries are \<open>es\<close>.\<close>

definition holds :: "BNode \<Rightarrow> nat \<Rightarrow> nat \<Rightarrow> entry list \<Rightarrow> bool" where
  "holds bs ty n es \<longleftrightarrow>
     length bs < 65536 \<and> 4 + 10 * n + koff es \<le> length bs \<and> length es \<le> n \<and> ty < 65536
   \<and> sub bs 0 2 = le_bytes 2 ty \<and> sub bs 2 2 = le_bytes 2 n
   \<and> (\<forall>i < length es. ent_ptr (es ! i) < 2 ^ 64
        \<and> sub bs (4 + 8 * i) 8 = le_bytes 8 (ent_ptr (es ! i))
        \<and> sub bs (4 + 8 * n + 2 * i) 2 = le_bytes 2 (koff (take (Suc i) es)))
   \<and> sub bs (4 + 10 * n) (koff es) = concat (map kv_bytes es)"

text \<open>A complete node: as many entries as the header announces.\<close>

definition node_rep :: "BNode \<Rightarrow> nat \<Rightarrow> entry list \<Rightarrow> bool" where
  "node_rep bs ty es \<longleftrightarrow> holds bs ty (length es) es"


subsection \<open>Sizes\<close>

lemma length_kv_bytes [simp]: "length (kv_bytes e) = 4 + length (ent_key e) + length (ent_val e)"
  by (simp add: kv_bytes_def)

lemma koff_simps [simp]:
  "koff [] = 0"
  "koff (e # es) = 4 + length (ent_key e) + length (ent_val e) + koff es"
  "koff (es @ fs) = koff es + koff fs"
  by (simp_all add: koff_def)

lemma koff_take_le: "koff (take i es) \<le> koff es"
  by (metis append_take_drop_id koff_simps(3) le_add1)

lemma nsize_Nil [simp]: "nsize [] = 4"
  by (simp add: nsize_def)

lemma nsize_append: "nsize (es @ fs) + 4 = nsize es + nsize fs"
  by (simp add: nsize_def)

lemma nsize_Cons: "nsize (e # es) = nsize es + 14 + length (ent_key e) + length (ent_val e)"
  by (simp add: nsize_def)

lemma nsize_ge_4 [simp]: "4 \<le> nsize es"
  by (simp add: nsize_def)

lemma koff_split_at:
  "i < length es \<Longrightarrow> koff es = koff (take i es) + length (kv_bytes (es ! i)) + koff (drop (Suc i) es)"
  by (subst id_take_nth_drop [of i es]) (simp_all del: length_kv_bytes add: koff_def)

lemma kv_area_at:
  assumes "i < length es"
  shows "sub (concat (map kv_bytes es)) (koff (take i es)) (length (kv_bytes (es ! i))) = kv_bytes (es ! i)"
proof -
  have "concat (map kv_bytes es)
      = concat (map kv_bytes (take i es)) @ kv_bytes (es ! i) @ concat (map kv_bytes (drop (Suc i) es))"
    by (subst (1) id_take_nth_drop [OF assms]) simp
  then show ?thesis by (simp add: sub_def koff_def)
qed

subsection \<open>Reading a buffer\<close>

lemma holds_nkeys: "holds bs ty n es \<Longrightarrow> nkeys bs = Some n"
  by (simp add: holds_def nkeys_def get_le_def)

lemma holds_btype: "holds bs ty n es \<Longrightarrow> btype bs = Some ty"
  by (simp add: holds_def btype_def get_le_def)

lemma holds_n_less: "holds bs ty n es \<Longrightarrow> n < 6554"
  by (auto simp: holds_def)

lemma holds_getPtr: "holds bs ty n es \<Longrightarrow> i < length es \<Longrightarrow> getPtr bs i = Some (ent_ptr (es ! i))"
  using holds_nkeys [of bs ty n es]
  by (auto simp: getPtr_def holds_def get_le_def HEADER_SIZE_def)

lemma holds_getOffset:
  assumes "holds bs ty n es" "i \<le> length es"
  shows "getOffset bs i = Some (koff (take i es))"
proof (cases i)
  case (Suc j)
  then have "sub bs (4 + 8 * n + 2 * j) 2 = le_bytes 2 (koff (take i es))"
    and "4 + 8 * n + 2 * j + 2 \<le> length bs" and "koff (take i es) < 65536"
    using assms koff_take_le [of i es] by (auto simp: holds_def)
  then show ?thesis
    using Suc assms holds_nkeys [OF assms(1)]
    by (auto simp: getOffset_def offsetPos_def get_le_def HEADER_SIZE_def holds_def)
qed (simp add: getOffset_def)

lemma holds_kvPos:
  assumes "holds bs ty n es" "i \<le> length es"
  shows "kvPos bs i = Some (4 + 10 * n + koff (take i es))"
  using assms holds_getOffset [OF assms] holds_nkeys [OF assms(1)] koff_take_le [of i es]
  by (auto simp: kvPos_def holds_def HEADER_SIZE_def)

lemma holds_kv_bytes:
  assumes "holds bs ty n es" "i < length es"
  shows "sub bs (4 + 10 * n + koff (take i es)) (length (kv_bytes (es ! i))) = kv_bytes (es ! i)"
proof -
  have "koff (take i es) + length (kv_bytes (es ! i)) \<le> koff es"
    using koff_split_at [OF assms(2)] by linarith
  then show ?thesis
    using assms kv_area_at [OF assms(2)] sub_sub [of _ _ "koff es" bs "4 + 10 * n"]
    by (simp add: holds_def)
qed

text \<open>The fields of one key/value record inside a window that holds its bytes.\<close>

lemma kv_bytes_fields:
  assumes "sub bs p (length (kv_bytes e)) = kv_bytes e" "p + length (kv_bytes e) \<le> length bs"
  shows "sub bs p 2 = le_bytes 2 (length (ent_key e))"
    and "sub bs (p + 2) 2 = le_bytes 2 (length (ent_val e))"
    and "sub bs (p + 4) (length (ent_key e)) = ent_key e"
    and "sub bs (p + 4 + length (ent_key e)) (length (ent_val e)) = ent_val e"
proof -
  have w: "sub (kv_bytes e) a m = sub bs (p + a) m" if "a + m \<le> length (kv_bytes e)" for a m
    using assms(1) sub_sub [OF that, of bs p] by simp
  show "sub bs p 2 = le_bytes 2 (length (ent_key e))"
    using w [of 0 2] by (simp add: sub_def kv_bytes_def)
  show "sub bs (p + 2) 2 = le_bytes 2 (length (ent_val e))"
    using w [of 2 2] by (simp add: sub_def kv_bytes_def)
  show "sub bs (p + 4) (length (ent_key e)) = ent_key e"
    using w [of 4 "length (ent_key e)"] by (simp add: sub_def kv_bytes_def)
  show "sub bs (p + 4 + length (ent_key e)) (length (ent_val e)) = ent_val e"
    using w [of "4 + length (ent_key e)" "length (ent_val e)"]
    by (simp add: sub_def kv_bytes_def add.assoc)
qed

lemma holds_window:
  assumes "holds bs ty n es" "i < length es"
  shows "4 + 10 * n + koff (take i es) + length (kv_bytes (es ! i)) \<le> length bs"
  using assms koff_split_at [OF assms(2)] by (auto simp: holds_def)

lemma holds_getKey:
  assumes "holds bs ty n es" "i < length es"
  shows "getKey bs i = Some (ent_key (es ! i))"
proof -
  note win = holds_window [OF assms] and f = kv_bytes_fields [OF holds_kv_bytes [OF assms] holds_window [OF assms]]
  have "length bs < 65536" "i < n" using assms by (auto simp: holds_def)
  with win f show ?thesis
    using holds_kvPos [OF assms(1), of i] assms(2) holds_nkeys [OF assms(1)]
    by (simp add: getKey_def get_le_def slice_at_def)
qed

lemma holds_getVal:
  assumes "holds bs ty n es" "i < length es"
  shows "getVal bs i = Some (ent_val (es ! i))"
proof -
  note win = holds_window [OF assms] and f = kv_bytes_fields [OF holds_kv_bytes [OF assms] holds_window [OF assms]]
  have "length bs < 65536" "i < n" using assms by (auto simp: holds_def)
  with win f show ?thesis
    using holds_kvPos [OF assms(1), of i] assms(2) holds_nkeys [OF assms(1)]
    by (simp add: getVal_def get_le_def slice_at_def)
qed


subsection \<open>Filling a buffer\<close>

lemma holds_setHeader:
  assumes "length bs < 65536" "4 + 10 * n \<le> length bs" "ty < 65536"
  obtains bs' where "setHeader bs ty n = Some bs'" "length bs' = length bs" "holds bs' ty n []"
proof -
  let ?b = "patch (patch bs 0 (le_bytes 2 ty)) 2 (le_bytes 2 n)"
  have "setHeader bs ty n = Some ?b"
    using assms by (simp add: setHeader_def put_le_def)
  moreover have "holds ?b ty n []"
    using assms sub_patch_same [of 0 "le_bytes 2 ty" bs]
      sub_patch_same [of 2 "le_bytes 2 n" "patch bs 0 (le_bytes 2 ty)"]
      sub_patch_other [of 2 "le_bytes 2 n" "patch bs 0 (le_bytes 2 ty)" 0 2]
    by (simp add: holds_def)
  ultimately show ?thesis using assms that by simp
qed

lemma patch_patch_next:
  assumes "p + length xs + length ys \<le> length bs"
  shows "patch (patch bs p xs) (p + length xs) ys = patch bs p (xs @ ys)"
proof -
  have "length xs \<le> length bs - p" "length ys \<le> length bs - (p + length xs)" "p \<le> length bs"
    using assms by linarith+
  then show ?thesis by (simp add: patch_def drop_drop add.commute add.left_commute)
qed

text \<open>What the four key/value writes of \<^const>\<open>nodeAppendKV\<close> amount to: one patch.\<close>

lemma kv_writes:
  assumes "p + 4 + length k + length v \<le> length bs" "length bs < 65536"
  shows "do {
      b \<leftarrow> put_le 2 bs p (u16 (length k));
      b \<leftarrow> put_le 2 b (u16 (p + 2)) (u16 (length v));
      b \<leftarrow> copy_at b (u16 (p + 4)) k;
      copy_at b (u16 (p + 4 + u16 (length k))) v
    } = Some (patch bs p (kv_bytes (ptr, k, v)))"
proof -
  let ?b1 = "patch bs p (le_bytes 2 (length k))"
  let ?b2 = "patch bs p (le_bytes 2 (length k) @ le_bytes 2 (length v))"
  let ?b3 = "patch bs p (le_bytes 2 (length k) @ le_bytes 2 (length v) @ k)"
  have "patch ?b1 (p + 2) (le_bytes 2 (length v)) = ?b2"
    using patch_patch_next [of p "le_bytes 2 (length k)" "le_bytes 2 (length v)" bs] assms by simp
  moreover have "patch ?b2 (p + 4) k = ?b3"
    using patch_patch_next [of p "le_bytes 2 (length k) @ le_bytes 2 (length v)" k bs] assms by simp
  moreover have "patch ?b3 (p + 4 + length k) v = patch bs p (kv_bytes (ptr, k, v))"
  proof -
    have "p + 4 + length k = p + length (le_bytes 2 (length k) @ le_bytes 2 (length v) @ k)" by simp
    then show ?thesis
      using patch_patch_next [of p "le_bytes 2 (length k) @ le_bytes 2 (length v) @ k" v bs] assms
      by (simp only: kv_bytes_def fst_conv snd_conv append_assoc)
  qed
  ultimately show ?thesis
    using assms by (simp add: put_le_def copy_at_def)
qed

lemma nodeAppendKV_alt:
  "nodeAppendKV new idx ptr key val = do {
     new \<leftarrow> setPtr new idx ptr;
     pos \<leftarrow> kvPos new idx;
     new \<leftarrow> do {
       b \<leftarrow> put_le 2 new pos (u16 (length key));
       b \<leftarrow> put_le 2 b (u16 (pos + 2)) (u16 (length val));
       b \<leftarrow> copy_at b (u16 (pos + 4)) key;
       copy_at b (u16 (pos + 4 + u16 (length key))) val
     };
     off \<leftarrow> getOffset new idx;
     setOffset new (u16 (idx + 1)) (u16 (off + 4 + u16 (length key + length val)))
   }"
  by (simp add: nodeAppendKV_def)

lemma nodeAppendKV_holds:
  assumes h: "holds bs ty n es" and i: "length es < n" and ptr: "ptr < 2 ^ 64"
    and fits: "4 + 10 * n + koff es + 4 + length k + length v \<le> length bs"
  obtains bs' where "nodeAppendKV bs (length es) ptr k v = Some bs'"
    "length bs' = length bs" "holds bs' ty n (es @ [(ptr, k, v)])"
proof -
  let ?i = "length es" and ?e = "(ptr, k, v)"
  let ?p = "4 + 10 * n + koff es" and ?o = "4 + 8 * n + 2 * length es"
  let ?b1 = "patch bs (4 + 8 * ?i) (le_bytes 8 ptr)"
  let ?b2 = "patch ?b1 ?p (kv_bytes ?e)"
  let ?b3 = "patch ?b2 ?o (le_bytes 2 (koff (es @ [?e])))"
  have len: "length bs < 65536" using h by (simp add: holds_def)
  have small: "4 + 8 * ?i + 8 \<le> 4 + 8 * n" "4 + 10 * n \<le> length bs" using i fits by linarith+
  have len1: "?p + 4 + length k + length v \<le> length ?b1" "length ?b1 < 65536"
    using fits len small by simp_all
  have h1: "holds ?b1 ty n es"
    using h i by (auto simp: holds_def sub_patch_other)
  have h2: "holds ?b2 ty n es"
    using h1 i fits by (auto simp: holds_def sub_patch_other)
  have "setPtr bs ?i ptr = Some ?b1"
    using i len small holds_nkeys [OF h] by (simp add: setPtr_def put_le_def HEADER_SIZE_def)
  moreover have "kvPos ?b1 ?i = Some ?p"
    using holds_kvPos [OF h1, of ?i] by simp
  moreover note kv_writes [of ?p k v ?b1 ptr, OF len1]
  moreover have "getOffset ?b2 ?i = Some (koff es)"
    using holds_getOffset [OF h2, of ?i] by simp
  moreover have "setOffset ?b2 (u16 (?i + 1)) (u16 (koff es + 4 + u16 (length k + length v))) = Some ?b3"
    using h2 i fits len holds_nkeys [OF h2]
    by (simp add: setOffset_def offsetPos_def put_le_def HEADER_SIZE_def add.assoc)
  ultimately have "nodeAppendKV bs ?i ptr k v = Some ?b3"
    using len fits small by (simp only: nodeAppendKV_alt bind.bind_lunit length_patch)
  moreover have "holds ?b3 ty n (es @ [?e])"
  proof -
    have k: "sub ?b3 (4 + 10 * n) (koff (es @ [?e])) = concat (map kv_bytes (es @ [?e]))"
      using h2 i fits sub_patch_same [of ?p "kv_bytes ?e" ?b1]
      by (simp add: holds_def sub_patch_other sub_append add.assoc)
    have o: "sub ?b3 ?o 2 = le_bytes 2 (koff (es @ [?e]))"
      using i fits sub_patch_same [of ?o "le_bytes 2 (koff (es @ [?e]))" ?b2] by simp
    have q: "sub ?b3 (4 + 8 * ?i) 8 = le_bytes 8 ptr"
      using i fits sub_patch_same [of "4 + 8 * ?i" "le_bytes 8 ptr" bs] by (simp add: sub_patch_other)
    have "\<forall>j < ?i. sub ?b3 (4 + 8 * j) 8 = sub ?b2 (4 + 8 * j) 8
        \<and> sub ?b3 (4 + 8 * n + 2 * j) 2 = sub ?b2 (4 + 8 * n + 2 * j) 2"
      using i fits by (simp add: sub_patch_other)
    moreover have "sub ?b3 0 2 = sub ?b2 0 2" "sub ?b3 2 2 = sub ?b2 2 2"
      using i fits by (simp_all add: sub_patch_other)
    ultimately show ?thesis
      using h2 k o q i ptr fits len by (auto simp: holds_def less_Suc_eq nth_append)
  qed
  ultimately show ?thesis using that len fits i by simp
qed


lemma sub_Suc: "src < length fs \<Longrightarrow> sub fs src (Suc k) = fs ! src # sub fs (Suc src) k"
  by (simp add: sub_def Cons_nth_drop_Suc [symmetric])

lemma nodeAppendRange_holds:
  assumes "holds new ty n es" "holds old ty' m fs" "src + k \<le> length fs" "length es + k \<le> n"
    and "4 + 10 * n + koff es + koff (sub fs src k) \<le> length new"
  obtains new' where "nodeAppendRange new old (length es) src k = Some new'"
    "length new' = length new" "holds new' ty n (es @ sub fs src k)"
  using assms
proof (induction k arbitrary: new es src thesis)
  case 0
  then show ?case by simp
next
  case (Suc k)
  let ?e = "fs ! src"
  have src: "src < length fs" "src < 6554" "length es < 6554"
    using Suc.prems holds_n_less [of old ty' m fs] holds_n_less [of new ty n es]
    by (auto simp: holds_def)
  have step: "sub fs src (Suc k) = ?e # sub fs (Suc src) k"
    using src(1) by (rule sub_Suc)
  have ptr: "ent_ptr ?e < 2 ^ 64" using Suc.prems(3) src by (simp add: holds_def)
  obtain new1 where new1: "nodeAppendKV new (length es) (ent_ptr ?e) (ent_key ?e) (ent_val ?e) = Some new1"
      "length new1 = length new" "holds new1 ty n (es @ [?e])"
    using nodeAppendKV_holds [OF Suc.prems(2) _ ptr, of "ent_key ?e" "ent_val ?e"] Suc.prems step
    by auto
  obtain new' where new': "nodeAppendRange new1 old (length (es @ [?e])) (Suc src) k = Some new'"
      "length new' = length new1" "holds new' ty n ((es @ [?e]) @ sub fs (Suc src) k)"
    by (rule Suc.IH [OF _ new1(3) Suc.prems(3), of "Suc src"]) (use Suc.prems new1(2) step in auto)
  have "nodeAppendRange new old (length es) src (Suc k) = Some new'"
    using new1 new' src holds_getPtr [OF Suc.prems(3)] holds_getKey [OF Suc.prems(3)]
      holds_getVal [OF Suc.prems(3)]
    by simp
  then show ?case using Suc.prems(1) new1 new' step by simp
qed

subsection \<open>Complete nodes\<close>

lemma node_rep_readers:
  assumes "node_rep bs ty es"
  shows "nkeys bs = Some (length es)" and "btype bs = Some ty"
    and "i < length es \<Longrightarrow> getPtr bs i = Some (ent_ptr (es ! i))"
    and "i < length es \<Longrightarrow> getKey bs i = Some (ent_key (es ! i))"
    and "i < length es \<Longrightarrow> getVal bs i = Some (ent_val (es ! i))"
    and "i \<le> length es \<Longrightarrow> getOffset bs i = Some (koff (take i es))"
    and "nbytes bs = Some (nsize es)"
  using assms holds_nkeys holds_btype holds_getPtr holds_getKey holds_getVal holds_getOffset
    holds_kvPos [of bs ty "length es" es "length es"]
  by (auto simp: node_rep_def nbytes_def nsize_def)

lemma node_rep_bounds:
  assumes "node_rep bs ty es"
  shows "nsize es \<le> length bs" "length bs < 65536" "length es < 6554" "ty < 65536"
    and "\<And>e. e \<in> set es \<Longrightarrow> ent_ptr e < 2 ^ 64"
  using assms holds_n_less [of bs ty "length es" es]
  by (auto simp: node_rep_def holds_def nsize_def in_set_conv_nth)

text \<open>Only the first \<^const>\<open>nsize\<close> bytes matter: a longer buffer cut to a page keeps its entries.\<close>

lemma sub_take: "pos + n \<le> m \<Longrightarrow> sub (take m bs) pos n = sub bs pos n"
  by (simp add: sub_def take_drop min_def)

lemma node_rep_take:
  assumes "node_rep bs ty es" "nsize es \<le> m" "m \<le> length bs"
  shows "node_rep (take m bs) ty es"
  using assms by (auto simp: node_rep_def holds_def nsize_def sub_take)

end
