(* ===== verification/FreeList.thy ===== *)
theory FreeList
  imports BNode
begin

text \<open>
  The free list of \<^verbatim>\<open>db/free_list.go\<close>: a queue of unused pages, kept in a linked list of pages
  of its own. Items carry the version in which the page was freed; the head may only advance
  over items no reader can still need. The list recycles its own pages: an emptied head page
  goes back into the queue, and a full tail page takes its successor from the head.
\<close>

section \<open>List nodes\<close>

type_synonym LNode = bytes

definition FREE_LIST_HEADER :: nat where [format_consts]: "FREE_LIST_HEADER = 8"
definition FREE_LIST_CAP :: nat where "FREE_LIST_CAP = (BTREE_PAGE_SIZE - FREE_LIST_HEADER) div 16"

definition getNext :: "LNode \<Rightarrow> nat option" where
  "getNext node = get_le 8 node 0"

definition setNext :: "LNode \<Rightarrow> nat \<Rightarrow> LNode option" where
  "setNext node next_ptr = put_le 8 node 0 next_ptr"

definition getItem :: "LNode \<Rightarrow> nat \<Rightarrow> (nat \<times> nat) option" where
  "getItem node idx = do {
     let offset = FREE_LIST_HEADER + idx * 16;
     p \<leftarrow> get_le 8 node offset;
     v \<leftarrow> get_le 8 node (offset + 8);
     Some (p, v)
   }"

definition setItem :: "LNode \<Rightarrow> nat \<Rightarrow> nat \<Rightarrow> nat \<Rightarrow> LNode option" where
  "setItem node idx ptr version = do {
     _ \<leftarrow> go_assert (idx < FREE_LIST_CAP);
     let offset = FREE_LIST_HEADER + idx * 16;
     node \<leftarrow> put_le 8 node offset ptr;
     put_le 8 node (offset + 8) version
   }"

section \<open>The list\<close>

record FreeList =
  headPage :: nat
  headSeq :: nat
  tailPage :: nat
  tailSeq :: nat
  maxSeq :: nat
  maxVer :: nat
  curVer :: nat

text \<open>
  The callbacks. \<^verbatim>\<open>set\<close> returns a writable buffer that the caller changes in place; here it
  takes the change as a function.
\<close>

record 's fl_callbacks =
  fl_get :: "'s \<Rightarrow> nat \<Rightarrow> LNode option"
  fl_new :: "'s \<Rightarrow> LNode \<Rightarrow> (nat \<times> 's) option"
  fl_set :: "'s \<Rightarrow> nat \<Rightarrow> (LNode \<Rightarrow> LNode option) \<Rightarrow> 's option"

definition versionBefore :: "nat \<Rightarrow> nat \<Rightarrow> bool" where
  "versionBefore a b = (a < b)"

definition seq2idx :: "nat \<Rightarrow> nat" where
  "seq2idx sq = sq mod FREE_LIST_CAP"

definition fl_check :: "FreeList \<Rightarrow> unit option" where
  "fl_check fl = do {
     _ \<leftarrow> go_assert (headPage fl \<noteq> 0 \<and> tailPage fl \<noteq> 0);
     go_assert (headSeq fl \<noteq> tailSeq fl \<or> headPage fl = tailPage fl)
   }"

definition flPop :: "'s fl_callbacks \<Rightarrow> FreeList \<Rightarrow> 's \<Rightarrow> (nat \<times> nat \<times> FreeList) option" where
  "flPop cb fl s = do {
     _ \<leftarrow> fl_check fl;
     (if headSeq fl = maxSeq fl then Some (0, 0, fl)
      else do {
        node \<leftarrow> fl_get cb s (headPage fl);
        (ptr, version) \<leftarrow> getItem node (seq2idx (headSeq fl));
        (if versionBefore (maxVer fl) version then Some (0, 0, fl)
         else do {
           let fl = fl\<lparr>headSeq := u64 (headSeq fl + 1)\<rparr>;
           (if seq2idx (headSeq fl) = 0 then do {
              nxt \<leftarrow> getNext node;
              _ \<leftarrow> go_assert (nxt \<noteq> 0);
              Some (ptr, headPage fl, fl\<lparr>headPage := nxt\<rparr>)
            }
            else Some (ptr, 0, fl))
         })
      })
   }"

definition PushTail :: "'s fl_callbacks \<Rightarrow> FreeList \<Rightarrow> 's \<Rightarrow> nat \<Rightarrow> (FreeList \<times> 's) option" where
  "PushTail cb fl s ptr = do {
     _ \<leftarrow> fl_check fl;
     s \<leftarrow> fl_set cb s (tailPage fl) (\<lambda>b. setItem b (seq2idx (tailSeq fl)) ptr (curVer fl));
     let fl = fl\<lparr>tailSeq := u64 (tailSeq fl + 1)\<rparr>;
     (if seq2idx (tailSeq fl) = 0 then do {
        (nxt, head, fl) \<leftarrow> flPop cb fl s;
        (nxt, s) \<leftarrow> (if nxt = 0 then fl_new cb s (make_buf BTREE_PAGE_SIZE) else Some (nxt, s));
        s \<leftarrow> fl_set cb s (tailPage fl) (\<lambda>b. setNext b nxt);
        let fl = fl\<lparr>tailPage := nxt\<rparr>;
        (if head \<noteq> 0 then do {
           s \<leftarrow> fl_set cb s (tailPage fl) (\<lambda>b. setItem b 0 head (curVer fl));
           Some (fl\<lparr>tailSeq := u64 (tailSeq fl + 1)\<rparr>, s)
         }
         else Some (fl, s))
      }
      else Some (fl, s))
   }"

definition PopHead :: "'s fl_callbacks \<Rightarrow> FreeList \<Rightarrow> 's \<Rightarrow> (nat \<times> FreeList \<times> 's) option" where
  "PopHead cb fl s = do {
     (ptr, head, fl) \<leftarrow> flPop cb fl s;
     (if head \<noteq> 0 then do {
        (fl, s) \<leftarrow> PushTail cb fl s head;
        Some (ptr, fl, s)
      }
      else Some (ptr, fl, s))
   }"

definition SetMaxVer :: "FreeList \<Rightarrow> nat \<Rightarrow> FreeList" where
  "SetMaxVer fl ver = fl\<lparr>maxSeq := tailSeq fl, maxVer := ver\<rparr>"

section \<open>Nodes as arrays of items\<close>

lemma CAP_eq [simp]: "FREE_LIST_CAP = 255"
  by (simp add: FREE_LIST_CAP_def BTREE_PAGE_SIZE_def FREE_LIST_HEADER_def)

lemma get_put_le:
  assumes "pos + n \<le> length b" "v < 256 ^ n"
  shows "\<exists>b'. put_le n b pos v = Some b' \<and> length b' = length b \<and> get_le n b' pos = Some v
    \<and> (\<forall>q m. (q + m \<le> pos \<or> pos + n \<le> q) \<longrightarrow> get_le m b' q = get_le m b q)"
  using assms sub_patch_same [of pos "le_bytes n v" b] sub_patch_other [of pos "le_bytes n v" b]
  by (auto simp: put_le_def get_le_def)

lemma getItem_def': "getItem node i = (case (get_le 8 node (8 + i * 16), get_le 8 node (16 + i * 16)) of
    (Some p, Some v) \<Rightarrow> Some (p, v) | _ \<Rightarrow> None)"
  by (simp add: getItem_def FREE_LIST_HEADER_def Let_def split: option.splits)

lemma setItem_ok:
  assumes "length b = BTREE_PAGE_SIZE" "i < 255" "p < 2 ^ 64" "v < 2 ^ 64"
  obtains b' where "setItem b i p v = Some b'" "length b' = BTREE_PAGE_SIZE" "getItem b' i = Some (p, v)"
    "\<And>j. j \<noteq> i \<Longrightarrow> getItem b' j = getItem b j" "getNext b' = getNext b"
proof -
  have fit: "8 + i * 16 + 8 \<le> length b" "16 + i * 16 + 8 \<le> length b" "p < 256 ^ 8" "v < 256 ^ 8"
    using assms by (simp_all add: BTREE_PAGE_SIZE_def)
  obtain b1 where 1: "put_le 8 b (8 + i * 16) p = Some b1" "length b1 = length b" "get_le 8 b1 (8 + i * 16) = Some p"
      "\<And>q m. q + m \<le> 8 + i * 16 \<or> 8 + i * 16 + 8 \<le> q \<Longrightarrow> get_le m b1 q = get_le m b q"
    using get_put_le [OF fit(1,3)] by blast
  have "16 + i * 16 + 8 \<le> length b1" using fit(2) 1(2) by simp
  then obtain b2 where 2: "put_le 8 b1 (16 + i * 16) v = Some b2" "length b2 = length b1" "get_le 8 b2 (16 + i * 16) = Some v"
      "\<And>q m. q + m \<le> 16 + i * 16 \<or> 16 + i * 16 + 8 \<le> q \<Longrightarrow> get_le m b2 q = get_le m b1 q"
    using get_put_le [OF _ fit(4)] by blast
  have other: "get_le 8 b2 q = get_le 8 b q" if "q + 8 \<le> 8 + i * 16 \<or> 24 + i * 16 \<le> q" for q
    using that 1(4) [of q 8] 2(4) [of q 8] by auto
  show ?thesis
  proof (rule that [of b2])
    show "setItem b i p v = Some b2"
      using 1(1) 2(1) assms(2) by (simp add: setItem_def FREE_LIST_HEADER_def Let_def)
    show "length b2 = BTREE_PAGE_SIZE" using 1(2) 2(2) assms(1) by simp
    show "getItem b2 i = Some (p, v)" using 1(3) 2(3) 2(4) [of "8 + i * 16" 8] by (simp add: getItem_def')
    show "getNext b2 = getNext b" using other [of 0] by (simp add: getNext_def)
    fix j assume "j \<noteq> i"
    then consider "j < i" | "i < j" by linarith
    then have "get_le 8 b2 (8 + j * 16) = get_le 8 b (8 + j * 16) \<and> get_le 8 b2 (16 + j * 16) = get_le 8 b (16 + j * 16)"
      by cases (intro conjI; rule other; simp)+
    then show "getItem b2 j = getItem b j" by (simp add: getItem_def')
  qed
qed

lemma setNext_ok:
  assumes "length b = BTREE_PAGE_SIZE" "p < 2 ^ 64"
  obtains b' where "setNext b p = Some b'" "length b' = BTREE_PAGE_SIZE" "getNext b' = Some p"
    "\<And>j. getItem b' j = getItem b j"
proof -
  have "0 + 8 \<le> length b" "p < 256 ^ 8" using assms by (simp_all add: BTREE_PAGE_SIZE_def)
  from get_put_le [OF this] obtain b' where "put_le 8 b 0 p = Some b'" "length b' = length b" "get_le 8 b' 0 = Some p"
      "\<And>q m. q + m \<le> 0 \<or> 0 + 8 \<le> q \<Longrightarrow> get_le m b' q = get_le m b q"
    by blast
  then show ?thesis using assms(1) by (intro that [of b']) (simp_all add: setNext_def getNext_def getItem_def')
qed

section \<open>The queue a list stands for\<close>

text \<open>
  \<open>chain v ps\<close>: the pages \<open>ps\<close> are linked in this order. \<open>slots v ps h q\<close>: the items \<open>q\<close> are
  stored in them one after the other, from position \<open>h\<close> of the first page on.
\<close>

type_synonym item = "nat \<times> nat"

definition has_page :: "(nat \<Rightarrow> bytes option) \<Rightarrow> nat \<Rightarrow> bool" where
  "has_page v p \<longleftrightarrow> (\<exists>b. v p = Some b \<and> length b = BTREE_PAGE_SIZE)"

definition links :: "(nat \<Rightarrow> bytes option) \<Rightarrow> nat list \<Rightarrow> bool" where
  "links v ps \<longleftrightarrow> (\<forall>i. Suc i < length ps \<longrightarrow> (\<exists>b. v (ps ! i) = Some b \<and> getNext b = Some (ps ! Suc i)))"

definition slots :: "(nat \<Rightarrow> bytes option) \<Rightarrow> nat list \<Rightarrow> nat \<Rightarrow> item list \<Rightarrow> bool" where
  "slots v ps h q \<longleftrightarrow> (\<forall>j < length q. \<exists>b. v (ps ! ((h + j) div 255)) = Some b \<and> getItem b ((h + j) mod 255) = Some (q ! j))"

definition free_pages :: "nat list \<Rightarrow> item list \<Rightarrow> nat list" where
  "free_pages ps q = ps @ map fst q"

text \<open>
  With \<open>e = 1\<close> the list is complete; with \<open>e = 0\<close> its tail page is full and the next page is
  not linked yet, a state inside \<^const>\<open>PushTail\<close>. A page in \<open>bl\<close> is still blank: it exists
  but has not been written, which only happens to the first page of an empty list. A page in
  \<open>dt\<close> has pending changes; no page that may be handed out now has any.
\<close>

definition clean :: "nat set \<Rightarrow> FreeList \<Rightarrow> item list \<Rightarrow> bool" where
  "clean dt fl q \<longleftrightarrow> (\<forall>x \<in> set (take (maxSeq fl - headSeq fl) q). fst x \<notin> dt)"

definition fl_rep :: "nat \<Rightarrow> (nat \<Rightarrow> bytes option) \<Rightarrow> nat set \<Rightarrow> nat set \<Rightarrow> FreeList \<Rightarrow> nat list \<Rightarrow> item list \<Rightarrow> bool" where
  "fl_rep e v bl dt fl ps q \<longleftrightarrow>
     ps \<noteq> [] \<and> headPage fl = hd ps \<and> tailPage fl = last ps \<and> tailSeq fl = headSeq fl + length q
   \<and> headSeq fl \<le> maxSeq fl \<and> maxSeq fl \<le> tailSeq fl \<and> curVer fl < 2 ^ 64
   \<and> length ps = (headSeq fl mod 255 + length q) div 255 + e
   \<and> (e = 0 \<longrightarrow> (headSeq fl mod 255 + length q) mod 255 = 0 \<and> maxSeq fl < tailSeq fl)
   \<and> distinct (free_pages ps q) \<and> (\<forall>p \<in> set (free_pages ps q). p \<noteq> 0 \<and> p < 2 ^ 64 \<and> has_page v p)
   \<and> links v ps \<and> slots v ps (headSeq fl mod 255) q
   \<and> (\<forall>p \<in> bl. ps = [p] \<and> q = [])
   \<and> clean dt fl q"

lemma clean_first: "clean dt fl (x # q) \<Longrightarrow> headSeq fl < maxSeq fl \<Longrightarrow> fst x \<notin> dt"
  by (cases "maxSeq fl - headSeq fl") (simp_all add: clean_def)

lemma clean_tl: "clean dt fl (x # q) \<Longrightarrow> clean dt (fl\<lparr>headSeq := headSeq fl + 1, headPage := h\<rparr>) q"
  by (cases "maxSeq fl - headSeq fl") (auto simp: clean_def diff_Suc split: nat.splits)

lemma clean_snoc:
  "clean dt fl q \<Longrightarrow> maxSeq fl \<le> headSeq fl + length q \<Longrightarrow> clean dt (fl\<lparr>tailSeq := t\<rparr>) (q @ [x])"
  by (simp add: clean_def)

lemma clean_tailPage [simp]: "clean dt (fl\<lparr>tailPage := t\<rparr>) q = clean dt fl q"
  by (simp add: clean_def)

lemma clean_mono: "clean dt fl q \<Longrightarrow> (\<And>x. x \<in> fst ` set q \<Longrightarrow> x \<in> dt' \<Longrightarrow> x \<in> dt) \<Longrightarrow> clean dt' fl q"
  unfolding clean_def by (blast dest: in_set_takeD)

text \<open>
  The pages the list may write to or hand out while only versions above \<open>r\<close> are being freed:
  its own nodes and the items of version at most \<open>r\<close>.
\<close>

definition avail :: "nat \<Rightarrow> nat list \<Rightarrow> item list \<Rightarrow> nat set" where
  "avail r ps q = set ps \<union> fst ` {x \<in> set q. snd x \<le> r}"

lemma avail_nodes: "set ps \<subseteq> avail r ps q"
  by (simp add: avail_def)

lemma avail_sub: "avail r ps q \<subseteq> set (free_pages ps q)"
  by (auto simp: avail_def free_pages_def)

lemma avail_first: "v \<le> r \<Longrightarrow> p \<in> avail r ps ((p, v) # q)"
  by (force simp: avail_def)

lemma avail_tl: "avail r ps q \<subseteq> avail r ps (x # q)" "avail r ps q \<subseteq> avail r (p # ps) (x # q)"
  by (auto simp: avail_def)

lemma avail_snoc [simp]: "r < v \<Longrightarrow> avail r ps (q @ [(p, v)]) = avail r ps q"
  by (auto simp: avail_def)

lemma avail_link [simp]: "avail r (ps @ [n]) q = insert n (avail r ps q)"
  by (auto simp: avail_def)

lemma links_nth: "links v ps \<Longrightarrow> Suc i < length ps \<Longrightarrow> \<exists>b. v (ps ! i) = Some b \<and> getNext b = Some (ps ! Suc i)"
  by (simp add: links_def)

lemma links_tl: "links v (p # ps) \<Longrightarrow> links v ps"
  by (auto simp: links_def)

lemma slots_tl: "slots v ps h (x # q) \<Longrightarrow> slots v ps (Suc h) q"
  by (fastforce simp: slots_def)

lemma slots_page: "slots v (p # ps) 255 q \<Longrightarrow> slots v ps 0 q"
proof -
  have "(255 + j) div 255 = Suc (j div 255)" "(255 + j) mod 255 = j mod 255" for j :: nat by simp_all
  then show "slots v (p # ps) 255 q \<Longrightarrow> slots v ps 0 q" by (simp add: slots_def)
qed

lemma slots_first: "slots v ps h (x # q) \<Longrightarrow> \<exists>b. v (ps ! (h div 255)) = Some b \<and> getItem b (h mod 255) = Some x"
  by (force simp: slots_def)

lemma fl_rep_cong:
  assumes "fl_rep e v bl dt fl ps q" "\<And>p. p \<in> set (free_pages ps q) \<Longrightarrow> v' p = v p"
    and "\<And>p. p \<in> set (free_pages ps q) \<Longrightarrow> p \<in> dt' \<Longrightarrow> p \<in> dt"
  shows "fl_rep e v' bl dt' fl ps q"
proof -
  let ?h = "headSeq fl mod 255"
  have r: "length ps = (?h + length q) div 255 + e" "e = 0 \<longrightarrow> (?h + length q) mod 255 = 0" "links v ps" "slots v ps ?h q"
    using assms(1) by (simp_all add: fl_rep_def)
  have ps: "v' p = v p" if "p \<in> set ps" for p using assms(2) that by (simp add: free_pages_def)
  have "(?h + j) div 255 < length ps" if "j < length q" for j
  proof -
    have "(?h + j) div 255 \<le> (?h + length q) div 255" using that by (intro div_le_mono) simp
    moreover have "?h + j < 255 * ((?h + length q) div 255)" if "e = 0"
      using r(2) that \<open>j < length q\<close> by (metis add_less_cancel_left add_0_right mult_div_mod_eq)
    ultimately show ?thesis using r(1) by (cases "e = 0") (auto simp: less_mult_imp_div_less mult.commute)
  qed
  then have sl: "slots v' ps ?h q" using r(4) ps by (simp add: slots_def)
  have li: "links v' ps" using r(3) ps by (simp add: links_def)
  have hp: "\<forall>p \<in> set (free_pages ps q). p \<noteq> 0 \<and> p < 2 ^ 64 \<and> has_page v' p"
    using assms(1,2) by (simp add: has_page_def fl_rep_def)
  have dt: "clean dt' fl q"
    by (rule clean_mono [of dt]) (use assms in \<open>auto simp: fl_rep_def free_pages_def\<close>)
  show ?thesis
    using assms(1) [unfolded fl_rep_def] sl li hp dt unfolding fl_rep_def by (elim conjE, intro conjI) assumption+
qed

text \<open>When the head may advance.\<close>

definition can_pop :: "FreeList \<Rightarrow> item list \<Rightarrow> bool" where
  "can_pop fl q \<longleftrightarrow> headSeq fl \<noteq> maxSeq fl \<and> snd (hd q) \<le> maxVer fl"

lemma fl_rep_check:
  assumes "fl_rep e v bl dt fl ps q" "e = 0 \<or> e = 1"
  shows "fl_check fl = Some ()"
proof -
  have "ps \<noteq> []" "headPage fl = hd ps" "tailPage fl = last ps" "0 \<notin> set ps"
    using assms(1) by (auto simp: fl_rep_def free_pages_def)
  moreover from this have "hd ps \<noteq> 0" "last ps \<noteq> 0" by (metis hd_in_set, metis last_in_set)
  moreover have "hd ps = last ps" if "q = []"
  proof -
    have "headSeq fl mod 255 < 255" by simp
    then have "length ps = e" using assms(1) that by (simp add: fl_rep_def)
    then show ?thesis using assms(2) \<open>ps \<noteq> []\<close> by (cases ps) auto
  qed
  moreover have "tailSeq fl = headSeq fl + length q" using assms(1) by (simp add: fl_rep_def)
  ultimately show ?thesis by (cases q) (simp_all add: fl_check_def)
qed

locale list_store =
  fixes fcb :: "'s fl_callbacks" and pinv :: "'s \<Rightarrow> bool" and pview :: "'s \<Rightarrow> nat \<Rightarrow> bytes option"
    and blank :: "'s \<Rightarrow> nat set" and dirty :: "'s \<Rightarrow> nat set" and proom :: "'s \<Rightarrow> nat"
  assumes fget_ok: "pinv s \<Longrightarrow> pview s p = Some b \<Longrightarrow> p \<notin> blank s \<Longrightarrow> fl_get fcb s p = Some b"
    and fnew_ok: "pinv s \<Longrightarrow> 0 < proom s \<Longrightarrow> length b = BTREE_PAGE_SIZE \<Longrightarrow>
      \<exists>p s'. fl_new fcb s b = Some (p, s') \<and> pinv s' \<and> p \<noteq> 0 \<and> p < 2 ^ 64 \<and> pview s p = None
        \<and> pview s' = (pview s)(p \<mapsto> b) \<and> blank s' = blank s \<and> dirty s' = insert p (dirty s) \<and> proom s \<le> Suc (proom s')"
    and fset_ok: "pinv s \<Longrightarrow> pview s p = Some b \<Longrightarrow> f b = Some b' \<Longrightarrow> length b' = BTREE_PAGE_SIZE \<Longrightarrow>
      \<exists>s'. fl_set fcb s p f = Some s' \<and> pinv s' \<and> pview s' = (pview s)(p \<mapsto> b')
        \<and> blank s' = blank s - {p} \<and> dirty s' = insert p (dirty s) \<and> proom s' = proom s"
begin

lemma flPop_stays:
  assumes "pinv s" "fl_rep e (pview s) (blank s) (dirty s) fl ps q" "e = 0 \<or> e = 1" "\<not> can_pop fl q"
  shows "flPop fcb fl s = Some (0, 0, fl)"
proof (cases "headSeq fl = maxSeq fl")
  case True
  then show ?thesis using fl_rep_check [OF assms(2,3)] by (simp add: flPop_def)
next
  case False
  then have "q \<noteq> []" using assms(2) by (auto simp: fl_rep_def)
  then obtain x q' where q: "q = x # q'" by (cases q) auto
  have "slots (pview s) ps (headSeq fl mod 255) (x # q')" "ps \<noteq> []" "headPage fl = hd ps"
      "\<forall>p \<in> blank s. ps = [p] \<and> q = []" using assms(2) q by (auto simp: fl_rep_def)
  moreover from slots_first [OF this(1)] this(2,3)
  obtain b where b: "pview s (headPage fl) = Some b" "getItem b (headSeq fl mod 255) = Some x"
    by (cases ps) auto
  moreover have "blank s = {}" using calculation(4) q by auto
  ultimately have "fl_get fcb s (headPage fl) = Some b" using fget_ok [OF assms(1)] by simp
  then show ?thesis
    using b(2) False assms(4) q fl_rep_check [OF assms(2,3)]
    by (cases x) (auto simp: flPop_def seq2idx_def can_pop_def versionBefore_def)
qed

lemma flPop_pops:
  assumes inv: "pinv s" and rep: "fl_rep e (pview s) (blank s) (dirty s) fl ps q" and e: "e = 0 \<or> e = 1"
    and can: "can_pop fl q" and big: "headSeq fl + 1 < 2 ^ 64"
  obtains p ver q' head fl' ps' where "q = (p, ver) # q'" "flPop fcb fl s = Some (p, head, fl')"
    "fl_rep e (pview s) (blank s) (dirty s) fl' ps' q'" "ver \<le> maxVer fl" "p \<noteq> 0" "p \<notin> dirty s"
    "if head = 0 then ps' = ps else ps = head # ps' \<and> headSeq fl' mod 255 = 0"
    "fl' = fl\<lparr>headSeq := headSeq fl + 1, headPage := hd ps'\<rparr>"
    "\<And>r. maxVer fl \<le> r \<Longrightarrow> p \<in> avail r ps q" "\<And>r. avail r ps' q' \<subseteq> avail r ps q"
proof -
  let ?h = "headSeq fl mod 255"
  have r: "ps \<noteq> []" "headPage fl = hd ps" "tailPage fl = last ps" "tailSeq fl = headSeq fl + length q"
      "headSeq fl \<le> maxSeq fl" "maxSeq fl \<le> tailSeq fl" "length ps = (?h + length q) div 255 + e"
      "e = 0 \<longrightarrow> (?h + length q) mod 255 = 0 \<and> maxSeq fl < tailSeq fl"
      "distinct (free_pages ps q)" "\<forall>p \<in> set (free_pages ps q). p \<noteq> 0 \<and> p < 2 ^ 64 \<and> has_page (pview s) p"
      "links (pview s) ps" "slots (pview s) ps ?h q" "\<forall>p \<in> blank s. ps = [p] \<and> q = []" "curVer fl < 2 ^ 64"
      "clean (dirty s) fl q" using rep by (auto simp: fl_rep_def)
  have ne: "headSeq fl \<noteq> maxSeq fl" using can by (simp add: can_pop_def)
  then have "q \<noteq> []" using r(4-6) by auto
  then obtain p ver q' where q: "q = (p, ver) # q'" by (cases q) auto
  have bl: "blank s = {}" using r(13) q by auto
  obtain b where b: "pview s (headPage fl) = Some b" "getItem b ?h = Some (p, ver)"
    using slots_first [of "pview s" ps ?h "(p, ver)" q'] r(1,2,12) q by (cases ps) auto
  have get: "fl_get fcb s (headPage fl) = Some b" using fget_ok [OF inv b(1)] bl by simp
  have ver: "ver \<le> maxVer fl" using can q by (simp add: can_pop_def)
  have p0: "p \<noteq> 0" using r(10) q by (simp add: free_pages_def)
  have pd: "p \<notin> dirty s" using clean_first [OF r(15) [unfolded q]] ne r(5) by simp
  note cl = clean_tl [OF r(15) [unfolded q]]
  have pa: "p \<in> avail k ps q" if "maxVer fl \<le> k" for k
    using avail_first [of ver k p ps q'] ver q that by simp
  note ev = flPop_def fl_rep_check [OF rep e] ne get [unfolded r(2)] r(2) b(2) ver versionBefore_def seq2idx_def
  let ?s1 = "headSeq fl + 1"
  show ?thesis
  proof (cases "?s1 mod 255 = 0")
    case False
    then have h: "?s1 mod 255 = Suc ?h" by (auto simp: mod_Suc split: if_splits)
    let ?fl = "fl\<lparr>headSeq := ?s1, headPage := hd ps\<rparr>"
    have "flPop fcb fl s = Some (p, 0, ?fl)"
      using False big ver leD [OF ver] by (simp add: ev)
    moreover have "fl_rep e (pview s) (blank s) (dirty s) ?fl ps q'"
      using r q h slots_tl [of "pview s" ps ?h "(p, ver)" q'] ne bl cl [of "hd ps"]
      by (auto simp: fl_rep_def free_pages_def)
    ultimately show ?thesis using that [of p ver q' 0 ?fl ps] q ver p0 pd pa
      avail_tl(1) [of _ ps q' "(p, ver)"] by simp
  next
    case True
    then have h: "?h = 254" by (simp add: mod_Suc split: if_splits)
    have two: "2 \<le> length ps" using r(4-8) q h ne e by (cases "e = 0") auto
    then obtain hp ps' where ps: "ps = hp # ps'" "ps' \<noteq> []" by (cases ps; cases "tl ps") auto
    have nx: "getNext b = Some (hd ps')"
      using links_nth [OF r(11), of 0] two ps b(1) r(2) by (cases ps') auto
    have "hd ps' \<noteq> 0" "hp \<noteq> 0" using r(10) ps by (auto simp: free_pages_def)
    let ?fl = "fl\<lparr>headSeq := ?s1, headPage := hd ps'\<rparr>"
    have "flPop fcb fl s = Some (p, hp, ?fl)"
      using True big leD [OF ver] nx \<open>hd ps' \<noteq> 0\<close> ps get [unfolded r(2) ps(1)] by (simp add: ev)
    moreover have "slots (pview s) ps' 0 q'"
      using slots_page [of "pview s" hp ps' q'] slots_tl [of "pview s" ps ?h "(p, ver)" q'] r(12) q h ps by simp
    moreover have "length ps' = length q' div 255 + e" using r(7) q h ps(1) by simp
    ultimately have "fl_rep e (pview s) (blank s) (dirty s) ?fl ps' q'"
      using r q h ps links_tl [of "pview s" hp ps'] ne bl True cl [of "hd ps'"]
      by (auto simp: fl_rep_def free_pages_def)
    with \<open>flPop fcb fl s = Some (p, hp, ?fl)\<close> \<open>hp \<noteq> 0\<close> show ?thesis
      using that [of p ver q' hp ?fl ps'] q ver p0 pd pa ps(1) True
        avail_tl(2) [of _ ps' q' hp "(p, ver)"] by simp
  qed
qed

text \<open>Writing one item behind the last one.\<close>

lemma push_item:
  assumes inv: "pinv s" and rep: "fl_rep 1 (pview s) (blank s) (dirty s) fl ps q"
    and x: "ptr \<notin> set (free_pages ps q)" "ptr \<noteq> 0" "ptr < 2 ^ 64" "has_page (pview s) ptr"
  obtains s' where "fl_set fcb s (tailPage fl) (\<lambda>b. setItem b (seq2idx (tailSeq fl)) ptr (curVer fl)) = Some s'"
    "pinv s'" "proom s' = proom s" "blank s' = {}"
    "fl_rep (if (tailSeq fl + 1) mod 255 = 0 then 0 else 1) (pview s') (blank s') (dirty s')
       (fl\<lparr>tailSeq := tailSeq fl + 1\<rparr>) ps (q @ [(ptr, curVer fl)])"
    "\<And>p. p \<noteq> tailPage fl \<Longrightarrow> pview s' p = pview s p"
    "\<And>p. has_page (pview s) p \<Longrightarrow> has_page (pview s') p"
    "dirty s' = insert (tailPage fl) (dirty s)"
proof -
  let ?h = "headSeq fl mod 255" and ?l = "last ps" and ?i = "tailSeq fl mod 255" and ?x = "(ptr, curVer fl)"
  have r: "ps \<noteq> []" "headPage fl = hd ps" "tailPage fl = ?l" "tailSeq fl = headSeq fl + length q"
      "headSeq fl \<le> maxSeq fl" "maxSeq fl \<le> tailSeq fl" "length ps = (?h + length q) div 255 + 1"
      "distinct (free_pages ps q)" "\<forall>p \<in> set (free_pages ps q). p \<noteq> 0 \<and> p < 2 ^ 64 \<and> has_page (pview s) p"
      "links (pview s) ps" "slots (pview s) ps ?h q" "\<forall>p \<in> blank s. ps = [p] \<and> q = []" "curVer fl < 2 ^ 64"
      "clean (dirty s) fl q" using rep by (auto simp: fl_rep_def)
  have "?l \<in> set (free_pages ps q)" using r(1) by (simp add: free_pages_def)
  then obtain b where b: "pview s ?l = Some b" "length b = BTREE_PAGE_SIZE" using r(9) by (auto simp: has_page_def)
  obtain b' where b': "setItem b ?i ptr (curVer fl) = Some b'" "length b' = BTREE_PAGE_SIZE" "getItem b' ?i = Some ?x"
    "\<And>j. j \<noteq> ?i \<Longrightarrow> getItem b' j = getItem b j" "getNext b' = getNext b"
    by (rule setItem_ok [OF b(2) _ x(3) r(13), of ?i]) auto
  obtain s' where s': "fl_set fcb s (tailPage fl) (\<lambda>b. setItem b (seq2idx (tailSeq fl)) ptr (curVer fl)) = Some s'"
      "pinv s'" "pview s' = (pview s)(?l \<mapsto> b')" "blank s' = blank s - {?l}" "proom s' = proom s" "dirty s' = insert ?l (dirty s)"
    using fset_ok [OF inv b(1), of "\<lambda>b. setItem b ?i ptr (curVer fl)", OF b'(1,2)] r(3) by (auto simp: seq2idx_def)
  have bl: "blank s' = {}" using s'(4) r(12) by auto
  have idx: "?i = (?h + length q) mod 255" using r(4) by (simp add: mod_add_left_eq)
  have lastp: "ps ! ((?h + length q) div 255) = ?l" using r(1,7) by (simp add: last_conv_nth)
  have dps: "distinct ps" using r(8) by (simp add: free_pages_def)
  have lq: "?l \<notin> fst ` set q" using r(1,8) last_in_set by (auto simp: free_pages_def)
  have cl: "clean (dirty s') (fl\<lparr>tailSeq := tailSeq fl + 1\<rparr>) (q @ [?x])"
    using clean_mono [OF r(14)] s'(6) lq r(4,6) by (intro clean_snoc) auto
  have "\<exists>c. pview s' (ps ! ((?h + j) div 255)) = Some c \<and> getItem c ((?h + j) mod 255) = Some ((q @ [?x]) ! j)"
    if "j < length (q @ [?x])" for j
  proof (cases "j = length q")
    case True
    then show ?thesis using lastp s'(3) b'(3) idx by simp
  next
    case False
    then have j: "j < length q" using that by simp
    obtain c where c: "pview s (ps ! ((?h + j) div 255)) = Some c" "getItem c ((?h + j) mod 255) = Some (q ! j)"
      using r(11) j by (auto simp: slots_def)
    show ?thesis
    proof (cases "ps ! ((?h + j) div 255) = ?l")
      case True
      have "(?h + j) div 255 \<le> (?h + length q) div 255" using j by (intro div_le_mono) simp
      then have "(?h + j) div 255 = (?h + length q) div 255"
        using True lastp r(7) nth_eq_iff_index_eq [OF dps, of "(?h + j) div 255" "(?h + length q) div 255"] by simp
      moreover have "?h + j \<noteq> ?h + length q" using j by simp
      ultimately have "(?h + j) mod 255 \<noteq> ?i" unfolding idx by (metis div_mod_decomp)
      then show ?thesis using True s'(3) b'(4) c b(1) j by (simp add: nth_append)
    next
      case False
      then show ?thesis using s'(3) c j by (simp add: nth_append)
    qed
  qed
  then have slots: "slots (pview s') ps ?h (q @ [?x])" by (simp add: slots_def)
  have links: "links (pview s') ps"
    unfolding links_def
  proof (intro allI impI)
    fix i assume "Suc i < length ps"
    from links_nth [OF r(10) this] show "\<exists>c. pview s' (ps ! i) = Some c \<and> getNext c = Some (ps ! Suc i)"
      using s'(3) b(1) b'(5) by (cases "ps ! i = ?l") auto
  qed
  have hp: "has_page (pview s') p" if "has_page (pview s) p" for p
    using that s'(3) b'(2) by (auto simp: has_page_def)
  have len: "length ps = (?h + length (q @ [?x])) div 255 + (if (tailSeq fl + 1) mod 255 = 0 then 0 else 1)"
  proof -
    have "(tailSeq fl + 1) mod 255 = (headSeq fl + (length q + 1)) mod 255" using r(4) by simp
    also have "\<dots> = (?h + (length q + 1)) mod 255" by (subst mod_add_left_eq) simp
    finally have "(tailSeq fl + 1) mod 255 = (?h + length q + 1) mod 255" by simp
    then show ?thesis using r(7) by (auto simp: div_Suc mod_Suc split: if_splits)
  qed
  have "(?h + length (q @ [?x])) mod 255 = (headSeq fl + (length q + 1)) mod 255"
    unfolding length_append list.size by (subst mod_add_left_eq) simp
  then have "(?h + length (q @ [?x])) mod 255 = (tailSeq fl + 1) mod 255" using r(4) by (simp add: add.assoc)
  then have "fl_rep (if (tailSeq fl + 1) mod 255 = 0 then 0 else 1) (pview s') (blank s') (dirty s')
       (fl\<lparr>tailSeq := tailSeq fl + 1\<rparr>) ps (q @ [?x])"
    using r(1-10,12,13) slots links len hp x bl cl by (auto simp: fl_rep_def free_pages_def)
  then show ?thesis using that [OF s'(1,2,5) bl] s'(3,6) hp r(3) by simp
qed

text \<open>Linking a new tail page.\<close>

lemma link_tail:
  assumes inv: "pinv s" and rep: "fl_rep 0 (pview s) (blank s) (dirty s) fl ps q"
    and n: "n \<notin> set (free_pages ps q)" "n \<noteq> 0" "n < 2 ^ 64" "has_page (pview s) n"
  obtains s' where "fl_set fcb s (tailPage fl) (\<lambda>b. setNext b n) = Some s'"
    "pinv s'" "proom s' = proom s" "blank s' = {}" "fl_rep 1 (pview s') (blank s') (dirty s') (fl\<lparr>tailPage := n\<rparr>) (ps @ [n]) q"
    "\<And>p. p \<noteq> tailPage fl \<Longrightarrow> pview s' p = pview s p"
    "\<And>p. has_page (pview s) p \<Longrightarrow> has_page (pview s') p"
    "dirty s' = insert (tailPage fl) (dirty s)"
proof -
  let ?h = "headSeq fl mod 255" and ?l = "last ps"
  have r: "ps \<noteq> []" "headPage fl = hd ps" "tailPage fl = ?l" "tailSeq fl = headSeq fl + length q"
      "length ps = (?h + length q) div 255" "(?h + length q) mod 255 = 0"
      "distinct (free_pages ps q)" "\<forall>p \<in> set (free_pages ps q). p \<noteq> 0 \<and> p < 2 ^ 64 \<and> has_page (pview s) p"
      "links (pview s) ps" "slots (pview s) ps ?h q" "\<forall>p \<in> blank s. ps = [p] \<and> q = []" "maxSeq fl < tailSeq fl"
    using rep by (auto simp: fl_rep_def)
  have "?l \<in> set (free_pages ps q)" using r(1) by (simp add: free_pages_def)
  then obtain b where b: "pview s ?l = Some b" "length b = BTREE_PAGE_SIZE" using r(8) by (auto simp: has_page_def)
  obtain b' where b': "setNext b n = Some b'" "length b' = BTREE_PAGE_SIZE" "getNext b' = Some n"
    "\<And>j. getItem b' j = getItem b j" by (rule setNext_ok [OF b(2) n(3)]) auto
  obtain s' where s': "fl_set fcb s (tailPage fl) (\<lambda>b. setNext b n) = Some s'"
      "pinv s'" "pview s' = (pview s)(?l \<mapsto> b')" "blank s' = blank s - {?l}" "proom s' = proom s" "dirty s' = insert ?l (dirty s)"
    using fset_ok [OF inv b(1), of "\<lambda>b. setNext b n", OF b'(1,2)] r(3) by auto
  have bl: "blank s' = {}" using s'(4) r(11) by auto
  have dps: "distinct ps" using r(7) by (simp add: free_pages_def)
  have lq: "?l \<notin> fst ` set q" using r(1,7) last_in_set by (auto simp: free_pages_def)
  have cl: "clean (dirty s') (fl\<lparr>tailPage := n\<rparr>) q"
  proof -
    have "clean (dirty s) fl q" using rep by (simp add: fl_rep_def)
    then show ?thesis unfolding clean_tailPage by (rule clean_mono) (use lq s'(6) in force)
  qed
  have links: "links (pview s') (ps @ [n])"
    unfolding links_def
  proof (intro allI impI)
    fix i assume i: "Suc i < length (ps @ [n])"
    show "\<exists>c. pview s' ((ps @ [n]) ! i) = Some c \<and> getNext c = Some ((ps @ [n]) ! Suc i)"
    proof (cases "Suc i = length ps")
      case True
      then have "ps ! i = ?l" using r(1) by (metis diff_Suc_1 last_conv_nth)
      then show ?thesis using True s'(3) b'(3) by (simp add: nth_append)
    next
      case False
      then have i': "Suc i < length ps" using i by simp
      then have "ps ! i \<noteq> ?l" using dps r(1) by (simp add: last_conv_nth nth_eq_iff_index_eq)
      then show ?thesis using links_nth [OF r(9) i'] i' s'(3) by (simp add: nth_append)
    qed
  qed
  have "\<exists>c. pview s' ((ps @ [n]) ! ((?h + j) div 255)) = Some c \<and> getItem c ((?h + j) mod 255) = Some (q ! j)"
    if j: "j < length q" for j
  proof -
    obtain c where c: "pview s (ps ! ((?h + j) div 255)) = Some c" "getItem c ((?h + j) mod 255) = Some (q ! j)"
      using r(10) j by (auto simp: slots_def)
    have "?h + j < length ps * 255" using r(5,6) j by (metis add_less_cancel_left div_mult_mod_eq add_0_right)
    then have "(?h + j) div 255 < length ps" by (simp add: div_less_iff_less_mult)
    then show ?thesis using c s'(3) b(1) b'(4) by (auto simp: nth_append)
  qed
  then have slots: "slots (pview s') (ps @ [n]) ?h q" by (simp add: slots_def)
  have hp: "has_page (pview s') p" if "has_page (pview s) p" for p
    using that s'(3) b'(2) by (auto simp: has_page_def)
  have "fl_rep 1 (pview s') (blank s') (dirty s') (fl\<lparr>tailPage := n\<rparr>) (ps @ [n]) q"
    using rep r n links slots hp bl cl by (auto simp: fl_rep_def free_pages_def)
  then show ?thesis using that [OF s'(1,2,5) bl] s'(3,6) hp r(3) by simp
qed

text \<open>
  What one list operation does to the pages around the list: \<open>F\<close> and \<open>F'\<close> are the pages the
  list owns before and after; a page it gains was in no use at all, or is the one given.
\<close>

definition list_frame :: "'s \<Rightarrow> 's \<Rightarrow> nat set \<Rightarrow> nat set \<Rightarrow> bool" where
  "list_frame s s' F F' \<longleftrightarrow> pinv s' \<and> proom s \<le> Suc (proom s') \<and> F \<subseteq> F' \<and> dirty s' \<subseteq> dirty s \<union> F'
     \<and> (\<forall>p \<in> F' - F. pview s p = None)
     \<and> (\<forall>p. p \<notin> F' \<longrightarrow> pview s' p = pview s p) \<and> (\<forall>p. has_page (pview s) p \<longrightarrow> has_page (pview s') p)"

lemma list_frameI:
  assumes "pinv s'" "proom s \<le> Suc (proom s')" "F \<subseteq> F'" "\<And>p. p \<in> F' - F \<Longrightarrow> pview s p = None"
    "\<And>p. p \<notin> F' \<Longrightarrow> pview s' p = pview s p" "\<And>p. has_page (pview s) p \<Longrightarrow> has_page (pview s') p" "dirty s' \<subseteq> dirty s \<union> F'"
  shows "list_frame s s' F F'"
  using assms by (simp add: list_frame_def)

text \<open>
  Which pages an operation may write: those the list owned as nodes or could hand out (\<open>A\<close>),
  and fresh ones.
\<close>

definition writes_in :: "'s \<Rightarrow> 's \<Rightarrow> nat set \<Rightarrow> nat set \<Rightarrow> bool" where
  "writes_in s s' A A' \<longleftrightarrow> A' \<subseteq> A \<union> {p. pview s p = None} \<and> dirty s' \<subseteq> dirty s \<union> A \<union> {p. pview s p = None}"

lemma PushTail_ok:
  assumes inv: "pinv s" and rep: "fl_rep 1 (pview s) (blank s) (dirty s) fl ps q" and room: "0 < proom s"
    and x: "ptr \<notin> set (free_pages ps q)" "ptr \<noteq> 0" "ptr < 2 ^ 64" "has_page (pview s) ptr"
    and big: "tailSeq fl + 2 < 2 ^ 64"
  obtains fl' s' ps' q' where "PushTail fcb fl s ptr = Some (fl', s')"
    "fl_rep 1 (pview s') (blank s') (dirty s') fl' ps' q'"
    "list_frame s s' (insert ptr (set (free_pages ps q))) (set (free_pages ps' q'))"
    "tailSeq fl' \<le> tailSeq fl + 2" "maxSeq fl' = maxSeq fl" "maxVer fl' = maxVer fl" "curVer fl' = curVer fl"
    "(tailSeq fl + 1) mod 255 \<noteq> 0 \<Longrightarrow> q' = q @ [(ptr, curVer fl)] \<and> fl' = fl\<lparr>tailSeq := tailSeq fl + 1\<rparr>"
    "\<And>r. maxVer fl \<le> r \<Longrightarrow> r < curVer fl \<Longrightarrow> writes_in s s' (avail r ps q) (avail r ps' q')"
proof -
  let ?q1 = "q @ [(ptr, curVer fl)]" and ?fl1 = "fl\<lparr>tailSeq := tailSeq fl + 1\<rparr>"
  have chk: "fl_check fl = Some ()" using fl_rep_check [OF rep] by simp
  obtain s1 where s1: "fl_set fcb s (tailPage fl) (\<lambda>b. setItem b (seq2idx (tailSeq fl)) ptr (curVer fl)) = Some s1"
    "pinv s1" "proom s1 = proom s" "blank s1 = {}"
    "fl_rep (if (tailSeq fl + 1) mod 255 = 0 then 0 else 1) (pview s1) (blank s1) (dirty s1) ?fl1 ps ?q1"
    "\<And>p. p \<noteq> tailPage fl \<Longrightarrow> pview s1 p = pview s p" "\<And>p. has_page (pview s) p \<Longrightarrow> has_page (pview s1) p"
    "dirty s1 = insert (tailPage fl) (dirty s)" by (rule push_item [OF inv rep x]) auto
  have tp: "tailPage fl \<in> set ps" using rep by (simp add: fl_rep_def)
  have fr: "pview s1 p = pview s p" if "p \<notin> set ps" for p using s1(6) [of p] tp that by blast
  have fp1: "set (free_pages ps ?q1) = insert ptr (set (free_pages ps q))" by (auto simp: free_pages_def)
  have u: "u64 (tailSeq fl + 1) = tailSeq fl + 1" using big by (intro u64_id) simp
  show ?thesis
  proof (cases "(tailSeq fl + 1) mod 255 = 0")
    case False
    have "PushTail fcb fl s ptr = Some (?fl1, s1)"
      using False chk s1(1) u by (simp add: PushTail_def seq2idx_def Let_def)
    moreover have "list_frame s s1 (insert ptr (set (free_pages ps q))) (set (free_pages ps ?q1))"
      unfolding list_frame_def fp1 using s1(2,3,7,8) fr tp by (auto simp: free_pages_def)
    moreover have "writes_in s s1 (avail r ps q) (avail r ps ?q1)" if "r < curVer fl" for r
      using s1(8) tp avail_nodes [of ps r q] that by (auto simp: writes_in_def)
    ultimately show ?thesis using that [of ?fl1 s1 ps ?q1] s1(5) False by simp
  next
    case True
    have rep1: "fl_rep 0 (pview s1) (blank s1) (dirty s1) ?fl1 ps ?q1" using s1(5) True by simp
    obtain p head fl2 ps2 q2 where pop: "flPop fcb ?fl1 s1 = Some (p, head, fl2)"
        "fl_rep 0 (pview s1) (blank s1) (dirty s1) fl2 ps2 q2"
        "if p = 0 then head = 0 \<and> fl2 = ?fl1 \<and> ps2 = ps \<and> q2 = ?q1
         else (\<exists>ver. ?q1 = (p, ver) # q2) \<and> fl2 = ?fl1\<lparr>headSeq := headSeq fl + 1, headPage := hd ps2\<rparr>
           \<and> (if head = 0 then ps2 = ps else ps = head # ps2 \<and> headSeq fl2 mod 255 = 0)"
        "\<And>r. avail r ps2 q2 \<subseteq> avail r ps ?q1" "\<And>r. p \<noteq> 0 \<Longrightarrow> maxVer fl \<le> r \<Longrightarrow> p \<in> avail r ps ?q1"
    proof (cases "can_pop ?fl1 ?q1")
      case False
      then show ?thesis using that [of 0 0 ?fl1 ps ?q1] flPop_stays [OF s1(2) rep1] rep1 by simp
    next
      case can: True
      have hs: "headSeq fl + 1 < 2 ^ 64" using rep big by (simp add: fl_rep_def)
      show ?thesis
        by (rule flPop_pops [OF s1(2) rep1 _ can]) (use that hs in \<open>auto split: if_splits\<close>)
    qed
    have own2: "p \<noteq> 0 \<Longrightarrow> p \<notin> set (free_pages ps2 q2)" "head \<noteq> 0 \<Longrightarrow> head \<notin> set (free_pages ps2 q2) \<and> head \<noteq> p"
      "set (free_pages ps ?q1) = set (free_pages ps2 q2) \<union> (if p = 0 then {} else {p}) \<union> (if head = 0 then {} else {head})"
    proof -
      have d: "distinct (free_pages ps ?q1)" "0 \<notin> set (free_pages ps ?q1)" using rep1 by (auto simp: fl_rep_def)
      consider "p = 0" "head = 0" "ps2 = ps" "q2 = ?q1"
        | ver where "p \<noteq> 0" "?q1 = (p, ver) # q2" "head = 0" "ps2 = ps"
        | ver where "p \<noteq> 0" "?q1 = (p, ver) # q2" "head \<noteq> 0" "ps = head # ps2"
        using pop(3) by (auto split: if_splits)
      then have "(p \<noteq> 0 \<longrightarrow> p \<notin> set (free_pages ps2 q2)) \<and> (head \<noteq> 0 \<longrightarrow> head \<notin> set (free_pages ps2 q2) \<and> head \<noteq> p)
        \<and> set (free_pages ps ?q1) = set (free_pages ps2 q2) \<union> (if p = 0 then {} else {p}) \<union> (if head = 0 then {} else {head})"
        by cases (use d in \<open>auto simp: free_pages_def\<close>)
      then show "p \<noteq> 0 \<Longrightarrow> p \<notin> set (free_pages ps2 q2)" "head \<noteq> 0 \<Longrightarrow> head \<notin> set (free_pages ps2 q2) \<and> head \<noteq> p"
        "set (free_pages ps ?q1) = set (free_pages ps2 q2) \<union> (if p = 0 then {} else {p}) \<union> (if head = 0 then {} else {head})"
        by auto
    qed
    have hp1: "\<forall>x \<in> set (free_pages ps ?q1). x \<noteq> 0 \<and> x < 2 ^ 64 \<and> has_page (pview s1) x"
      using rep1 by (simp add: fl_rep_def)
    have used: "pview s1 x \<noteq> None" if "x \<in> set (free_pages ps ?q1)" for x
      using hp1 that by (force simp: has_page_def)
    have next_page: "\<exists>n s2. (if p = 0 then fl_new fcb s1 (make_buf BTREE_PAGE_SIZE) else Some (p, s1)) = Some (n, s2)
        \<and> pinv s2 \<and> proom s1 \<le> Suc (proom s2) \<and> n \<noteq> 0 \<and> n < 2 ^ 64 \<and> has_page (pview s2) n \<and> blank s2 = blank s1
        \<and> n \<notin> set (free_pages ps2 q2) \<and> (head \<noteq> 0 \<longrightarrow> n \<noteq> head) \<and> (if p = 0 then pview s1 n = None else n = p)
        \<and> dirty s2 \<subseteq> insert n (dirty s1) \<and> (\<forall>x. x \<noteq> n \<longrightarrow> pview s2 x = pview s1 x)"
    proof (cases "p = 0")
      case True
      obtain n s2 where n: "fl_new fcb s1 (make_buf BTREE_PAGE_SIZE) = Some (n, s2)" "pinv s2" "n \<noteq> 0" "n < 2 ^ 64"
          "pview s1 n = None" "pview s2 = (pview s1)(n \<mapsto> make_buf BTREE_PAGE_SIZE)" "blank s2 = blank s1"
          "proom s1 \<le> Suc (proom s2)" "dirty s2 = insert n (dirty s1)"
        using fnew_ok [OF s1(2), of "make_buf BTREE_PAGE_SIZE"] room s1(3) by (auto simp: make_buf_def)
      moreover have "n \<notin> set (free_pages ps ?q1)" using used n(5) by blast
      ultimately show ?thesis using True own2(3) by (auto simp: has_page_def make_buf_def)
    next
      case False
      then have pin: "p \<in> set (free_pages ps ?q1)" using own2(3) by simp
      show ?thesis
        using hp1 [rule_format, OF pin] own2(1) [OF False] own2(2) s1(2) False
        by (intro exI [of _ p] exI [of _ s1]) auto
    qed
    then obtain n s2 where n: "(if p = 0 then fl_new fcb s1 (make_buf BTREE_PAGE_SIZE) else Some (p, s1)) = Some (n, s2)"
        "pinv s2" "proom s1 \<le> Suc (proom s2)" "n \<noteq> 0" "n < 2 ^ 64" "has_page (pview s2) n" "blank s2 = blank s1"
        "n \<notin> set (free_pages ps2 q2)" "head \<noteq> 0 \<longrightarrow> n \<noteq> head" "if p = 0 then pview s1 n = None else n = p"
        "\<forall>x. x \<noteq> n \<longrightarrow> pview s2 x = pview s1 x" "dirty s2 \<subseteq> insert n (dirty s1)" by blast
    have rep2: "fl_rep 0 (pview s2) (blank s2) (dirty s2) fl2 ps2 q2"
      unfolding n(7) by (rule fl_rep_cong [OF pop(2)]) (use n(8,11,12) in auto)
    have t2: "tailPage fl2 = tailPage fl" "tailSeq fl2 = tailSeq fl + 1" "maxSeq fl2 = maxSeq fl" "maxVer fl2 = maxVer fl"
      "curVer fl2 = curVer fl" using pop(3) by (auto split: if_splits)
    obtain s3 where s3: "fl_set fcb s2 (tailPage fl2) (\<lambda>b. setNext b n) = Some s3" "pinv s3" "proom s3 = proom s2"
      "blank s3 = {}" "fl_rep 1 (pview s3) (blank s3) (dirty s3) (fl2\<lparr>tailPage := n\<rparr>) (ps2 @ [n]) q2"
      "\<And>x. x \<noteq> tailPage fl2 \<Longrightarrow> pview s3 x = pview s2 x" "\<And>x. has_page (pview s2) x \<Longrightarrow> has_page (pview s3) x"
      "dirty s3 = insert (tailPage fl2) (dirty s2)"
      by (rule link_tail [OF n(2) rep2 n(8,4,5,6)]) auto
    have hp3: "has_page (pview s3) x" if "has_page (pview s) x" for x
      using s1(7) [OF that] n(6,11) s3(7) by (cases "x = n") (auto simp: has_page_def)
    have v3: "pview s3 x = pview s x" if "x \<notin> set (free_pages ps ?q1)" "x \<noteq> n" for x
      using that s3(6) [of x] n(11) fr [of x] t2(1) tp by (auto simp: free_pages_def)
    have ev: "PushTail fcb fl s ptr = (if head \<noteq> 0 then do {
           s \<leftarrow> fl_set fcb s3 n (\<lambda>b. setItem b 0 head (curVer fl2));
           Some (fl2\<lparr>tailPage := n, tailSeq := u64 (tailSeq fl2 + 1)\<rparr>, s)
         } else Some (fl2\<lparr>tailPage := n\<rparr>, s3))"
      using chk s1(1) True u pop(1) n(1) s3(1) by (simp add: PushTail_def seq2idx_def Let_def)
    have n_in: "n \<in> avail r ps q \<union> {x. pview s x = None}" if "maxVer fl \<le> r" "r < curVer fl" for r
    proof (cases "p = 0")
      case True
      then have "pview s1 n = None" using n(10) by simp
      moreover from this have "n \<notin> set ps" using used [of n] by (auto simp: free_pages_def)
      ultimately have "pview s n = None" using fr [of n] by simp
      then show ?thesis by simp
    next
      case False
      then show ?thesis using n(10) pop(5) [of r] that by simp
    qed
    have W: "writes_in s s3 (avail r ps q) (avail r (ps2 @ [n]) q2)" if "maxVer fl \<le> r" "r < curVer fl" for r
      using n_in [OF that] pop(4) [of r] that s3(8) n(12) s1(8) t2(1) tp avail_nodes [of ps r q]
      by (auto simp: writes_in_def)
    have D: "dirty s3 \<subseteq> dirty s \<union> insert n (set (free_pages ps2 q2) \<union> (if head = 0 then {} else {head}))"
    proof -
      have "tailPage fl \<in> set (free_pages ps ?q1)" using tp by (simp add: free_pages_def)
      moreover from this have "tailPage fl \<noteq> p \<or> n = p" using n(10) hp1 by (auto split: if_splits)
      ultimately show ?thesis using s3(8) n(12) s1(8) t2(1) own2(3) by (auto split: if_splits)
    qed
    have F: "set (free_pages ps ?q1) \<subseteq> insert n (set (free_pages ps2 q2) \<union> (if head = 0 then {} else {head}))"
      "x \<in> insert n (set (free_pages ps2 q2) \<union> (if head = 0 then {} else {head})) - set (free_pages ps ?q1) \<Longrightarrow> pview s x = None" for x
    proof -
      show "set (free_pages ps ?q1) \<subseteq> insert n (set (free_pages ps2 q2) \<union> (if head = 0 then {} else {head}))"
        using own2(3) n(10) by (auto split: if_splits)
      assume x: "x \<in> insert n (set (free_pages ps2 q2) \<union> (if head = 0 then {} else {head})) - set (free_pages ps ?q1)"
      then have "x = n" "p = 0" using own2(3) n(10) by (auto split: if_splits)
      then show "pview s x = None" using n(10) x fr [of x] by (auto simp: free_pages_def)
    qed
    show ?thesis
    proof (cases "head = 0")
      case h0: True
      have F': "set (free_pages (ps2 @ [n]) q2) = insert n (set (free_pages ps2 q2) \<union> (if head = 0 then {} else {head}))"
        using h0 by (auto simp: free_pages_def)
      have "list_frame s s3 (insert ptr (set (free_pages ps q))) (set (free_pages (ps2 @ [n]) q2))"
        unfolding fp1 [symmetric] F'
      proof (rule list_frameI)
        fix x assume "x \<notin> insert n (set (free_pages ps2 q2) \<union> (if head = 0 then {} else {head}))"
        then show "pview s3 x = pview s x" using F(1) by (intro v3) auto
      qed (use s3(2,3) s1(3) n(3) hp3 F D in auto)
      then show ?thesis using that [OF _ s3(5)] ev h0 t2 True W by simp
    next
      case hn: False
      have hin: "head \<in> set (free_pages ps ?q1)" using own2(3) hn by simp
      have h3: "has_page (pview s3) head"
        using hp1 [rule_format, OF hin] n(9,11) hn by (intro s3(7)) (simp add: has_page_def)
      have hx: "head \<notin> set (free_pages (ps2 @ [n]) q2)" "head < 2 ^ 64"
        using own2(2) [OF hn] hn n(9) hp1 [rule_format, OF hin] by (auto simp: free_pages_def)
      have z: "seq2idx (tailSeq fl2) = 0" using t2(2) True by (simp add: seq2idx_def)
      obtain s4 where s4: "fl_set fcb s3 n (\<lambda>b. setItem b 0 head (curVer fl2)) = Some s4" "pinv s4" "proom s4 = proom s3"
        "fl_rep 1 (pview s4) (blank s4) (dirty s4) (fl2\<lparr>tailPage := n, tailSeq := tailSeq fl2 + 1\<rparr>) (ps2 @ [n]) (q2 @ [(head, curVer fl2)])"
        "\<And>x. x \<noteq> n \<Longrightarrow> pview s4 x = pview s3 x" "\<And>x. has_page (pview s3) x \<Longrightarrow> has_page (pview s4) x"
        "dirty s4 = insert n (dirty s3)"
        by (rule push_item [OF s3(2,5) hx(1) hn hx(2) h3]) (use z t2(2) True in \<open>auto simp: mod_Suc split: if_splits\<close>)
      have "u64 (tailSeq fl2 + 1) = tailSeq fl2 + 1" using t2(2) big by (intro u64_id) simp
      then have "PushTail fcb fl s ptr = Some (fl2\<lparr>tailPage := n, tailSeq := tailSeq fl2 + 1\<rparr>, s4)"
        using ev hn s4(1) by simp
      moreover have F': "set (free_pages (ps2 @ [n]) (q2 @ [(head, curVer fl2)]))
          = insert n (set (free_pages ps2 q2) \<union> (if head = 0 then {} else {head}))"
        using hn by (auto simp: free_pages_def)
      have "list_frame s s4 (insert ptr (set (free_pages ps q))) (set (free_pages (ps2 @ [n]) (q2 @ [(head, curVer fl2)])))"
        unfolding fp1 [symmetric] F'
      proof (rule list_frameI)
        fix x assume x: "x \<notin> insert n (set (free_pages ps2 q2) \<union> (if head = 0 then {} else {head}))"
        then have "pview s3 x = pview s x" using F(1) by (intro v3) auto
        then show "pview s4 x = pview s x" using s4(5) [of x] x by simp
      qed (use s4(2,3,6,7) s3(2,3) s1(3) n(3) hp3 F D in auto)
      moreover have "writes_in s s4 (avail r ps q) (avail r (ps2 @ [n]) (q2 @ [(head, curVer fl2)]))"
        if "maxVer fl \<le> r" "r < curVer fl" for r
        using W [OF that] s4(7) n_in [OF that] that t2(5) by (auto simp: writes_in_def)
      ultimately show ?thesis using that [OF _ s4(4)] t2 True by simp
    qed
  qed
qed

lemma PopHead_ok:
  assumes inv: "pinv s" and rep: "fl_rep 1 (pview s) (blank s) (dirty s) fl ps q" and room: "0 < proom s"
    and big: "tailSeq fl + 2 < 2 ^ 64"
  obtains p fl' s' ps' q' where "PopHead fcb fl s = Some (p, fl', s')" "fl_rep 1 (pview s') (blank s') (dirty s') fl' ps' q'"
    "tailSeq fl' \<le> tailSeq fl + 2" "maxSeq fl' = maxSeq fl" "maxVer fl' = maxVer fl" "curVer fl' = curVer fl"
    "if can_pop fl q then p = fst (hd q) \<and> p \<noteq> 0 \<and> p \<notin> set (free_pages ps' q') \<and> p \<notin> dirty s'
        \<and> list_frame s s' (set (free_pages ps q) - {p}) (set (free_pages ps' q'))
        \<and> ((headSeq fl + 1) mod 255 \<noteq> 0 \<longrightarrow> q' = tl q)
      else p = 0 \<and> s' = s \<and> fl' = fl \<and> ps' = ps \<and> q' = q"
    "\<And>r. maxVer fl \<le> r \<Longrightarrow> r < curVer fl \<Longrightarrow> writes_in s s' (avail r ps q) (avail r ps' q')"
    "\<And>r. p \<noteq> 0 \<Longrightarrow> maxVer fl \<le> r \<Longrightarrow> p \<in> avail r ps q"
proof (cases "can_pop fl q")
  case False
  have "PopHead fcb fl s = Some (0, fl, s)" using flPop_stays [OF inv rep _ False] by (simp add: PopHead_def)
  then show ?thesis using that [OF _ rep] False by (auto simp: writes_in_def)
next
  case True
  have hs: "headSeq fl + 1 < 2 ^ 64" using rep big by (simp add: fl_rep_def)
  obtain p ver q1 head fl1 ps1 where pop: "q = (p, ver) # q1" "flPop fcb fl s = Some (p, head, fl1)"
    "fl_rep 1 (pview s) (blank s) (dirty s) fl1 ps1 q1" "ver \<le> maxVer fl" "p \<noteq> 0" "p \<notin> dirty s"
    "if head = 0 then ps1 = ps else ps = head # ps1 \<and> headSeq fl1 mod 255 = 0"
    "fl1 = fl\<lparr>headSeq := headSeq fl + 1, headPage := hd ps1\<rparr>"
    "\<And>r. maxVer fl \<le> r \<Longrightarrow> p \<in> avail r ps q" "\<And>r. avail r ps1 q1 \<subseteq> avail r ps q"
    by (rule flPop_pops [OF inv rep disjI2 [OF refl] True hs]) (rule that)
  have r: "distinct (free_pages ps q)" "\<forall>x \<in> set (free_pages ps q). x \<noteq> 0 \<and> x < 2 ^ 64 \<and> has_page (pview s) x"
    using rep by (auto simp: fl_rep_def)
  show ?thesis
  proof (cases "head = 0")
    case h0: True
    have ev: "PopHead fcb fl s = Some (p, fl1, s)" using pop(2) h0 by (simp add: PopHead_def)
    have own: "set (free_pages ps1 q1) = set (free_pages ps q) - {p}" "p \<notin> set (free_pages ps1 q1)"
      using r(1) pop(1,7) h0 by (auto simp: free_pages_def)
    have fr: "list_frame s s (set (free_pages ps q) - {p}) (set (free_pages ps1 q1))"
      unfolding own(1) using inv by (simp add: list_frame_def)
    show ?thesis
    proof (rule that [OF ev pop(3)])
      show "if can_pop fl q then p = fst (hd q) \<and> p \<noteq> 0 \<and> p \<notin> set (free_pages ps1 q1) \<and> p \<notin> dirty s
          \<and> list_frame s s (set (free_pages ps q) - {p}) (set (free_pages ps1 q1))
          \<and> ((headSeq fl + 1) mod 255 \<noteq> 0 \<longrightarrow> q1 = tl q)
        else p = 0 \<and> s = s \<and> fl1 = fl \<and> ps1 = ps \<and> q1 = q"
        using True fr own(2) pop(1,5,6) by simp
    qed (use pop(8-10) in \<open>fastforce simp: writes_in_def\<close>)+
  next
    case hn: False
    have ps: "ps = head # ps1" "headSeq fl1 mod 255 = 0" using pop(7) hn by auto
    have hx: "head \<notin> set (free_pages ps1 q1)" "head < 2 ^ 64" "has_page (pview s) head"
      using r ps pop(1) by (auto simp: free_pages_def)
    have big1: "tailSeq fl1 + 2 < 2 ^ 64" using big pop(8) by simp
    obtain fl2 s2 ps2 q2 where push: "PushTail fcb fl1 s head = Some (fl2, s2)" "fl_rep 1 (pview s2) (blank s2) (dirty s2) fl2 ps2 q2"
      "list_frame s s2 (insert head (set (free_pages ps1 q1))) (set (free_pages ps2 q2))"
      "tailSeq fl2 \<le> tailSeq fl1 + 2" "maxSeq fl2 = maxSeq fl1" "maxVer fl2 = maxVer fl1" "curVer fl2 = curVer fl1"
      "\<And>r. maxVer fl1 \<le> r \<Longrightarrow> r < curVer fl1 \<Longrightarrow> writes_in s s2 (avail r ps1 q1) (avail r ps2 q2)"
      by (rule PushTail_ok [OF inv pop(3) room hx(1) hn hx(2,3) big1]) auto
    have ev: "PopHead fcb fl s = Some (p, fl2, s2)" using pop(2) hn push(1) by (simp add: PopHead_def)
    have F: "insert head (set (free_pages ps1 q1)) = set (free_pages ps q) - {p}"
      using r(1) ps pop(1) by (auto simp: free_pages_def)
    have out: "p \<notin> set (free_pages ps2 q2)"
    proof
      assume "p \<in> set (free_pages ps2 q2)"
      then have "pview s p = None" using push(3) F by (auto simp: list_frame_def)
      then show False using r(2) pop(1) by (auto simp: free_pages_def has_page_def)
    qed
    have dt2: "p \<notin> dirty s2" using push(3) out pop(6) by (auto simp: list_frame_def)
    show ?thesis
    proof (rule that [OF ev push(2)])
      show "if can_pop fl q then p = fst (hd q) \<and> p \<noteq> 0 \<and> p \<notin> set (free_pages ps2 q2) \<and> p \<notin> dirty s2
          \<and> list_frame s s2 (set (free_pages ps q) - {p}) (set (free_pages ps2 q2))
          \<and> ((headSeq fl + 1) mod 255 \<noteq> 0 \<longrightarrow> q2 = tl q)
        else p = 0 \<and> s2 = s \<and> fl2 = fl \<and> ps2 = ps \<and> q2 = q"
        using True push(3) [unfolded F] out dt2 ps(2) pop(1,5,8) by simp
    qed (use push(4-8) pop(8-10) in \<open>fastforce simp: writes_in_def\<close>)+
  qed
qed

end

end
