(* ===== verification/NodeOps.thy ===== *)
theory NodeOps
  imports BNode
begin

text \<open>
  Operations on single nodes from \<^verbatim>\<open>db/btree.go\<close>: leaf insertion, update and deletion, the
  binary search for a key, splitting an oversized node into up to three pages, merging two
  nodes, and the size limits on keys and values. Each is translated at the byte level and
  related to the corresponding operation on the list of entries.
\<close>

section \<open>Definitions\<close>

definition leafInsert :: "BNode \<Rightarrow> BNode \<Rightarrow> nat \<Rightarrow> bytes \<Rightarrow> bytes \<Rightarrow> BNode option" where
  "leafInsert new old idx key val = do {
     n \<leftarrow> nkeys old;
     new \<leftarrow> setHeader new BNODE_LEAF (u16 (n + 1));
     new \<leftarrow> nodeAppendRange new old 0 0 idx;
     new \<leftarrow> nodeAppendKV new idx 0 key val;
     nodeAppendRange new old (u16 (idx + 1)) idx (sub16 n idx)
   }"

definition leafUpdate :: "BNode \<Rightarrow> BNode \<Rightarrow> nat \<Rightarrow> bytes \<Rightarrow> bytes \<Rightarrow> BNode option" where
  "leafUpdate new old idx key val = do {
     n \<leftarrow> nkeys old;
     new \<leftarrow> setHeader new BNODE_LEAF n;
     new \<leftarrow> nodeAppendRange new old 0 0 idx;
     new \<leftarrow> nodeAppendKV new idx 0 key val;
     nodeAppendRange new old (u16 (idx + 1)) (u16 (idx + 1)) (sub16 n (idx + 1))
   }"

text \<open>The binary search; \<open>left\<close> and \<open>right\<close> are Go \<^verbatim>\<open>int\<close>s, \<open>right\<close> can become -1.\<close>

function lookupLoop :: "BNode \<Rightarrow> bytes \<Rightarrow> int \<Rightarrow> int \<Rightarrow> nat option" where
  "lookupLoop node key left right =
     (if left \<le> right then
        let mid = (left + right) div 2 in
        do {
          k \<leftarrow> getKey node (u16 (nat mid));
          (if bytesCompare k key = 0 then Some (u16 (nat mid))
           else if bytesCompare k key > 0 then lookupLoop node key left (mid - 1)
           else lookupLoop node key (mid + 1) right)
        }
      else Some (nat (right mod 65536)))"
  by pat_completeness auto
termination
  by (relation "measure (\<lambda>(node, key, left, right). nat (right - left + 1))") auto

declare lookupLoop.simps [simp del]

definition nodeLookupLE :: "BNode \<Rightarrow> bytes \<Rightarrow> nat option" where
  "nodeLookupLE node key = do {
     n \<leftarrow> nkeys node;
     lookupLoop node key 0 (int n - 1)
   }"

text \<open>The closures \<^verbatim>\<open>left_bytes\<close> and \<^verbatim>\<open>right_bytes\<close> of \<^verbatim>\<open>nodeSplit2\<close>.\<close>

definition left_bytes :: "BNode \<Rightarrow> nat \<Rightarrow> nat option" where
  "left_bytes old nleft = do {
     off \<leftarrow> getOffset old nleft;
     Some (u16 (HEADER_SIZE + 8 * nleft + 2 * nleft + off))
   }"

definition right_bytes :: "BNode \<Rightarrow> nat \<Rightarrow> nat option" where
  "right_bytes old nleft = do {
     total \<leftarrow> nbytes old;
     l \<leftarrow> left_bytes old nleft;
     Some (u16 (sub16 total l + HEADER_SIZE))
   }"

lemma right_bytes_all:
  assumes "nkeys old = Some n" "right_bytes old n = Some r"
  shows "r = HEADER_SIZE"
proof -
  obtain t l where "nbytes old = Some t" "left_bytes old n = Some l" "r = u16 (sub16 t l + HEADER_SIZE)"
    using assms(2) by (auto simp: right_bytes_def bind_eq_Some_conv)
  moreover from this(1,2) assms(1) have "t = l" "l < 65536"
    by (auto simp: nbytes_def left_bytes_def kvPos_def bind_eq_Some_conv)
  ultimately show ?thesis
    by (simp add: HEADER_SIZE_def)
qed

lemma nkeys_less: "nkeys b = Some n \<Longrightarrow> n < 65536"
  using get_le_less [of 2 b 2 n] by (simp add: nkeys_def)

lemma right_bytes_index:
  "right_bytes old nleft = Some r \<Longrightarrow> \<exists>n. nkeys old = Some n \<and> n < 65536 \<and> nleft \<le> n"
  by (auto simp: right_bytes_def left_bytes_def getOffset_def offsetPos_def nbytes_def bind_eq_Some_conv
      dest: nkeys_less split: if_splits)

text \<open>\<^verbatim>\<open>for right_bytes() > BTREE_PAGE_SIZE { nleft++ }\<close>\<close>

function splitLoop :: "BNode \<Rightarrow> nat \<Rightarrow> nat option" where
  "splitLoop old nleft = do {
     r \<leftarrow> right_bytes old nleft;
     (if r > BTREE_PAGE_SIZE then splitLoop old (u16 (nleft + 1)) else Some nleft)
   }"
  by pat_completeness auto
termination
proof (relation "measure (\<lambda>(old, nleft). case nkeys old of None \<Rightarrow> 0 | Some n \<Rightarrow> n - nleft)")
  fix old nleft r
  assume "right_bytes old nleft = Some r" "BTREE_PAGE_SIZE < r"
  moreover from this(1) obtain n where "nkeys old = Some n" "n < 65536" "nleft \<le> n"
    using right_bytes_index by blast
  moreover from calculation have "nleft < n"
    by (cases "nleft = n") (auto dest: right_bytes_all simp: format_consts)
  ultimately show "((old, u16 (nleft + 1)), (old, nleft))
      \<in> measure (\<lambda>(old, nleft). case nkeys old of None \<Rightarrow> 0 | Some n \<Rightarrow> n - nleft)"
    by simp
qed simp

declare splitLoop.simps [simp del]

definition nodeSplit2 :: "BNode \<Rightarrow> BNode \<Rightarrow> BNode \<Rightarrow> (BNode \<times> BNode) option" where
  "nodeSplit2 left right old = do {
     n \<leftarrow> nkeys old;
     _ \<leftarrow> go_assert (n \<ge> 2);
     nleft \<leftarrow> splitLoop old (n div 2);
     _ \<leftarrow> go_assert (nleft < n);
     ty \<leftarrow> btype old;
     left \<leftarrow> setHeader left ty nleft;
     right \<leftarrow> setHeader right ty (sub16 n nleft);
     left \<leftarrow> nodeAppendRange left old 0 0 nleft;
     right \<leftarrow> nodeAppendRange right old 0 nleft (sub16 n nleft);
     rb \<leftarrow> nbytes right;
     _ \<leftarrow> go_assert (rb \<le> BTREE_PAGE_SIZE);
     Some (left, right)
   }"

text \<open>\<^verbatim>\<open>old[:BTREE_PAGE_SIZE]\<close>\<close>

definition cut_page :: "BNode \<Rightarrow> BNode option" where
  "cut_page b = (if BTREE_PAGE_SIZE \<le> length b then Some (take BTREE_PAGE_SIZE b) else None)"

text \<open>The result is \<^verbatim>\<open>split[:nsplit]\<close>: the list of the one to three nodes.\<close>

definition nodeSplit3 :: "BNode \<Rightarrow> BNode list option" where
  "nodeSplit3 old = do {
     nb \<leftarrow> nbytes old;
     (if nb \<le> BTREE_PAGE_SIZE then do {
        old \<leftarrow> cut_page old;
        Some [old]
      } else do {
        (left, right) \<leftarrow> nodeSplit2 (make_buf (2 * BTREE_PAGE_SIZE)) (make_buf BTREE_PAGE_SIZE) old;
        lb \<leftarrow> nbytes left;
        (if lb \<le> BTREE_PAGE_SIZE then do {
           left \<leftarrow> cut_page left;
           Some [left, right]
         } else do {
           (leftleft, middle) \<leftarrow> nodeSplit2 (make_buf BTREE_PAGE_SIZE) (make_buf BTREE_PAGE_SIZE) left;
           llb \<leftarrow> nbytes leftleft;
           _ \<leftarrow> go_assert (llb \<le> BTREE_PAGE_SIZE);
           Some [leftleft, middle, right]
         })
      })
   }"

definition leafDelete :: "BNode \<Rightarrow> BNode \<Rightarrow> nat \<Rightarrow> BNode option" where
  "leafDelete new old idx = do {
     n \<leftarrow> nkeys old;
     new \<leftarrow> setHeader new BNODE_LEAF (sub16 n 1);
     new \<leftarrow> nodeAppendRange new old 0 0 idx;
     nodeAppendRange new old idx (u16 (idx + 1)) (sub16 n (idx + 1))
   }"

definition nodeMerge :: "BNode \<Rightarrow> BNode \<Rightarrow> BNode \<Rightarrow> BNode option" where
  "nodeMerge new left right = do {
     ty \<leftarrow> btype left;
     nl \<leftarrow> nkeys left;
     nr \<leftarrow> nkeys right;
     new \<leftarrow> setHeader new ty (u16 (nl + nr));
     new \<leftarrow> nodeAppendRange new left 0 0 nl;
     new \<leftarrow> nodeAppendRange new right nl 0 nr;
     nb \<leftarrow> nbytes new;
     _ \<leftarrow> go_assert (nb \<le> BTREE_PAGE_SIZE);
     Some new
   }"

definition nodeReplace2Kids :: "BNode \<Rightarrow> BNode \<Rightarrow> nat \<Rightarrow> nat \<Rightarrow> bytes \<Rightarrow> BNode option" where
  "nodeReplace2Kids new old idx ptr key = do {
     n \<leftarrow> nkeys old;
     new \<leftarrow> setHeader new BNODE_NODE (sub16 n 1);
     new \<leftarrow> nodeAppendRange new old 0 0 idx;
     new \<leftarrow> nodeAppendKV new idx ptr key [];
     nodeAppendRange new old (u16 (idx + 1)) (u16 (idx + 2)) (sub16 n (idx + 2))
   }"

datatype limit_error = EmptyKey | KeyTooLong | ValTooLong

definition checkLimit :: "bytes \<Rightarrow> bytes \<Rightarrow> limit_error option" where
  "checkLimit key val =
     (if length key = 0 then Some EmptyKey
      else if length key > BTREE_MAX_KEY_SIZE then Some KeyTooLong
      else if length val > BTREE_MAX_VAL_SIZE then Some ValTooLong
      else None)"


section \<open>Effect on the entries\<close>

text \<open>
  All node rewrites have the same shape: set the header, copy a range of the old entries,
  append some, copy another range. The next lemma gives the result for that shape.
\<close>

lemma node_rep_init:
  assumes "length buf < 65536" "nsize es \<le> length buf" "ty < 65536" "n = length es"
  obtains b where "setHeader buf ty n = Some b" "length b = length buf" "holds b ty n []"
  using holds_setHeader [of buf n ty] assms that by (auto simp: nsize_def)

lemma append_range_rep:
  assumes "holds b ty n es" "node_rep old ty' fs" "src + k \<le> length fs"
    and "dst = length es" "length es + k \<le> n" "4 + 10 * n + koff es + koff (sub fs src k) \<le> length b"
  obtains b' where "nodeAppendRange b old dst src k = Some b'"
    "length b' = length b" "holds b' ty n (es @ sub fs src k)"
  using nodeAppendRange_holds [of b ty n es old ty' "length fs" fs src k] assms that
  by (auto simp: node_rep_def)

lemma append_kv_rep:
  assumes "holds b ty n es" "dst = length es" "length es < n" "ptr < 2 ^ 64"
    and "4 + 10 * n + koff es + 4 + length k + length v \<le> length b"
  obtains b' where "nodeAppendKV b dst ptr k v = Some b'"
    "length b' = length b" "holds b' ty n (es @ [(ptr, k, v)])"
  using nodeAppendKV_holds [of b ty n es ptr k v] assms that by auto

lemma sub_take_drop_simps [simp]:
  "sub fs 0 n = take n fs"
  "length fs \<le> src + n \<Longrightarrow> sub fs src n = drop src fs"
  by (simp_all add: sub_def)

lemma koff_take_drop: "koff (take i es) + koff (drop i es) = koff es"
  by (metis append_take_drop_id koff_simps(3))

lemma replace_range_rep:
  \<comment> \<open>copy entries before \<open>i\<close>, append one entry, copy entries from \<open>j\<close> on\<close>
  assumes old: "node_rep old ty' fs" and ij: "i \<le> j" "j \<le> length fs" and ptr: "ptr < 2 ^ 64"
    and es: "es = take i fs @ [(ptr, k, v)] @ drop j fs"
    and buf: "length buf < 65536" "nsize es \<le> length buf" "ty < 65536" "n = length es"
  obtains b where "do {
      b \<leftarrow> setHeader buf ty n;
      b \<leftarrow> nodeAppendRange b old 0 0 i;
      b \<leftarrow> nodeAppendKV b i ptr k v;
      nodeAppendRange b old (i + 1) j (length fs - j)
    } = Some b" "length b = length buf" "node_rep b ty es"
proof -
  have n: "n = length fs - (j - i) + 1" using es ij buf(4) by auto
  have room: "4 + 10 * n + koff (take i fs) + (4 + length k + length v) + koff (drop j fs) \<le> length buf"
    using buf es by (simp add: nsize_def)
  obtain b0 where b0: "setHeader buf ty n = Some b0" "length b0 = length buf" "holds b0 ty n []"
    using node_rep_init [OF buf] .
  obtain b1 where b1: "nodeAppendRange b0 old 0 0 i = Some b1" "length b1 = length buf"
      "holds b1 ty n (take i fs)"
    by (rule append_range_rep [OF b0(3) old, of 0 i]) (use ij n room b0 in auto)
  obtain b2 where b2: "nodeAppendKV b1 i ptr k v = Some b2" "length b2 = length buf"
      "holds b2 ty n (take i fs @ [(ptr, k, v)])"
    by (rule append_kv_rep [OF b1(3) _ _ ptr, of i k v]) (use ij n room b1 in auto)
  obtain b3 where b3: "nodeAppendRange b2 old (i + 1) j (length fs - j) = Some b3" "length b3 = length buf"
      "holds b3 ty n es"
    by (rule append_range_rep [OF b2(3) old, of j "length fs - j" "i + 1"]) (use ij n room b2 es in auto)
  show ?thesis
    by (rule that [of b3]) (use b0 b1 b2 b3 buf in \<open>auto simp: node_rep_def\<close>)
qed

lemma join_ranges_rep:
  \<comment> \<open>copy a range of one node, then a range of another\<close>
  assumes l: "node_rep l lty fs" and r: "node_rep r rty gs"
    and ij: "i \<le> length fs" "j \<le> length gs"
    and es: "es = take i fs @ drop j gs"
    and buf: "length buf < 65536" "nsize es \<le> length buf" "ty < 65536" "n = length es"
  obtains b where "do {
      b \<leftarrow> setHeader buf ty n;
      b \<leftarrow> nodeAppendRange b l 0 0 i;
      nodeAppendRange b r i j (length gs - j)
    } = Some b" "length b = length buf" "node_rep b ty es"
proof -
  have n: "n = i + (length gs - j)" using es ij buf(4) by simp
  have room: "4 + 10 * n + koff (take i fs) + koff (drop j gs) \<le> length buf"
    using buf es by (simp add: nsize_def)
  obtain b0 where b0: "setHeader buf ty n = Some b0" "length b0 = length buf" "holds b0 ty n []"
    using node_rep_init [OF buf] .
  obtain b1 where b1: "nodeAppendRange b0 l 0 0 i = Some b1" "length b1 = length buf"
      "holds b1 ty n (take i fs)"
    by (rule append_range_rep [OF b0(3) l, of 0 i]) (use ij n room b0 in auto)
  obtain b2 where b2: "nodeAppendRange b1 r i j (length gs - j) = Some b2" "length b2 = length buf"
      "holds b2 ty n es"
    by (rule append_range_rep [OF b1(3) r, of j "length gs - j" i]) (use ij n room b1 es in auto)
  show ?thesis
    by (rule that [of b2]) (use b0 b1 b2 buf in \<open>auto simp: node_rep_def\<close>)
qed


subsection \<open>Leaf rewrites\<close>

lemma leafInsert_rep:
  assumes "node_rep old ty es" "idx \<le> length es" "length buf < 65536"
    and "fs = take idx es @ [(0, k, v)] @ drop idx es" "nsize fs \<le> length buf"
  obtains b where "leafInsert buf old idx k v = Some b" "length b = length buf" "node_rep b BNODE_LEAF fs"
proof -
  note small = node_rep_bounds(3) [OF assms(1)]
  show ?thesis
    by (rule replace_range_rep [OF assms(1), of idx idx 0 fs k v buf BNODE_LEAF "length es + 1"])
       (use assms small that node_rep_readers(1) [OF assms(1)] in
         \<open>auto simp: leafInsert_def BNODE_LEAF_def\<close>)
qed

lemma leafUpdate_rep:
  assumes "node_rep old ty es" "idx < length es" "length buf < 65536"
    and "fs = take idx es @ [(0, k, v)] @ drop (Suc idx) es" "nsize fs \<le> length buf"
  obtains b where "leafUpdate buf old idx k v = Some b" "length b = length buf" "node_rep b BNODE_LEAF fs"
proof -
  note small = node_rep_bounds(3) [OF assms(1)]
  show ?thesis
    by (rule replace_range_rep [OF assms(1), of idx "idx + 1" 0 fs k v buf BNODE_LEAF "length es"])
       (use assms small that node_rep_readers(1) [OF assms(1)] in
         \<open>auto simp: leafUpdate_def BNODE_LEAF_def\<close>)
qed

lemma nodeReplace2Kids_rep:
  assumes "node_rep old ty es" "Suc idx < length es" "length buf < 65536" "ptr < 2 ^ 64"
    and "fs = take idx es @ [(ptr, k, [])] @ drop (idx + 2) es" "nsize fs \<le> length buf"
  obtains b where "nodeReplace2Kids buf old idx ptr k = Some b" "length b = length buf"
    "node_rep b BNODE_NODE fs"
proof -
  note small = node_rep_bounds(3) [OF assms(1)]
  show ?thesis
    by (rule replace_range_rep [OF assms(1), of idx "idx + 2" ptr fs k "[]" buf BNODE_NODE "length es - 1"])
       (use assms small that node_rep_readers(1) [OF assms(1)] in
         \<open>auto simp: nodeReplace2Kids_def BNODE_NODE_def\<close>)
qed

lemma leafDelete_rep:
  assumes "node_rep old ty es" "idx < length es" "length buf < 65536"
    and "fs = take idx es @ drop (Suc idx) es" "nsize fs \<le> length buf"
  obtains b where "leafDelete buf old idx = Some b" "length b = length buf" "node_rep b BNODE_LEAF fs"
proof -
  note small = node_rep_bounds(3) [OF assms(1)]
  show ?thesis
    by (rule join_ranges_rep [OF assms(1) assms(1), of idx "idx + 1" fs buf BNODE_LEAF "length es - 1"])
       (use assms small that node_rep_readers(1) [OF assms(1)] in
         \<open>auto simp: leafDelete_def BNODE_LEAF_def\<close>)
qed

lemma nodeMerge_rep:
  assumes "node_rep l ty es" "node_rep r ty fs" "length buf = BTREE_PAGE_SIZE"
    and "nsize (es @ fs) \<le> BTREE_PAGE_SIZE"
  obtains b where "nodeMerge buf l r = Some b" "length b = length buf" "node_rep b ty (es @ fs)"
proof -
  note small = node_rep_bounds(3) [OF assms(1)] node_rep_bounds(3) [OF assms(2)]
    and ty = node_rep_bounds(4) [OF assms(1)]
    and rd = node_rep_readers(1) [OF assms(1)] node_rep_readers(1) [OF assms(2)]
      node_rep_readers(2) [OF assms(1)]
  obtain b where b: "do {
      b \<leftarrow> setHeader buf ty (length es + length fs);
      b \<leftarrow> nodeAppendRange b l 0 0 (length es);
      nodeAppendRange b r (length es) 0 (length fs)
    } = Some b" "length b = length buf" "node_rep b ty (es @ fs)"
    by (rule join_ranges_rep [OF assms(1) assms(2), of "length es" 0 "es @ fs" buf ty "length es + length fs"])
       (use assms ty in \<open>auto simp: BTREE_PAGE_SIZE_def\<close>)
  show ?thesis
    by (rule that [OF _ b(2,3)])
       (use b(1) small rd assms(4) node_rep_readers(7) [OF b(3)] in
         \<open>auto simp: nodeMerge_def bind_eq_Some_conv\<close>)
qed

subsection \<open>Binary search\<close>

definition count_le :: "bytes list \<Rightarrow> bytes \<Rightarrow> nat" where
  "count_le ks key = length (filter (\<lambda>k. k \<le> key) ks)"

lemma count_le_iff:
  "sorted_wrt (<) ks \<Longrightarrow> i < length ks \<Longrightarrow> ks ! i \<le> key \<longleftrightarrow> i < count_le ks key"
proof (induction ks arbitrary: i)
  case (Cons k ks)
  have none: "count_le ks key = 0" if "\<not> k \<le> key"
    using Cons.prems that by (force simp: count_le_def filter_empty_conv)
  show ?case
    using Cons none by (cases i) (force simp: count_le_def)+
qed simp

lemma count_le_bound: "count_le ks key \<le> length ks"
  by (simp add: count_le_def)

lemma lookupLoop_rep:
  assumes rep: "node_rep node ty es" and srt: "sorted_wrt (<) (map ent_key es)"
    and c: "c = count_le (map ent_key es) key"
    and "0 \<le> left" "right < int (length es)" "left \<le> int c" "int c \<le> right + 1"
  shows "lookupLoop node key left right = Some (nat ((int c - 1) mod 65536))"
  using assms(4-)
proof (induction "nat (right - left + 1)" arbitrary: left right rule: less_induct)
  case less
  show ?case
  proof (cases "left \<le> right")
    case False
    then have "right = int c - 1" using less.prems by linarith
    then show ?thesis using False by (subst lookupLoop.simps) simp
  next
    case True
    let ?mid = "(left + right) div 2" and ?m = "nat ((left + right) div 2)"
    have mid: "left \<le> ?mid" "?mid \<le> right" "?m < length es" "?m < 65536"
      using True less.prems node_rep_bounds(3) [OF rep] by auto
    have iff: "map ent_key es ! ?m \<le> key \<longleftrightarrow> ?m < c"
      using count_le_iff [OF srt, of ?m key] mid c by simp
    have key: "getKey node (u16 ?m) = Some (ent_key (es ! ?m))"
      using node_rep_readers(4) [OF rep mid(3)] mid by simp
    have step: "lookupLoop node key left right =
      (if ent_key (es ! ?m) = key then Some ?m
       else if key < ent_key (es ! ?m) then lookupLoop node key left (?mid - 1)
       else lookupLoop node key (?mid + 1) right)"
      using True key mid by (subst lookupLoop.simps) (simp add: Let_def)
    consider (eq) "ent_key (es ! ?m) = key" | (gt) "key < ent_key (es ! ?m)" | (lt) "ent_key (es ! ?m) < key"
      by fastforce
    then show ?thesis
    proof cases
      case eq
      have "\<not> Suc ?m < c"
      proof
        assume "Suc ?m < c"
        moreover from this have "Suc ?m < length es"
          using count_le_bound [of "map ent_key es" key] c by simp
        ultimately have "ent_key (es ! Suc ?m) \<le> key"
          using count_le_iff [OF srt, of "Suc ?m" key] c by simp
        with eq sorted_wrt_nth_less [OF srt, of ?m "Suc ?m"] \<open>Suc ?m < length es\<close> show False
          by simp
      qed
      with eq iff mid have "c = Suc ?m" by auto
      with eq step mid show ?thesis by simp
    next
      case gt
      with iff mid have "\<not> ?m < c" by auto
      then have "lookupLoop node key left (?mid - 1) = Some (nat ((int c - 1) mod 65536))"
        using less.hyps [of "?mid - 1" left] less.prems mid by auto
      with gt step show ?thesis by auto
    next
      case lt
      with iff mid have "?m < c" by auto
      then have "lookupLoop node key (?mid + 1) right = Some (nat ((int c - 1) mod 65536))"
        using less.hyps [of right "?mid + 1"] less.prems mid by auto
      with lt step show ?thesis by auto
    qed
  qed
qed

lemma nodeLookupLE_rep:
  assumes "node_rep node ty es" "sorted_wrt (<) (map ent_key es)"
  shows "nodeLookupLE node key = Some (nat ((int (count_le (map ent_key es) key) - 1) mod 65536))"
  using lookupLoop_rep [OF assms refl, of 0 "int (length es) - 1" key] assms
    count_le_bound [of "map ent_key es" key] node_rep_readers(1) [OF assms(1)]
  by (simp add: nodeLookupLE_def)

text \<open>
  \<open>at_pos ks idx key\<close>: position \<open>idx\<close> holds the last key that is not above \<open>key\<close>. With a first
  key that is not above the search key, the search returns such a position.
\<close>

definition at_pos :: "bytes list \<Rightarrow> nat \<Rightarrow> bytes \<Rightarrow> bool" where
  "at_pos ks idx key \<longleftrightarrow>
     idx < length ks \<and> ks ! idx \<le> key \<and> (\<forall>j. idx < j \<and> j < length ks \<longrightarrow> key < ks ! j)"

lemma nodeLookupLE_found:
  assumes "node_rep node ty es" "sorted_wrt (<) (map ent_key es)" "es \<noteq> []" "ent_key (hd es) \<le> key"
  obtains idx where "nodeLookupLE node key = Some idx" "at_pos (map ent_key es) idx key"
proof -
  let ?ks = "map ent_key es" and ?c = "count_le (map ent_key es) key"
  have c: "0 < ?c" "?c \<le> length es"
    using count_le_iff [OF assms(2), of 0 key] assms count_le_bound [of ?ks key]
    by (auto simp: hd_conv_nth)
  have "nodeLookupLE node key = Some (?c - 1)"
    using nodeLookupLE_rep [OF assms(1,2), of key] c node_rep_bounds(3) [OF assms(1)]
    by (simp add: nat_diff_distrib)
  moreover have "?ks ! (?c - 1) \<le> key"
    using count_le_iff [OF assms(2), of "?c - 1" key] c by simp
  moreover have "key < ?ks ! j" if "?c - 1 < j" "j < length ?ks" for j
    using count_le_iff [OF assms(2), of j key] that c by auto
  ultimately show ?thesis using that [of "?c - 1"] c by (simp add: at_pos_def)
qed

subsection \<open>Splitting\<close>

text \<open>
  \<open>split_pos es i\<close> is where \<^const>\<open>nodeSplit2\<close> cuts when it starts looking at position \<open>i\<close>:
  the first position from which the right part fits a page.
\<close>

function split_pos :: "entry list \<Rightarrow> nat \<Rightarrow> nat" where
  "split_pos es i =
     (if i < length es \<and> nsize (drop i es) > BTREE_PAGE_SIZE then split_pos es (i + 1) else i)"
  by pat_completeness auto
termination
  by (relation "measure (\<lambda>(es, i). length es - i)") auto

declare split_pos.simps [simp del]

lemma split_pos_ge: "i \<le> split_pos es i"
proof (induction es i rule: split_pos.induct)
  case (1 es i)
  then show ?case by (subst split_pos.simps) (auto dest: Suc_leD)
qed

lemma split_pos_le: "i \<le> length es \<Longrightarrow> split_pos es i \<le> length es"
proof (induction es i rule: split_pos.induct)
  case (1 es i)
  then show ?case by (subst split_pos.simps) auto
qed

lemma split_pos_fits: "i \<le> length es \<Longrightarrow> nsize (drop (split_pos es i) es) \<le> BTREE_PAGE_SIZE"
proof (induction es i rule: split_pos.induct)
  case (1 es i)
  then show ?case
    by (subst split_pos.simps) (auto simp: BTREE_PAGE_SIZE_def)
qed

lemma split_pos_tight:
  "i < split_pos es i \<Longrightarrow> nsize (drop (split_pos es i - 1) es) > BTREE_PAGE_SIZE"
proof (induction es i rule: split_pos.induct)
  case (1 es i)
  show ?case
  proof (cases "i < length es \<and> nsize (drop i es) > BTREE_PAGE_SIZE")
    case True
    then have eq: "split_pos es i = split_pos es (i + 1)"
      by (subst split_pos.simps) simp
    show ?thesis
    proof (cases "i + 1 < split_pos es (i + 1)")
      case False
      then have "split_pos es (i + 1) = i + 1" using split_pos_ge [of "i + 1" es] by simp
      with eq True show ?thesis by simp
    qed (use 1 True eq in simp)
  next
    case False
    then have "split_pos es i = i" by (subst split_pos.simps) auto
    with 1 show ?thesis by simp
  qed
qed

lemma right_bytes_rep:
  assumes "node_rep old ty es" "i \<le> length es"
  shows "right_bytes old i = Some (nsize (drop i es))"
proof -
  have split: "nsize (take i es) + nsize (drop i es) = nsize es + 4"
    using nsize_append [of "take i es" "drop i es"] by simp
  have "nsize es < 65536" using node_rep_bounds(1,2) [OF assms(1)] by simp
  moreover have "left_bytes old i = Some (nsize (take i es))"
    using node_rep_readers(6) [OF assms] assms(2) split calculation nsize_ge_4 [of "drop i es"]
    by (simp add: left_bytes_def HEADER_SIZE_def nsize_def)
  moreover have "nsize (take i es) \<le> nsize es" "nsize es - nsize (take i es) + 4 = nsize (drop i es)"
      "nsize (drop i es) < 65536"
    using split calculation nsize_ge_4 [of "drop i es"] nsize_ge_4 [of "take i es"] by linarith+
  ultimately show ?thesis
    using node_rep_readers(7) [OF assms(1)] by (simp add: right_bytes_def HEADER_SIZE_def)
qed

lemma splitLoop_rep:
  assumes "node_rep old ty es" "i \<le> length es"
  shows "splitLoop old i = Some (split_pos es i)"
  using assms(2)
proof (induction "length es - i" arbitrary: i rule: less_induct)
  case less
  note rb = right_bytes_rep [OF assms(1) less.prems]
  show ?case
  proof (cases "i < length es \<and> nsize (drop i es) > BTREE_PAGE_SIZE")
    case True
    then have "splitLoop old (i + 1) = Some (split_pos es (i + 1))"
      by (intro less.hyps) auto
    moreover have "i + 1 < 65536" using True node_rep_bounds(3) [OF assms(1)] by linarith
    ultimately show ?thesis
      using True rb by (subst splitLoop.simps, subst split_pos.simps) simp
  next
    case False
    then have "\<not> nsize (drop i es) > BTREE_PAGE_SIZE"
      using less.prems by (cases "i = length es") (auto simp: BTREE_PAGE_SIZE_def)
    with False rb show ?thesis
      by (subst splitLoop.simps, subst split_pos.simps) auto
  qed
qed

lemma nodeSplit2_rep:
  assumes old: "node_rep old ty es" and n: "2 \<le> length es" and m: "m = split_pos es (length es div 2)"
    and last: "m < length es" and l: "length l < 65536" "nsize (take m es) \<le> length l"
    and r: "length r = BTREE_PAGE_SIZE"
  obtains l' r' where "nodeSplit2 l r old = Some (l', r')"
    "length l' = length l" "length r' = length r"
    "node_rep l' ty (take m es)" "node_rep r' ty (drop m es)"
proof -
  note rd = node_rep_readers(1,2) [OF old] and bd = node_rep_bounds(3,4) [OF old]
  have fits: "nsize (drop m es) \<le> BTREE_PAGE_SIZE"
    using split_pos_fits [of "length es div 2" es] m by simp
  obtain l0 where l0: "setHeader l ty m = Some l0" "length l0 = length l" "holds l0 ty m []"
    by (rule node_rep_init [of l "take m es" ty m]) (use l bd last in auto)
  obtain l1 where l1: "nodeAppendRange l0 old 0 0 m = Some l1" "length l1 = length l" "holds l1 ty m (take m es)"
    by (rule append_range_rep [OF l0(3) old, of 0 m 0]) (use last l l0 in \<open>auto simp: nsize_def\<close>)
  obtain r0 where r0: "setHeader r ty (length es - m) = Some r0" "length r0 = length r"
      "holds r0 ty (length es - m) []"
    by (rule node_rep_init [of r "drop m es" ty "length es - m"])
       (use r bd fits in \<open>auto simp: BTREE_PAGE_SIZE_def\<close>)
  obtain r1 where r1: "nodeAppendRange r0 old 0 m (length es - m) = Some r1" "length r1 = length r"
      "holds r1 ty (length es - m) (drop m es)"
    by (rule append_range_rep [OF r0(3) old, of m "length es - m" 0])
       (use last fits r r0 in \<open>auto simp: nsize_def BTREE_PAGE_SIZE_def\<close>)
  have reps: "node_rep l1 ty (take m es)" "node_rep r1 ty (drop m es)"
    using l1 r1 last by (simp_all add: node_rep_def)
  have "nodeSplit2 l r old = Some (l1, r1)"
    using rd bd n last l0 l1 r0 r1 fits node_rep_readers(7) [OF reps(2)]
      splitLoop_rep [OF old, of "length es div 2"] m
    by (simp add: nodeSplit2_def)
  then show ?thesis using that l1 r1 reps by simp
qed

text \<open>The cut leaves something on the right as soon as the last entry alone fits a page.\<close>

lemma split_pos_less:
  assumes "2 \<le> length es" "nsize [last es] \<le> BTREE_PAGE_SIZE"
  shows "split_pos es (length es div 2) < length es"
proof (rule ccontr)
  assume neg: "\<not> split_pos es (length es div 2) < length es"
  then have eq: "split_pos es (length es div 2) = length es"
    using split_pos_le [of "length es div 2" es] by simp
  moreover have "length es div 2 < length es" using assms(1) by simp
  ultimately have "nsize (drop (length es - 1) es) > BTREE_PAGE_SIZE"
    using split_pos_tight [of "length es div 2" es] by simp
  moreover have "drop (length es - 1) es = [last es]"
    using assms(1) by (cases es rule: rev_cases) simp_all
  ultimately show False using assms(2) by simp
qed

text \<open>
  What \<^const>\<open>nodeSplit3\<close> computes on the list of entries: one part if the node fits a page,
  two if the left half does, else the left half is cut again.
\<close>

definition split3 :: "entry list \<Rightarrow> entry list list" where
  "split3 es =
     (if nsize es \<le> BTREE_PAGE_SIZE then [es]
      else let m = split_pos es (length es div 2); l = take m es; r = drop m es in
        if nsize l \<le> BTREE_PAGE_SIZE then [l, r]
        else let k = split_pos l (length l div 2) in [take k l, drop k l, r])"

lemma concat_split3: "concat (split3 es) = es"
  by (simp add: split3_def Let_def append_assoc [symmetric] del: append_assoc take_take length_take)

text \<open>The entries can be split into pages: every part that results fits a page.\<close>

definition splittable :: "entry list \<Rightarrow> bool" where
  "splittable es \<longleftrightarrow> (\<forall>p \<in> set (split3 es). nsize p \<le> BTREE_PAGE_SIZE \<and> p \<noteq> [])"


lemma make_buf_length [simp]: "length (make_buf n) = n"
  by (simp add: make_buf_def)

lemma nsize_take_le: "nsize (take i es) \<le> nsize es"
  using nsize_append [of "take i es" "drop i es"] nsize_ge_4 [of "drop i es"]
  by (simp only: append_take_drop_id)

lemma cut_page_rep:
  assumes "node_rep b ty es" "nsize es \<le> BTREE_PAGE_SIZE" "BTREE_PAGE_SIZE \<le> length b"
  obtains b' where "cut_page b = Some b'" "length b' = BTREE_PAGE_SIZE" "node_rep b' ty es"
  using node_rep_take [OF assms] assms that by (simp add: cut_page_def)

definition pages_of :: "nat \<Rightarrow> BNode list \<Rightarrow> entry list list \<Rightarrow> bool" where
  "pages_of ty bs ps \<longleftrightarrow> list_all2 (\<lambda>b p. length b = BTREE_PAGE_SIZE \<and> node_rep b ty p) bs ps"

text \<open>The three ways \<^const>\<open>split3\<close> can come out.\<close>

lemma split3_cases:
  obtains (whole) "nsize es \<le> BTREE_PAGE_SIZE" "split3 es = [es]"
  | (two) m where "nsize es > BTREE_PAGE_SIZE" "m = split_pos es (length es div 2)"
      "nsize (take m es) \<le> BTREE_PAGE_SIZE" "split3 es = [take m es, drop m es]"
  | (three) m l k where "nsize es > BTREE_PAGE_SIZE" "m = split_pos es (length es div 2)"
      "l = take m es" "nsize l > BTREE_PAGE_SIZE" "k = split_pos l (length l div 2)"
      "split3 es = [take k l, drop k l, drop m es]"
proof (cases "nsize es \<le> BTREE_PAGE_SIZE")
  case True
  then show ?thesis by (intro whole) (simp_all add: split3_def)
next
  case False
  let ?m = "split_pos es (length es div 2)"
  show ?thesis
  proof (cases "nsize (take ?m es) \<le> BTREE_PAGE_SIZE")
    case True
    then show ?thesis using False by (intro two [of ?m]) (simp_all add: split3_def Let_def)
  next
    case 3: False
    show ?thesis using False 3 by (intro three [OF _ refl refl _ refl]) (simp_all add: split3_def Let_def)
  qed
qed

lemma nodeSplit3_rep:
  assumes old: "node_rep old ty es" "BTREE_PAGE_SIZE \<le> length old" "nsize es \<le> 2 * BTREE_PAGE_SIZE"
    and sp: "splittable es"
  obtains bs where "nodeSplit3 old = Some bs" "pages_of ty bs (split3 es)"
proof (cases es rule: split3_cases)
  case whole
  obtain b where "cut_page old = Some b" "length b = BTREE_PAGE_SIZE" "node_rep b ty es"
    using cut_page_rep [OF old(1) whole(1) old(2)] .
  with whole that node_rep_readers(7) [OF old(1)] show ?thesis
    by (simp add: nodeSplit3_def pages_of_def)
next
  case (two m)
  have "m < length es" "take m es \<noteq> []" using sp by (simp_all add: splittable_def two(4))
  moreover from this have "2 \<le> length es" by (cases m) auto
  ultimately obtain l r where lr: "nodeSplit2 (make_buf (2 * BTREE_PAGE_SIZE)) (make_buf BTREE_PAGE_SIZE) old = Some (l, r)"
      "length l = 2 * BTREE_PAGE_SIZE" "length r = BTREE_PAGE_SIZE"
      "node_rep l ty (take m es)" "node_rep r ty (drop m es)"
    using nodeSplit2_rep [OF old(1) _ two(2), of "make_buf (2 * BTREE_PAGE_SIZE)" "make_buf BTREE_PAGE_SIZE"]
      two(3) by (auto simp: BTREE_PAGE_SIZE_def)
  obtain b where "cut_page l = Some b" "length b = BTREE_PAGE_SIZE" "node_rep b ty (take m es)"
    using cut_page_rep [OF lr(4) two(3)] lr(2) by (auto simp: BTREE_PAGE_SIZE_def)
  with two lr that node_rep_readers(7) [OF old(1)] node_rep_readers(7) [OF lr(4)] show ?thesis
    by (simp add: nodeSplit3_def pages_of_def)
next
  case (three m l k)
  have lens: "m < length es" "k < length l" "take k l \<noteq> []" "nsize (take k l) \<le> BTREE_PAGE_SIZE"
    using sp by (simp_all add: splittable_def three(6))
  then have "0 < k" by (cases k) auto
  with lens have two: "2 \<le> length l" by linarith
  moreover have "length l \<le> length es" using three(3) by simp
  ultimately have two: "2 \<le> length l" "2 \<le> length es" by linarith+
  obtain b r where lr: "nodeSplit2 (make_buf (2 * BTREE_PAGE_SIZE)) (make_buf BTREE_PAGE_SIZE) old = Some (b, r)"
      "length b = 2 * BTREE_PAGE_SIZE" "length r = BTREE_PAGE_SIZE"
      "node_rep b ty l" "node_rep r ty (drop m es)"
    using nodeSplit2_rep [OF old(1) two(2) three(2) lens(1), of "make_buf (2 * BTREE_PAGE_SIZE)" "make_buf BTREE_PAGE_SIZE"]
      nsize_take_le [of m es] old(3) three(3) by (auto simp: BTREE_PAGE_SIZE_def)
  obtain b1 b2 where bb: "nodeSplit2 (make_buf BTREE_PAGE_SIZE) (make_buf BTREE_PAGE_SIZE) b = Some (b1, b2)"
      "length b1 = BTREE_PAGE_SIZE" "length b2 = BTREE_PAGE_SIZE"
      "node_rep b1 ty (take k l)" "node_rep b2 ty (drop k l)"
    using nodeSplit2_rep [OF lr(4) two(1) three(5) lens(2), of "make_buf BTREE_PAGE_SIZE" "make_buf BTREE_PAGE_SIZE"]
      lens(4) by (auto simp: BTREE_PAGE_SIZE_def)
  have "nodeSplit3 old = Some [b1, b2, r]"
    using three(1,4) lr(1) bb(1) lens(4) node_rep_readers(7) [OF old(1)] node_rep_readers(7) [OF lr(4)]
      node_rep_readers(7) [OF bb(4)]
    by (simp add: nodeSplit3_def)
  moreover have "pages_of ty [b1, b2, r] (split3 es)"
    using lr bb by (simp add: pages_of_def three(6))
  ultimately show ?thesis by (rule that)
qed


text \<open>
  Splitting never fails when every entry is small. The number 280 is the largest bound on
  key plus value for which the counting argument below works: a left quarter with at least
  14 entries leaves 42 bytes per entry on its right, one with fewer fits a page.
\<close>

definition small_entry :: "entry \<Rightarrow> bool" where
  "small_entry e \<longleftrightarrow> length (ent_key e) + length (ent_val e) \<le> 280"

lemma nsize_lower: "4 + 14 * length es \<le> nsize es"
  by (induction es) (simp_all add: nsize_Cons)

lemma nsize_upper: "list_all small_entry es \<Longrightarrow> nsize es \<le> 4 + 294 * length es"
  by (induction es) (auto simp: nsize_Cons small_entry_def)

lemma list_all_take_drop:
  "list_all P xs \<Longrightarrow> list_all P (take n xs)" "list_all P xs \<Longrightarrow> list_all P (drop n xs)"
  by (auto simp: list_all_iff dest: in_set_takeD in_set_dropD)

lemma nsize_split: "nsize (take i es) + nsize (drop i es) = nsize es + 4"
  using nsize_append [of "take i es" "drop i es"] by simp

lemma small_tail_fits:
  assumes "list_all small_entry es" "2 \<le> length es"
  shows "split_pos es (length es div 2) < length es"
proof (rule split_pos_less)
  have "small_entry (last es)" using assms by (cases es rule: rev_cases) auto
  then show "nsize [last es] \<le> BTREE_PAGE_SIZE"
    by (simp add: nsize_def small_entry_def BTREE_PAGE_SIZE_def)
qed fact

text \<open>If the cut had to move right, little is left on the left side.\<close>

lemma moved_cut_small:
  assumes small: "list_all small_entry es" and total: "nsize es \<le> 4684"
    and moved: "length es div 2 < split_pos es (length es div 2)"
  shows "nsize (take (split_pos es (length es div 2)) es) \<le> BTREE_PAGE_SIZE"
proof -
  let ?m = "split_pos es (length es div 2)"
  have m: "0 < ?m" "?m \<le> length es" using moved split_pos_le [of "length es div 2" es] by auto
  have "nsize (drop (?m - 1) es) > BTREE_PAGE_SIZE" using split_pos_tight [OF moved] .
  then have "nsize (take (?m - 1) es) < 592"
    using nsize_split [of "?m - 1" es] total by (simp add: BTREE_PAGE_SIZE_def)
  moreover have "take ?m es = take (?m - 1) es @ [es ! (?m - 1)]"
    using m take_Suc_conv_app_nth [of "?m - 1" es] by simp
  moreover have "small_entry (es ! (?m - 1))"
    using small m by (simp add: list_all_length)
  ultimately show ?thesis
    using nsize_append [of "take (?m - 1) es" "[es ! (?m - 1)]"]
    by (simp add: nsize_Cons small_entry_def BTREE_PAGE_SIZE_def)
qed

lemma splittable_small:
  assumes small: "list_all small_entry es" and total: "nsize es \<le> 4684" and ne: "es \<noteq> []"
  shows "splittable es"
proof (cases es rule: split3_cases)
  case whole
  then show ?thesis using ne by (simp add: splittable_def)
next
  case (two m)
  have "2 \<le> length es"
    using nsize_upper [OF small] two(1) by (simp add: BTREE_PAGE_SIZE_def)
  moreover from this have "0 < m" "m < length es"
    using two(2) split_pos_ge [of "length es div 2" es] small_tail_fits [OF small] by auto
  ultimately show ?thesis
    using two(3) split_pos_fits [of "length es div 2" es] ne
    by (simp add: splittable_def two(4) two(2) [symmetric])
next
  case (three m l k)
  have n: "2 \<le> length es"
    using nsize_upper [OF small] three(1) by (simp add: BTREE_PAGE_SIZE_def)
  have "\<not> length es div 2 < m"
    using three(2,3,4) moved_cut_small [OF small total] by auto
  then have m: "m = length es div 2" "m < length es"
    using three(2) split_pos_ge [of "length es div 2" es] small_tail_fits [OF small n] by simp_all
  have ls: "list_all small_entry l" "nsize l \<le> 4684" "length l = m"
    using small total nsize_take_le [of m es] m three(3) by (auto simp: list_all_take_drop)
  have l2: "2 \<le> length l" using nsize_upper [OF ls(1)] three(4) by (simp add: BTREE_PAGE_SIZE_def)
  have k: "0 < k" "k < length l"
    using l2 three(5) split_pos_ge [of "length l div 2" l] small_tail_fits [OF ls(1) l2] by auto
  have "nsize (take k l) \<le> BTREE_PAGE_SIZE"
  proof (cases "length l div 2 < k")
    case True
    then show ?thesis using moved_cut_small [OF ls(1,2)] three(5) by simp
  next
    case False
    then have "k = length l div 2" using three(5) split_pos_ge [of "length l div 2" l] by simp
    then have "2 * k \<le> m" "2 * m \<le> length es" using m(1) ls(3) by presburger+
    then have cnt: "k \<le> length (drop k l)" "2 * k \<le> length (drop m es)" using ls(3) by simp_all
    have "nsize (take k l) + nsize (drop k l) + nsize (drop m es) = nsize es + 8"
      using nsize_split [of k l] nsize_split [of m es] three(3) by simp
    then have "nsize (take k l) + 42 * k \<le> 4684"
      using cnt total nsize_lower [of "drop k l"] nsize_lower [of "drop m es"] by linarith
    moreover have "nsize (take k l) \<le> 4 + 294 * k"
      using nsize_upper [of "take k l"] ls(1) k(2) by (simp add: list_all_take_drop)
    ultimately show ?thesis by (cases "14 \<le> k") (auto simp: BTREE_PAGE_SIZE_def)
  qed
  moreover have "nsize (drop k l) \<le> BTREE_PAGE_SIZE" "nsize (drop m es) \<le> BTREE_PAGE_SIZE"
    using split_pos_fits [of "length l div 2" l] split_pos_fits [of "length es div 2" es] three(2,5) by auto
  moreover have "take k l \<noteq> []" "drop k l \<noteq> []" "drop m es \<noteq> []" using k m(2) by auto
  ultimately show ?thesis by (simp add: splittable_def three(6))
qed


subsection \<open>Splitting that does not fit\<close>

text \<open>
  A buffer that is too short for its entries either makes an append panic or silently
  loses bytes of the last key or value. In both cases header and offsets stay as they
  would be, so that the size check that follows sees the true size.
\<close>

definition offs :: "BNode \<Rightarrow> nat \<Rightarrow> entry list \<Rightarrow> bool" where
  "offs bs n es \<longleftrightarrow>
     length bs < 65536 \<and> 4 + 10 * n \<le> length bs \<and> length es \<le> n \<and> sub bs 2 2 = le_bytes 2 n
   \<and> (\<forall>i < length es. sub bs (4 + 8 * n + 2 * i) 2 = le_bytes 2 (koff (take (Suc i) es)))"

lemma sub_patch_before: "pos \<le> length bs \<Longrightarrow> q + n \<le> pos \<Longrightarrow> sub (patch bs pos xs) q n = sub bs q n"
  by (simp add: sub_def patch_def take_drop min_def)

lemma offs_patch_kv:
  assumes "offs bs n es" "4 + 10 * n \<le> pos" "pos \<le> length bs"
  shows "offs (patch bs pos xs) n es"
  using assms by (auto simp: offs_def sub_patch_before)

lemma offs_nkeys: "offs bs n es \<Longrightarrow> nkeys bs = Some n"
  by (auto simp: offs_def nkeys_def get_le_def)

lemma offs_getOffset:
  assumes "offs bs n es" "i \<le> length es" "koff es < 65536"
  shows "getOffset bs i = Some (koff (take i es))"
proof (cases i)
  case (Suc j)
  then have "sub bs (4 + 8 * n + 2 * j) 2 = le_bytes 2 (koff (take i es))"
    and "koff (take i es) < 65536"
    using assms koff_take_le [of i es] by (auto simp: offs_def)
  then show ?thesis
    using Suc assms offs_nkeys [OF assms(1)]
    by (auto simp: getOffset_def offsetPos_def get_le_def HEADER_SIZE_def offs_def)
qed (simp add: getOffset_def)

lemma offs_kvPos:
  assumes "offs bs n es" "i \<le> length es" "4 + 10 * n + koff es < 65536"
  shows "kvPos bs i = Some (4 + 10 * n + koff (take i es))"
  using assms offs_getOffset [OF assms(1,2)] offs_nkeys [OF assms(1)] koff_take_le [of i es]
  by (auto simp: kvPos_def offs_def HEADER_SIZE_def)

lemma nodeAppendKV_offs:
  assumes o: "offs bs n es" and i: "length es < n"
    and sz: "4 + 10 * n + koff es + 4 + length k + length v < 65536"
    and ret: "nodeAppendKV bs (length es) ptr k v = Some bs'"
  shows "offs bs' n (es @ [(ptr, k, v)])"
proof -
  let ?p = "4 + 10 * n + koff es"
  have len: "length bs < 65536" "4 + 10 * n \<le> length bs" using o by (auto simp: offs_def)
  let ?b1 = "patch bs (4 + 8 * length es) (le_bytes 8 ptr)"
  have o1: "offs ?b1 n es" using o i by (auto simp: offs_def sub_patch_other)
  have "setPtr bs (length es) ptr = Some ?b1"
    using offs_nkeys [OF o] i len by (simp add: setPtr_def put_le_def HEADER_SIZE_def)
  moreover have "kvPos ?b1 (length es) = Some ?p" using offs_kvPos [OF o1] sz by simp
  ultimately obtain b2 b3 b4 b5 where
      b2: "put_le 2 ?b1 ?p (length k) = Some b2"
    and b3: "put_le 2 b2 (?p + 2) (length v) = Some b3"
    and b4: "copy_at b3 (?p + 4) k = Some b4" and b5: "copy_at b4 (?p + 4 + length k) v = Some b5"
    and fin: "do { off \<leftarrow> getOffset b5 (length es);
      setOffset b5 (u16 (length es + 1)) (u16 (off + 4 + u16 (length k + length v))) } = Some bs'"
    using ret sz by (auto simp: nodeAppendKV_def bind_eq_Some_conv)
  have o5: "offs b5 n es"
    using o1 b2 b3 b4 b5
    by (auto simp: put_le_def copy_at_def split: if_splits intro!: offs_patch_kv)
  have off: "getOffset b5 (length es) = Some (koff es)" using offs_getOffset [OF o5] sz by simp
  then have bs': "bs' = patch b5 (4 + 8 * n + 2 * length es) (le_bytes 2 (koff (es @ [(ptr, k, v)])))"
    using fin offs_nkeys [OF o5] i len sz o5
    by (simp add: setOffset_def offsetPos_def put_le_def HEADER_SIZE_def offs_def add.assoc split: if_splits)
  show ?thesis
    using o5 i sub_patch_same [of "4 + 8 * n + 2 * length es" "le_bytes 2 (koff (es @ [(ptr, k, v)]))" b5]
    unfolding bs' by (auto simp: offs_def less_Suc_eq nth_append sub_patch_other)
qed


lemma nodeAppendRange_offs:
  assumes "node_rep old ty fs"
    and "offs bs n es" "src + k \<le> length fs" "length es + k \<le> n"
    and "4 + 10 * n + koff es + koff (sub fs src k) < 65536"
    and "nodeAppendRange bs old (length es) src k = Some bs'"
  shows "offs bs' n (es @ sub fs src k)"
  using assms(2-)
proof (induction k arbitrary: bs es src)
  case (Suc k)
  let ?e = "fs ! src"
  have src: "src < length fs" "src < 6554" using Suc.prems node_rep_bounds(3) [OF assms(1)] by auto
  have es: "length es < 6554" "length es < n" using Suc.prems by (auto simp: offs_def)
  have step: "sub fs src (Suc k) = ?e # sub fs (Suc src) k" using src(1) by (rule sub_Suc)
  obtain b1 where b1: "nodeAppendKV bs (length es) (ent_ptr ?e) (ent_key ?e) (ent_val ?e) = Some b1"
      and rest: "nodeAppendRange b1 old (length (es @ [?e])) (Suc src) k = Some bs'"
    using Suc.prems(5) src es node_rep_readers(3,4,5) [OF assms(1)]
    by (auto simp: bind_eq_Some_conv)
  have "offs b1 n (es @ [?e])"
    using nodeAppendKV_offs [OF Suc.prems(1) es(2) _ b1] Suc.prems(4) step by simp
  from Suc.IH [OF this _ _ _ rest] show ?case
    using Suc.prems step by simp
qed simp

lemma short_buffer_nbytes:
  assumes old: "node_rep old ty fs" and m: "0 < m" "m \<le> length fs" and sz: "nsize (take m fs) < 65536"
    and len: "length b = BTREE_PAGE_SIZE"
    and b0: "setHeader b ty m = Some b0" and b1: "nodeAppendRange b0 old 0 0 m = Some b1"
  shows "nbytes b1 = Some (nsize (take m fs))"
proof -
  have b0eq: "b0 = patch (patch b 0 (le_bytes 2 ty)) 2 (le_bytes 2 m)"
    using b0 len by (simp add: setHeader_def put_le_def BTREE_PAGE_SIZE_def)
  have l0: "length b0 = BTREE_PAGE_SIZE" and m0: "sub b0 2 2 = le_bytes 2 m"
    using len sub_patch_same [of 2 "le_bytes 2 m" "patch b 0 (le_bytes 2 ty)"]
    unfolding b0eq by (simp_all add: BTREE_PAGE_SIZE_def)
  have n0: "nkeys b0 = Some m"
    using l0 m0 m node_rep_bounds(3) [OF old] by (simp add: nkeys_def get_le_def BTREE_PAGE_SIZE_def)
  show ?thesis
  proof (cases "4 + 10 * m \<le> BTREE_PAGE_SIZE")
    case True
    then have "offs b0 m []" using l0 m0 by (simp add: offs_def BTREE_PAGE_SIZE_def)
    then have "offs b1 m (take m fs)"
      using nodeAppendRange_offs [OF old, of b0 m "[]" 0 m b1] b1 m sz by (simp add: nsize_def)
    then show ?thesis
      using offs_kvPos [of b1 m "take m fs" m] offs_nkeys [of b1 m] m sz
      by (simp add: nbytes_def nsize_def)
  next
    case False
    obtain k where k: "m = Suc k" using m(1) by (cases m) auto
    have "4 + 10 * m < 65536" using m node_rep_bounds(3) [OF old] by linarith
    then have "kvPos b' 0 = Some (4 + 10 * m)" if "setPtr b0 0 p = Some b'" for b' p
      using that n0 l0 m0 node_rep_bounds(3) [OF old] m
      by (auto simp: setPtr_def put_le_def kvPos_def getOffset_def nkeys_def get_le_def HEADER_SIZE_def
          sub_patch_other BTREE_PAGE_SIZE_def split: if_splits)
    moreover have "length b' = BTREE_PAGE_SIZE" if "setPtr b0 0 p = Some b'" for b' p
      using that n0 l0 by (auto simp: setPtr_def put_le_def bind_eq_Some_conv split: if_splits)
    ultimately have "nodeAppendKV b0 0 p key val = None" for p key val
      using False by (cases "setPtr b0 0 p") (auto simp: nodeAppendKV_def put_le_def)
    with b1 k show ?thesis by (auto simp: bind_eq_Some_conv)
  qed
qed


lemma nodeSplit2_short:
  assumes old: "node_rep old ty es" and m: "m = split_pos es (length es div 2)"
    and sz: "nsize es < 65536" and len: "length l = BTREE_PAGE_SIZE"
    and ret: "nodeSplit2 l r old = Some (l', r')"
  shows "2 \<le> length es \<and> m < length es \<and> nbytes l' = Some (nsize (take m es))"
proof -
  note rd = node_rep_readers(1,2) [OF old]
  have n: "2 \<le> length es" "m < length es"
    using ret rd splitLoop_rep [OF old, of "length es div 2"] m
    by (auto simp: nodeSplit2_def bind_eq_Some_conv)
  obtain b0 where "setHeader l ty m = Some b0" "nodeAppendRange b0 old 0 0 m = Some l'"
    using ret rd splitLoop_rep [OF old, of "length es div 2"] m
    by (auto simp: nodeSplit2_def bind_eq_Some_conv)
  moreover have "0 < m" using m n split_pos_ge [of "length es div 2" es] by simp
  moreover have "nsize (take m es) < 65536" using sz nsize_take_le [of m es] by simp
  ultimately show ?thesis
    using short_buffer_nbytes [OF old _ _ _ len] n by auto
qed

lemma nodeSplit2_None:
  assumes old: "node_rep old ty es" and m: "m = split_pos es (length es div 2)"
    and "length es < 2 \<or> length es \<le> m"
  shows "nodeSplit2 l r old = None"
proof (rule ccontr)
  assume "nodeSplit2 l r old \<noteq> None"
  then have "2 \<le> length es" "m < length es"
    using node_rep_readers(1,2) [OF old] splitLoop_rep [OF old, of "length es div 2"] m
    by (auto simp: nodeSplit2_def bind_eq_Some_conv)
  with assms(3) show False by simp
qed

text \<open>The exact condition under which \<^const>\<open>nodeSplit3\<close> returns.\<close>

lemma nodeSplit3_None:
  assumes old: "node_rep old ty es" "nsize es \<le> 2 * BTREE_PAGE_SIZE" "es \<noteq> []"
    and ns: "\<not> splittable es"
  shows "nodeSplit3 old = None"
proof (rule ccontr)
  assume "nodeSplit3 old \<noteq> None"
  then obtain bs where ret: "nodeSplit3 old = Some bs" by auto
  note nb = node_rep_readers(7) [OF old(1)]
  have big: "\<not> nsize es \<le> BTREE_PAGE_SIZE"
    using ns old(3) by (auto simp: splittable_def split3_def)
  let ?m = "split_pos es (length es div 2)"
  let ?l = "take ?m es"
  obtain l r where s2: "nodeSplit2 (make_buf (2 * BTREE_PAGE_SIZE)) (make_buf BTREE_PAGE_SIZE) old = Some (l, r)"
    and rest: "nodeSplit3 old = do { lb \<leftarrow> nbytes l;
        (if lb \<le> BTREE_PAGE_SIZE then do { l \<leftarrow> cut_page l; Some [l, r] }
         else do { (ll, mid) \<leftarrow> nodeSplit2 (make_buf BTREE_PAGE_SIZE) (make_buf BTREE_PAGE_SIZE) l;
           llb \<leftarrow> nbytes ll; _ \<leftarrow> go_assert (llb \<le> BTREE_PAGE_SIZE); Some [ll, mid, r] }) }"
    using ret big nb by (auto simp: nodeSplit3_def bind_eq_Some_conv)
  have "\<not> (length es < 2 \<or> length es \<le> ?m)"
    using s2 nodeSplit2_None [OF old(1) refl] by (metis option.distinct(1))
  then have n: "2 \<le> length es" "?m < length es" by auto
  have "nsize ?l \<le> 2 * BTREE_PAGE_SIZE" using nsize_take_le [of ?m es] old(2) by simp
  then have l: "node_rep l ty ?l"
    using nodeSplit2_rep [OF old(1) n(1) refl n(2), of "make_buf (2 * BTREE_PAGE_SIZE)" "make_buf BTREE_PAGE_SIZE"] s2
    by (auto simp: BTREE_PAGE_SIZE_def)
  have ne: "?l \<noteq> []" "drop ?m es \<noteq> []" "nsize (drop ?m es) \<le> BTREE_PAGE_SIZE"
    using n split_pos_ge [of "length es div 2" es] split_pos_fits [of "length es div 2" es] by auto
  have big2: "\<not> nsize ?l \<le> BTREE_PAGE_SIZE"
    using ns ne big by (auto simp: splittable_def split3_def Let_def)
  define L where "L = ?l"
  define k where "k = split_pos L (length L div 2)"
  have L: "node_rep l ty L" "\<not> nsize L \<le> BTREE_PAGE_SIZE" using l big2 by (simp_all add: L_def)
  obtain ll mid llb where s3: "nodeSplit2 (make_buf BTREE_PAGE_SIZE) (make_buf BTREE_PAGE_SIZE) l = Some (ll, mid)"
      "nbytes ll = Some llb" "llb \<le> BTREE_PAGE_SIZE"
    using ret rest L(2) node_rep_readers(7) [OF L(1)] by (auto simp: bind_eq_Some_conv)
  have k: "2 \<le> length L" "k < length L" "llb = nsize (take k L)"
    using nodeSplit2_short [OF L(1) k_def _ _ s3(1)] s3(2) node_rep_bounds(1,2) [OF L(1)] by auto
  have "0 < k" "nsize (drop k L) \<le> BTREE_PAGE_SIZE"
    using k(1) split_pos_ge [of "length L div 2" L] split_pos_fits [of "length L div 2" L]
    unfolding k_def by linarith+
  moreover have "split3 es = [take k L, drop k L, drop ?m es]"
    using big L(2) by (simp add: split3_def Let_def k_def L_def)
  ultimately have "splittable es"
    using s3(3) ne k by (auto simp: splittable_def)
  with ns show False ..
qed

end
