(* ===== verification/BTree.thy ===== *)
theory BTree
  imports NodeOps
begin

text \<open>
  The B+tree of \<^verbatim>\<open>db/btree.go\<close>. \<^verbatim>\<open>BTree\<close> is a root page number and three callbacks that
  manage pages; the callbacks are a record of functions on an abstract page-store state,
  so that the same definitions run over the in-memory pages of a transaction and over the
  file of the store. The recursion follows page pointers, which a damaged file could make
  cyclic: it carries fuel, and the theorems show that the height of the tree is enough.
\<close>

section \<open>Definitions\<close>

record 's callbacks =
  tree_get :: "'s \<Rightarrow> nat \<Rightarrow> BNode option"
  tree_new :: "'s \<Rightarrow> BNode \<Rightarrow> (nat \<times> 's) option"
  tree_del :: "'s \<Rightarrow> nat \<Rightarrow> 's option"

definition MODE_UPSERT :: nat where [format_consts]: "MODE_UPSERT = 0"
definition MODE_UPDATE_ONLY :: nat where [format_consts]: "MODE_UPDATE_ONLY = 1"
definition MODE_INSERT_ONLY :: nat where [format_consts]: "MODE_INSERT_ONLY = 2"

record UpdateReq =
  Key :: bytes
  Val :: bytes
  Mode :: nat
  Added :: bool
  Updated :: bool
  Old :: bytes

definition mk_update :: "bytes \<Rightarrow> bytes \<Rightarrow> nat \<Rightarrow> UpdateReq" where
  "mk_update k v m = \<lparr>Key = k, Val = v, Mode = m, Added = False, Updated = False, Old = []\<rparr>"

record DeleteReq =
  DKey :: bytes
  DOld :: bytes

definition mk_delete :: "bytes \<Rightarrow> DeleteReq" where
  "mk_delete k = \<lparr>DKey = k, DOld = []\<rparr>"

text \<open>The loop of \<^verbatim>\<open>nodeReplaceKidN\<close> (and of the root split): store each kid and link it.\<close>

fun appendKids :: "'s callbacks \<Rightarrow> BNode \<Rightarrow> nat \<Rightarrow> BNode list \<Rightarrow> 's \<Rightarrow> (BNode \<times> 's) option" where
  "appendKids cb new idx [] s = Some (new, s)"
| "appendKids cb new idx (node # kids) s = do {
     (ptr, s) \<leftarrow> tree_new cb s node;
     key \<leftarrow> getKey node 0;
     new \<leftarrow> nodeAppendKV new idx ptr key [];
     appendKids cb new (u16 (idx + 1)) kids s
   }"

definition nodeReplaceKidN ::
  "'s callbacks \<Rightarrow> BNode \<Rightarrow> BNode \<Rightarrow> nat \<Rightarrow> BNode list \<Rightarrow> 's \<Rightarrow> (BNode \<times> 's) option" where
  "nodeReplaceKidN cb new old idx kids s = do {
     n \<leftarrow> nkeys old;
     new \<leftarrow> setHeader new BNODE_NODE (u16 (n + sub16 (length kids) 1));
     new \<leftarrow> nodeAppendRange new old 0 0 idx;
     (new, s) \<leftarrow> appendKids cb new idx kids s;
     new \<leftarrow> nodeAppendRange new old (u16 (idx + length kids)) (u16 (idx + 1)) (sub16 n (idx + 1));
     Some (new, s)
   }"

text \<open>The empty node is Go's \<^verbatim>\<open>BNode{}\<close>: nothing was updated.\<close>

fun treeUpdate :: "'s callbacks \<Rightarrow> nat \<Rightarrow> UpdateReq \<Rightarrow> BNode \<Rightarrow> 's \<Rightarrow> (UpdateReq \<times> BNode \<times> 's) option"
  and nodeUpdate :: "'s callbacks \<Rightarrow> nat \<Rightarrow> UpdateReq \<Rightarrow> BNode \<Rightarrow> BNode \<Rightarrow> nat \<Rightarrow> 's
    \<Rightarrow> (UpdateReq \<times> BNode \<times> 's) option" where
  "treeUpdate cb 0 req node s = None"
| "treeUpdate cb (Suc fuel) req node s = do {
     let new = make_buf (2 * BTREE_PAGE_SIZE);
     idx \<leftarrow> nodeLookupLE node (Key req);
     ty \<leftarrow> btype node;
     (if ty = BNODE_LEAF then do {
        k \<leftarrow> getKey node idx;
        (if Key req = k then
           (if Mode req = MODE_INSERT_ONLY then Some (req, [], s)
            else do {
              v \<leftarrow> getVal node idx;
              (if Val req = v then Some (req, [], s)
               else do {
                 new \<leftarrow> leafUpdate new node idx (Key req) (Val req);
                 Some (req\<lparr>Updated := True, Old := v\<rparr>, new, s)
               })
            })
         else
           (if Mode req = MODE_UPDATE_ONLY then Some (req, [], s)
            else do {
              new \<leftarrow> leafInsert new node (u16 (idx + 1)) (Key req) (Val req);
              Some (req\<lparr>Updated := True, Added := True\<rparr>, new, s)
            }))
      }
      else if ty = BNODE_NODE then nodeUpdate cb fuel req new node idx s
      else None)
   }"
| "nodeUpdate cb fuel req new node idx s = do {
     kptr \<leftarrow> getPtr node idx;
     kid \<leftarrow> tree_get cb s kptr;
     (req, updated, s) \<leftarrow> treeUpdate cb fuel req kid s;
     (if length updated = 0 then Some (req, [], s)
      else do {
        split \<leftarrow> nodeSplit3 updated;
        s \<leftarrow> tree_del cb s kptr;
        (new, s) \<leftarrow> nodeReplaceKidN cb new node idx split s;
        Some (req, new, s)
      })
   }"

text \<open>Merge direction -1 (left), 0 (none) or 1 (right), and the sibling to merge with.\<close>

definition shouldMerge ::
  "'s callbacks \<Rightarrow> BNode \<Rightarrow> nat \<Rightarrow> BNode \<Rightarrow> 's \<Rightarrow> (int \<times> BNode) option" where
  "shouldMerge cb node idx updated s = do {
     ub \<leftarrow> nbytes updated;
     (if ub > BTREE_PAGE_SIZE div 4 then Some (0, [])
      else do {
        left \<leftarrow> (if idx > 0 then do {
            p \<leftarrow> getPtr node (sub16 idx 1);
            sibling \<leftarrow> tree_get cb s p;
            sb \<leftarrow> nbytes sibling;
            Some (if sub16 (u16 (sb + ub)) HEADER_SIZE \<le> BTREE_PAGE_SIZE then Some sibling else None)
          } else Some None);
        (case left of
           Some sibling \<Rightarrow> Some (-1, sibling)
         | None \<Rightarrow> do {
             n \<leftarrow> nkeys node;
             (if idx < sub16 n 1 then do {
                p \<leftarrow> getPtr node (u16 (idx + 1));
                sibling \<leftarrow> tree_get cb s p;
                sb \<leftarrow> nbytes sibling;
                Some (if sub16 (u16 (sb + ub)) HEADER_SIZE \<le> BTREE_PAGE_SIZE then (1, sibling) else (0, []))
              } else Some (0, []))
           })
      })
   }"

fun treeDelete :: "'s callbacks \<Rightarrow> nat \<Rightarrow> DeleteReq \<Rightarrow> BNode \<Rightarrow> 's \<Rightarrow> (DeleteReq \<times> BNode \<times> 's) option"
  and nodeDelete :: "'s callbacks \<Rightarrow> nat \<Rightarrow> DeleteReq \<Rightarrow> BNode \<Rightarrow> nat \<Rightarrow> 's
    \<Rightarrow> (DeleteReq \<times> BNode \<times> 's) option" where
  "treeDelete cb 0 req node s = None"
| "treeDelete cb (Suc fuel) req node s = do {
     idx \<leftarrow> nodeLookupLE node (DKey req);
     ty \<leftarrow> btype node;
     (if ty = BNODE_LEAF then do {
        k \<leftarrow> getKey node idx;
        (if DKey req \<noteq> k then Some (req, [], s)
         else do {
           v \<leftarrow> getVal node idx;
           new \<leftarrow> leafDelete (make_buf BTREE_PAGE_SIZE) node idx;
           Some (req\<lparr>DOld := v\<rparr>, new, s)
         })
      }
      else if ty = BNODE_NODE then nodeDelete cb fuel req node idx s
      else None)
   }"
| "nodeDelete cb fuel req node idx s = do {
     kptr \<leftarrow> getPtr node idx;
     kid \<leftarrow> tree_get cb s kptr;
     (req, updated, s) \<leftarrow> treeDelete cb fuel req kid s;
     (if length updated = 0 then Some (req, [], s)
      else do {
        s \<leftarrow> tree_del cb s kptr;
        let new = make_buf BTREE_PAGE_SIZE;
        (dir, sibling) \<leftarrow> shouldMerge cb node idx updated s;
        nu \<leftarrow> nkeys updated;
        (if dir < 0 then do {
           merged \<leftarrow> nodeMerge (make_buf BTREE_PAGE_SIZE) sibling updated;
           p \<leftarrow> getPtr node (sub16 idx 1);
           s \<leftarrow> tree_del cb s p;
           (ptr, s) \<leftarrow> tree_new cb s merged;
           key \<leftarrow> getKey merged 0;
           new \<leftarrow> nodeReplace2Kids new node (sub16 idx 1) ptr key;
           Some (req, new, s)
         }
         else if dir > 0 then do {
           merged \<leftarrow> nodeMerge (make_buf BTREE_PAGE_SIZE) updated sibling;
           p \<leftarrow> getPtr node (u16 (idx + 1));
           s \<leftarrow> tree_del cb s p;
           (ptr, s) \<leftarrow> tree_new cb s merged;
           key \<leftarrow> getKey merged 0;
           new \<leftarrow> nodeReplace2Kids new node idx ptr key;
           Some (req, new, s)
         }
         else if nu = 0 then do {
           n \<leftarrow> nkeys node;
           _ \<leftarrow> go_assert (n = 1 \<and> idx = 0);
           new \<leftarrow> setHeader new BNODE_NODE 0;
           Some (req, new, s)
         }
         else do {
           (new, s) \<leftarrow> nodeReplaceKidN cb new node idx [updated] s;
           Some (req, new, s)
         })
      })
   }"

fun nodeGetKey :: "'s callbacks \<Rightarrow> nat \<Rightarrow> BNode \<Rightarrow> bytes \<Rightarrow> 's \<Rightarrow> bytes option option" where
  "nodeGetKey cb 0 node key s = None"
| "nodeGetKey cb (Suc fuel) node key s = do {
     idx \<leftarrow> nodeLookupLE node key;
     ty \<leftarrow> btype node;
     (if ty = BNODE_LEAF then do {
        k \<leftarrow> getKey node idx;
        (if key = k then do { v \<leftarrow> getVal node idx; Some (Some v) } else Some None)
      }
      else if ty = BNODE_NODE then do {
        p \<leftarrow> getPtr node idx;
        kid \<leftarrow> tree_get cb s p;
        nodeGetKey cb fuel kid key s
      }
      else None)
   }"

subsection \<open>Interface\<close>

text \<open>
  The methods of \<^verbatim>\<open>BTree\<close>. The result holds the Go return values, the request with its
  output fields, the new root and the new state of the page store.
\<close>

definition btree_Update :: "'s callbacks \<Rightarrow> nat \<Rightarrow> UpdateReq \<Rightarrow> nat \<Rightarrow> 's
    \<Rightarrow> ((limit_error + bool) \<times> UpdateReq \<times> nat \<times> 's) option" where
  "btree_Update cb fuel req root s =
     (case checkLimit (Key req) (Val req) of
        Some err \<Rightarrow> Some (Inl err, req, root, s)
      | None \<Rightarrow>
        if root = 0 then do {
          node \<leftarrow> setHeader (make_buf BTREE_PAGE_SIZE) BNODE_LEAF 2;
          node \<leftarrow> nodeAppendKV node 0 0 [] [];
          node \<leftarrow> nodeAppendKV node 1 0 (Key req) (Val req);
          (root, s) \<leftarrow> tree_new cb s node;
          Some (Inr True, req\<lparr>Added := True, Updated := True\<rparr>, root, s)
        }
        else do {
          node \<leftarrow> tree_get cb s root;
          (req, updated, s) \<leftarrow> treeUpdate cb fuel req node s;
          (if length updated = 0 then Some (Inr False, req, root, s)
           else do {
             split \<leftarrow> nodeSplit3 updated;
             s \<leftarrow> tree_del cb s root;
             (if length split > 1 then do {
                node \<leftarrow> setHeader (make_buf BTREE_PAGE_SIZE) BNODE_NODE (length split);
                (node, s) \<leftarrow> appendKids cb node 0 split s;
                (root, s) \<leftarrow> tree_new cb s node;
                Some (Inr True, req, root, s)
              }
              else do {
                (root, s) \<leftarrow> tree_new cb s (hd split);
                Some (Inr True, req, root, s)
              })
           })
        })"

definition btree_Upsert :: "'s callbacks \<Rightarrow> nat \<Rightarrow> bytes \<Rightarrow> bytes \<Rightarrow> nat \<Rightarrow> 's
    \<Rightarrow> ((limit_error + bool) \<times> UpdateReq \<times> nat \<times> 's) option" where
  "btree_Upsert cb fuel key val root s = btree_Update cb fuel (mk_update key val MODE_UPSERT) root s"

definition btree_Delete :: "'s callbacks \<Rightarrow> nat \<Rightarrow> DeleteReq \<Rightarrow> nat \<Rightarrow> 's
    \<Rightarrow> ((limit_error + bool) \<times> DeleteReq \<times> nat \<times> 's) option" where
  "btree_Delete cb fuel req root s =
     (case checkLimit (DKey req) [] of
        Some err \<Rightarrow> Some (Inl err, req, root, s)
      | None \<Rightarrow>
        if root = 0 then Some (Inr False, req, root, s)
        else do {
          node \<leftarrow> tree_get cb s root;
          (req, updated, s) \<leftarrow> treeDelete cb fuel req node s;
          (if length updated = 0 then Some (Inr False, req, root, s)
           else do {
             s \<leftarrow> tree_del cb s root;
             ty \<leftarrow> btype updated;
             n \<leftarrow> nkeys updated;
             (if ty = BNODE_NODE \<and> n = 1 then do {
                root \<leftarrow> getPtr updated 0;
                Some (Inr True, req, root, s)
              }
              else do {
                (root, s) \<leftarrow> tree_new cb s updated;
                Some (Inr True, req, root, s)
              })
           })
        })"

text \<open>\<open>Some (Some v)\<close>: found; \<open>Some None\<close>: not found; \<open>None\<close>: panic or out of fuel.\<close>

definition btree_Get :: "'s callbacks \<Rightarrow> nat \<Rightarrow> bytes \<Rightarrow> nat \<Rightarrow> 's \<Rightarrow> bytes option option" where
  "btree_Get cb fuel key root s =
     (if root = 0 then Some None
      else do {
        node \<leftarrow> tree_get cb s root;
        nodeGetKey cb fuel node key s
      })"

end
