(* ===== verification/TreeShape.thy ===== *)
theory TreeShape
  imports BTree
begin

text \<open>
  The abstract side of the B+tree: a tree of entry lists with page numbers (\<open>shape\<close>), its
  leaves as one list of key/value pairs, the well-formedness the code maintains, and the
  relation between a page store and a shape. The page store is a contract (locale
  \<open>pager\<close>), which the transaction's in-memory pages and the file-backed store satisfy.
\<close>

section \<open>Sorted lists of key/value pairs\<close>

type_synonym kv = "bytes \<times> bytes"

abbreviation sorted_kvs :: "kv list \<Rightarrow> bool" where
  "sorted_kvs kvs \<equiv> sorted_wrt (<) (map fst kvs)"

fun ins_kv :: "bytes \<Rightarrow> bytes \<Rightarrow> kv list \<Rightarrow> kv list" where
  "ins_kv k v [] = [(k, v)]"
| "ins_kv k v ((k', v') # kvs) =
     (if k < k' then (k, v) # (k', v') # kvs
      else if k = k' then (k, v) # kvs
      else (k', v') # ins_kv k v kvs)"

definition del_kv :: "bytes \<Rightarrow> kv list \<Rightarrow> kv list" where
  "del_kv k kvs = filter (\<lambda>kv. fst kv \<noteq> k) kvs"

lemma map_of_ins_kv: "map_of (ins_kv k v kvs) = (map_of kvs)(k \<mapsto> v)"
  if "sorted_kvs kvs"
  using that
proof (induction k v kvs rule: ins_kv.induct)
  case (2 k v k' v' kvs)
  have "map_of kvs k' = None" if "k = k'"
    using "2.prems" that by (force simp: map_of_eq_None_iff)
  then show ?case using 2 by (auto simp: fun_eq_iff)
qed simp

lemma map_of_del_kv: "map_of (del_kv k kvs) = (map_of kvs)(k := None)"
  by (induction kvs) (auto simp: del_kv_def fun_eq_iff)

lemma set_ins_kv: "fst ` set (ins_kv k v kvs) = insert k (fst ` set kvs)"
  by (induction k v kvs rule: ins_kv.induct) auto

lemma set_ins_kv_sub: "set (ins_kv k v kvs) \<subseteq> insert (k, v) (set kvs)"
  by (induction k v kvs rule: ins_kv.induct) auto

lemma sorted_ins_kv [simp]: "sorted_kvs kvs \<Longrightarrow> sorted_kvs (ins_kv k v kvs)"
proof (induction k v kvs rule: ins_kv.induct)
  case (2 k v k' v' kvs)
  then show ?case
    using set_ins_kv [of k v kvs] by (fastforce simp: image_def)
qed simp

lemma sorted_del_kv [simp]: "sorted_kvs kvs \<Longrightarrow> sorted_kvs (del_kv k kvs)"
  by (induction kvs) (auto simp: del_kv_def)

lemma ins_kv_append_right:
  "\<forall>k' \<in> fst ` set as. k' < k \<Longrightarrow> ins_kv k v (as @ bs) = as @ ins_kv k v bs"
  by (induction as) auto

lemma ins_kv_append_left:
  assumes "\<forall>k' \<in> fst ` set bs. k < k'"
  shows "ins_kv k v (as @ bs) = ins_kv k v as @ bs"
  using assms
proof (induction k v as rule: ins_kv.induct)
  case (1 k v)
  then show ?case by (cases bs) auto
qed auto

lemma ins_kv_hd:
  "kvs \<noteq> [] \<Longrightarrow> fst (hd kvs) \<le> k \<Longrightarrow> ins_kv k v kvs \<noteq> [] \<and> fst (hd (ins_kv k v kvs)) = fst (hd kvs)"
  by (cases kvs) (auto split: if_splits)

lemma del_kv_append [simp]: "del_kv k (as @ bs) = del_kv k as @ del_kv k bs"
  by (simp add: del_kv_def)

lemma del_kv_absent: "k \<notin> fst ` set kvs \<Longrightarrow> del_kv k kvs = kvs"
  by (induction kvs) (auto simp: del_kv_def)

lemma sorted_kvs_append:
  "sorted_kvs (as @ bs) \<longleftrightarrow> sorted_kvs as \<and> sorted_kvs bs \<and> (\<forall>a \<in> fst ` set as. \<forall>b \<in> fst ` set bs. a < b)"
  by (simp add: sorted_wrt_append)

section \<open>Shapes\<close>

datatype shape = SLeaf "entry list" | SNode "(nat \<times> bytes \<times> shape) list"

type_synonym kid = "nat \<times> bytes \<times> shape"

abbreviation kid_ptr :: "kid \<Rightarrow> nat" where "kid_ptr c \<equiv> fst c"
abbreviation kid_key :: "kid \<Rightarrow> bytes" where "kid_key c \<equiv> fst (snd c)"
abbreviation kid_tree :: "kid \<Rightarrow> shape" where "kid_tree c \<equiv> snd (snd c)"

definition kid_entry :: "kid \<Rightarrow> entry" where
  "kid_entry c = (kid_ptr c, kid_key c, [])"

fun entries_of :: "shape \<Rightarrow> entry list" where
  "entries_of (SLeaf es) = es"
| "entries_of (SNode ks) = map kid_entry ks"

fun stype :: "shape \<Rightarrow> nat" where
  "stype (SLeaf es) = BNODE_LEAF"
| "stype (SNode ks) = BNODE_NODE"

fun kvs_of :: "shape \<Rightarrow> kv list" where
  "kvs_of (SLeaf es) = map snd es"
| "kvs_of (SNode ks) = concat (map (\<lambda>c. kvs_of (kid_tree c)) ks)"

fun spages :: "shape \<Rightarrow> nat list" where
  "spages (SLeaf es) = []"
| "spages (SNode ks) = concat (map (\<lambda>c. kid_ptr c # spages (kid_tree c)) ks)"

definition kids_kvs :: "kid list \<Rightarrow> kv list" where
  "kids_kvs ks = concat (map (\<lambda>c. kvs_of (kid_tree c)) ks)"

definition kids_pages :: "kid list \<Rightarrow> nat list" where
  "kids_pages ks = concat (map (\<lambda>c. kid_ptr c # spages (kid_tree c)) ks)"

lemma kids_simps [simp]:
  "kids_kvs [] = []" "kids_kvs (c # ks) = kvs_of (kid_tree c) @ kids_kvs ks"
  "kids_kvs (ks @ ks') = kids_kvs ks @ kids_kvs ks'"
  "kids_pages [] = []" "kids_pages (c # ks) = kid_ptr c # spages (kid_tree c) @ kids_pages ks"
  "kids_pages (ks @ ks') = kids_pages ks @ kids_pages ks'"
  "kvs_of (SNode ks) = kids_kvs ks" "spages (SNode ks) = kids_pages ks"
  by (simp_all add: kids_kvs_def kids_pages_def)

declare kvs_of.simps(2) [simp del] spages.simps(2) [simp del]

text \<open>
  All leaves at the same depth \<open>h\<close>; every separator is the first key below it; no subtree
  is empty; every node below the root fits a page.
\<close>

fun wf_shape :: "nat \<Rightarrow> shape \<Rightarrow> bool" where
  "wf_shape 0 (SLeaf es) = (\<forall>e \<in> set es. ent_ptr e = 0)"
| "wf_shape (Suc h) (SNode ks) =
     (\<forall>c \<in> set ks. wf_shape h (kid_tree c) \<and> kid_ptr c \<noteq> 0
        \<and> kvs_of (kid_tree c) \<noteq> [] \<and> kid_key c = fst (hd (kvs_of (kid_tree c)))
        \<and> nsize (entries_of (kid_tree c)) \<le> BTREE_PAGE_SIZE)"
| "wf_shape _ _ = False"

lemma wf_shape_cases:
  assumes "wf_shape h t"
  obtains (leaf) es where "h = 0" "t = SLeaf es" | (node) h' ks where "h = Suc h'" "t = SNode ks"
  using assms by (cases "(h, t)" rule: wf_shape.cases) auto

definition wf_kid :: "nat \<Rightarrow> kid \<Rightarrow> bool" where
  "wf_kid h c \<longleftrightarrow> wf_shape h (kid_tree c) \<and> kid_ptr c \<noteq> 0
     \<and> kvs_of (kid_tree c) \<noteq> [] \<and> kid_key c = fst (hd (kvs_of (kid_tree c)))
     \<and> nsize (entries_of (kid_tree c)) \<le> BTREE_PAGE_SIZE"

lemma wf_shape_SNode [simp]: "wf_shape (Suc h) (SNode ks) \<longleftrightarrow> (\<forall>c \<in> set ks. wf_kid h c)"
  by (simp add: wf_kid_def)

declare wf_shape.simps(2) [simp del]

text \<open>The separators of a node are sorted when its leaves are.\<close>

lemma kid_keys_in: "wf_kid h c \<Longrightarrow> kid_key c \<in> fst ` set (kvs_of (kid_tree c))"
  by (auto simp: wf_kid_def intro!: imageI)

lemma sorted_kid_keys:
  assumes "\<forall>c \<in> set ks. wf_kid h c" "sorted_kvs (kids_kvs ks)"
  shows "sorted_wrt (<) (map kid_key ks)"
  using assms
proof (induction ks)
  case (Cons c ks)
  have "kid_key c < kid_key c'" if "c' \<in> set ks" for c'
  proof -
    have "kid_key c' \<in> fst ` set (kids_kvs ks)"
      using kid_keys_in [of h c'] Cons.prems(1) that by (force simp: kids_kvs_def)
    moreover have "kid_key c \<in> fst ` set (kvs_of (kid_tree c))"
      using Cons.prems(1) by (intro kid_keys_in [of h]) simp
    ultimately show ?thesis using Cons.prems(2) by (fastforce simp: sorted_wrt_append)
  qed
  with Cons show ?case by (simp add: sorted_wrt_append)
qed simp

lemma entries_sorted:
  assumes "wf_shape h t" "sorted_kvs (kvs_of t)"
  shows "sorted_wrt (<) (map ent_key (entries_of t))"
  using assms
proof (cases rule: wf_shape_cases)
  case (node h' ks)
  then show ?thesis
    using sorted_kid_keys [of ks h'] assms by (simp add: kid_entry_def comp_def)
qed (simp add: comp_def)


section \<open>Page stores\<close>

text \<open>
  What the tree relies on from \<^verbatim>\<open>get\<close>, \<^verbatim>\<open>new\<close> and \<^verbatim>\<open>del\<close>. \<open>view s\<close> are the pages in use
  with their contents; allocation picks a page that is not in use; freeing a page leaves
  all others as they are; \<open>room s\<close> bounds how many allocations and frees still succeed.
\<close>

locale pager =
  fixes cb :: "'s callbacks" and inv :: "'s \<Rightarrow> bool" and view :: "'s \<Rightarrow> nat \<Rightarrow> BNode option"
    and room :: "'s \<Rightarrow> nat"
  assumes get_ok: "inv s \<Longrightarrow> view s p = Some b \<Longrightarrow> tree_get cb s p = Some b"
    and new_ok: "inv s \<Longrightarrow> 0 < room s \<Longrightarrow> length b = BTREE_PAGE_SIZE \<Longrightarrow>
      \<exists>p s'. tree_new cb s b = Some (p, s') \<and> inv s' \<and> p \<noteq> 0 \<and> p < 2 ^ 64 \<and> view s p = None
        \<and> view s' = (view s)(p \<mapsto> b) \<and> room s \<le> Suc (room s')"
    and del_ok: "inv s \<Longrightarrow> 0 < room s \<Longrightarrow> view s p \<noteq> None \<Longrightarrow>
      \<exists>s'. tree_del cb s p = Some s' \<and> inv s' \<and> (\<forall>q. q \<noteq> p \<longrightarrow> view s' q = view s q)
        \<and> room s \<le> Suc (room s')"

section \<open>Pages that store a shape\<close>

text \<open>\<open>stored view t\<close>: every page below the node of \<open>t\<close> holds what \<open>t\<close> says.\<close>

fun stored :: "(nat \<Rightarrow> BNode option) \<Rightarrow> shape \<Rightarrow> bool" where
  "stored view (SLeaf es) = True"
| "stored view (SNode ks) =
     (\<forall>c \<in> set ks. stored view (kid_tree c)
        \<and> (\<exists>b. view (kid_ptr c) = Some b \<and> length b = BTREE_PAGE_SIZE
              \<and> node_rep b (stype (kid_tree c)) (entries_of (kid_tree c))))"

definition stored_kid :: "(nat \<Rightarrow> BNode option) \<Rightarrow> kid \<Rightarrow> bool" where
  "stored_kid view c \<longleftrightarrow> stored view (kid_tree c)
     \<and> (\<exists>b. view (kid_ptr c) = Some b \<and> length b = BTREE_PAGE_SIZE
            \<and> node_rep b (stype (kid_tree c)) (entries_of (kid_tree c)))"

lemma stored_SNode [simp]: "stored view (SNode ks) \<longleftrightarrow> (\<forall>c \<in> set ks. stored_kid view c)"
  by (simp add: stored_kid_def)

declare stored.simps(2) [simp del]

lemma stored_pages: "stored view t \<Longrightarrow> p \<in> set (spages t) \<Longrightarrow> view p \<noteq> None"
proof (induction t)
  case (SNode ks)
  then obtain c where "c \<in> set ks" "p = kid_ptr c \<or> p \<in> set (spages (kid_tree c))"
    by (auto simp: kids_pages_def)
  with SNode show ?case by (cases c) (auto simp: stored_kid_def)
qed simp

lemma stored_cong:
  "stored view t \<Longrightarrow> (\<And>p. p \<in> set (spages t) \<Longrightarrow> view' p = view p) \<Longrightarrow> stored view' t"
proof (induction t)
  case (SNode ks)
  have "stored_kid view' c" if "c \<in> set ks" for c
  proof -
    have "stored view (kid_tree c)" using SNode.prems(1) that by (simp add: stored_kid_def)
    moreover have "view' p = view p" if "p = kid_ptr c \<or> p \<in> set (spages (kid_tree c))" for p
      using SNode.prems(2) \<open>c \<in> set ks\<close> that by (auto simp: kids_pages_def)
    ultimately show ?thesis
      using SNode.IH [of c "snd c" "snd (snd c)"] SNode.prems(1) that
      by (cases c) (auto simp: stored_kid_def snds.simps)
  qed
  then show ?case by simp
qed simp

lemma stored_kids_cong:
  assumes "\<forall>c \<in> set ks. stored_kid view c" "\<And>p. p \<in> set (kids_pages ks) \<Longrightarrow> view' p = view p"
  shows "\<forall>c \<in> set ks. stored_kid view' c"
  using stored_cong [of view "SNode ks" view'] assms by simp

text \<open>A node in memory that stands for a shape.\<close>

definition repr :: "(nat \<Rightarrow> BNode option) \<Rightarrow> BNode \<Rightarrow> shape \<Rightarrow> bool" where
  "repr view node t \<longleftrightarrow> node_rep node (stype t) (entries_of t) \<and> stored view t"

text \<open>A node in memory together with the tree below it.\<close>

definition node_tree :: "(nat \<Rightarrow> BNode option) \<Rightarrow> nat \<Rightarrow> BNode \<Rightarrow> shape \<Rightarrow> bool" where
  "node_tree v h node t \<longleftrightarrow> wf_shape h t \<and> repr v node t \<and> sorted_kvs (kvs_of t) \<and> kvs_of t \<noteq> []
     \<and> distinct (spages t)"

text \<open>Every stored pair is small enough for the page-splitting routine (see \<^const>\<open>small_entry\<close>).\<close>

definition small_kvs :: "kv list \<Rightarrow> bool" where
  "small_kvs kvs \<longleftrightarrow> (\<forall>(k, v) \<in> set kvs. length k + length v \<le> 280)"

lemma small_kvs_append [simp]: "small_kvs (as @ bs) \<longleftrightarrow> small_kvs as \<and> small_kvs bs"
  by (auto simp: small_kvs_def)

lemma small_ins_kv: "small_kvs kvs \<Longrightarrow> length k + length v \<le> 280 \<Longrightarrow> small_kvs (ins_kv k v kvs)"
  using set_ins_kv_sub [of k v kvs] by (fastforce simp: small_kvs_def)

lemma small_kid:
  assumes "wf_kid h c" "small_kvs (kvs_of (kid_tree c))"
  shows "length (kid_key c) \<le> 280"
proof -
  obtain k v where "hd (kvs_of (kid_tree c)) = (k, v)" "(k, v) \<in> set (kvs_of (kid_tree c))"
    using assms(1) by (metis list.set_sel(1) surj_pair wf_kid_def)
  with assms show ?thesis by (fastforce simp: small_kvs_def wf_kid_def)
qed

lemma small_kvs_kid: "small_kvs (kids_kvs ks) \<Longrightarrow> c \<in> set ks \<Longrightarrow> small_kvs (kvs_of (kid_tree c))"
  by (auto simp: small_kvs_def kids_kvs_def)

lemma small_entries:
  assumes "wf_shape h t" "small_kvs (kvs_of t)"
  shows "list_all small_entry (entries_of t)"
  using assms
proof (cases rule: wf_shape_cases)
  case (leaf es)
  then show ?thesis using assms(2) by (fastforce simp: list_all_iff small_entry_def small_kvs_def)
next
  case (node h' ks)
  then show ?thesis
    using assms small_kid [of h'] small_kvs_kid [of ks]
    by (auto simp: list_all_iff small_entry_def kid_entry_def)
qed

end
