(* ===== verification/TreeGet.thy ===== *)
theory TreeGet
  imports TreeShape
begin

text \<open>
  Lookup in the B+tree: a node search finds the one child whose key range contains the
  key, and \<^const>\<open>nodeGetKey\<close> returns what the list of leaf pairs says.
\<close>

section \<open>Which child to follow\<close>

lemma sorted_kvs_hd_le: "sorted_kvs kvs \<Longrightarrow> k \<in> fst ` set kvs \<Longrightarrow> fst (hd kvs) \<le> k"
  by (cases kvs) auto

lemma kids_split:
  assumes "idx < length ks"
  shows "ks = take idx ks @ ks ! idx # drop (Suc idx) ks"
    and "kids_kvs ks = kids_kvs (take idx ks) @ kvs_of (kid_tree (ks ! idx)) @ kids_kvs (drop (Suc idx) ks)"
    and "kids_pages ks = kids_pages (take idx ks)
      @ (kid_ptr (ks ! idx) # spages (kid_tree (ks ! idx))) @ kids_pages (drop (Suc idx) ks)"
proof -
  show eq: "ks = take idx ks @ ks ! idx # drop (Suc idx) ks"
    using assms by (rule id_take_nth_drop)
  show "kids_kvs ks = kids_kvs (take idx ks) @ kvs_of (kid_tree (ks ! idx)) @ kids_kvs (drop (Suc idx) ks)"
    by (subst (1) eq) simp
  show "kids_pages ks = kids_pages (take idx ks)
      @ (kid_ptr (ks ! idx) # spages (kid_tree (ks ! idx))) @ kids_pages (drop (Suc idx) ks)"
    by (subst (1) eq) simp
qed

lemma locate_kid:
  assumes wf: "\<forall>c \<in> set ks. wf_kid h c" and srt: "sorted_kvs (kids_kvs ks)"
    and pos: "at_pos (map kid_key ks) idx key"
  shows "\<forall>k \<in> fst ` set (kids_kvs (take idx ks)). k < key"
    and "\<forall>k \<in> fst ` set (kids_kvs (drop (Suc idx) ks)). key < k"
    and "sorted_kvs (kvs_of (kid_tree (ks ! idx)))"
    and "fst (hd (kvs_of (kid_tree (ks ! idx)))) \<le> key"
    and "kvs_of (kid_tree (ks ! idx)) \<noteq> []"
proof -
  have idx: "idx < length ks" "kid_key (ks ! idx) \<le> key"
    and above: "\<And>j. idx < j \<Longrightarrow> j < length ks \<Longrightarrow> key < kid_key (ks ! j)"
    using pos by (auto simp: at_pos_def)
  let ?c = "ks ! idx"
  have c: "wf_kid h ?c" using wf idx by simp
  note eq = kids_split(2) [OF idx(1)]
  have parts: "sorted_kvs (kvs_of (kid_tree ?c))"
      "\<forall>a \<in> fst ` set (kids_kvs (take idx ks)). \<forall>b \<in> fst ` set (kvs_of (kid_tree ?c)). a < b"
    using srt unfolding eq sorted_kvs_append by (auto simp: image_Un)
  show "\<forall>k \<in> fst ` set (kids_kvs (take idx ks)). k < key"
    using parts(2) kid_keys_in [OF c] idx(2) by fastforce
  show "sorted_kvs (kvs_of (kid_tree ?c))" by (rule parts(1))
  show "fst (hd (kvs_of (kid_tree ?c))) \<le> key" "kvs_of (kid_tree ?c) \<noteq> []"
    using c idx(2) by (simp_all add: wf_kid_def)
  show "\<forall>k \<in> fst ` set (kids_kvs (drop (Suc idx) ks)). key < k"
  proof
    fix k assume "k \<in> fst ` set (kids_kvs (drop (Suc idx) ks))"
    then obtain c' where c': "c' \<in> set (drop (Suc idx) ks)" "k \<in> fst ` set (kvs_of (kid_tree c'))"
      by (auto simp: kids_kvs_def)
    from c'(1) obtain i where "i < length ks - Suc idx" "c' = ks ! (Suc idx + i)"
      by (auto simp: in_set_conv_nth)
    then obtain j where j: "idx < j" "j < length ks" "c' = ks ! j"
      by (intro that [of "Suc idx + i"]) auto
    have "sorted_kvs (kvs_of (kid_tree c'))"
      using srt unfolding kids_split(2) [OF j(2)] j(3) by (simp add: sorted_wrt_append)
    then have "kid_key c' \<le> k"
      using sorted_kvs_hd_le c'(2) wf j by (auto simp: wf_kid_def)
    with above [OF j(1,2)] j(3) show "key < k" by simp
  qed
qed

text \<open>The search in an internal node, put together.\<close>

lemma lookup_kid:
  assumes rep: "node_rep node BNODE_NODE (map kid_entry ks)" and ks: "ks \<noteq> []"
    and wf: "\<forall>c \<in> set ks. wf_kid h c" and srt: "sorted_kvs (kids_kvs ks)"
    and first: "fst (hd (kids_kvs ks)) \<le> key"
  obtains idx where "nodeLookupLE node key = Some idx" "at_pos (map kid_key ks) idx key"
proof -
  have "wf_kid h (hd ks)" using wf ks by simp
  then have "fst (hd (kids_kvs ks)) = kid_key (hd ks)"
    using ks by (cases ks) (auto simp: wf_kid_def)
  then have 1: "ent_key (hd (map kid_entry ks)) \<le> key"
    using first ks by (simp add: hd_map kid_entry_def)
  have 2: "sorted_wrt (<) (map ent_key (map kid_entry ks))"
    using sorted_kid_keys [OF wf srt] by (simp add: kid_entry_def comp_def)
  show ?thesis
    by (rule nodeLookupLE_found [OF rep 2 _ 1])
       (use ks that in \<open>auto simp: kid_entry_def comp_def\<close>)
qed

section \<open>Leaves\<close>

lemma leaf_pieces:
  assumes "sorted_kvs (map snd es)" "at_pos (map ent_key es) idx key"
  shows "map snd es = map snd (take idx es) @ snd (es ! idx) # map snd (drop (Suc idx) es)"
    and "\<forall>k \<in> fst ` set (map snd (take idx es)). k < key"
    and "\<forall>k \<in> fst ` set (map snd (drop (Suc idx) es)). key < k"
proof -
  have pos: "idx < length es" "ent_key (es ! idx) \<le> key"
      "\<And>j. idx < j \<Longrightarrow> j < length es \<Longrightarrow> key < ent_key (es ! j)"
    using assms(2) by (auto simp: at_pos_def)
  show "map snd es = map snd (take idx es) @ snd (es ! idx) # map snd (drop (Suc idx) es)"
    by (subst (1) id_take_nth_drop [OF pos(1)]) simp
  show "\<forall>k \<in> fst ` set (map snd (take idx es)). k < key"
  proof
    fix k assume "k \<in> fst ` set (map snd (take idx es))"
    then obtain i where "i < idx" "k = ent_key (es ! i)"
      using pos(1) by (auto simp: in_set_conv_nth)
    with sorted_wrt_nth_less [OF assms(1), of i idx] pos(1,2) show "k < key" by simp
  qed
  show "\<forall>k \<in> fst ` set (map snd (drop (Suc idx) es)). key < k"
  proof
    fix k assume "k \<in> fst ` set (map snd (drop (Suc idx) es))"
    then obtain i where "i < length es - Suc idx" "k = ent_key (es ! (Suc idx + i))"
      by (auto simp: in_set_conv_nth)
    then have "Suc idx + i < length es" "k = ent_key (es ! (Suc idx + i))" by simp_all
    with pos(3) [of "Suc idx + i"] show "key < k" by simp
  qed
qed

lemma leaf_ins_kv:
  assumes "sorted_kvs (map snd es)" "at_pos (map ent_key es) idx key"
  shows "ins_kv key val (map snd es) =
    (if ent_key (es ! idx) = key
     then map snd (take idx es @ [(0, key, val)] @ drop (Suc idx) es)
     else map snd (take (Suc idx) es @ [(0, key, val)] @ drop (Suc idx) es))"
proof -
  note p = leaf_pieces [OF assms]
  have "ins_kv key val (map snd es)
      = map snd (take idx es) @ ins_kv key val [snd (es ! idx)] @ map snd (drop (Suc idx) es)"
    using ins_kv_append_left [OF p(3), of val "[snd (es ! idx)]"]
    by (subst p(1), subst ins_kv_append_right [OF p(2)]) simp
  moreover have "\<not> key < ent_key (es ! idx)" using assms(2) by (auto simp: at_pos_def not_less)
  ultimately show ?thesis
    using assms(2) by (cases "es ! idx") (auto simp: at_pos_def take_Suc_conv_app_nth)
qed

lemma leaf_map_of:
  assumes "sorted_kvs (map snd es)" "at_pos (map ent_key es) idx key"
  shows "map_of (map snd es) key = (if ent_key (es ! idx) = key then Some (ent_val (es ! idx)) else None)"
proof -
  note p = leaf_pieces [OF assms]
  have "map_of (map snd (take idx es)) key = None" "map_of (map snd (drop (Suc idx) es)) key = None"
    using p(2,3) by (fastforce simp: map_of_eq_None_iff)+
  then show ?thesis
    by (subst p(1)) (cases "es ! idx"; auto simp: map_add_def split: option.split)
qed

section \<open>Lookup\<close>

context pager
begin

text \<open>Following the search into the child of an internal node.\<close>

lemma descend:
  assumes "inv s" and nt: "node_tree (view s) (Suc h) node t" and first: "fst (hd (kvs_of t)) \<le> key"
  obtains ks idx b where "t = SNode ks" "nodeLookupLE node key = Some idx" "idx < length ks"
    "node_rep node BNODE_NODE (map kid_entry ks)" "\<forall>c \<in> set ks. wf_kid h c \<and> stored_kid (view s) c"
    "getPtr node idx = Some (kid_ptr (ks ! idx))" "tree_get cb s (kid_ptr (ks ! idx)) = Some b"
    "node_tree (view s) h b (kid_tree (ks ! idx))" "fst (hd (kvs_of (kid_tree (ks ! idx)))) \<le> key"
    "\<forall>k \<in> fst ` set (kids_kvs (take idx ks)). k < key"
    "\<forall>k \<in> fst ` set (kids_kvs (drop (Suc idx) ks)). key < k"
    "map_of (kvs_of t) key = map_of (kvs_of (kid_tree (ks ! idx))) key" "btype node = Some BNODE_NODE"
proof -
  obtain ks where t: "t = SNode ks" using nt by (auto simp: node_tree_def elim: wf_shape_cases)
  have rep: "node_rep node BNODE_NODE (map kid_entry ks)" and ne: "ks \<noteq> []"
    and wf: "\<forall>c \<in> set ks. wf_kid h c" and st: "\<forall>c \<in> set ks. stored_kid (view s) c"
    and srt: "sorted_kvs (kids_kvs ks)" and dist: "distinct (kids_pages ks)"
    using nt t by (auto simp: node_tree_def repr_def)
  obtain idx where look: "nodeLookupLE node key = Some idx" and pos: "at_pos (map kid_key ks) idx key"
    by (rule lookup_kid [OF rep ne wf srt, of key]) (use first t in auto)
  note loc = locate_kid [OF wf srt pos]
  have idx: "idx < length ks" using pos by (simp add: at_pos_def)
  let ?c = "ks ! idx" and ?t = "kid_tree (ks ! idx)"
  obtain b where b: "view s (kid_ptr ?c) = Some b" "repr (view s) b ?t" "wf_shape h ?t"
    using st wf idx by (fastforce simp: stored_kid_def repr_def wf_kid_def)
  have "distinct (spages ?t)" using dist unfolding kids_split(3) [OF idx] by simp
  then have kid: "node_tree (view s) h b ?t" using b loc by (simp add: node_tree_def)
  have "map_of (kids_kvs (take idx ks)) key = None" "map_of (kids_kvs (drop (Suc idx) ks)) key = None"
    using loc(1,2) by (auto simp: map_of_eq_None_iff)
  then have mo: "map_of (kvs_of t) key = map_of (kvs_of ?t) key"
    unfolding t kids_simps kids_split(2) [OF idx] by (auto simp: map_add_def split: option.split)
  have ptr: "getPtr node idx = Some (kid_ptr ?c)"
    using node_rep_readers(3) [OF rep, of idx] idx by (simp add: kid_entry_def)
  show ?thesis
    by (rule that [OF t look idx rep _ ptr get_ok [OF assms(1) b(1)] kid loc(4,1,2) mo node_rep_readers(2) [OF rep]])
       (use wf st in auto)
qed

lemma nodeGetKey_ok:
  assumes "inv s" "node_tree (view s) h node t" "fst (hd (kvs_of t)) \<le> key" "h < fuel"
  shows "nodeGetKey cb fuel node key s = Some (map_of (kvs_of t) key)"
  using assms
proof (induction h arbitrary: t node fuel)
  case 0
  then obtain es f where t: "t = SLeaf es" and f: "fuel = Suc f"
    by (cases t; cases fuel) (auto simp: node_tree_def)
  have rep: "node_rep node BNODE_LEAF es" and srt: "sorted_kvs (map snd es)" and ne: "es \<noteq> []"
    using 0 t by (auto simp: repr_def node_tree_def)
  obtain idx where look: "nodeLookupLE node key = Some idx" and pos: "at_pos (map ent_key es) idx key"
    by (rule nodeLookupLE_found [OF rep, of key]) (use 0 t srt ne in \<open>auto simp: comp_def hd_map\<close>)
  show ?case
    using t f look leaf_map_of [OF srt pos] node_rep_readers(2,4,5) [OF rep] pos
    by (auto simp: at_pos_def)
next
  case (Suc h)
  obtain f where f: "fuel = Suc f" "h < f" using Suc.prems(4) by (cases fuel) auto
  show ?case
    by (rule descend [OF Suc.prems(1-3)])
       (use f Suc.IH [OF Suc.prems(1) _ _ f(2)] in \<open>auto simp: BNODE_LEAF_def BNODE_NODE_def\<close>)
qed

end

end
