(* ===== verification/TreeUpdate.thy ===== *)
theory TreeUpdate
  imports TreeGet
begin

text \<open>
  Insertion and update in the B+tree: \<^const>\<open>treeUpdate\<close> returns without panic and the pages it
  leaves behind store the tree with the pair inserted in key order, all other pages
  untouched. The statements hold for every page store that satisfies \<^const>\<open>pager\<close>.
\<close>

section \<open>Requests\<close>

text \<open>When an update request changes nothing.\<close>

definition no_update :: "UpdateReq \<Rightarrow> bytes option \<Rightarrow> bool" where
  "no_update req cur \<longleftrightarrow>
     (cur \<noteq> None \<and> Mode req = MODE_INSERT_ONLY) \<or> cur = Some (Val req) \<or>
     (cur = None \<and> Mode req = MODE_UPDATE_ONLY)"

text \<open>The request with its output fields after a change.\<close>

definition req_done :: "UpdateReq \<Rightarrow> bytes option \<Rightarrow> UpdateReq" where
  "req_done req cur = (case cur of
      None \<Rightarrow> req\<lparr>Updated := True, Added := True\<rparr>
    | Some v \<Rightarrow> req\<lparr>Updated := True, Old := v\<rparr>)"


section \<open>Cutting a shape into parts\<close>

lemma map_concat_parts:
  "concat ps = map g ks \<Longrightarrow> \<exists>qs. concat qs = ks \<and> map (map g) qs = ps"
proof (induction ps arbitrary: ks)
  case (Cons p ps)
  then obtain k1 k2 where "ks = k1 @ k2" "p = map g k1" "concat ps = map g k2"
    by (auto simp: append_eq_map_conv)
  moreover from this obtain qs where "concat qs = k2" "map (map g) qs = ps"
    using Cons.IH by blast
  ultimately show ?case by (intro exI [of _ "k1 # qs"]) simp
qed simp

lemma kids_concat:
  "kids_kvs (concat qs) = concat (map kids_kvs qs)"
  "kids_pages (concat qs) = concat (map kids_pages qs)"
  by (induction qs) simp_all

lemma wf_nonempty:
  assumes "wf_shape h t" "entries_of t \<noteq> []"
  shows "kvs_of t \<noteq> []" "ent_key (hd (entries_of t)) = fst (hd (kvs_of t))"
proof -
  from assms(1) have "kvs_of t \<noteq> [] \<and> ent_key (hd (entries_of t)) = fst (hd (kvs_of t))"
  proof (cases rule: wf_shape_cases)
    case (leaf es)
    then show ?thesis using assms by (simp add: hd_map)
  next
    case (node h' ks)
    then show ?thesis using assms by (cases ks) (auto simp: wf_kid_def kid_entry_def)
  qed
  then show "kvs_of t \<noteq> []" "ent_key (hd (entries_of t)) = fst (hd (kvs_of t))" by auto
qed

lemma shape_parts:
  assumes "wf_shape h t" "concat ps = entries_of t" "\<forall>p \<in> set ps. p \<noteq> []"
  obtains ts where "map entries_of ts = ps" "\<forall>t' \<in> set ts. stype t' = stype t \<and> wf_shape h t'"
    "concat (map kvs_of ts) = kvs_of t" "concat (map spages ts) = spages t"
    "\<And>view. stored view t \<Longrightarrow> \<forall>t' \<in> set ts. stored view t'"
  using assms(1)
proof (cases rule: wf_shape_cases)
  case (leaf es)
  show ?thesis
  proof (rule that [of "map SLeaf ps"])
    show "concat (map kvs_of (map SLeaf ps)) = kvs_of t"
      using leaf assms(2) by (simp add: comp_def map_concat [symmetric])
    show "concat (map spages (map SLeaf ps)) = spages t"
      using leaf by (simp add: comp_def)
  qed (use leaf assms in \<open>auto simp: comp_def\<close>)
next
  case (node h' ks)
  obtain qs where qs: "concat qs = ks" "map (map kid_entry) qs = ps"
    using map_concat_parts [of ps kid_entry ks] assms(2) node by auto
  show ?thesis
  proof (rule that [of "map SNode qs"])
    show "concat (map kvs_of (map SNode qs)) = kvs_of t" "concat (map spages (map SNode qs)) = spages t"
      using node qs(1) by (auto simp: comp_def kids_concat [symmetric])
  qed (use node qs assms in \<open>auto simp: comp_def\<close>)
qed

lemma split3_length: "0 < length (split3 es)" "length (split3 es) \<le> 3"
  by (simp_all add: split3_def Let_def)

section \<open>Storing and linking new nodes\<close>

lemma kid_entry_simp [simp]: "kid_entry (p, k, t) = (p, k, [])"
  by (simp add: kid_entry_def)

text \<open>The bytes that a list of separators takes in an internal node.\<close>

definition sep_size :: "bytes list \<Rightarrow> nat" where
  "sep_size ks = (\<Sum>k\<leftarrow>ks. 14 + length k)"

lemma sep_size_simps [simp]:
  "sep_size [] = 0" "sep_size (k # ks) = 14 + length k + sep_size ks"
  "sep_size (ks @ ks') = sep_size ks + sep_size ks'"
  by (simp_all add: sep_size_def)

lemma sep_size_ge: "14 * length ks \<le> sep_size ks"
  by (induction ks) simp_all

lemma nsize_kids: "nsize (map kid_entry ks) = 4 + sep_size (map kid_key ks)"
  by (induction ks) (simp_all add: nsize_Cons kid_entry_def)

lemma koff_kids: "koff (map kid_entry ks) + 10 * length ks = sep_size (map kid_key ks)"
  by (induction ks) (simp_all add: kid_entry_def)

definition page_of :: "BNode \<Rightarrow> shape \<Rightarrow> bool" where
  "page_of b t \<longleftrightarrow> length b = BTREE_PAGE_SIZE \<and> node_rep b (stype t) (entries_of t) \<and> entries_of t \<noteq> []"

definition first_key :: "shape \<Rightarrow> bytes" where
  "first_key t = ent_key (hd (entries_of t))"

text \<open>
  \<open>linked v v' bs ts cs\<close>: going from page contents \<open>v\<close> to \<open>v'\<close>, the buffers \<open>bs\<close> of the trees
  \<open>ts\<close> were stored on unused pages and the kids \<open>cs\<close> point to them.
\<close>

definition linked :: "(nat \<Rightarrow> BNode option) \<Rightarrow> (nat \<Rightarrow> BNode option) \<Rightarrow> BNode list \<Rightarrow> shape list \<Rightarrow> kid list \<Rightarrow> bool" where
  "linked v v' bs ts cs \<longleftrightarrow>
     map kid_tree cs = ts \<and> map kid_key cs = map first_key ts \<and> distinct (map kid_ptr cs)
   \<and> (\<forall>c \<in> set cs. kid_ptr c \<noteq> 0 \<and> v (kid_ptr c) = None)
   \<and> (\<forall>q. q \<notin> kid_ptr ` set cs \<longrightarrow> v' q = v q)
   \<and> list_all2 (\<lambda>b c. v' (kid_ptr c) = Some b) bs cs"

lemma linked_frame: "linked v v' bs ts cs \<Longrightarrow> v q \<noteq> None \<Longrightarrow> v' q = v q"
  by (cases "q \<in> kid_ptr ` set cs") (auto simp: linked_def)

lemma linked_pages:
  assumes "linked v v' bs ts cs"
  shows "kids_kvs cs = concat (map kvs_of ts)"
    and "set (kids_pages cs) = kid_ptr ` set cs \<union> set (concat (map spages ts))"
proof -
  have ts: "ts = map kid_tree cs" using assms by (simp add: linked_def)
  show "kids_kvs cs = concat (map kvs_of ts)" unfolding ts by (induction cs) simp_all
  show "set (kids_pages cs) = kid_ptr ` set cs \<union> set (concat (map spages ts))"
    unfolding ts by (induction cs) auto
qed

lemma linked_distinct:
  assumes "linked v v' bs ts cs" "distinct (concat (map spages ts))" "\<forall>t \<in> set ts. stored v t"
  shows "distinct (kids_pages cs)"
proof -
  have ts: "ts = map kid_tree cs" and d: "distinct (map kid_ptr cs)"
    and un: "\<forall>c \<in> set cs. v (kid_ptr c) = None"
    using assms(1) by (simp_all add: linked_def)
  have used: "p \<in> set (concat (map spages ts)) \<Longrightarrow> v p \<noteq> None" for p
    using assms(3) by (auto dest: stored_pages)
  show ?thesis
    using d un assms(2) used unfolding ts
  proof (induction cs)
    case (Cons c cs)
    let ?P = "set (concat (map spages (map kid_tree cs)))"
    have set: "set (kids_pages cs) = kid_ptr ` set cs \<union> ?P"
      by (induction cs) auto
    have used: "v p \<noteq> None" if "p \<in> set (spages (kid_tree c)) \<or> p \<in> ?P" for p
      using Cons.prems(4) that by simp
    have unused: "v p = None" if "p = kid_ptr c \<or> p \<in> kid_ptr ` set cs" for p
      using Cons.prems(2) that by auto
    have "kid_ptr c \<notin> kid_ptr ` set cs" "set (spages (kid_tree c)) \<inter> ?P = {}"
      using Cons.prems(1,3) by simp_all
    then have "kid_ptr c \<notin> set (spages (kid_tree c) @ kids_pages cs)"
        "set (spages (kid_tree c)) \<inter> set (kids_pages cs) = {}"
      unfolding set set_append using used unused by blast+
    moreover have "distinct (kids_pages cs)"
      using Cons by simp
    ultimately show ?case using Cons.prems(3) by simp
  qed simp
qed

lemma linked_kids:
  assumes "linked v v' bs ts cs" "list_all2 page_of bs ts" "\<forall>t \<in> set ts. wf_shape h t \<and> stored v t"
  shows "\<forall>c \<in> set cs. wf_kid h c \<and> stored_kid v' c"
proof
  fix c assume "c \<in> set cs"
  then obtain i where i: "i < length cs" "c = cs ! i" by (auto simp: in_set_conv_nth)
  have l: "length bs = length ts" "length cs = length ts"
    using assms(1,2) by (auto simp: linked_def dest: list_all2_lengthD)
  have "map kid_tree cs ! i = ts ! i" "map kid_key cs ! i = map first_key ts ! i"
    using assms(1) by (simp_all only: linked_def)
  then have t: "ts ! i = kid_tree c" "first_key (ts ! i) = kid_key c" using i l by simp_all
  have ptrs: "list_all2 (\<lambda>b c. v' (kid_ptr c) = Some b) bs cs" "\<forall>c \<in> set cs. kid_ptr c \<noteq> 0"
    using assms(1) by (simp_all add: linked_def)
  have b: "v' (kid_ptr c) = Some (bs ! i)" "page_of (bs ! i) (kid_tree c)" "kid_ptr c \<noteq> 0"
    using list_all2_nthD2 [OF ptrs(1) i(1)] list_all2_nthD [OF assms(2), of i] ptrs(2) i l t(1)
    by simp_all
  have wf: "wf_shape h (kid_tree c)" and st: "stored v (kid_tree c)"
    using assms(3) i l t(1) nth_mem [of i ts] by auto
  have "stored v' (kid_tree c)"
    using st by (rule stored_cong) (use linked_frame [OF assms(1)] stored_pages [OF st] in blast)
  moreover have "nsize (entries_of (kid_tree c)) \<le> BTREE_PAGE_SIZE"
    using b(2) node_rep_bounds(1) [of "bs ! i" "stype (kid_tree c)" "entries_of (kid_tree c)"]
    by (simp add: page_of_def)
  ultimately show "wf_kid h c \<and> stored_kid v' c"
    using b wf t wf_nonempty [OF wf]
    by (simp add: wf_kid_def stored_kid_def page_of_def first_key_def)
qed

text \<open>Replacing the kids \<open>B\<close> of a node by newly linked ones keeps everything else in place.\<close>

definition keeps :: "(nat \<Rightarrow> BNode option) \<Rightarrow> (nat \<Rightarrow> BNode option) \<Rightarrow> nat set \<Rightarrow> bool" where
  "keeps v v' P \<longleftrightarrow> (\<forall>q. q \<notin> P \<longrightarrow> v q \<noteq> None \<longrightarrow> v' q = v q)"

lemma keepsD: "keeps v v' P \<Longrightarrow> q \<notin> P \<Longrightarrow> v q \<noteq> None \<Longrightarrow> v' q = v q"
  by (simp add: keeps_def)

lemma relink_kids:
  assumes old: "\<forall>c \<in> set (A @ C). wf_kid h c \<and> stored_kid v c" "distinct (kids_pages (A @ B @ C))"
    and ts: "\<forall>t \<in> set ts. wf_shape h t \<and> stored v2 t" "distinct (concat (map spages ts))"
      "set (concat (map spages ts)) \<subseteq> set (kids_pages B) \<union> {p. v p = None}"
    and keep: "keeps v v2 (set (kids_pages B))"
    and new: "linked v2 v3 bs ts cs" "list_all2 page_of bs ts"
  shows "\<forall>c \<in> set (A @ cs @ C). wf_kid h c \<and> stored_kid v3 c"
    and "distinct (kids_pages (A @ cs @ C))"
    and "set (kids_pages (A @ cs @ C)) \<subseteq> set (kids_pages (A @ B @ C)) \<union> {p. v p = None}"
    and "keeps v v3 (set (kids_pages (A @ B @ C)))"
proof -
  have vAC: "v q \<noteq> None \<and> q \<notin> set (kids_pages B)" if "q \<in> set (kids_pages (A @ C))" for q
    using stored_pages [of v "SNode (A @ C)" q] old that by auto
  have v2: "v2 q = v q" if "q \<notin> set (kids_pages B)" "v q \<noteq> None" for q
    using keepsD [OF keep that] .
  have v3: "v3 q = v q" if "q \<notin> set (kids_pages B)" "v q \<noteq> None" for q
    using linked_frame [OF new(1), of q] v2 [OF that] that(2) by simp
  have AC: "\<forall>c \<in> set (A @ C). stored_kid v3 c"
    by (rule stored_kids_cong [of "A @ C" v]) (use old(1) v3 vAC in auto)
  show "\<forall>c \<in> set (A @ cs @ C). wf_kid h c \<and> stored_kid v3 c"
    using AC old(1) linked_kids [OF new ts(1)] by auto
  have unused: "v2 q = None" if "q \<in> kid_ptr ` set cs" for q
    using new(1) that by (auto simp: linked_def)
  have pages: "set (kids_pages cs) = kid_ptr ` set cs \<union> set (concat (map spages ts))"
    by (rule linked_pages(2) [OF new(1)])
  have "v2 q \<noteq> None" if "q \<in> set (kids_pages (A @ C))" for q using vAC [OF that] v2 by simp
  then have "set (kids_pages cs) \<inter> set (kids_pages (A @ C)) = {}"
    unfolding pages using unused vAC ts(3) by blast
  moreover have "distinct (kids_pages cs)"
    using linked_distinct [OF new(1) ts(2)] ts(1) by simp
  ultimately show "distinct (kids_pages (A @ cs @ C))" using old(2) by auto
  have "kid_ptr ` set cs \<subseteq> set (kids_pages B) \<union> {p. v p = None}"
  proof (rule subsetI, rule ccontr)
    fix q assume q: "q \<in> kid_ptr ` set cs" "q \<notin> set (kids_pages B) \<union> {p. v p = None}"
    then have "q \<notin> set (kids_pages B)" "v q \<noteq> None" by auto
    with v2 [of q] unused [OF q(1)] show False by simp
  qed
  with ts(3) have "set (kids_pages cs) \<subseteq> set (kids_pages B) \<union> {p. v p = None}"
    unfolding pages by (intro Un_least)
  then show "set (kids_pages (A @ cs @ C)) \<subseteq> set (kids_pages (A @ B @ C)) \<union> {p. v p = None}" by auto
  show "keeps v v3 (set (kids_pages (A @ B @ C)))"
    using v3 by (simp add: keeps_def)
qed

text \<open>An updated node is cut into pages that store the parts of its tree.\<close>

lemma split_updated:
  assumes t: "wf_shape h t" "stored v t" "distinct (spages t)" "kvs_of t \<noteq> []" "small_kvs (kvs_of t)"
    and b: "node_rep b (stype t) (entries_of t)" "length b = 2 * BTREE_PAGE_SIZE" "nsize (entries_of t) \<le> 4684"
  obtains bs ts where "nodeSplit3 b = Some bs" "list_all2 page_of bs ts" "bs \<noteq> []" "length bs \<le> 3"
    "\<forall>t' \<in> set ts. wf_shape h t' \<and> stored v t'" "distinct (concat (map spages ts))"
    "concat (map spages ts) = spages t" "concat (map kvs_of ts) = kvs_of t"
    "map entries_of ts = split3 (entries_of t)"
proof -
  have ne: "entries_of t \<noteq> []"
    using t(1,4) by (auto elim!: wf_shape_cases)
  have sp: "splittable (entries_of t)"
    using splittable_small [OF small_entries [OF t(1,5)] b(3) ne] .
  obtain bs where bs: "nodeSplit3 b = Some bs" "pages_of (stype t) bs (split3 (entries_of t))"
    by (rule nodeSplit3_rep [OF b(1) _ _ sp]) (use b(2,3) in \<open>auto simp: BTREE_PAGE_SIZE_def\<close>)
  obtain ts where ts: "map entries_of ts = split3 (entries_of t)"
      "\<forall>t' \<in> set ts. stype t' = stype t \<and> wf_shape h t'" "concat (map kvs_of ts) = kvs_of t"
      "concat (map spages ts) = spages t" "\<And>view. stored view t \<Longrightarrow> \<forall>t' \<in> set ts. stored view t'"
    by (rule shape_parts [OF t(1), of "split3 (entries_of t)"])
       (use sp concat_split3 in \<open>auto simp: splittable_def\<close>)
  have len: "length bs = length (split3 (entries_of t))"
    using bs(2) by (simp add: pages_of_def list_all2_lengthD)
  have lts: "length ts = length bs" using len arg_cong [OF ts(1), of length] by simp
  have "list_all2 page_of bs ts"
  proof (rule list_all2_all_nthI)
    fix i assume "i < length bs"
    moreover from this have "entries_of (ts ! i) = split3 (entries_of t) ! i"
      using lts by (simp add: ts(1) [symmetric])
    ultimately show "page_of (bs ! i) (ts ! i)"
      using list_all2_nthD [OF bs(2) [unfolded pages_of_def], of i] ts(2) sp len lts
        nth_mem [of i "split3 (entries_of t)"] nth_mem [of i ts]
      by (simp add: page_of_def splittable_def)
  qed (simp add: lts)
  moreover have "bs \<noteq> []" "length bs \<le> 3"
    using len split3_length [of "entries_of t"] by auto
  moreover have "\<forall>t' \<in> set ts. wf_shape h t' \<and> stored v t'" using ts(2) ts(5) [OF t(2)] by simp
  ultimately show ?thesis using bs(1) ts(1,3,4) t(3) by (intro that) simp_all
qed

lemma part_first_key:
  assumes "page_of b t" "wf_shape h t"
  shows "kvs_of t \<noteq> []" "first_key t = fst (hd (kvs_of t))"
  using wf_nonempty [OF assms(2)] assms(1) by (simp_all add: page_of_def first_key_def)

lemma small_first_key:
  assumes "page_of b t" "wf_shape h t" "small_kvs (kvs_of t)"
  shows "length (first_key t) \<le> 280"
proof -
  have "hd (kvs_of t) \<in> set (kvs_of t)" using part_first_key(1) [OF assms(1,2)] by simp
  then have "length (fst (hd (kvs_of t))) + length (snd (hd (kvs_of t))) \<le> 280"
    using assms(3) by (auto simp: small_kvs_def split: prod.splits)
  then show ?thesis using part_first_key(2) [OF assms(1,2)] by simp
qed

lemma parts_keys:
  assumes "list_all2 page_of bs ts" "\<forall>t \<in> set ts. wf_shape h t" "small_kvs (concat (map kvs_of ts))"
    and "ts \<noteq> []" "length ts \<le> 3"
  shows "sep_size (map first_key ts) \<le> 14 + length (fst (hd (concat (map kvs_of ts)))) + 588"
proof -
  have rest: "sep_size (map first_key ts') \<le> 294 * length ts'"
    if "list_all2 page_of bs' ts'" "\<forall>t \<in> set ts'. wf_shape h t" "small_kvs (concat (map kvs_of ts'))" for bs' ts'
    using that
    by (induction rule: list_all2_induct) (auto dest: small_first_key)
  obtain t ts' b bs' where ts: "ts = t # ts'" "bs = b # bs'"
    using assms(1,4) by (cases ts) (auto simp: list_all2_Cons2)
  have "fst (hd (concat (map kvs_of ts))) = first_key t"
    using part_first_key [of b t h] assms(1,2) ts by simp
  moreover have "sep_size (map first_key ts') \<le> 294 * length ts'"
    using rest [of bs' ts'] assms ts by simp
  ultimately show ?thesis using assms(5) ts by simp
qed

context pager
begin

lemma appendKids_ok:
  assumes "inv s" "length bs \<le> room s" "list_all2 page_of bs ts"
    and "holds new ty n es" "length es + length bs \<le> n"
    and "4 + 10 * n + koff es + sep_size (map first_key ts) \<le> length new + 10 * length bs"
  shows "\<exists>new' s' cs. appendKids cb new (length es) bs s = Some (new', s') \<and> inv s'
     \<and> room s \<le> room s' + length bs \<and> length new' = length new
     \<and> holds new' ty n (es @ map kid_entry cs) \<and> linked (view s) (view s') bs ts cs"
  using assms
proof (induction bs arbitrary: s ts new es)
  case Nil
  then show ?case by (simp add: linked_def)
next
  case (Cons b bs)
  then obtain t ts' where ts: "ts = t # ts'" "page_of b t" "list_all2 page_of bs ts'"
    by (auto simp: list_all2_Cons1)
  obtain p s1 where new: "tree_new cb s b = Some (p, s1)" "inv s1" "p \<noteq> 0" "p < 2 ^ 64" "view s p = None"
      "view s1 = (view s)(p \<mapsto> b)" "room s \<le> Suc (room s1)"
    using new_ok [of s b] Cons.prems ts(2) by (auto simp: page_of_def)
  have key: "getKey b 0 = Some (first_key t)"
    using ts(2) node_rep_readers(4) [of b "stype t" "entries_of t" 0]
    by (auto simp: page_of_def first_key_def hd_conv_nth)
  obtain new1 where new1: "nodeAppendKV new (length es) p (first_key t) [] = Some new1"
      "length new1 = length new" "holds new1 ty n (es @ [(p, first_key t, [])])"
    by (rule nodeAppendKV_holds [OF Cons.prems(4) _ new(4), of "first_key t" "[]"])
       (use Cons.prems ts sep_size_ge [of "map first_key ts'"] list_all2_lengthD [OF ts(3)] in auto)
  obtain new' s' cs where rec: "appendKids cb new1 (length (es @ [(p, first_key t, [])])) bs s1 = Some (new', s')"
      "inv s'" "room s1 \<le> room s' + length bs" "length new' = length new1"
      "holds new' ty n ((es @ [(p, first_key t, [])]) @ map kid_entry cs)" "linked (view s1) (view s') bs ts' cs"
    using Cons.IH [OF new(2) _ ts(3) new1(3)] Cons.prems new(7) new1(2) ts(1) by auto
  let ?cs = "(p, first_key t, t) # cs"
  have "length es + 1 < 65536" using Cons.prems(5) holds_n_less [OF Cons.prems(4)] by simp
  then have "appendKids cb new (length es) (b # bs) s = Some (new', s')"
    using new(1) key new1(1) rec(1) by simp
  moreover have "linked (view s) (view s') (b # bs) ts ?cs"
    using rec(6) new(3,5,6) ts(1) by (auto simp: linked_def split: if_splits)
  ultimately show ?case
    using rec(2-5) new(7) new1(2) by (intro exI [of _ new'] exI [of _ s'] exI [of _ ?cs]) auto
qed


lemma nodeReplaceKidN_ok:
  assumes inv: "inv s" "length bs \<le> room s" and pages: "list_all2 page_of bs ts" "bs \<noteq> []" "length bs \<le> 3"
    and old: "node_rep old BNODE_NODE (map kid_entry ks)" "idx < length ks" and len: "length new < 65536"
    and fit: "4 + sep_size (map kid_key (take idx ks)) + sep_size (map first_key ts)
      + sep_size (map kid_key (drop (Suc idx) ks)) \<le> length new"
  obtains new' s' cs where "nodeReplaceKidN cb new old idx bs s = Some (new', s')" "inv s'"
    "room s \<le> room s' + length bs" "length new' = length new"
    "node_rep new' BNODE_NODE (map kid_entry (take idx ks @ cs @ drop (Suc idx) ks))"
    "linked (view s) (view s') bs ts cs"
proof -
  let ?A = "map kid_entry (take idx ks)" and ?C = "map kid_entry (drop (Suc idx) ks)"
  let ?n = "length ks + length bs - 1"
  have n: "?n = length ?A + length bs + length ?C" using old(2) pages(2) by (cases bs) auto
  have lts: "length ts = length bs" using pages(1) by (simp add: list_all2_lengthD)
  have k1: "length ks < 6554" using node_rep_bounds(3) [OF old(1)] by simp
  have k2: "0 < length bs" using pages(2) by simp
  have "sub16 (length bs) 1 = length bs - 1" using k2 pages(3) by (intro sub16_le) linarith+
  then have "length ks + sub16 (length bs) 1 = ?n" using k2 by linarith
  moreover have "?n < 65536" using k1 pages(3) by linarith
  ultimately have cnt: "u16 (length ks + sub16 (length bs) 1) = ?n" by simp
  have fit': "4 + 10 * ?n + koff ?A + sep_size (map first_key ts) + koff ?C \<le> length new + 10 * length bs"
    using fit n koff_kids [of "take idx ks"] koff_kids [of "drop (Suc idx) ks"] by simp
  have ge: "10 * length bs \<le> sep_size (map first_key ts)"
    using sep_size_ge [of "map first_key ts"] lts by simp
  obtain b0 where b0: "setHeader new BNODE_NODE ?n = Some b0" "length b0 = length new" "holds b0 BNODE_NODE ?n []"
    by (rule holds_setHeader [OF len, of ?n BNODE_NODE]) (use fit' ge in \<open>auto simp: BNODE_NODE_def\<close>)
  obtain b1 where b1: "nodeAppendRange b0 old 0 0 idx = Some b1" "length b1 = length new" "holds b1 BNODE_NODE ?n ?A"
    by (rule append_range_rep [OF b0(3) old(1), of 0 idx 0])
       (use old(2) n fit' ge b0(2) in \<open>auto simp: take_map\<close>)
  obtain b2 s' cs where b2: "appendKids cb b1 (length ?A) bs s = Some (b2, s')" "inv s'"
      "room s \<le> room s' + length bs" "length b2 = length b1" "holds b2 BNODE_NODE ?n (?A @ map kid_entry cs)"
      "linked (view s) (view s') bs ts cs"
    using appendKids_ok [OF inv pages(1) b1(3)] n fit' b1(2) by auto
  have cs: "length cs = length bs" "map kid_key cs = map first_key ts"
    using b2(6) lts by (auto simp: linked_def)
  have ek: "koff (map kid_entry cs) + 10 * length bs = sep_size (map first_key ts)"
    using koff_kids [of cs] cs by simp
  obtain b3 where b3: "nodeAppendRange b2 old (idx + length bs) (idx + 1) (length ks - (idx + 1)) = Some b3"
      "length b3 = length new" "holds b3 BNODE_NODE ?n ((?A @ map kid_entry cs) @ ?C)"
    by (rule append_range_rep [OF b2(5) old(1), of "idx + 1" "length ks - (idx + 1)" "idx + length bs"])
       (use old(2) n fit' ek cs(1) b1(2) b2(4) in \<open>auto simp: drop_map\<close>)
  have "node_rep b3 BNODE_NODE (map kid_entry (take idx ks @ cs @ drop (Suc idx) ks))"
    using b3(3) n cs(1) by (simp add: node_rep_def add.assoc)
  moreover have "nodeReplaceKidN cb new old idx bs s = Some (b3, s')"
    using b0(1) b1(1) b2(1) b3(1) cnt k1 old(2) pages(3) node_rep_readers(1) [OF old(1)]
    by (simp add: nodeReplaceKidN_def)
  ultimately show ?thesis using that b2 b3(2) by auto
qed


text \<open>The result of \<^const>\<open>treeUpdate\<close> on a node whose tree contains \<open>cur\<close> under the key.\<close>

definition updates_to :: "'s \<Rightarrow> nat \<Rightarrow> shape \<Rightarrow> UpdateReq \<Rightarrow> BNode \<Rightarrow> 's \<Rightarrow> bool" where
  "updates_to s h t req b s' \<longleftrightarrow>
     (\<exists>t'. length b = 2 * BTREE_PAGE_SIZE \<and> inv s' \<and> room s \<le> room s' + 4 * h
        \<and> node_tree (view s') h b t' \<and> kvs_of t' = ins_kv (Key req) (Val req) (kvs_of t)
        \<and> nsize (entries_of t') \<le> nsize (entries_of t) + 588
        \<and> set (spages t') \<subseteq> set (spages t) \<union> {p. view s p = None}
        \<and> keeps (view s) (view s') (set (spages t)))"

lemma leaf_update_ok:
  assumes inv: "inv s" and nt: "node_tree (view s) 0 node t" and sz: "nsize (entries_of t) \<le> BTREE_PAGE_SIZE"
    and small: "length (Key req) + length (Val req) \<le> 280"
    and first: "fst (hd (kvs_of t)) \<le> Key req" and cur: "cur = map_of (kvs_of t) (Key req)"
  shows "if no_update req cur then treeUpdate cb (Suc f) req node s = Some (req, [], s)
    else \<exists>b s'. treeUpdate cb (Suc f) req node s = Some (req_done req cur, b, s') \<and> updates_to s 0 t req b s'"
proof -
  obtain es where t: "t = SLeaf es" using nt by (auto simp: node_tree_def elim: wf_shape_cases)
  let ?k = "Key req" and ?v = "Val req"
  have rep: "node_rep node BNODE_LEAF es" and srt: "sorted_kvs (map snd es)" and ne: "es \<noteq> []"
    and wf: "\<forall>e \<in> set es. ent_ptr e = 0"
    using nt t by (auto simp: node_tree_def repr_def)
  obtain idx where look: "nodeLookupLE node ?k = Some idx" and pos: "at_pos (map ent_key es) idx ?k"
    by (rule nodeLookupLE_found [OF rep, of ?k]) (use srt ne first t in \<open>auto simp: comp_def hd_map\<close>)
  note ins = leaf_ins_kv [OF srt pos, of ?v] and mo = leaf_map_of [OF srt pos]
  have idx: "idx < length es" using pos by (simp add: at_pos_def)
  have small16: "idx + 1 < 65536" using idx node_rep_bounds(3) [OF rep] by simp
  note rd = node_rep_readers(2) [OF rep] node_rep_readers(4,5) [OF rep idx]
  have finish: "updates_to s 0 t req b s"
    if b: "length b = 2 * BTREE_PAGE_SIZE" "node_rep b BNODE_LEAF fs" and fs: "map snd fs = ins_kv ?k ?v (map snd es)"
      "\<forall>e \<in> set fs. ent_ptr e = 0" "nsize fs \<le> nsize es + 588" for b fs
    using b fs inv t srt ins_kv_hd [of "map snd es" ?k ?v] ne first
    by (auto simp: updates_to_def node_tree_def repr_def keeps_def intro!: exI [of _ "SLeaf fs"])
  show ?thesis
  proof (cases "ent_key (es ! idx) = ?k")
    case True
    let ?fs = "take idx es @ [(0, ?k, ?v)] @ drop (Suc idx) es"
    have sz': "nsize ?fs \<le> nsize es + 588"
      using small nsize_append [of "take idx es" "[(0, ?k, ?v)] @ drop (Suc idx) es"]
        nsize_split [of idx es] Cons_nth_drop_Suc [OF idx, symmetric]
      by (simp add: nsize_Cons)
    obtain b where b: "leafUpdate (make_buf (2 * BTREE_PAGE_SIZE)) node idx ?k ?v = Some b"
        "length b = 2 * BTREE_PAGE_SIZE" "node_rep b BNODE_LEAF ?fs"
      by (rule leafUpdate_rep [OF rep idx _ refl, of "make_buf (2 * BTREE_PAGE_SIZE)" ?k ?v])
         (use sz sz' t in \<open>auto simp: BTREE_PAGE_SIZE_def\<close>)
    have "updates_to s 0 t req b s"
      by (rule finish [OF b(2,3)]) (use ins True wf sz' in \<open>auto dest: in_set_takeD in_set_dropD\<close>)
    then show ?thesis
      using True look rd b(1) mo t cur by (auto simp: no_update_def req_done_def)
  next
    case False
    let ?fs = "take (Suc idx) es @ [(0, ?k, ?v)] @ drop (Suc idx) es"
    have sz': "nsize ?fs \<le> nsize es + 588"
      using small nsize_append [of "take (Suc idx) es" "[(0, ?k, ?v)] @ drop (Suc idx) es"]
        nsize_split [of "Suc idx" es]
      by (simp add: nsize_Cons)
    obtain b where b: "leafInsert (make_buf (2 * BTREE_PAGE_SIZE)) node (idx + 1) ?k ?v = Some b"
        "length b = 2 * BTREE_PAGE_SIZE" "node_rep b BNODE_LEAF ?fs"
      by (rule leafInsert_rep [OF rep, of "idx + 1" "make_buf (2 * BTREE_PAGE_SIZE)" ?fs ?k ?v])
         (use sz sz' t idx in \<open>auto simp: BTREE_PAGE_SIZE_def\<close>)
    have "updates_to s 0 t req b s"
      by (rule finish [OF b(2,3)]) (use ins False wf sz' in \<open>auto dest: in_set_takeD in_set_dropD\<close>)
    then show ?thesis
      using False look rd b(1) mo t cur small16 by (auto simp: no_update_def req_done_def)
  qed
qed

text \<open>One level up: the kid was updated, its parts are linked into the node.\<close>

lemma kid_updated:
  assumes ks: "\<forall>c \<in> set ks. wf_kid h c \<and> stored_kid (view s) c" "distinct (kids_pages ks)" "idx < length ks"
    and sml: "small_kvs (kids_kvs ks)" "length (Key req) + length (Val req) \<le> 280"
    and c: "c = ks ! idx" and first: "fst (hd (kvs_of (kid_tree c))) \<le> Key req"
    and u: "updates_to s h (kid_tree c) req u s1" and rm: "4 * Suc h \<le> room s"
    and node: "node_rep node BNODE_NODE (map kid_entry ks)" "nsize (map kid_entry ks) \<le> BTREE_PAGE_SIZE"
  obtains bs s2 b s3 cs where "nodeSplit3 u = Some bs" "tree_del cb s1 (kid_ptr c) = Some s2"
    "nodeReplaceKidN cb (make_buf (2 * BTREE_PAGE_SIZE)) node idx bs s2 = Some (b, s3)"
    "inv s3" "room s \<le> room s3 + 4 * Suc h" "length b = 2 * BTREE_PAGE_SIZE"
    "node_rep b BNODE_NODE (map kid_entry (take idx ks @ cs @ drop (Suc idx) ks))"
    "kids_kvs cs = ins_kv (Key req) (Val req) (kvs_of (kid_tree c))"
    "nsize (map kid_entry (take idx ks @ cs @ drop (Suc idx) ks)) \<le> nsize (map kid_entry ks) + 588"
    "\<forall>c \<in> set (take idx ks @ cs @ drop (Suc idx) ks). wf_kid h c \<and> stored_kid (view s3) c"
    "distinct (kids_pages (take idx ks @ cs @ drop (Suc idx) ks))"
    "set (kids_pages (take idx ks @ cs @ drop (Suc idx) ks)) \<subseteq> set (kids_pages ks) \<union> {p. view s p = None}"
    "keeps (view s) (view s3) (set (kids_pages ks))"
proof -
  let ?t = "kid_tree c" and ?A = "take idx ks" and ?C = "drop (Suc idx) ks"
  have kc: "c \<in> set ks" "wf_kid h c" "stored_kid (view s) c" using ks c by auto
  have split: "ks = ?A @ [c] @ ?C" using kids_split(1) [OF ks(3)] c by simp
  obtain t' where t': "length u = 2 * BTREE_PAGE_SIZE" "inv s1" "room s \<le> room s1 + 4 * h"
      "wf_shape h t'" "node_rep u (stype t') (entries_of t')" "stored (view s1) t'" "kvs_of t' \<noteq> []"
      "distinct (spages t')" "kvs_of t' = ins_kv (Key req) (Val req) (kvs_of ?t)"
      "nsize (entries_of t') \<le> nsize (entries_of ?t) + 588"
      "set (spages t') \<subseteq> set (spages ?t) \<union> {p. view s p = None}" "keeps (view s) (view s1) (set (spages ?t))"
    using u by (auto simp: updates_to_def node_tree_def repr_def)
  have sm': "small_kvs (kvs_of t')"
    using small_ins_kv [OF small_kvs_kid [OF sml(1) kc(1)] sml(2)] t'(9) by simp
  have sz: "nsize (entries_of t') \<le> 4684" using t'(10) kc(2) by (simp add: wf_kid_def BTREE_PAGE_SIZE_def)
  obtain bs ts where bs: "nodeSplit3 u = Some bs" "list_all2 page_of bs ts" "bs \<noteq> []" "length bs \<le> 3"
      "\<forall>t \<in> set ts. wf_shape h t \<and> stored (view s1) t" "distinct (concat (map spages ts))"
      "concat (map spages ts) = spages t'" "concat (map kvs_of ts) = kvs_of t'" "map entries_of ts = split3 (entries_of t')"
    using split_updated [OF t'(4,6,8,7) sm' t'(5,1) sz] .
  have vp: "view s (kid_ptr c) \<noteq> None" "kid_ptr c \<notin> set (spages ?t)"
    using kc(3) ks(2) by (subst (asm) split; auto simp: stored_kid_def)+
  obtain s2 where s2: "tree_del cb s1 (kid_ptr c) = Some s2" "inv s2"
      "\<forall>q. q \<noteq> kid_ptr c \<longrightarrow> view s2 q = view s1 q" "room s1 \<le> Suc (room s2)"
    using del_ok [OF t'(2), of "kid_ptr c"] keepsD [OF t'(12) vp(2,1)] vp(1) rm t'(3) by auto
  have "kid_ptr c \<notin> set (spages t')" using t'(11) vp by auto
  then have "view s2 q = view s1 q" if "q \<in> set (spages t)" "t \<in> set ts" for q t
    using s2(3) that bs(7) [symmetric] by (cases "q = kid_ptr c") auto
  then have st2: "\<forall>t \<in> set ts. wf_shape h t \<and> stored (view s2) t"
    using bs(5) by (blast intro: stored_cong)
  have keep: "keeps (view s) (view s2) (set (kids_pages [c]))"
    using t'(12) s2(3) by (auto simp: keeps_def)
  have "fst (hd (kvs_of t')) = kid_key c"
    using ins_kv_hd [OF _ first, of "Val req"] kc(2) t'(9) by (simp add: wf_kid_def)
  moreover have "ts \<noteq> []" "length ts \<le> 3" using bs(3,4) list_all2_lengthD [OF bs(2)] by auto
  ultimately have keys: "sep_size (map first_key ts) \<le> 14 + length (kid_key c) + 588"
    using parts_keys [OF bs(2), of h] bs(5,8) sm' by simp
  have fit: "4 + sep_size (map kid_key ?A) + sep_size (map first_key ts) + sep_size (map kid_key ?C)
      \<le> nsize (map kid_entry ks) + 588"
    using keys nsize_kids [of ks] arg_cong [OF split, of "\<lambda>ks. sep_size (map kid_key ks)"] by simp
  obtain b s3 cs where r: "nodeReplaceKidN cb (make_buf (2 * BTREE_PAGE_SIZE)) node idx bs s2 = Some (b, s3)"
      "inv s3" "room s2 \<le> room s3 + length bs" "length b = 2 * BTREE_PAGE_SIZE"
      "node_rep b BNODE_NODE (map kid_entry (?A @ cs @ ?C))" "linked (view s2) (view s3) bs ts cs"
    by (rule nodeReplaceKidN_ok [OF s2(2) _ bs(2-4) node(1) ks(3), of "make_buf (2 * BTREE_PAGE_SIZE)"])
       (use s2(4) t'(3) rm bs(4) fit node(2) in \<open>auto simp: BTREE_PAGE_SIZE_def\<close>)
  have sub: "set (concat (map spages ts)) \<subseteq> set (kids_pages [c]) \<union> {p. view s p = None}"
    using t'(11) bs(7) by auto
  have AC: "\<forall>c \<in> set (?A @ ?C). wf_kid h c \<and> stored_kid (view s) c" "distinct (kids_pages (?A @ [c] @ ?C))"
    using ks(1,2) split by (auto dest: in_set_takeD in_set_dropD)
  have "map kid_key cs = map first_key ts" using r(6) by (simp add: linked_def)
  then have sz3: "nsize (map kid_entry (?A @ cs @ ?C)) \<le> nsize (map kid_entry ks) + 588"
    using fit unfolding nsize_kids by simp
  have room3: "room s \<le> room s3 + 4 * Suc h" using t'(3) s2(4) r(3) bs(4) by simp
  have kvs3: "kids_kvs cs = ins_kv (Key req) (Val req) (kvs_of ?t)"
    using linked_pages(1) [OF r(6)] bs(8) t'(9) by simp
  note rl = relink_kids [OF AC st2 bs(6) sub keep r(6) bs(2), folded split]
  show ?thesis
    by (rule that [OF bs(1) s2(1) r(1,2) room3 r(4,5) kvs3 sz3 rl])
qed

lemma treeUpdate_ok:
  assumes "inv s" "node_tree (view s) h node t" "nsize (entries_of t) \<le> BTREE_PAGE_SIZE"
    and "small_kvs (kvs_of t)" "length (Key req) + length (Val req) \<le> 280"
    and "fst (hd (kvs_of t)) \<le> Key req" "h < fuel" "4 * h \<le> room s" "cur = map_of (kvs_of t) (Key req)"
  shows "if no_update req cur then treeUpdate cb fuel req node s = Some (req, [], s)
    else \<exists>b s'. treeUpdate cb fuel req node s = Some (req_done req cur, b, s') \<and> updates_to s h t req b s'"
  using assms
proof (induction h arbitrary: node t fuel)
  case 0
  then obtain f where "fuel = Suc f" by (cases fuel) auto
  with leaf_update_ok [OF "0.prems"(1-3,5,6,9), of f] show ?case by (simp only:)
next
  case (Suc h)
  let ?k = "Key req"
  obtain f where f: "fuel = Suc f" "h < f" using Suc.prems(7) by (cases fuel) auto
  obtain ks idx b where d: "t = SNode ks" "nodeLookupLE node ?k = Some idx" "idx < length ks"
    "node_rep node BNODE_NODE (map kid_entry ks)" "\<forall>c \<in> set ks. wf_kid h c \<and> stored_kid (view s) c"
    "getPtr node idx = Some (kid_ptr (ks ! idx))" "tree_get cb s (kid_ptr (ks ! idx)) = Some b"
    "node_tree (view s) h b (kid_tree (ks ! idx))" "fst (hd (kvs_of (kid_tree (ks ! idx)))) \<le> ?k"
    "\<forall>k \<in> fst ` set (kids_kvs (take idx ks)). k < ?k" "\<forall>k \<in> fst ` set (kids_kvs (drop (Suc idx) ks)). ?k < k"
    "map_of (kvs_of t) ?k = map_of (kvs_of (kid_tree (ks ! idx))) ?k" "btype node = Some BNODE_NODE"
    by (rule descend [OF Suc.prems(1,2,6)])
  let ?t = "kid_tree (ks ! idx)"
  have sml: "small_kvs (kids_kvs ks)" and sz: "nsize (map kid_entry ks) \<le> BTREE_PAGE_SIZE"
    and dist: "distinct (kids_pages ks)" using Suc.prems(2-4) d(1) by (auto simp: node_tree_def)
  have IH: "if no_update req cur then treeUpdate cb f req b s = Some (req, [], s)
    else \<exists>u s1. treeUpdate cb f req b s = Some (req_done req cur, u, s1) \<and> updates_to s h ?t req u s1"
    by (rule Suc.IH [OF Suc.prems(1) d(8) _ small_kvs_kid [OF sml] Suc.prems(5) d(9) f(2)])
       (use Suc.prems(8,9) d(3,5,12) in \<open>auto simp: wf_kid_def\<close>)
  have step: "treeUpdate cb fuel req node s = nodeUpdate cb f req (make_buf (2 * BTREE_PAGE_SIZE)) node idx s"
    using f(1) d(2,13) by (simp add: BNODE_LEAF_def BNODE_NODE_def)
  show ?case
  proof (cases "no_update req cur")
    case True
    then show ?thesis using step d(6,7) IH by simp
  next
    case False
    then obtain u s1 where u: "treeUpdate cb f req b s = Some (req_done req cur, u, s1)" "updates_to s h ?t req u s1"
      using IH by auto
    then have ulen: "length u \<noteq> 0" by (auto simp: updates_to_def BTREE_PAGE_SIZE_def)
    show ?thesis
    proof (rule kid_updated [OF d(5) dist d(3) sml Suc.prems(5) refl d(9) u(2) Suc.prems(8) d(4) sz])
      fix bs s2 b' s3 cs
      let ?ks = "take idx ks @ cs @ drop (Suc idx) ks"
      assume k: "nodeSplit3 u = Some bs" "tree_del cb s1 (kid_ptr (ks ! idx)) = Some s2"
        "nodeReplaceKidN cb (make_buf (2 * BTREE_PAGE_SIZE)) node idx bs s2 = Some (b', s3)"
        and r: "inv s3" "room s \<le> room s3 + 4 * Suc h" "length b' = 2 * BTREE_PAGE_SIZE"
        "node_rep b' BNODE_NODE (map kid_entry ?ks)" "kids_kvs cs = ins_kv ?k (Val req) (kvs_of ?t)"
        "nsize (map kid_entry ?ks) \<le> nsize (map kid_entry ks) + 588"
        "\<forall>c \<in> set ?ks. wf_kid h c \<and> stored_kid (view s3) c" "distinct (kids_pages ?ks)"
        "set (kids_pages ?ks) \<subseteq> set (kids_pages ks) \<union> {p. view s p = None}"
        "keeps (view s) (view s3) (set (kids_pages ks))"
      have kvs: "kvs_of (SNode ?ks) = ins_kv ?k (Val req) (kvs_of t)"
        using ins_kv_append_right [OF d(10)] ins_kv_append_left [OF d(11)] r(5) d(1)
        by (simp add: kids_split(2) [OF d(3)])
      have "updates_to s (Suc h) t req b' s3"
        unfolding updates_to_def node_tree_def repr_def
        using r kvs d(1) ins_kv_hd [of "kids_kvs ks" ?k "Val req"] Suc.prems(2,6)
        by (intro exI [of _ "SNode ?ks"]) (simp add: node_tree_def)
      then show ?thesis using False step d(6,7) u(1) ulen k by simp
    qed
  qed
qed

end

end
