(* ===== verification/TreeRoot.thy ===== *)
theory TreeRoot
  imports TreeUpdate
begin

text \<open>
  The exported operations of the B+tree over an arbitrary page store: the tree with a given
  root holds a sorted list of pairs behind a sentinel with the empty key, lookups return
  what the list says and updates insert into it.
\<close>

section \<open>A tree and its contents\<close>

definition tree_holds :: "(nat \<Rightarrow> BNode option) \<Rightarrow> nat \<Rightarrow> nat \<Rightarrow> kv list \<Rightarrow> bool" where
  "tree_holds v root h kvs \<longleftrightarrow>
     (if root = 0 then kvs = [] \<and> h = 0
      else \<exists>b t. v root = Some b \<and> length b = BTREE_PAGE_SIZE \<and> node_tree v h b t
        \<and> kvs_of t = ([], []) # kvs \<and> root \<notin> set (spages t))"

lemma tree_holds_empty [simp]: "tree_holds v 0 h kvs \<longleftrightarrow> kvs = [] \<and> h = 0"
  by (simp add: tree_holds_def)

lemma tree_holdsE:
  assumes "tree_holds v root h kvs" "root \<noteq> 0"
  obtains b t where "v root = Some b" "length b = BTREE_PAGE_SIZE" "node_tree v h b t"
    "kvs_of t = ([], []) # kvs" "root \<notin> set (spages t)" "nsize (entries_of t) \<le> BTREE_PAGE_SIZE"
proof -
  obtain b t where bt: "v root = Some b" "length b = BTREE_PAGE_SIZE" "node_tree v h b t"
      "kvs_of t = ([], []) # kvs" "root \<notin> set (spages t)"
    using assms by (auto simp: tree_holds_def)
  then have "nsize (entries_of t) \<le> BTREE_PAGE_SIZE"
    using node_rep_bounds(1) [of b "stype t" "entries_of t"] by (simp add: node_tree_def repr_def)
  with bt that show ?thesis by blast
qed

lemma tree_holds_sorted:
  assumes "tree_holds v root h kvs"
  shows "sorted_kvs kvs" "[] \<notin> fst ` set kvs"
proof -
  have "sorted_kvs kvs \<and> [] \<notin> fst ` set kvs"
    using assms by (cases "root = 0") (force elim!: tree_holdsE simp: node_tree_def)+
  then show "sorted_kvs kvs" "[] \<notin> fst ` set kvs" by auto
qed

lemma tree_holds_cong:
  assumes "tree_holds v root h kvs" "\<And>p b. v p = Some b \<Longrightarrow> v' p = Some b"
  shows "tree_holds v' root h kvs"
proof (cases "root = 0")
  case False
  then obtain b t where bt: "v root = Some b" "length b = BTREE_PAGE_SIZE" "node_tree v h b t"
      "kvs_of t = ([], []) # kvs" "root \<notin> set (spages t)"
    using assms(1) by (auto elim: tree_holdsE)
  have "stored v t" using bt(3) by (simp add: node_tree_def repr_def)
  then have "stored v' t"
    by (rule stored_cong) (use assms(2) stored_pages [OF \<open>stored v t\<close>] in force)
  then show ?thesis using bt False assms(2) by (auto simp: tree_holds_def node_tree_def repr_def)
qed (use assms(1) in simp)

text \<open>The first node: a leaf with the sentinel and one pair.\<close>

lemma first_leaf:
  assumes "length k \<le> BTREE_MAX_KEY_SIZE" "length v \<le> BTREE_MAX_VAL_SIZE"
  obtains b0 b1 b2 where "setHeader (make_buf BTREE_PAGE_SIZE) BNODE_LEAF 2 = Some b0"
    "nodeAppendKV b0 0 0 [] [] = Some b1" "nodeAppendKV b1 1 0 k v = Some b2"
    "length b2 = BTREE_PAGE_SIZE" "node_rep b2 BNODE_LEAF [(0, [], []), (0, k, v)]"
proof -
  have fit: "length k + length v \<le> 4000" using assms by (simp add: BTREE_MAX_KEY_SIZE_def BTREE_MAX_VAL_SIZE_def)
  obtain b0 where b0: "setHeader (make_buf BTREE_PAGE_SIZE) BNODE_LEAF 2 = Some b0"
      "length b0 = BTREE_PAGE_SIZE" "holds b0 BNODE_LEAF 2 []"
    using holds_setHeader [of "make_buf BTREE_PAGE_SIZE" 2 BNODE_LEAF]
    by (auto simp: BTREE_PAGE_SIZE_def BNODE_LEAF_def)
  obtain b1 where b1: "nodeAppendKV b0 0 0 [] [] = Some b1"
      "length b1 = BTREE_PAGE_SIZE" "holds b1 BNODE_LEAF 2 [(0, [], [])]"
    by (rule append_kv_rep [OF b0(3), of 0 0 "[]" "[]"]) (use b0(2) in \<open>auto simp: BTREE_PAGE_SIZE_def\<close>)
  obtain b2 where "nodeAppendKV b1 1 0 k v = Some b2"
      "length b2 = BTREE_PAGE_SIZE" "holds b2 BNODE_LEAF 2 [(0, [], []), (0, k, v)]"
    by (rule append_kv_rep [OF b1(3), of 1 0 k v]) (use b1(2) fit in \<open>auto simp: BTREE_PAGE_SIZE_def\<close>)
  then show ?thesis
    by (intro that [OF b0(1) b1(1)]) (simp_all add: node_rep_def numeral_2_eq_2)
qed

context pager
begin

lemma btree_Get_ok:
  assumes "inv s" "tree_holds (view s) root h kvs" "h < fuel" "key \<noteq> []"
  shows "btree_Get cb fuel key root s = Some (map_of kvs key)"
proof (cases "root = 0")
  case True
  then show ?thesis using assms(2) by (simp add: btree_Get_def)
next
  case False
  with assms(2) obtain b t where bt: "view s root = Some b" "node_tree (view s) h b t" "kvs_of t = ([], []) # kvs"
    by (auto elim: tree_holdsE)
  have "nodeGetKey cb fuel b key s = Some (map_of (kvs_of t) key)"
    by (rule nodeGetKey_ok [OF assms(1) bt(2) _ assms(3)]) (simp add: bt(3))
  then show ?thesis
    using False get_ok [OF assms(1) bt(1)] bt(3) assms(4) by (simp add: btree_Get_def)
qed

lemma store_root:
  assumes "inv s" "0 < room s" "wf_shape h t" "stored (view s) t" "distinct (spages t)" "page_of b t"
    "sorted_kvs (kvs_of t)" "kvs_of t = ([], []) # kvs"
  obtains root s' where "tree_new cb s b = Some (root, s')" "inv s'" "room s \<le> Suc (room s')" "root \<noteq> 0"
    "tree_holds (view s') root h kvs" "view s root = None" "view s' = (view s)(root \<mapsto> b)"
proof -
  obtain p s' where new: "tree_new cb s b = Some (p, s')" "inv s'" "p \<noteq> 0" "view s p = None"
      "view s' = (view s)(p \<mapsto> b)" "room s \<le> Suc (room s')"
    using new_ok [OF assms(1,2), of b] assms(6) by (auto simp: page_of_def)
  have notin: "p \<notin> set (spages t)" using stored_pages [OF assms(4)] new(4) by blast
  have "stored (view s') t" by (rule stored_cong [OF assms(4)]) (use notin new(5) in auto)
  then have "tree_holds (view s') p h kvs"
    using assms new notin by (auto simp: tree_holds_def node_tree_def repr_def page_of_def)
  then show ?thesis using that new by blast
qed

lemma create_root:
  assumes "inv s" "0 < room s" "checkLimit (Key req) (Val req) = None"
  shows "\<exists>root s'. btree_Update cb fuel req 0 s = Some (Inr True, req\<lparr>Added := True, Updated := True\<rparr>, root, s')
     \<and> inv s' \<and> room s \<le> Suc (room s') \<and> root \<noteq> 0 \<and> tree_holds (view s') root 0 [(Key req, Val req)]"
proof -
  have lim: "length (Key req) \<le> BTREE_MAX_KEY_SIZE" "length (Val req) \<le> BTREE_MAX_VAL_SIZE" "Key req \<noteq> []"
    using assms(3) by (auto simp: checkLimit_def split: if_splits)
  let ?t = "SLeaf [(0, [], []), (0, Key req, Val req)]"
  obtain b0 b1 b2 where b: "setHeader (make_buf BTREE_PAGE_SIZE) BNODE_LEAF 2 = Some b0"
    "nodeAppendKV b0 0 0 [] [] = Some b1" "nodeAppendKV b1 1 0 (Key req) (Val req) = Some b2"
    "length b2 = BTREE_PAGE_SIZE" "node_rep b2 BNODE_LEAF [(0, [], []), (0, Key req, Val req)]"
    by (rule first_leaf [OF lim(1,2)])
  have lt: "[] < Key req" using lim(3) by (cases "Key req") simp_all
  show ?thesis
    by (rule store_root [OF assms(1,2), of 0 ?t b2 "[(Key req, Val req)]"])
       (use b lt assms(3) in \<open>auto simp: page_of_def btree_Update_def\<close>)
qed

text \<open>The root was updated and now takes one to three pages.\<close>

lemma split_root:
  assumes s: "inv s" "5 \<le> room s" and t: "wf_shape h t" "stored (view s) t" "distinct (spages t)"
      "sorted_kvs (kvs_of t)" "kvs_of t = ([], []) # kvs" "small_kvs kvs"
    and b: "node_rep b (stype t) (entries_of t)" "length b = 2 * BTREE_PAGE_SIZE" "nsize (entries_of t) \<le> 4684"
    and r: "view s r \<noteq> None" "r \<notin> set (spages t)"
  obtains bs s2 root s3 h' where "nodeSplit3 b = Some bs" "tree_del cb s r = Some s2"
    "(if length bs > 1 then do {
        node \<leftarrow> setHeader (make_buf BTREE_PAGE_SIZE) BNODE_NODE (length bs);
        (node, s) \<leftarrow> appendKids cb node 0 bs s2;
        tree_new cb s node
      } else tree_new cb s2 (hd bs)) = Some (root, s3)"
    "inv s3" "room s \<le> room s3 + 5" "root \<noteq> 0" "h' \<le> Suc h" "tree_holds (view s3) root h' kvs"
proof -
  have sm: "small_kvs (kvs_of t)" "kvs_of t \<noteq> []" using t(5,6) by (auto simp: small_kvs_def)
  obtain bs ts where bs: "nodeSplit3 b = Some bs" "list_all2 page_of bs ts" "bs \<noteq> []" "length bs \<le> 3"
      "\<forall>t \<in> set ts. wf_shape h t \<and> stored (view s) t" "distinct (concat (map spages ts))"
      "concat (map spages ts) = spages t" "concat (map kvs_of ts) = kvs_of t"
    using split_updated [OF t(1-3) sm(2,1) b] by blast
  obtain s2 where s2: "tree_del cb s r = Some s2" "inv s2"
      "\<forall>q. q \<noteq> r \<longrightarrow> view s2 q = view s q" "room s \<le> Suc (room s2)"
    using del_ok [OF s(1) _ r(1)] s(2) by auto
  have st2: "\<forall>t \<in> set ts. wf_shape h t \<and> stored (view s2) t"
  proof
    fix t' assume "t' \<in> set ts"
    moreover from this have "r \<notin> set (spages t')" using r(2) bs(7) [symmetric] by auto
    ultimately show "wf_shape h t' \<and> stored (view s2) t'"
      using bs(5) s2(3) stored_cong [of "view s" t' "view s2"] by metis
  qed
  show ?thesis
  proof (cases "length bs > 1")
    case False
    then obtain b1 t1 where 1: "bs = [b1]" "ts = [t1]"
      using bs(2,3) by (cases bs) (auto simp: list_all2_Cons1)
    show ?thesis
    proof (rule store_root [OF s2(2), of h t1 b1 kvs])
      fix root s3
      assume "tree_new cb s2 b1 = Some (root, s3)" "inv s3" "room s2 \<le> Suc (room s3)" "root \<noteq> 0"
        "tree_holds (view s3) root h kvs"
      then show ?thesis using that [of bs s2 root s3 h] bs(1) s2 1 by simp
    qed (use 1 bs st2 s2(4) s(2) t in simp_all)
  next
    case True
    have ts: "ts \<noteq> []" "length ts = length bs" "length ts \<le> 3" using bs(2-4) by (auto dest: list_all2_lengthD)
    have keys: "sep_size (map first_key ts) \<le> 602"
      using parts_keys [OF bs(2) _ _ ts(1,3), of h] bs(5,8) sm t(5) by simp
    obtain b0 where b0: "setHeader (make_buf BTREE_PAGE_SIZE) BNODE_NODE (length bs) = Some b0"
        "length b0 = BTREE_PAGE_SIZE" "holds b0 BNODE_NODE (length bs) []"
      using holds_setHeader [of "make_buf BTREE_PAGE_SIZE" "length bs" BNODE_NODE] bs(4)
      by (auto simp: BTREE_PAGE_SIZE_def BNODE_NODE_def)
    obtain b1 s3 cs where k: "appendKids cb b0 0 bs s2 = Some (b1, s3)" "inv s3" "room s2 \<le> room s3 + length bs"
        "length b1 = length b0" "holds b1 BNODE_NODE (length bs) (map kid_entry cs)" "linked (view s2) (view s3) bs ts cs"
      using appendKids_ok [OF s2(2) _ bs(2) b0(3)] keys s2(4) s(2) bs(4) b0(2)
      by (auto simp: BTREE_PAGE_SIZE_def)
    have cs: "length cs = length bs" using k(6) ts(2) by (auto simp: linked_def)
    have page: "page_of b1 (SNode cs)"
      using k(4,5) b0(2) cs bs(3) by (simp add: page_of_def node_rep_def) (cases cs; simp)
    have wf: "\<forall>c \<in> set cs. wf_kid h c \<and> stored_kid (view s3) c"
      using linked_kids [OF k(6) bs(2) st2] .
    have kv: "kids_kvs cs = kvs_of t" using linked_pages(1) [OF k(6)] bs(8) by simp
    have ds: "distinct (kids_pages cs)" using linked_distinct [OF k(6) bs(6)] st2 by simp
    show ?thesis
    proof (rule store_root [OF k(2) _ _ _ _ page, of "Suc h" kvs])
      fix root s4
      assume "tree_new cb s3 b1 = Some (root, s4)" "inv s4" "room s3 \<le> Suc (room s4)" "root \<noteq> 0"
        "tree_holds (view s4) root (Suc h) kvs"
      then show ?thesis using that [of bs s2 root s4 "Suc h"] bs(1,4) s2 b0(1) k(1,3) True by simp
    qed (use wf kv ds t s2(4) s(2) k(3) bs(4) in simp_all)
  qed
qed

lemma btree_Update_ok:
  assumes "inv s" "tree_holds (view s) root h kvs" "h < fuel" "4 * h + 5 \<le> room s"
    and lim: "checkLimit (Key req) (Val req) = None" and small: "length (Key req) + length (Val req) \<le> 280" "small_kvs kvs"
    and ne: "root \<noteq> 0" and cur: "cur = map_of kvs (Key req)"
  shows "if no_update req cur then btree_Update cb fuel req root s = Some (Inr False, req, root, s)
    else \<exists>root' h' s'. btree_Update cb fuel req root s = Some (Inr True, req_done req cur, root', s')
      \<and> inv s' \<and> room s \<le> room s' + 4 * h + 5 \<and> root' \<noteq> 0 \<and> h' \<le> Suc h
      \<and> tree_holds (view s') root' h' (ins_kv (Key req) (Val req) kvs)"
proof -
  obtain b t where bt: "view s root = Some b" "length b = BTREE_PAGE_SIZE" "node_tree (view s) h b t"
      "kvs_of t = ([], []) # kvs" "root \<notin> set (spages t)" "nsize (entries_of t) \<le> BTREE_PAGE_SIZE"
    by (rule tree_holdsE [OF assms(2) ne])
  have key: "Key req \<noteq> []" "\<not> Key req < []" using lim by (auto simp: checkLimit_def split: if_splits)
  have cur': "cur = map_of (kvs_of t) (Key req)" using key bt(4) cur by simp
  have sm: "small_kvs (kvs_of t)" using bt(4) small(2) by (simp add: small_kvs_def)
  note up = treeUpdate_ok [OF assms(1) bt(3,6) sm small(1) _ assms(3) _ cur']
  note eval = btree_Update_def lim ne get_ok [OF assms(1) bt(1)]
  show ?thesis
  proof (cases "no_update req cur")
    case True
    then show ?thesis using up assms(4) bt(4) by (simp add: eval)
  next
    case False
    then obtain u s1 where u: "treeUpdate cb fuel req b s = Some (req_done req cur, u, s1)" "updates_to s h t req u s1"
      using up assms(4) bt(4) by auto
    obtain t' where t': "length u = 2 * BTREE_PAGE_SIZE" "inv s1" "room s \<le> room s1 + 4 * h"
        "wf_shape h t'" "node_rep u (stype t') (entries_of t')" "stored (view s1) t'" "sorted_kvs (kvs_of t')"
        "distinct (spages t')" "kvs_of t' = ins_kv (Key req) (Val req) (kvs_of t)"
        "nsize (entries_of t') \<le> nsize (entries_of t) + 588"
        "set (spages t') \<subseteq> set (spages t) \<union> {p. view s p = None}" "keeps (view s) (view s1) (set (spages t))"
      using u(2) by (auto simp: updates_to_def node_tree_def repr_def)
    have kv: "kvs_of t' = ([], []) # ins_kv (Key req) (Val req) kvs" using t'(9) bt(4) key by simp
    have r: "view s1 root \<noteq> None" "root \<notin> set (spages t')"
      using keepsD [OF t'(12) bt(5)] bt(1,5) t'(11) by auto
    have sz: "nsize (entries_of t') \<le> 4684" "5 \<le> room s1" "length u \<noteq> 0"
      using t'(1,3,10) bt(6) assms(4) by (simp_all add: BTREE_PAGE_SIZE_def)
    show ?thesis
    proof (rule split_root [OF t'(2) sz(2) t'(4,6,8,7) kv small_ins_kv [OF small(2,1)] t'(5,1) sz(1) r])
      fix bs s2 root' s3 h'
      assume k: "nodeSplit3 u = Some bs" "tree_del cb s1 root = Some s2"
        "(if length bs > 1 then do {
          node \<leftarrow> setHeader (make_buf BTREE_PAGE_SIZE) BNODE_NODE (length bs);
          (node, s) \<leftarrow> appendKids cb node 0 bs s2;
          tree_new cb s node
        } else tree_new cb s2 (hd bs)) = Some (root', s3)"
        "inv s3" "room s1 \<le> room s3 + 5" "root' \<noteq> 0" "h' \<le> Suc h" 
        "tree_holds (view s3) root' h' (ins_kv (Key req) (Val req) kvs)"
      have "btree_Update cb fuel req root s = Some (Inr True, req_done req cur, root', s3)"
        using k(3) by (cases "length bs > 1")
          (use sz(3) in \<open>auto simp: eval u(1) k(1,2) bind_eq_Some_conv split: if_splits\<close>)
      then show ?thesis using False k(4-8) t'(3) by auto
    qed
  qed
qed

end

section \<open>Sequences of insertions\<close>

text \<open>A client that inserts the pairs of a list, one \<^verbatim>\<open>Upsert\<close> after the other.\<close>

fun upserts :: "'s callbacks \<Rightarrow> nat \<Rightarrow> kv list \<Rightarrow> nat \<Rightarrow> 's \<Rightarrow> (nat \<times> 's) option" where
  "upserts cb fuel [] root s = Some (root, s)"
| "upserts cb fuel ((k, v) # ops) root s = do {
     (res, req, root, s) \<leftarrow> btree_Upsert cb fuel k v root s;
     upserts cb fuel ops root s
   }"

abbreviation ins_all :: "kv list \<Rightarrow> kv list \<Rightarrow> kv list" where
  "ins_all ops \<equiv> fold (\<lambda>(k, v). ins_kv k v) ops"

lemma map_of_ins_all: "sorted_kvs kvs \<Longrightarrow> map_of (ins_all ops kvs) = map_of kvs ++ map_of (rev ops)"
proof (induction ops arbitrary: kvs)
  case (Cons op ops)
  obtain k v where "op = (k, v)" by (cases op)
  then show ?case using Cons by (auto simp: map_of_ins_kv map_add_def fun_eq_iff split: option.splits)
qed simp

text \<open>The pairs a tree can take without a node ever failing to split.\<close>

definition small_op :: "kv \<Rightarrow> bool" where
  "small_op op \<longleftrightarrow> fst op \<noteq> [] \<and> length (fst op) + length (snd op) \<le> 280"

lemma small_op_limit: "small_op (k, v) \<Longrightarrow> checkLimit k v = None"
  by (simp add: small_op_def checkLimit_def BTREE_MAX_KEY_SIZE_def BTREE_MAX_VAL_SIZE_def)

lemma ins_kv_same: "sorted_kvs kvs \<Longrightarrow> map_of kvs k = Some v \<Longrightarrow> ins_kv k v kvs = kvs"
proof (induction k v kvs rule: ins_kv.induct)
  case (2 k v k' v' kvs)
  have "k \<in> fst ` set kvs" if "map_of kvs k = Some v"
    using map_of_SomeD [OF that] by force
  then show ?case using 2 by (auto split: if_splits)
qed simp

context pager
begin

lemma upsert_step:
  assumes "inv s" "tree_holds (view s) root h kvs" "h < fuel" "4 * h + 5 \<le> room s" "small_op (k, v)" "small_kvs kvs"
  obtains res req root' h' s' where "btree_Upsert cb fuel k v root s = Some (res, req, root', s')"
    "inv s'" "room s \<le> room s' + 4 * h + 5" "h' \<le> Suc h" "tree_holds (view s') root' h' (ins_kv k v kvs)"
proof -
  let ?req = "mk_update k v MODE_UPSERT"
  have req: "Key ?req = k" "Val ?req = v" "Mode ?req = MODE_UPSERT" by (simp_all add: mk_update_def)
  note lim = small_op_limit [OF assms(5)]
  show ?thesis
  proof (cases "root = 0")
    case True
    then have "kvs = []" "h = 0" using assms(2) by simp_all
    with create_root [OF assms(1), of ?req fuel] assms(4) lim that True req show ?thesis
      by (force simp: btree_Upsert_def)
  next
    case False
    note ok = btree_Update_ok [OF assms(1-4), of ?req, unfolded req, OF lim _ assms(6) False refl]
    show ?thesis
    proof (cases "no_update ?req (map_of kvs k)")
      case True
      then have "map_of kvs k = Some v"
        by (auto simp: no_update_def mk_update_def MODE_UPSERT_def MODE_INSERT_ONLY_def MODE_UPDATE_ONLY_def)
      then have "ins_kv k v kvs = kvs" using ins_kv_same tree_holds_sorted(1) [OF assms(2)] by simp
      then show ?thesis
        using that [of _ _ root s h] ok True assms(1,2,5) by (simp add: btree_Upsert_def small_op_def)
    next
      case False
      then show ?thesis
        using that ok assms(5) by (auto simp: btree_Upsert_def small_op_def)
    qed
  qed
qed

lemma upserts_ok:
  assumes "inv s" "tree_holds (view s) root h kvs" "small_kvs kvs" "\<forall>op \<in> set ops. small_op op"
    and "h + length ops < fuel" "length ops * (4 * (h + length ops) + 5) \<le> room s"
  shows "\<exists>root' h' s'. upserts cb fuel ops root s = Some (root', s') \<and> inv s'
    \<and> h' \<le> h + length ops \<and> tree_holds (view s') root' h' (ins_all ops kvs)
    \<and> room s \<le> room s' + length ops * (4 * (h + length ops) + 5)"
  using assms
proof (induction ops arbitrary: s root h kvs)
  case Nil
  then show ?case by auto
next
  case (Cons op ops)
  obtain k v where op: "op = (k, v)" by (cases op)
  let ?n = "length ops"
  define X where "X = ?n * (4 * (h + Suc ?n) + 5)"
  have room: "(4 * (h + Suc ?n) + 5) + X \<le> room s" using Cons.prems(6) by (simp add: X_def)
  have fuel: "h < fuel" and enough: "4 * h + 5 \<le> room s" and small: "small_op (k, v)"
    using Cons.prems(4,5) room op by auto
  obtain res req root' h' s' where st: "btree_Upsert cb fuel k v root s = Some (res, req, root', s')"
    "inv s'" "room s \<le> room s' + 4 * h + 5" "h' \<le> Suc h" "tree_holds (view s') root' h' (ins_kv k v kvs)"
    by (rule upsert_step [OF Cons.prems(1,2) fuel enough small Cons.prems(3)])
  have X': "?n * (4 * (h' + ?n) + 5) \<le> X" unfolding X_def using st(4) by (intro mult_le_mono2) simp
  also have "\<dots> \<le> room s'" using room st(3) by simp
  finally have room': "?n * (4 * (h' + ?n) + 5) \<le> room s'" .
  have small': "small_kvs (ins_kv k v kvs)" using small_ins_kv [OF Cons.prems(3)] small by (simp add: small_op_def)
  obtain root'' h'' s'' where "upserts cb fuel ops root' s' = Some (root'', s'')" "inv s''"
      "h'' \<le> h' + ?n" "tree_holds (view s'') root'' h'' (ins_all ops (ins_kv k v kvs))"
      "room s' \<le> room s'' + ?n * (4 * (h' + ?n) + 5)"
    using Cons.IH [OF st(2,5) small' _ _ room'] Cons.prems(4,5) st(4) by auto
  moreover from this(5) have "room s \<le> room s'' + length (op # ops) * (4 * (h + length (op # ops)) + 5)"
  proof -
    have "length (op # ops) * (4 * (h + length (op # ops)) + 5) = (4 * (h + Suc ?n) + 5) + X" by (simp add: X_def)
    moreover have "room s' \<le> room s'' + X"
      using \<open>room s' \<le> _\<close> X' by (meson add_le_cancel_left order_trans)
    ultimately show ?thesis using st(3) by simp
  qed
  ultimately show ?case using st(1,4) op by (intro exI [of _ root''] exI [of _ h''] exI [of _ s'']) simp
qed

text \<open>\<^const>\<open>btree_Update\<close> in its upsert mode reports whether the pair is new.\<close>

lemma upsert_result:
  assumes "inv s" "tree_holds (view s) root h kvs" "h < fuel" "4 * h + 5 \<le> room s" "small_op (k, v)" "small_kvs kvs"
  obtains req' root' h' s' where
    "btree_Update cb fuel (mk_update k v MODE_UPSERT) root s = Some (Inr (map_of kvs k \<noteq> Some v), req', root', s')"
    "inv s'" "room s \<le> room s' + 4 * h + 5" "h' \<le> Suc h" "tree_holds (view s') root' h' (ins_kv k v kvs)"
    "map_of kvs k = Some v \<Longrightarrow> root' = root \<and> s' = s"
proof -
  let ?req = "mk_update k v MODE_UPSERT"
  have req: "Key ?req = k" "Val ?req = v" "Mode ?req = MODE_UPSERT" by (simp_all add: mk_update_def)
  note lim = small_op_limit [OF assms(5)]
  show ?thesis
  proof (cases "root = 0")
    case True
    then have e: "kvs = []" "h = 0" using assms(2) by simp_all
    have "0 < room s" using assms(4) by simp
    with create_root [OF assms(1) this, of ?req fuel] lim req
    obtain root' s' where "btree_Update cb fuel ?req 0 s = Some (Inr True, ?req\<lparr>Added := True, Updated := True\<rparr>, root', s')"
       "inv s'" "room s \<le> Suc (room s')" "tree_holds (view s') root' 0 [(k, v)]" by auto
    then show ?thesis using True e by (intro that [of "?req\<lparr>Added := True, Updated := True\<rparr>" root' s' 0]) simp_all
  next
    case False
    have nu: "no_update ?req (map_of kvs k) \<longleftrightarrow> map_of kvs k = Some v"
      by (auto simp: no_update_def mk_update_def MODE_UPSERT_def MODE_INSERT_ONLY_def MODE_UPDATE_ONLY_def)
    have o: "if no_update ?req (map_of kvs k) then btree_Update cb fuel ?req root s = Some (Inr False, ?req, root, s)
        else \<exists>root' h' s'. btree_Update cb fuel ?req root s = Some (Inr True, req_done ?req (map_of kvs k), root', s')
          \<and> inv s' \<and> room s \<le> room s' + 4 * h + 5 \<and> root' \<noteq> 0 \<and> h' \<le> Suc h \<and> tree_holds (view s') root' h' (ins_kv k v kvs)"
      using btree_Update_ok [OF assms(1-4), of ?req "map_of kvs k"] lim assms(5,6) False
      by (simp add: req small_op_def cong: if_cong)
    show ?thesis
    proof (cases "map_of kvs k = Some v")
      case True
      have "ins_kv k v kvs = kvs" by (rule ins_kv_same [OF tree_holds_sorted(1) [OF assms(2)] True])
      then show ?thesis using o assms True nu by (intro that [of ?req root s h]) simp_all
    next
      case False
      then have "\<not> no_update ?req (map_of kvs k)" using nu by simp
      then obtain root' h' s' where "btree_Update cb fuel ?req root s = Some (Inr True, req_done ?req (map_of kvs k), root', s')"
          "inv s'" "room s \<le> room s' + 4 * h + 5" "h' \<le> Suc h" "tree_holds (view s') root' h' (ins_kv k v kvs)"
        using o by auto
      then show ?thesis using False by (intro that) simp_all
    qed
  qed
qed

end

end
