(* ===== verification/KVStore.thy ===== *)
theory KVStore
  imports FreeList TreeRoot
begin

text \<open>
  The key-value store of \<^verbatim>\<open>db/kv.go\<close> (and \<^verbatim>\<open>db/file.go\<close>): pages in a file, pending page
  updates in memory, the free list and the B+tree on top of them, and the two-phase commit
  that makes a set of updates durable.

  The operating system is part of the state: the contents of the file, what of it has been
  synced, and a script of outcomes for the coming system calls (none left: they succeed).
  A failed write may have written any number of its bytes.
\<close>

section \<open>System calls\<close>

type_synonym go_error = string

datatype outcome = SysOk | SysErr go_error nat

record OS =
  os_file :: bytes
  os_synced :: bytes
  os_unsynced :: "(nat \<times> bytes) list"
  os_outcomes :: "outcome list"

definition next_outcome :: "OS \<Rightarrow> outcome \<times> OS" where
  "next_outcome os = (case os_outcomes os of
     [] \<Rightarrow> (SysOk, os)
   | r # rs \<Rightarrow> (r, os\<lparr>os_outcomes := rs\<rparr>))"

definition write_at :: "bytes \<Rightarrow> nat \<Rightarrow> bytes \<Rightarrow> bytes" where
  "write_at f off data =
     take off (f @ replicate (off - length f) 0) @ data @ drop (off + length data) f"

definition os_write :: "OS \<Rightarrow> bytes \<Rightarrow> nat \<Rightarrow> OS" where
  "os_write os data off = os\<lparr>os_file := write_at (os_file os) off data,
                             os_unsynced := os_unsynced os @ [(off, data)]\<rparr>"

definition sys_pwrite :: "OS \<Rightarrow> bytes \<Rightarrow> nat \<Rightarrow> go_error option \<times> OS" where
  "sys_pwrite os data off = (case next_outcome os of
     (SysOk, os) \<Rightarrow> (None, os_write os data off)
   | (SysErr e n, os) \<Rightarrow> (Some e, if n = 0 then os else os_write os (take n data) off))"

definition sys_fsync :: "OS \<Rightarrow> go_error option \<times> OS" where
  "sys_fsync os = (case next_outcome os of
     (SysOk, os) \<Rightarrow> (None, os\<lparr>os_synced := os_file os, os_unsynced := []\<rparr>)
   | (SysErr e n, os) \<Rightarrow> (Some e, os))"

text \<open>Calls that do not change the file.\<close>

definition sys_call :: "OS \<Rightarrow> go_error option \<times> OS" where
  "sys_call os = (case next_outcome os of
     (SysOk, os) \<Rightarrow> (None, os)
   | (SysErr e n, os) \<Rightarrow> (Some e, os))"

text \<open>
  Reading through a mapping: bytes past the end of the file are zero up to the end of the page
  the file ends in, later pages fault.
\<close>

definition mapped_bytes :: "bytes \<Rightarrow> nat \<Rightarrow> nat \<Rightarrow> bytes option" where
  "mapped_bytes f off n =
     (if off + n \<le> length f then Some (sub f off n)
      else if off div 4096 * 4096 < length f \<and> off + n \<le> (length f + 4095) div 4096 * 4096
      then Some (sub (f @ replicate 4096 0) off n)
      else None)"

section \<open>The store\<close>

record KeyRange =
  kr_start :: bytes
  kr_stop :: bytes

record CommittedTX =
  ctx_version :: nat
  ctx_writes :: "KeyRange list"

text \<open>A mapping is the file offset and the length of a chunk.\<close>

record KV =
  kv_os :: OS
  kv_root :: nat
  kv_free :: FreeList
  mmap_total :: nat
  mmap_chunks :: "(nat \<times> nat) list"
  page_flushed :: nat
  page_nappend :: nat
  page_updates :: "nat \<rightharpoonup> bytes"
  kv_failed :: bool
  kv_version :: nat
  kv_ongoing :: "nat list"
  kv_history :: "CommittedTX list"

definition new_kv :: "OS \<Rightarrow> KV" where
  "new_kv os = \<lparr>kv_os = os, kv_root = 0,
     kv_free = \<lparr>headPage = 0, headSeq = 0, tailPage = 0, tailSeq = 0, maxSeq = 0, maxVer = 0, curVer = 0\<rparr>,
     mmap_total = 0, mmap_chunks = [], page_flushed = 0, page_nappend = 0, page_updates = Map.empty,
     kv_failed = False, kv_version = 0, kv_ongoing = [], kv_history = []\<rparr>"

subsection \<open>Pages\<close>

fun mmapLoop :: "bytes \<Rightarrow> nat \<Rightarrow> nat \<Rightarrow> (nat \<times> nat) list \<Rightarrow> bytes option" where
  "mmapLoop f ptr start [] = None"
| "mmapLoop f ptr start ((coff, clen) # chunks) =
     (let end = start + clen div BTREE_PAGE_SIZE in
      if ptr < end
      then let offset = BTREE_PAGE_SIZE * (ptr - start) in
           if offset + BTREE_PAGE_SIZE \<le> clen then mapped_bytes f (coff + offset) BTREE_PAGE_SIZE else None
      else mmapLoop f ptr end chunks)"

definition mmapRead :: "bytes \<Rightarrow> nat \<Rightarrow> (nat \<times> nat) list \<Rightarrow> bytes option" where
  "mmapRead f ptr chunks = mmapLoop f ptr 0 chunks"

definition pageRead :: "KV \<Rightarrow> nat \<Rightarrow> bytes option" where
  "pageRead db ptr = do {
     _ \<leftarrow> go_assert (ptr < u64 (page_flushed db + page_nappend db));
     (case page_updates db ptr of
        Some node \<Rightarrow> Some node
      | None \<Rightarrow> mmapRead (os_file (kv_os db)) ptr (mmap_chunks db))
   }"

definition pageAppend :: "KV \<Rightarrow> bytes \<Rightarrow> (nat \<times> KV) option" where
  "pageAppend db node = do {
     _ \<leftarrow> go_assert (length node = BTREE_PAGE_SIZE);
     let ptr = u64 (page_flushed db + page_nappend db);
     let db = db\<lparr>page_nappend := u64 (page_nappend db + 1)\<rparr>;
     _ \<leftarrow> go_assert (page_updates db ptr = None);
     Some (ptr, db\<lparr>page_updates := (page_updates db)(ptr \<mapsto> node)\<rparr>)
   }"

text \<open>\<open>f\<close> is the in-place change the caller makes to the buffer it gets back.\<close>

definition pageWrite :: "KV \<Rightarrow> nat \<Rightarrow> (bytes \<Rightarrow> bytes option) \<Rightarrow> KV option" where
  "pageWrite db ptr f = do {
     _ \<leftarrow> go_assert (ptr < u64 (page_flushed db + page_nappend db));
     node \<leftarrow> (case page_updates db ptr of
        Some node \<Rightarrow> Some node
      | None \<Rightarrow>
          let node = make_buf BTREE_PAGE_SIZE in
          if \<not> (page_flushed db = 2 \<and> ptr = 1)
          then do { src \<leftarrow> mmapRead (os_file (kv_os db)) ptr (mmap_chunks db); copy_at node 0 src }
          else Some node);
     node \<leftarrow> f node;
     Some (db\<lparr>page_updates := (page_updates db)(ptr \<mapsto> node)\<rparr>)
   }"

definition kv_fl_callbacks :: "KV fl_callbacks" where
  "kv_fl_callbacks = \<lparr>fl_get = pageRead, fl_new = pageAppend, fl_set = pageWrite\<rparr>"

text \<open>The free-list methods with the list they change inside the store.\<close>

definition kv_PopHead :: "KV \<Rightarrow> (nat \<times> KV) option" where
  "kv_PopHead db = do {
     (ptr, fl, db) \<leftarrow> PopHead kv_fl_callbacks (kv_free db) db;
     Some (ptr, db\<lparr>kv_free := fl\<rparr>)
   }"

definition kv_PushTail :: "KV \<Rightarrow> nat \<Rightarrow> KV option" where
  "kv_PushTail db ptr = do {
     (fl, db) \<leftarrow> PushTail kv_fl_callbacks (kv_free db) db ptr;
     Some (db\<lparr>kv_free := fl\<rparr>)
   }"

definition pageAlloc :: "KV \<Rightarrow> bytes \<Rightarrow> (nat \<times> KV) option" where
  "pageAlloc db node = do {
     (ptr, db) \<leftarrow> kv_PopHead db;
     (if ptr \<noteq> 0 then do {
        _ \<leftarrow> go_assert (page_updates db ptr = None);
        Some (ptr, db\<lparr>page_updates := (page_updates db)(ptr \<mapsto> node)\<rparr>)
      }
      else pageAppend db node)
   }"

definition kv_callbacks :: "KV callbacks" where
  "kv_callbacks = \<lparr>tree_get = pageRead, tree_new = pageAlloc, tree_del = kv_PushTail\<rparr>"

subsection \<open>Writing pages\<close>

function growAlloc :: "nat \<Rightarrow> nat \<Rightarrow> nat \<Rightarrow> nat" where
  "growAlloc tot alloc sz =
     (if 0 < alloc \<and> tot + alloc < sz then growAlloc tot (alloc * 2) sz else alloc)"
  by pat_completeness auto
termination by (relation "measure (\<lambda>(tot, alloc, sz). sz - alloc)") auto

declare growAlloc.simps [simp del]

definition extendMmap :: "KV \<Rightarrow> nat \<Rightarrow> go_error option \<times> KV" where
  "extendMmap db sz =
     (if sz \<le> mmap_total db then (None, db)
      else
        let alloc = growAlloc (mmap_total db) (max (mmap_total db) (64 * 2 ^ 20)) sz;
            (err, os) = sys_call (kv_os db);
            db = db\<lparr>kv_os := os\<rparr>
        in case err of
             Some e \<Rightarrow> (Some (''mmap: '' @ e), db)
           | None \<Rightarrow> (None, db\<lparr>mmap_chunks := mmap_chunks db @ [(mmap_total db, alloc)],
                                mmap_total := mmap_total db + alloc\<rparr>))"

text \<open>The loop over the pending pages; Go's map order is the list \<open>ord\<close>.\<close>

fun writeLoop :: "KV \<Rightarrow> nat list \<Rightarrow> (go_error option \<times> KV) option" where
  "writeLoop db [] = Some (None, db)"
| "writeLoop db (ptr # ord) = do {
     node \<leftarrow> page_updates db ptr;
     let (err, os) = sys_pwrite (kv_os db) node (u64 (ptr * BTREE_PAGE_SIZE));
     let db = db\<lparr>kv_os := os\<rparr>;
     (case err of
        Some e \<Rightarrow> Some (Some e, db)
      | None \<Rightarrow> writeLoop db ord)
   }"

definition writePages :: "KV \<Rightarrow> nat list \<Rightarrow> (go_error option \<times> KV) option" where
  "writePages db ord =
     (let sz = u64 (page_flushed db + page_nappend db) * BTREE_PAGE_SIZE;
          (err, db) = extendMmap db sz
      in case err of
           Some e \<Rightarrow> Some (Some e, db)
         | None \<Rightarrow> do {
             (err, db) \<leftarrow> writeLoop db ord;
             (case err of
                Some e \<Rightarrow> Some (Some e, db)
              | None \<Rightarrow> Some (None, db\<lparr>page_flushed := u64 (page_flushed db + page_nappend db),
                                       page_nappend := 0, page_updates := Map.empty\<rparr>))
           })"

subsection \<open>The meta page\<close>

text \<open>The bytes of the signature string.\<close>

definition DB_SIG :: bytes where
  "DB_SIG = [82, 101, 108, 97, 116, 105, 111, 110, 97, 108, 68, 66, 48, 49, 50, 51]"

definition loadMeta :: "KV \<Rightarrow> bytes \<Rightarrow> KV option" where
  "loadMeta db data = do {
     r \<leftarrow> get_le 8 data 16;
     fl \<leftarrow> get_le 8 data 24;
     hp \<leftarrow> get_le 8 data 32;
     hs \<leftarrow> get_le 8 data 40;
     tp \<leftarrow> get_le 8 data 48;
     ts \<leftarrow> get_le 8 data 56;
     v \<leftarrow> get_le 8 data 64;
     Some (db\<lparr>kv_root := r, page_flushed := fl,
       kv_free := (kv_free db)\<lparr>headPage := hp, headSeq := hs, tailPage := tp, tailSeq := ts\<rparr>,
       kv_version := v\<rparr>)
   }"

definition saveMeta :: "KV \<Rightarrow> bytes option" where
  "saveMeta db = do {
     data \<leftarrow> copy_at (replicate 72 0) 0 DB_SIG;
     data \<leftarrow> put_le 8 data 16 (kv_root db);
     data \<leftarrow> put_le 8 data 24 (page_flushed db);
     data \<leftarrow> put_le 8 data 32 (headPage (kv_free db));
     data \<leftarrow> put_le 8 data 40 (headSeq (kv_free db));
     data \<leftarrow> put_le 8 data 48 (tailPage (kv_free db));
     data \<leftarrow> put_le 8 data 56 (tailSeq (kv_free db));
     put_le 8 data 64 (kv_version db)
   }"

text \<open>The first bytes of the first chunk, as far as the code looks at them.\<close>

definition meta_bytes :: "KV \<Rightarrow> bytes option" where
  "meta_bytes db = (case mmap_chunks db of
     [] \<Rightarrow> None
   | (coff, clen) # _ \<Rightarrow> if 72 \<le> clen then mapped_bytes (os_file (kv_os db)) coff 72 else None)"

definition readRoot :: "KV \<Rightarrow> nat \<Rightarrow> (go_error option \<times> KV) option" where
  "readRoot db fileSize =
     (if fileSize = 0
      then Some (None, db\<lparr>page_flushed := 2, kv_free := (kv_free db)\<lparr>headPage := 1, tailPage := 1\<rparr>\<rparr>)
      else if fileSize mod BTREE_PAGE_SIZE \<noteq> 0
      then Some (Some ''file is not multiple of pages'', db)
      else do {
        data \<leftarrow> meta_bytes db;
        db \<leftarrow> loadMeta db data;
        let db = db\<lparr>kv_free := SetMaxVer (kv_free db) (kv_version db)\<rparr>;
        let bad = (DB_SIG \<noteq> sub data 0 16);
        let maxPages = fileSize div BTREE_PAGE_SIZE;
        let bad = (bad \<or> \<not> (0 < page_flushed db \<and> page_flushed db \<le> maxPages));
        let bad = (bad \<or> \<not> (0 < kv_root db \<and> kv_root db < page_flushed db));
        let bad = (bad \<or> \<not> (0 < headPage (kv_free db) \<and> headPage (kv_free db) < page_flushed db));
        let bad = (bad \<or> \<not> (0 < tailPage (kv_free db) \<and> tailPage (kv_free db) < page_flushed db));
        (if bad then Some (Some ''bad meta page'', db) else Some (None, db))
      })"

subsection \<open>The two-phase update\<close>

definition updateRoot :: "KV \<Rightarrow> (go_error option \<times> KV) option" where
  "updateRoot db = do {
     meta \<leftarrow> saveMeta db;
     let (err, os) = sys_pwrite (kv_os db) meta 0;
     let db = db\<lparr>kv_os := os\<rparr>;
     (case err of
        Some e \<Rightarrow> Some (Some (''write meta page: '' @ e), db)
      | None \<Rightarrow> Some (None, db))
   }"

definition kv_Fsync :: "KV \<Rightarrow> go_error option \<times> KV" where
  "kv_Fsync db = (let (err, os) = sys_fsync (kv_os db) in (err, db\<lparr>kv_os := os\<rparr>))"

definition updateFile :: "KV \<Rightarrow> nat list \<Rightarrow> (go_error option \<times> KV) option" where
  "updateFile db ord = do {
     (err, db) \<leftarrow> writePages db ord;
     (if err \<noteq> None then Some (err, db) else do {
        let (err, db) = kv_Fsync db;
        (if err \<noteq> None then Some (err, db) else do {
           (err, db) \<leftarrow> updateRoot db;
           (if err \<noteq> None then Some (err, db) else Some (kv_Fsync db))
         })
      })
   }"

definition rewriteMeta :: "KV \<Rightarrow> bytes \<Rightarrow> go_error option \<times> KV" where
  "rewriteMeta db meta =
     (if kv_failed db
      then let (err, os) = sys_pwrite (kv_os db) meta 0; db = db\<lparr>kv_os := os\<rparr>
           in case err of
                Some e \<Rightarrow> (Some (''rewrite meta page: '' @ e), db)
              | None \<Rightarrow>
                  let (err, db) = kv_Fsync db
                  in if err \<noteq> None then (err, db) else (None, db\<lparr>kv_failed := False\<rparr>)
      else (None, db))"

definition updateOrRevert :: "KV \<Rightarrow> bytes \<Rightarrow> nat list \<Rightarrow> (go_error option \<times> KV) option" where
  "updateOrRevert db meta ord =
     (let (err, db) = rewriteMeta db meta
      in if err \<noteq> None then Some (err, db)
         else do {
           (err, db) \<leftarrow> updateFile db ord;
           (if err \<noteq> None then do {
              let db = db\<lparr>kv_failed := True\<rparr>;
              db \<leftarrow> loadMeta db meta;
              Some (err, db\<lparr>page_nappend := 0, page_updates := Map.empty\<rparr>)
            }
            else Some (None, db))
         })"

subsection \<open>Opening and closing\<close>

definition createFileSync :: "OS \<Rightarrow> go_error option \<times> OS" where
  "createFileSync os =
     (let close = (\<lambda>os. snd (sys_call os));
          (err, os) = sys_call os
      in case err of Some e \<Rightarrow> (Some (''open directory: '' @ e), os)
       | None \<Rightarrow> let (err, os) = sys_call os
         in case err of Some e \<Rightarrow> (Some (''open file: '' @ e), close os)
          | None \<Rightarrow> let (err, os) = sys_call os
            in case err of Some e \<Rightarrow> (Some (''fsync directory: '' @ e), close (close os))
             | None \<Rightarrow> (None, close os))"

fun munmapLoop :: "OS \<Rightarrow> (nat \<times> nat) list \<Rightarrow> OS option" where
  "munmapLoop os [] = Some os"
| "munmapLoop os (chunk # chunks) = do {
     let (err, os) = sys_call os;
     _ \<leftarrow> go_assert (err = None);
     munmapLoop os chunks
   }"

definition kv_Close :: "KV \<Rightarrow> KV option" where
  "kv_Close db = do {
     os \<leftarrow> munmapLoop (kv_os db) (mmap_chunks db);
     Some (db\<lparr>kv_os := snd (sys_call os)\<rparr>)
   }"

definition open_fail :: "KV \<Rightarrow> go_error \<Rightarrow> (go_error option \<times> KV) option" where
  "open_fail db e = do { db \<leftarrow> kv_Close db; Some (Some (''KV.Open: '' @ e), db) }"

definition kv_Open :: "KV \<Rightarrow> (go_error option \<times> KV) option" where
  "kv_Open db =
     (let db = db\<lparr>page_updates := Map.empty\<rparr>;
          (err, os) = createFileSync (kv_os db);
          db = db\<lparr>kv_os := os\<rparr>
      in case err of Some e \<Rightarrow> Some (Some e, db)
       | None \<Rightarrow> let (err, os) = sys_call (kv_os db); db = db\<lparr>kv_os := os\<rparr>
         in case err of Some e \<Rightarrow> open_fail db e
          | None \<Rightarrow> let fileSize = length (os_file (kv_os db));
                        (err, db) = extendMmap db fileSize
            in case err of Some e \<Rightarrow> open_fail db e
             | None \<Rightarrow> do {
                 (err, db) \<leftarrow> readRoot db fileSize;
                 (case err of Some e \<Rightarrow> open_fail db e | None \<Rightarrow> Some (None, db))
               })"

end
