(* ===== verification/KVPages.thy ===== *)
theory KVPages
  imports KVStore
begin

text \<open>
  The pages of the store as the free list and the B+tree see them: the store satisfies the
  contracts \<^const>\<open>list_store\<close> and \<^const>\<open>pager\<close>, and no operation writes to a page a protected
  snapshot consists of.
\<close>

section \<open>The page space\<close>

definition page_end :: "KV \<Rightarrow> nat" where
  "page_end db = page_flushed db + page_nappend db"

definition file_page :: "KV \<Rightarrow> nat \<Rightarrow> bytes option" where
  "file_page db p = mmapRead (os_file (kv_os db)) p (mmap_chunks db)"

text \<open>Page 1 of a new database exists before anything is in the file.\<close>

definition pview :: "KV \<Rightarrow> nat \<Rightarrow> bytes option" where
  "pview db p =
     (if p = 0 \<or> page_end db \<le> p then None
      else case page_updates db p of
             Some b \<Rightarrow> Some b
           | None \<Rightarrow> if page_flushed db = 2 \<and> p = 1 then Some (make_buf BTREE_PAGE_SIZE) else file_page db p)"

definition blank :: "KV \<Rightarrow> nat set" where
  "blank db = (if page_flushed db = 2 \<and> page_updates db 1 = None then {1} else {})"

definition dirty :: "KV \<Rightarrow> nat set" where
  "dirty db = dom (page_updates db)"

text \<open>File offsets are 63-bit numbers, which leaves room for \<open>2 ^ 51\<close> pages.\<close>

definition proom :: "KV \<Rightarrow> nat" where
  "proom db = 2 ^ 51 - 1 - page_end db"

definition pages_ok :: "KV \<Rightarrow> bool" where
  "pages_ok db \<longleftrightarrow> 2 \<le> page_flushed db \<and> page_end db < 2 ^ 51
     \<and> dirty db \<subseteq> {0<..<page_end db} \<and> {page_flushed db..<page_end db} \<subseteq> dirty db
     \<and> (\<forall>p b. page_updates db p = Some b \<longrightarrow> length b = BTREE_PAGE_SIZE)
     \<and> (\<forall>p. 0 < p \<and> p < page_flushed db \<and> \<not> (page_flushed db = 2 \<and> p = 1) \<longrightarrow> has_page (file_page db) p)"

lemma pages_okD:
  assumes "pages_ok db"
  shows "2 \<le> page_flushed db" "page_end db < 2 ^ 51"
    "page_updates db p = Some b \<Longrightarrow> 0 < p \<and> p < page_end db \<and> length b = BTREE_PAGE_SIZE"
    "page_flushed db \<le> p \<Longrightarrow> p < page_end db \<Longrightarrow> page_updates db p \<noteq> None"
    "0 < p \<Longrightarrow> p < page_flushed db \<Longrightarrow> \<not> (page_flushed db = 2 \<and> p = 1) \<Longrightarrow> has_page (file_page db) p"
  using assms by (auto simp: pages_ok_def dirty_def)

lemma pview_has:
  assumes "pages_ok db" "0 < p" "p < page_end db"
  shows "has_page (pview db) p"
proof (cases "page_updates db p")
  case None
  then have "p < page_flushed db" using pages_okD(4) [OF assms(1)] assms(3) by (metis not_le)
  then show ?thesis
    using None assms pages_okD(5) [OF assms(1,2)]
    by (cases "page_flushed db = 2 \<and> p = 1") (auto simp: has_page_def pview_def make_buf_def)
next
  case (Some b)
  then show ?thesis using assms pages_okD(3) [OF assms(1) Some] by (simp add: has_page_def pview_def)
qed

lemma pview_range: "pview db p = Some b \<Longrightarrow> 0 < p \<and> p < page_end db"
  by (simp add: pview_def split: if_splits)

lemma pages_ok_view: "pages_ok db \<Longrightarrow> pview db p = Some b \<Longrightarrow> length b = BTREE_PAGE_SIZE"
  using pview_has [of db p] pview_range [of db p b] by (auto simp: has_page_def)

lemma pages_ok_has: "pages_ok db \<Longrightarrow> pview db p \<noteq> None \<Longrightarrow> has_page (pview db) p"
  using pages_ok_view by (force simp: has_page_def)

lemma page_end_u64: "pages_ok db \<Longrightarrow> u64 (page_flushed db + page_nappend db) = page_end db"
  by (simp add: pages_ok_def page_end_def)

lemma pageRead_ok:
  assumes "pages_ok db" "pview db p = Some b" "p \<notin> blank db"
  shows "pageRead db p = Some b"
  using assms page_end_u64 [OF assms(1)]
  by (auto simp: pageRead_def pview_def blank_def file_page_def split: if_splits option.splits)

lemma pageAppend_ok:
  assumes inv: "pages_ok db" and room: "0 < proom db" and len: "length b = BTREE_PAGE_SIZE"
  obtains db' where "pageAppend db b = Some (page_end db, db')" "pages_ok db'" "pview db' = (pview db)(page_end db \<mapsto> b)"
    "blank db' = blank db" "dirty db' = insert (page_end db) (dirty db)" "proom db = Suc (proom db')" "kv_free db' = kv_free db"
    "kv_version db' = kv_version db" "pview db (page_end db) = None" "page_flushed db' = page_flushed db"
    "kv_os db' = kv_os db" "mmap_chunks db' = mmap_chunks db"
proof -
  let ?p = "page_end db"
  define d where "d = db\<lparr>page_nappend := page_nappend db + 1, page_updates := (page_updates db)(?p \<mapsto> b)\<rparr>"
  have e: "page_end d = Suc ?p" "page_flushed d = page_flushed db" "page_updates d = (page_updates db)(?p \<mapsto> b)"
    "kv_os d = kv_os db" "mmap_chunks d = mmap_chunks db" "kv_free d = kv_free db" "kv_version d = kv_version db"
    by (simp_all add: page_end_def d_def)
  have lt: "Suc ?p < 2 ^ 51" using room by (simp add: proom_def)
  have none: "page_updates db ?p = None" using inv by (auto simp: pages_ok_def dirty_def)
  have two: "2 \<le> page_flushed db" using inv by (simp add: pages_ok_def)
  have fp: "file_page d = file_page db" by (simp add: file_page_def fun_eq_iff e)
  have ev: "pageAppend db b = Some (?p, d)"
    using len lt none page_end_u64 [OF inv] by (simp add: pageAppend_def Let_def page_end_def d_def)
  have p0: "0 < ?p" "page_flushed db \<le> ?p" using two by (simp_all add: page_end_def)
  have inv': "pages_ok d"
    unfolding pages_ok_def e(1) fp
  proof (intro conjI)
    show "2 \<le> page_flushed d" "Suc ?p < 2 ^ 51" using two lt by (simp_all add: e)
    show "dirty d \<subseteq> {0<..<Suc ?p}" using pages_okD(3) [OF inv] p0 by (fastforce simp: dirty_def e)
    show "{page_flushed d..<Suc ?p} \<subseteq> dirty d" using pages_okD(4) [OF inv] by (auto simp: dirty_def less_Suc_eq e)
    show "\<forall>p b. page_updates d p = Some b \<longrightarrow> length b = BTREE_PAGE_SIZE"
      using pages_okD(3) [OF inv] len by (auto simp: e split: if_splits)
    show "\<forall>p. 0 < p \<and> p < page_flushed d \<and> \<not> (page_flushed d = 2 \<and> p = 1) \<longrightarrow> has_page (file_page db) p"
      using pages_okD(5) [OF inv] by (auto simp: e)
  qed
  have v: "pview d = (pview db)(?p \<mapsto> b)"
  proof
    fix x
    consider "x = ?p" | "x = 0 \<or> ?p < x" | "0 < x" "x < ?p" by linarith
    then show "pview d x = ((pview db)(?p \<mapsto> b)) x"
      by cases (use p0 in \<open>auto simp: pview_def e fp split: option.split\<close>)
  qed
  show ?thesis
    by (rule that [OF ev inv' v]) (use two lt p0 in \<open>auto simp: blank_def dirty_def proom_def e pview_def\<close>)
qed

text \<open>Replacing the pending contents of an existing page.\<close>

lemma update_page:
  assumes inv: "pages_ok db" and v: "pview db p = Some b" and len: "length b' = BTREE_PAGE_SIZE"
  defines "db' \<equiv> db\<lparr>page_updates := (page_updates db)(p \<mapsto> b')\<rparr>"
  shows "pages_ok db'" "pview db' = (pview db)(p \<mapsto> b')" "blank db' = blank db - {p}" "dirty db' = insert p (dirty db)"
    "proom db' = proom db"
proof -
  have r: "0 < p" "p < page_end db" using pview_range [OF v] by auto
  have e: "page_end db' = page_end db" "file_page db' = file_page db" "page_flushed db' = page_flushed db"
    "page_updates db' = (page_updates db)(p \<mapsto> b')" by (simp_all add: db'_def page_end_def file_page_def fun_eq_iff)
  show "pages_ok db'" using inv r len unfolding pages_ok_def e(1-3) by (auto simp: e(4) dirty_def split: if_splits)
  show "pview db' = (pview db)(p \<mapsto> b')"
  proof
    fix x
    show "pview db' x = ((pview db)(p \<mapsto> b')) x" using r by (auto simp: pview_def e split: option.split)
  qed
  show "blank db' = blank db - {p}" "dirty db' = insert p (dirty db)" "proom db' = proom db"
    by (auto simp: db'_def blank_def dirty_def proom_def page_end_def)
qed

lemma pageWrite_ok:
  assumes inv: "pages_ok db" and v: "pview db p = Some b" and f: "f b = Some b'" "length b' = BTREE_PAGE_SIZE"
  shows "pageWrite db p f = Some (db\<lparr>page_updates := (page_updates db)(p \<mapsto> b')\<rparr>)"
proof -
  have r: "0 < p" "p < page_end db" using pview_range [OF v] by auto
  have len: "length b = BTREE_PAGE_SIZE" by (rule pages_ok_view [OF inv v])
  have "copy_at (make_buf BTREE_PAGE_SIZE) 0 b = Some b"
    using len by (simp add: copy_at_def make_buf_def patch_def)
  then show ?thesis
    using v f(1) r page_end_u64 [OF inv]
    by (auto simp: pageWrite_def pview_def file_page_def Let_def split: option.splits if_splits)
qed

text \<open>The operations on pages change nothing else.\<close>

definition same_base :: "KV \<Rightarrow> KV \<Rightarrow> bool" where
  "same_base base db \<longleftrightarrow> db = base\<lparr>kv_free := kv_free db, page_nappend := page_nappend db, page_updates := page_updates db\<rparr>"

definition page_inv :: "KV \<Rightarrow> KV \<Rightarrow> bool" where
  "page_inv base db \<longleftrightarrow> pages_ok db \<and> same_base base db"

lemma same_base_simps:
  "same_base base db \<Longrightarrow> same_base base (db\<lparr>page_updates := u\<rparr>)"
  "same_base base db \<Longrightarrow> same_base base (db\<lparr>page_nappend := n\<rparr>)"
  "same_base base db \<Longrightarrow> same_base base (db\<lparr>kv_free := fl\<rparr>)"
  "same_base db db"
  by (cases db; cases base; simp add: same_base_def)+

lemma same_base_append: "same_base base db \<Longrightarrow> pageAppend db b = Some (p, db') \<Longrightarrow> same_base base db'"
  by (auto simp: pageAppend_def Let_def go_assert_def same_base_simps split: if_splits)

interpretation kvl: list_store kv_fl_callbacks "page_inv base" pview blank dirty proom for base
proof unfold_locales
  fix s p b assume "page_inv base s" "pview s p = Some b" "p \<notin> blank s"
  then show "fl_get kv_fl_callbacks s p = Some b" by (simp add: kv_fl_callbacks_def pageRead_ok page_inv_def)
next
  fix s and b :: bytes assume a: "page_inv base s" "0 < proom s" "length b = BTREE_PAGE_SIZE"
  then have inv: "pages_ok s" "same_base base s" by (simp_all add: page_inv_def)
  obtain s' where s': "pageAppend s b = Some (page_end s, s')" "pages_ok s'" "pview s' = (pview s)(page_end s \<mapsto> b)"
    "blank s' = blank s" "dirty s' = insert (page_end s) (dirty s)" "proom s = Suc (proom s')" "pview s (page_end s) = None"
    by (rule pageAppend_ok [OF inv(1) a(2,3)])
  moreover have "0 < page_end s" "page_end s < 2 ^ 64" using inv(1) by (simp_all add: pages_ok_def page_end_def)
  moreover have "same_base base s'" by (rule same_base_append [OF inv(2) s'(1)])
  ultimately show "\<exists>p s'. fl_new kv_fl_callbacks s b = Some (p, s') \<and> page_inv base s' \<and> p \<noteq> 0 \<and> p < 2 ^ 64 \<and> pview s p = None
        \<and> pview s' = (pview s)(p \<mapsto> b) \<and> blank s' = blank s \<and> dirty s' = insert p (dirty s) \<and> proom s \<le> Suc (proom s')"
    by (intro exI [of _ "page_end s"] exI [of _ s']) (simp add: kv_fl_callbacks_def page_inv_def)
next
  fix s p b f and b' :: bytes
  assume a: "page_inv base s" "pview s p = Some b" "f b = Some b'" "length b' = BTREE_PAGE_SIZE"
  then have inv: "pages_ok s" "same_base base s" by (simp_all add: page_inv_def)
  show "\<exists>s'. fl_set kv_fl_callbacks s p f = Some s' \<and> page_inv base s' \<and> pview s' = (pview s)(p \<mapsto> b')
        \<and> blank s' = blank s - {p} \<and> dirty s' = insert p (dirty s) \<and> proom s' = proom s"
    using pageWrite_ok [where f = f, OF inv(1) a(2-4)] update_page [OF inv(1) a(2,4)] inv(2)
    by (intro exI [of _ "s\<lparr>page_updates := (page_updates s)(p \<mapsto> b')\<rparr>"])
       (simp add: kv_fl_callbacks_def page_inv_def same_base_simps)
qed

section \<open>The store as a page manager\<close>

definition kv_list :: "KV \<Rightarrow> nat list \<Rightarrow> item list \<Rightarrow> bool" where
  "kv_list db ps q \<longleftrightarrow> fl_rep 1 (pview db) (blank db) (dirty db) (kv_free db) ps q"

lemma fl_rep_unique:
  assumes 1: "fl_rep 1 v bl dt fl ps q" and 2: "fl_rep 1 v bl dt fl ps' q'"
  shows "ps' = ps" "q' = q"
proof -
  have r: "ps \<noteq> []" "hd ps = headPage fl" "length ps = (headSeq fl mod 255 + length q) div 255 + 1" "links v ps"
      "slots v ps (headSeq fl mod 255) q" "tailSeq fl = headSeq fl + length q" using 1 by (auto simp: fl_rep_def)
  have r': "ps' \<noteq> []" "hd ps' = headPage fl" "length ps' = (headSeq fl mod 255 + length q') div 255 + 1" "links v ps'"
      "slots v ps' (headSeq fl mod 255) q'" "tailSeq fl = headSeq fl + length q'" using 2 by (auto simp: fl_rep_def)
  have lq: "length q' = length q" using r(6) r'(6) by simp
  have lp: "length ps' = length ps" using r(3) r'(3) lq by simp
  have "i < length ps \<Longrightarrow> ps' ! i = ps ! i" for i
  proof (induction i)
    case 0
    then show ?case using r(1,2) r'(1,2) by (simp add: hd_conv_nth)
  next
    case (Suc i)
    then show ?case using links_nth [OF r(4), of i] links_nth [OF r'(4), of i] lp by auto
  qed
  then show p: "ps' = ps" using lp by (intro nth_equalityI) auto
  have "q' ! j = q ! j" if "j < length q" for j
    using r(5) r'(5) lq p that by (fastforce simp: slots_def)
  then show "q' = q" using lq by (intro nth_equalityI) auto
qed

definition owned :: "KV \<Rightarrow> nat set" where
  "owned db = {p. \<exists>ps q. kv_list db ps q \<and> p \<in> set (free_pages ps q)}"

lemma owned_eq: "kv_list db ps q \<Longrightarrow> owned db = set (free_pages ps q)"
  unfolding owned_def kv_list_def using fl_rep_unique by blast

definition kv_view :: "KV \<Rightarrow> nat \<Rightarrow> bytes option" where
  "kv_view db p = (if p \<in> owned db then None else pview db p)"

definition kv_room :: "KV \<Rightarrow> nat" where
  "kv_room db = min (proom db) ((2 ^ 64 - 1 - tailSeq (kv_free db)) div 2)"

text \<open>
  The invariant of one commit: \<open>base\<close> is the store it started from, and \<open>K\<close> a set of pages
  that snapshots of version at most \<open>r\<close> still use.
\<close>

definition guarded :: "nat \<Rightarrow> nat set \<Rightarrow> KV \<Rightarrow> nat list \<Rightarrow> item list \<Rightarrow> bool" where
  "guarded r K db ps q \<longleftrightarrow> K \<inter> {p. pview db p = None} = {} \<and> K \<inter> dirty db = {} \<and> K \<inter> avail r ps q = {}"

definition kv_ok :: "nat \<Rightarrow> nat set \<Rightarrow> KV \<Rightarrow> KV \<Rightarrow> bool" where
  "kv_ok r K base db \<longleftrightarrow> page_inv base db \<and> tailSeq (kv_free db) < 2 ^ 64 \<and> maxVer (kv_free db) \<le> r \<and> r < curVer (kv_free db)
     \<and> (\<exists>ps q. kv_list db ps q \<and> guarded r K db ps q)"

lemma file_page_free [simp]: "file_page (db\<lparr>kv_free := fl\<rparr>) = file_page db"
  by (simp add: file_page_def fun_eq_iff)

lemma pview_free [simp]:
  "pview (db\<lparr>kv_free := fl\<rparr>) = pview db" "blank (db\<lparr>kv_free := fl\<rparr>) = blank db" "dirty (db\<lparr>kv_free := fl\<rparr>) = dirty db"
  "proom (db\<lparr>kv_free := fl\<rparr>) = proom db" "pages_ok (db\<lparr>kv_free := fl\<rparr>) = pages_ok db"
  by (simp_all add: pview_def blank_def dirty_def proom_def pages_ok_def page_end_def fun_eq_iff cong: option.case_cong)

lemma page_inv_free: "page_inv base db \<Longrightarrow> page_inv base (db\<lparr>kv_free := fl\<rparr>)"
  by (simp add: page_inv_def same_base_simps)

lemma kv_okE:
  assumes "kv_ok r K base db"
  obtains ps q where "page_inv base db" "maxVer (kv_free db) \<le> r" "r < curVer (kv_free db)" "kv_list db ps q" "guarded r K db ps q"
    "tailSeq (kv_free db) < 2 ^ 64"
  using assms by (auto simp: kv_ok_def)

lemma guarded_step:
  assumes "guarded r K s ps q" "kvl.writes_in s s' (avail r ps q) (avail r ps' q')"
    and "\<And>p. has_page (pview s) p \<Longrightarrow> has_page (pview s') p" "pages_ok s"
  shows "guarded r K s' ps' q'"
proof -
  have "pview s' p \<noteq> None" if "p \<in> K" for p
  proof -
    have "pview s p \<noteq> None" using assms(1) that by (auto simp: guarded_def)
    then have "has_page (pview s') p" using pages_ok_has [OF assms(4)] assms(3) by blast
    then show ?thesis by (auto simp: has_page_def)
  qed
  then show ?thesis using assms(1,2) by (fastforce simp: guarded_def kvl.writes_in_def)
qed

lemma room_step:
  assumes "proom s \<le> Suc (proom s')" "tailSeq (kv_free s') \<le> tailSeq (kv_free s) + 2"
  shows "kv_room s \<le> Suc (kv_room s')"
  using assms unfolding kv_room_def by linarith

lemma room_pos: "0 < kv_room s \<Longrightarrow> 0 < proom s \<and> tailSeq (kv_free s) + 2 < 2 ^ 64"
  unfolding kv_room_def by linarith

lemma kv_PushTail_ok:
  assumes ok: "kv_ok r K base s" and room: "0 < kv_room s" and v: "kv_view s p \<noteq> None"
  shows "\<exists>s'. kv_PushTail s p = Some s' \<and> kv_ok r K base s' \<and> (\<forall>q. q \<noteq> p \<longrightarrow> kv_view s' q = kv_view s q)
    \<and> kv_room s \<le> Suc (kv_room s') \<and> owned s' \<supseteq> insert p (owned s)"
proof -
  obtain ps q where k: "page_inv base s" "maxVer (kv_free s) \<le> r" "r < curVer (kv_free s)" "kv_list s ps q" "guarded r K s ps q"
      "tailSeq (kv_free s) < 2 ^ 64" by (rule kv_okE [OF ok])
  have ow: "owned s = set (free_pages ps q)" by (rule owned_eq [OF k(4)])
  have pv: "p \<notin> set (free_pages ps q)" "pview s p \<noteq> None" using v ow by (auto simp: kv_view_def split: if_splits)
  have pok: "pages_ok s" using k(1) by (simp add: page_inv_def)
  have p: "p \<noteq> 0" "p < 2 ^ 64" "has_page (pview s) p"
    using pv(2) pview_range [of s p] pages_okD(2) [OF pok] pages_ok_has [OF pok] by force+
  obtain fl' s' ps' q' where st: "PushTail kv_fl_callbacks (kv_free s) s p = Some (fl', s')"
    "fl_rep 1 (pview s') (blank s') (dirty s') fl' ps' q'"
    "kvl.list_frame base s s' (insert p (set (free_pages ps q))) (set (free_pages ps' q'))"
    "tailSeq fl' \<le> tailSeq (kv_free s) + 2" "maxVer fl' = maxVer (kv_free s)" "curVer fl' = curVer (kv_free s)"
    "kvl.writes_in s s' (avail r ps q) (avail r ps' q')"
    by (rule kvl.PushTail_ok [OF k(1) k(4) [unfolded kv_list_def] _ pv(1) p]) (use room_pos [OF room] k(2,3) in auto)
  let ?s = "s'\<lparr>kv_free := fl'\<rparr>"
  have f: "page_inv base s'" "proom s \<le> Suc (proom s')" "insert p (set (free_pages ps q)) \<subseteq> set (free_pages ps' q')"
    "\<And>x. x \<in> set (free_pages ps' q') \<Longrightarrow> x \<notin> insert p (set (free_pages ps q)) \<Longrightarrow> pview s x = None"
    "\<And>x. x \<notin> set (free_pages ps' q') \<Longrightarrow> pview s' x = pview s x" "\<And>x. has_page (pview s) x \<Longrightarrow> has_page (pview s') x"
    using st(3) by (auto simp: kvl.list_frame_def)
  have kl: "kv_list ?s ps' q'" using st(2) by (simp add: kv_list_def)
  have ow': "owned ?s = set (free_pages ps' q')" by (rule owned_eq [OF kl])
  have "guarded r K s' ps' q'" by (rule guarded_step [OF k(5) st(7) f(6) pok])
  then have "kv_ok r K base ?s"
    using k(2,3) st(4-6) room_pos [OF room] kl page_inv_free [OF f(1)] by (auto simp: kv_ok_def guarded_def)
  moreover have "kv_view ?s x = kv_view s x" if "x \<noteq> p" for x
    using that f(3) f(4,5) [of x] unfolding kv_view_def ow ow' by auto
  moreover have "kv_room s \<le> Suc (kv_room ?s)" using f(2) st(4) by (intro room_step) simp_all
  ultimately show ?thesis using st(1) f(3) ow ow' by (auto simp: kv_PushTail_def)
qed

lemma pageAlloc_ok:
  assumes ok: "kv_ok r K base s" and room: "0 < kv_room s" and len: "length b = BTREE_PAGE_SIZE"
  shows "\<exists>p s'. pageAlloc s b = Some (p, s') \<and> kv_ok r K base s' \<and> p \<noteq> 0 \<and> p < 2 ^ 64 \<and> kv_view s p = None
        \<and> kv_view s' = (kv_view s)(p \<mapsto> b) \<and> kv_room s \<le> Suc (kv_room s')"
proof -
  obtain ps q where k: "page_inv base s" "maxVer (kv_free s) \<le> r" "r < curVer (kv_free s)" "kv_list s ps q" "guarded r K s ps q"
      "tailSeq (kv_free s) < 2 ^ 64" by (rule kv_okE [OF ok])
  have ow: "owned s = set (free_pages ps q)" by (rule owned_eq [OF k(4)])
  have pok: "pages_ok s" using k(1) by (simp add: page_inv_def)
  have rep: "fl_rep 1 (pview s) (blank s) (dirty s) (kv_free s) ps q" using k(4) by (simp add: kv_list_def)
  have pos: "0 < proom s" "tailSeq (kv_free s) + 2 < 2 ^ 64" using room_pos [OF room] by auto
  obtain p fl' s1 ps' q' where st: "PopHead kv_fl_callbacks (kv_free s) s = Some (p, fl', s1)"
    "fl_rep 1 (pview s1) (blank s1) (dirty s1) fl' ps' q'" "tailSeq fl' \<le> tailSeq (kv_free s) + 2"
    "maxVer fl' = maxVer (kv_free s)" "curVer fl' = curVer (kv_free s)"
    "if can_pop (kv_free s) q then p = fst (hd q) \<and> p \<noteq> 0 \<and> p \<notin> set (free_pages ps' q') \<and> p \<notin> dirty s1
        \<and> kvl.list_frame base s s1 (set (free_pages ps q) - {p}) (set (free_pages ps' q'))
        \<and> ((headSeq (kv_free s) + 1) mod 255 \<noteq> 0 \<longrightarrow> q' = tl q)
      else p = 0 \<and> s1 = s \<and> fl' = kv_free s \<and> ps' = ps \<and> q' = q"
    "kvl.writes_in s s1 (avail r ps q) (avail r ps' q')" "p \<noteq> 0 \<Longrightarrow> p \<in> avail r ps q"
    by (rule kvl.PopHead_ok [OF k(1) rep pos]) (use k(2,3) in auto)
  show ?thesis
  proof (cases "can_pop (kv_free s) q")
    case True
    then have p: "p \<noteq> 0" "p \<notin> set (free_pages ps' q')" "p \<notin> dirty s1" "p \<in> avail r ps q"
      and fr: "kvl.list_frame base s s1 (set (free_pages ps q) - {p}) (set (free_pages ps' q'))"
      using st(6,8) by auto
    have pin: "p \<in> set (free_pages ps q)" using p(4) avail_sub by blast
    have f: "page_inv base s1" "proom s \<le> Suc (proom s1)" "set (free_pages ps q) - {p} \<subseteq> set (free_pages ps' q')"
      "\<And>x. x \<in> set (free_pages ps' q') \<Longrightarrow> x \<notin> set (free_pages ps q) - {p} \<Longrightarrow> pview s x = None"
      "\<And>x. x \<notin> set (free_pages ps' q') \<Longrightarrow> pview s1 x = pview s x" "\<And>x. has_page (pview s) x \<Longrightarrow> has_page (pview s1) x"
      using fr by (auto simp: kvl.list_frame_def)
    have hp: "has_page (pview s) p" "p < 2 ^ 64" using rep pin by (auto simp: fl_rep_def)
    let ?s1 = "s1\<lparr>kv_free := fl'\<rparr>"
    obtain c where c: "pview ?s1 p = Some c" using f(6) [OF hp(1)] by (auto simp: has_page_def)
    have pok1: "pages_ok ?s1" using f(1) by (simp add: page_inv_def)
    let ?s = "?s1\<lparr>page_updates := (page_updates ?s1)(p \<mapsto> b)\<rparr>"
    note up = update_page [OF pok1 c len]
    have ev: "pageAlloc s b = Some (p, ?s)"
    proof -
      have "page_updates s1 p = None" using p(3) by (auto simp: dirty_def)
      then show ?thesis using st(1) p(1) by (simp add: pageAlloc_def kv_PopHead_def)
    qed
    have kl: "kv_list ?s ps' q'"
      unfolding kv_list_def up(2-4)
    proof -
      have bl: "blank ?s1 - {p} = blank s1" using st(2) p(2) by (auto simp: fl_rep_def free_pages_def)
      have "fl_rep 1 ((pview ?s1)(p \<mapsto> b)) (blank s1) (insert p (dirty ?s1)) fl' ps' q'"
        by (rule fl_rep_cong [OF st(2)]) (use p(2) in auto)
      then show "fl_rep 1 ((pview ?s1)(p \<mapsto> b)) (blank ?s1 - {p}) (insert p (dirty ?s1)) (kv_free ?s) ps' q'"
        unfolding bl by simp
    qed
    have ow': "owned ?s = set (free_pages ps' q')" by (rule owned_eq [OF kl])
    have "guarded r K s1 ps' q'" by (rule guarded_step [OF k(5) st(7) f(6) pok])
    moreover have "p \<notin> K" using k(5) p(4) by (auto simp: guarded_def)
    ultimately have g: "guarded r K ?s ps' q'" unfolding guarded_def up(2,4) by auto
    have "page_inv base ?s" using f(1) up(1) by (simp add: page_inv_def same_base_simps)
    then have "kv_ok r K base ?s" using k(2,3) st(3-5) pos(2) kl g by (auto simp: kv_ok_def)
    moreover have "kv_view s p = None" using pin ow by (simp add: kv_view_def)
    moreover have "kv_view ?s = (kv_view s)(p \<mapsto> b)"
    proof
      fix x
      show "kv_view ?s x = ((kv_view s)(p \<mapsto> b)) x"
        using f(3) f(4,5) [of x] p(2) unfolding kv_view_def ow ow' up(2) by auto
    qed
    moreover have "kv_room s \<le> Suc (kv_room ?s)" using f(2) st(3) up(5) by (intro room_step) simp_all
    ultimately show ?thesis using ev p(1) hp(2) by blast
  next
    case False
    then have e: "p = 0" "s1 = s" "fl' = kv_free s" using st(6) by auto
    let ?p = "page_end s"
    obtain s' where s': "pageAppend s b = Some (?p, s')" "pages_ok s'" "pview s' = (pview s)(?p \<mapsto> b)"
      "blank s' = blank s" "dirty s' = insert ?p (dirty s)" "proom s = Suc (proom s')" "kv_free s' = kv_free s"
      "pview s ?p = None" by (rule pageAppend_ok [OF pok pos(1) len])
    have ev: "pageAlloc s b = Some (?p, s')" using st(1) s'(1) e by (simp add: pageAlloc_def kv_PopHead_def)
    have pn: "?p \<notin> set (free_pages ps q)" using rep s'(8) by (auto simp: fl_rep_def has_page_def)
    have kl: "kv_list s' ps q"
      unfolding kv_list_def s'(3-5,7) by (rule fl_rep_cong [OF rep]) (use pn in auto)
    have ow': "owned s' = owned s" using owned_eq [OF kl] ow by simp
    have g: "guarded r K s' ps q"
      using k(5) s'(8) unfolding guarded_def s'(3,5) by auto
    have "page_inv base s'" using k(1) s'(2) same_base_append [OF _ s'(1)] by (simp add: page_inv_def)
    then have "kv_ok r K base s'" using k(2,3,6) kl g s'(7) by (auto simp: kv_ok_def)
    moreover have "kv_view s' = (kv_view s)(?p \<mapsto> b)"
      using pn ow by (auto simp: fun_eq_iff kv_view_def ow' s'(3))
    moreover have "kv_view s ?p = None" using s'(8) by (simp add: kv_view_def)
    moreover have "kv_room s \<le> Suc (kv_room s')" using s'(6,7) by (intro room_step) simp_all
    moreover have "?p \<noteq> 0" "?p < 2 ^ 64" using pages_okD(1,2) [OF pok] by (auto simp: page_end_def)
    ultimately show ?thesis using ev by blast
  qed
qed

interpretation kvp: pager kv_callbacks "kv_ok r K base" kv_view kv_room for r K base
proof unfold_locales
  fix s p b assume a: "kv_ok r K base s" "kv_view s p = Some b"
  obtain ps q where k: "page_inv base s" "kv_list s ps q" by (rule kv_okE [OF a(1)])
  have pv: "p \<notin> set (free_pages ps q)" "pview s p = Some b" using a(2) owned_eq [OF k(2)] by (auto simp: kv_view_def split: if_splits)
  then have "p \<notin> blank s" using k(2) by (auto simp: kv_list_def fl_rep_def free_pages_def)
  then show "tree_get kv_callbacks s p = Some b"
    using pageRead_ok [of s p b] k(1) pv(2) by (simp add: kv_callbacks_def page_inv_def)
next
  fix s and b :: BNode
  assume "kv_ok r K base s" "0 < kv_room s" "length b = BTREE_PAGE_SIZE"
  then show "\<exists>p s'. tree_new kv_callbacks s b = Some (p, s') \<and> kv_ok r K base s' \<and> p \<noteq> 0 \<and> p < 2 ^ 64 \<and> kv_view s p = None
        \<and> kv_view s' = (kv_view s)(p \<mapsto> b) \<and> kv_room s \<le> Suc (kv_room s')"
    using pageAlloc_ok by (simp add: kv_callbacks_def)
next
  fix s p
  assume "kv_ok r K base s" "0 < kv_room s" "kv_view s p \<noteq> None"
  from kv_PushTail_ok [OF this] show "\<exists>s'. tree_del kv_callbacks s p = Some s' \<and> kv_ok r K base s'
        \<and> (\<forall>q. q \<noteq> p \<longrightarrow> kv_view s' q = kv_view s q) \<and> kv_room s \<le> Suc (kv_room s')"
    by (auto simp: kv_callbacks_def)
qed

end
