(* ===== verification/KVCommit.thy ===== *)
theory KVCommit
  imports KVPages
begin

text \<open>
  The two-phase update of \<^verbatim>\<open>db/kv.go\<close> against a file that may lose unsynced writes: whatever
  the outcomes of the system calls and whenever the machine stops, the file holds either the
  tree of before or the tree of after, and it can be opened again.
\<close>

section \<open>Pages of a file\<close>

definition page_at :: "bytes \<Rightarrow> nat \<Rightarrow> bytes" where
  "page_at f p = sub f (p * 4096) 4096"

definition has_pages :: "bytes \<Rightarrow> nat \<Rightarrow> bool" where
  "has_pages f n \<longleftrightarrow> n * 4096 \<le> length f"

lemma length_write_at [simp]: "length (write_at f off d) = (if d = [] then max (length f) off else max (length f) (off + length d))"
  by (auto simp: write_at_def)

lemma nth_write_at:
  assumes "i < length (write_at f off d)"
  shows "write_at f off d ! i = (if off \<le> i \<and> i < off + length d then d ! (i - off) else if i < length f then f ! i else 0)"
  using assms by (auto simp: write_at_def nth_append min_def not_less split: if_splits)

lemma page_at_write_other:
  assumes "p \<noteq> q" "length d \<le> 4096" "has_pages f (Suc p)"
  shows "page_at (write_at f (q * 4096) d) p = page_at f p"
proof (rule nth_equalityI)
  have lf: "p * 4096 + 4096 \<le> length f" using assms(3) by (simp add: has_pages_def)
  have lw: "p * 4096 + 4096 \<le> length (write_at f (q * 4096) d)" using lf by (cases "d = []") auto
  show "length (page_at (write_at f (q * 4096) d) p) = length (page_at f p)"
    using lf lw unfolding page_at_def by simp
  fix i assume "i < length (page_at (write_at f (q * 4096) d) p)"
  then have i: "i < 4096" by (simp add: page_at_def sub_def)
  have "p * 4096 + i < q * 4096 \<or> q * 4096 + length d \<le> p * 4096 + i"
    using assms(1,2) i by (cases "p < q") auto
  then show "page_at (write_at f (q * 4096) d) p ! i = page_at f p ! i"
    using i lf lw nth_write_at [of "p * 4096 + i" f "q * 4096" d] unfolding page_at_def by (auto simp: sub_def)
qed

lemma page_at_write_same:
  assumes "length d = 4096"
  shows "page_at (write_at f (q * 4096) d) q = d"
  using assms by (auto simp: page_at_def sub_def write_at_def)

lemma take_write_other:
  assumes "n \<le> off" "n \<le> length f"
  shows "take n (write_at f off d) = take n f"
  using assms by (simp add: write_at_def)

lemma has_pages_write: "has_pages f n \<Longrightarrow> has_pages (write_at f off d) n"
  by (auto simp: has_pages_def)

lemma has_pages_le: "has_pages f n \<Longrightarrow> m \<le> n \<Longrightarrow> has_pages f m"
  by (auto simp: has_pages_def)

section \<open>The mapping\<close>

fun chunks_from :: "nat \<Rightarrow> (nat \<times> nat) list \<Rightarrow> bool" where
  "chunks_from off [] = True"
| "chunks_from off ((c, l) # cs) \<longleftrightarrow> c = off \<and> l mod 4096 = 0 \<and> chunks_from (off + l) cs"

definition map_ok :: "KV \<Rightarrow> bool" where
  "map_ok db \<longleftrightarrow> chunks_from 0 (mmap_chunks db) \<and> mmap_total db = sum_list (map snd (mmap_chunks db))
     \<and> mmap_total db mod 4096 = 0"

lemma map_ok_simps [simp]:
  "map_ok (db\<lparr>kv_os := os\<rparr>) = map_ok db" "map_ok (db\<lparr>page_flushed := n\<rparr>) = map_ok db"
  "map_ok (db\<lparr>page_nappend := n\<rparr>) = map_ok db" "map_ok (db\<lparr>page_updates := u\<rparr>) = map_ok db"
  "map_ok (db\<lparr>kv_free := fl\<rparr>) = map_ok db" "map_ok (db\<lparr>kv_root := n\<rparr>) = map_ok db"
  "map_ok (db\<lparr>kv_version := n\<rparr>) = map_ok db" "map_ok (db\<lparr>kv_failed := b\<rparr>) = map_ok db"
  by (simp_all add: map_ok_def)

lemma mmapLoop_ok:
  assumes "chunks_from (start * 4096) cs" "start \<le> p" "Suc p * 4096 \<le> start * 4096 + sum_list (map snd cs)"
    "has_pages f (Suc p)"
  shows "mmapLoop f p start cs = Some (page_at f p)"
  using assms
proof (induction cs arbitrary: start)
  case (Cons c cs)
  obtain l where c: "c = (start * 4096, l)" "l mod 4096 = 0" using Cons.prems(1) by (cases c) auto
  define n where "n = l div 4096"
  have l: "l = n * 4096" using c(2) by (auto simp: n_def)
  show ?case
  proof (cases "p < start + n")
    case True
    have "start * 4096 + 4096 * (p - start) = p * 4096" using Cons.prems(2) by (simp add: diff_mult_distrib2)
    moreover have "4096 * (p - start) + 4096 \<le> l" using True Cons.prems(2) l by simp
    ultimately show ?thesis
      using True Cons.prems(4) c l by (simp add: BTREE_PAGE_SIZE_def mapped_bytes_def has_pages_def page_at_def)
  next
    case False
    then have "mmapLoop f p (start + n) cs = Some (page_at f p)"
      using Cons.prems c l by (intro Cons.IH) (simp_all add: add_mult_distrib)
    then show ?thesis using False c l by (simp add: BTREE_PAGE_SIZE_def)
  qed
qed simp

lemma mmapRead_ok:
  assumes "map_ok db" "Suc p * 4096 \<le> mmap_total db" "has_pages f (Suc p)"
  shows "mmapRead f p (mmap_chunks db) = Some (page_at f p)"
  using assms mmapLoop_ok [of 0 "mmap_chunks db" p f] by (simp add: mmapRead_def map_ok_def)

lemma chunks_from_append: "chunks_from off (cs @ ds) \<longleftrightarrow> chunks_from off cs \<and> chunks_from (off + sum_list (map snd cs)) ds"
  by (induction off cs rule: chunks_from.induct) (auto simp: add.assoc)

lemma growAlloc_ok:
  assumes "0 < alloc"
  shows "sz \<le> tot + growAlloc tot alloc sz" "alloc mod 4096 = 0 \<Longrightarrow> growAlloc tot alloc sz mod 4096 = 0"
  using assms
proof (induction tot alloc sz rule: growAlloc.induct)
  case (1 tot alloc sz)
  {
    case 1
    then show ?case using "1.IH"(1) by (subst growAlloc.simps) auto
  next
    case 2
    then show ?case using "1.IH"(2) by (subst growAlloc.simps) auto
  }
qed

lemma extendMmap_ok:
  assumes "map_ok db" "extendMmap db sz = (err, db')"
  obtains os cs t where "db' = db\<lparr>kv_os := os, mmap_chunks := cs, mmap_total := t\<rparr>" "map_ok db'" "mmap_total db \<le> t"
    "err = None \<Longrightarrow> sz \<le> t" "os_file os = os_file (kv_os db)" "os_synced os = os_synced (kv_os db)"
    "os_unsynced os = os_unsynced (kv_os db)" "set (os_outcomes os) \<subseteq> set (os_outcomes (kv_os db))"
    "os_outcomes (kv_os db) = [] \<Longrightarrow> err = None \<and> os = kv_os db"
proof (cases "sz \<le> mmap_total db")
  case True
  then show ?thesis using that [of "mmap_total db" "mmap_chunks db" "kv_os db"] assms by (auto simp: extendMmap_def)
next
  case False
  let ?a = "growAlloc (mmap_total db) (max (mmap_total db) (64 * 2 ^ 20)) sz"
  obtain e os where c: "sys_call (kv_os db) = (e, os)" by fastforce
  have os: "os_file os = os_file (kv_os db)" "os_synced os = os_synced (kv_os db)"
    "os_unsynced os = os_unsynced (kv_os db)" "set (os_outcomes os) \<subseteq> set (os_outcomes (kv_os db))"
    "os_outcomes (kv_os db) = [] \<Longrightarrow> e = None \<and> os = kv_os db"
    using c by (auto simp: sys_call_def next_outcome_def split: list.splits outcome.splits)
  have t: "mmap_total db mod 4096 = 0" using assms(1) unfolding map_ok_def by blast
  have "max (mmap_total db) (64 * 2 ^ 20) mod 4096 = 0" using t by (simp add: max_def)
  then have a: "sz \<le> mmap_total db + ?a" "?a mod 4096 = 0" by (intro growAlloc_ok; simp)+
  show ?thesis
  proof (cases e)
    case (Some x)
    show ?thesis
      by (rule that [of "mmap_total db" "mmap_chunks db" os])
         (use assms False c os t Some in \<open>auto simp: extendMmap_def map_ok_def\<close>)
  next
    case None
    have "(mmap_total db + ?a) mod 4096 = 0" using t a(2) by (metis mod_add_eq add_0 mod_0)
    then show ?thesis
      using assms False c os a None
      by (intro that [of "mmap_total db + ?a" "mmap_chunks db @ [(mmap_total db, ?a)]" os])
         (auto simp: extendMmap_def map_ok_def chunks_from_append Let_def)
  qed
qed


section \<open>What a crash may leave\<close>

definition apply_writes :: "bytes \<Rightarrow> (nat \<times> bytes) list \<Rightarrow> bytes" where
  "apply_writes f ws = foldl (\<lambda>f (off, d). write_at f off d) f ws"

text \<open>Any of the writes since the last sync may be lost, independently of the others.\<close>

definition crash_files :: "OS \<Rightarrow> bytes set" where
  "crash_files os = {apply_writes (os_synced os) ws | ws. ws \<in> set (subseqs (os_unsynced os))}"

lemma apply_writes_simps [simp]:
  "apply_writes f [] = f" "apply_writes f ((off, d) # ws) = apply_writes (write_at f off d) ws"
  "apply_writes f (ws @ ws') = apply_writes (apply_writes f ws) ws'"
  by (simp_all add: apply_writes_def)

text \<open>
  \<open>f\<close> still has the pages of \<open>f0\<close> outside \<open>P\<close>. The flag \<open>torn\<close> says whether a page may have been
  written in part only; without it the length stays a multiple of the page size.
\<close>

definition agree :: "bool \<Rightarrow> nat set \<Rightarrow> bytes \<Rightarrow> bytes \<Rightarrow> bool" where
  "agree torn P f0 f \<longleftrightarrow> length f0 \<le> length f \<and> (\<not> torn \<and> length f0 mod 4096 = 0 \<longrightarrow> length f mod 4096 = 0)
     \<and> (\<forall>p. p \<notin> P \<and> has_pages f0 (Suc p) \<longrightarrow> page_at f p = page_at f0 p)"

definition page_writes :: "bool \<Rightarrow> nat set \<Rightarrow> (nat \<times> bytes) list \<Rightarrow> bool" where
  "page_writes torn P ws \<longleftrightarrow> (\<forall>(off, d) \<in> set ws. (\<exists>p \<in> P. off = p * 4096) \<and> d \<noteq> [] \<and> length d \<le> 4096 \<and> (torn \<or> length d = 4096))"

lemma agree_has: "agree torn P f g \<Longrightarrow> has_pages f n \<Longrightarrow> has_pages g n"
  by (simp add: agree_def has_pages_def)

lemma agree_whole: "agree torn P f g \<Longrightarrow> length g mod 4096 = 0 \<Longrightarrow> agree False P f g"
  by (simp add: agree_def)

lemma agree_refl [simp]: "agree torn P f f"
  by (simp add: agree_def)

lemma agree_trans: "agree torn P f g \<Longrightarrow> agree torn P g h \<Longrightarrow> agree torn P f h"
  by (auto simp: agree_def has_pages_def)

lemma agree_write: "p \<in> P \<Longrightarrow> length d \<le> 4096 \<Longrightarrow> torn \<or> length d = 4096 \<Longrightarrow> agree torn P f (write_at f (p * 4096) d)"
  by (auto simp: agree_def max_def intro!: page_at_write_other)

lemma agree_writes: "page_writes torn P ws \<Longrightarrow> agree torn P f (apply_writes f ws)"
proof (induction ws arbitrary: f)
  case (Cons w ws)
  obtain off d where w: "w = (off, d)" by (cases w)
  then obtain p where "p \<in> P" "off = p * 4096" "length d \<le> 4096" "torn \<or> length d = 4096" "page_writes torn P ws"
    using Cons.prems by (auto simp: page_writes_def)
  then show ?case using w Cons.IH [of "write_at f off d"] agree_trans agree_write [of p P d torn f] by simp
qed simp

lemma page_writes_torn: "page_writes torn P ws \<Longrightarrow> torn \<longrightarrow> torn' \<Longrightarrow> page_writes torn' P ws"
  by (auto simp: page_writes_def)

lemma page_writes_subseq: "page_writes torn P ws \<Longrightarrow> subseq ws' ws \<Longrightarrow> page_writes torn P ws'"
proof -
  assume "page_writes torn P ws" "subseq ws' ws"
  moreover have "set ws' \<subseteq> set ws"
    using \<open>subseq ws' ws\<close> by (induction rule: list_emb.induct) auto
  ultimately show ?thesis unfolding page_writes_def by blast
qed

text \<open>
  \<open>clean_os f0 os\<close>: everything is synced. \<open>paging torn P f0 os\<close>: since then only pages in \<open>P\<close> were
  written.
\<close>

definition clean_os :: "bytes \<Rightarrow> OS \<Rightarrow> bool" where
  "clean_os f0 os \<longleftrightarrow> os_file os = f0 \<and> os_synced os = f0 \<and> os_unsynced os = []"

definition paging :: "bool \<Rightarrow> nat set \<Rightarrow> bytes \<Rightarrow> OS \<Rightarrow> bool" where
  "paging torn P f0 os \<longleftrightarrow> os_synced os = f0 \<and> page_writes torn P (os_unsynced os) \<and> os_file os = apply_writes f0 (os_unsynced os)"

lemma clean_paging: "clean_os f0 os \<Longrightarrow> paging torn P f0 os"
  by (simp add: clean_os_def paging_def page_writes_def)

lemma paging_torn: "paging torn P f0 os \<Longrightarrow> torn \<longrightarrow> torn' \<Longrightarrow> paging torn' P f0 os"
  using page_writes_torn [of torn P "os_unsynced os" torn'] by (simp add: paging_def)

lemma clean_crash: "clean_os f0 os \<Longrightarrow> crash_files os = {f0}"
  by (auto simp: clean_os_def crash_files_def)

lemma paging_crash: "paging torn P f0 os \<Longrightarrow> f \<in> crash_files os \<Longrightarrow> agree torn P f0 f"
  by (auto simp: paging_def crash_files_def intro: agree_writes page_writes_subseq)

lemma paging_file: "paging torn P f0 os \<Longrightarrow> agree torn P f0 (os_file os)"
  by (simp add: paging_def agree_writes)

text \<open>
  What the outcomes of the calls to come may be. \<open>untorn\<close>: a failing write has written nothing, or
  at least a page. \<open>meta_whole\<close>: it has written nothing, or at least the 72 bytes of a meta page, so
  that the meta page is never written in part. Neither is assumed: they only say which of the cases of
  a damaged file can occur.
\<close>

definition untorn :: "outcome list \<Rightarrow> bool" where
  "untorn rs \<longleftrightarrow> (\<forall>e n. SysErr e n \<in> set rs \<longrightarrow> n = 0 \<or> 4096 \<le> n)"

definition meta_whole :: "outcome list \<Rightarrow> bool" where
  "meta_whole rs \<longleftrightarrow> (\<forall>e n. SysErr e n \<in> set rs \<longrightarrow> n = 0 \<or> 72 \<le> n)"

lemma untorn_sub: "untorn rs \<Longrightarrow> set rs' \<subseteq> set rs \<Longrightarrow> untorn rs'"
  by (auto simp: untorn_def)

lemma meta_whole_sub: "meta_whole rs \<Longrightarrow> set rs' \<subseteq> set rs \<Longrightarrow> meta_whole rs'"
  by (auto simp: meta_whole_def)

lemma untorn_meta: "untorn rs \<Longrightarrow> meta_whole rs"
  by (force simp: untorn_def meta_whole_def)

lemma pwrite_cases:
  assumes "sys_pwrite os d off = (err, os')"
  obtains (all) rs where "set rs \<subseteq> set (os_outcomes os)" "os' = (os_write os d off)\<lparr>os_outcomes := rs\<rparr>" "err = None"
    "os_outcomes os = [] \<Longrightarrow> rs = []"
  | (part) rs e n where "set rs \<subseteq> set (os_outcomes os)" "os' = (os_write os (take n d) off)\<lparr>os_outcomes := rs\<rparr>" "err = Some e"
    "SysErr e n \<in> set (os_outcomes os)" "n \<noteq> 0"
  | (none) rs e where "set rs \<subseteq> set (os_outcomes os)" "os' = os\<lparr>os_outcomes := rs\<rparr>" "err = Some e" "os_outcomes os \<noteq> []"
proof (cases "os_outcomes os")
  case Nil
  then show ?thesis using assms that(1) [of "[]"] by (cases os) (auto simp: sys_pwrite_def next_outcome_def os_write_def)
next
  case (Cons r rs)
  show ?thesis
  proof (cases r)
    case SysOk
    then show ?thesis using assms Cons that(1) [of rs] by (auto simp: sys_pwrite_def next_outcome_def os_write_def subset_insertI)
  next
    case (SysErr e n)
    then show ?thesis using assms Cons that(2) [of rs n e] that(3) [of rs]
      by (cases "n = 0") (auto simp: sys_pwrite_def next_outcome_def os_write_def subset_insertI)
  qed
qed

text \<open>What is written of a meta page: a part of it, the whole of it if \<^const>\<open>meta_whole\<close>.\<close>

definition meta_part :: "outcome list \<Rightarrow> bytes \<Rightarrow> bytes \<Rightarrow> bool" where
  "meta_part rs m d \<longleftrightarrow> (\<exists>n > 0. d = take n m) \<and> (meta_whole rs \<longrightarrow> d = m)"

lemma meta_part_refl: "meta_part rs m m"
  by (auto simp: meta_part_def intro!: exI [of _ "Suc (length m)"])

lemma meta_part_sub: "meta_part rs' m d \<Longrightarrow> set rs' \<subseteq> set rs \<Longrightarrow> meta_part rs m d"
  using meta_whole_sub by (auto simp: meta_part_def)

lemma pwrite_meta:
  assumes "sys_pwrite os m off = (err, os')" "length m \<le> 72"
  obtains rs d where "set rs \<subseteq> set (os_outcomes os)" "os' = (os_write os d off)\<lparr>os_outcomes := rs\<rparr>"
    "os_outcomes os = [] \<Longrightarrow> err = None" "meta_part (os_outcomes os) m d" "err = None \<Longrightarrow> d = m"
  | rs e where "set rs \<subseteq> set (os_outcomes os)" "os' = os\<lparr>os_outcomes := rs\<rparr>" "err = Some e" "os_outcomes os \<noteq> []"
  using assms(1)
proof (cases rule: pwrite_cases)
  case (all rs)
  then show ?thesis using that(1) [of rs m] meta_part_refl by simp
next
  case (part rs e n)
  have "meta_whole (os_outcomes os) \<Longrightarrow> take n m = m" using part(4,5) assms(2) by (force simp: meta_whole_def)
  then have "meta_part (os_outcomes os) m (take n m)" using part(5) by (auto simp: meta_part_def)
  moreover have "os_outcomes os \<noteq> []" using part(4) by auto
  ultimately show ?thesis using part(1-3) that(1) [of rs "take n m"] by simp
qed (use that in auto)

lemma fsync_cases:
  assumes "sys_fsync os = (err, os')"
  obtains rs where "set rs \<subseteq> set (os_outcomes os)" "err = None" "clean_os (os_file os) os'" "os_outcomes os' = rs"
  | rs e where "set rs \<subseteq> set (os_outcomes os)" "err = Some e" "os' = os\<lparr>os_outcomes := rs\<rparr>" "os_outcomes os \<noteq> []"
proof (cases "os_outcomes os")
  case Nil
  then show ?thesis using assms that(1) [of "[]"] by (auto simp: sys_fsync_def next_outcome_def clean_os_def)
next
  case (Cons r rs)
  then show ?thesis using assms that(1) [of rs] that(2) [of rs]
    by (cases r) (auto simp: sys_fsync_def next_outcome_def clean_os_def subset_insertI)
qed


section \<open>The meta page\<close>

definition meta72 :: "KV \<Rightarrow> bytes" where
  "meta72 db = DB_SIG @ le_bytes 8 (kv_root db) @ le_bytes 8 (page_flushed db) @ le_bytes 8 (headPage (kv_free db))
     @ le_bytes 8 (headSeq (kv_free db)) @ le_bytes 8 (tailPage (kv_free db)) @ le_bytes 8 (tailSeq (kv_free db))
     @ le_bytes 8 (kv_version db)"

lemma length_sig [simp]: "length DB_SIG = 16"
  by (simp add: DB_SIG_def)

lemma length_meta72 [simp]: "length (meta72 db) = 72"
  by (simp add: meta72_def)

lemma patch_zeros:
  assumes "length a = pos" "length xs \<le> n"
  shows "patch (a @ replicate n 0) pos xs = (a @ xs) @ replicate (n - length xs) 0"
  using assms by (simp add: patch_def)

lemma put_le_zeros:
  assumes "length a = pos" "k \<le> n"
  shows "put_le k (a @ replicate n 0) pos v = Some ((a @ le_bytes k v) @ replicate (n - k) 0)"
  using assms patch_zeros [of a pos "le_bytes k v" n] by (simp add: put_le_def)

lemma saveMeta_eq: "saveMeta db = Some (meta72 db)"
proof -
  have "copy_at (replicate 72 0) 0 DB_SIG = Some (DB_SIG @ replicate 56 0)"
    using patch_zeros [of "[]" 0 DB_SIG 72] by (simp add: copy_at_def)
  then show ?thesis
    by (simp add: saveMeta_def put_le_zeros del: append_assoc) (simp add: meta72_def)
qed

lemma get_le_append: "length a = pos \<Longrightarrow> v < 2 ^ 64 \<Longrightarrow> get_le 8 (a @ le_bytes 8 v @ c) pos = Some v"
  by (simp add: get_le_def sub_def)

definition meta_fits :: "KV \<Rightarrow> bool" where
  "meta_fits db \<longleftrightarrow> kv_root db < 2 ^ 64 \<and> page_flushed db < 2 ^ 64 \<and> headPage (kv_free db) < 2 ^ 64
     \<and> headSeq (kv_free db) < 2 ^ 64 \<and> tailPage (kv_free db) < 2 ^ 64 \<and> tailSeq (kv_free db) < 2 ^ 64 \<and> kv_version db < 2 ^ 64"

definition restore_meta :: "KV \<Rightarrow> KV \<Rightarrow> KV" where
  "restore_meta db' db = db'\<lparr>kv_root := kv_root db, page_flushed := page_flushed db,
     kv_free := (kv_free db')\<lparr>headPage := headPage (kv_free db), headSeq := headSeq (kv_free db),
       tailPage := tailPage (kv_free db), tailSeq := tailSeq (kv_free db)\<rparr>, kv_version := kv_version db\<rparr>"

lemma loadMeta_meta72:
  assumes "meta_fits db"
  shows "loadMeta db' (meta72 db @ rest) = Some (restore_meta db' db)"
proof -
  let ?f = "kv_free db"
  note f = assms [unfolded meta_fits_def]
  note g = get_le_append [of _ _ _ "_ @ rest"]
  have m: "meta72 db @ rest = DB_SIG @ le_bytes 8 (kv_root db) @ le_bytes 8 (page_flushed db) @ le_bytes 8 (headPage ?f)
     @ le_bytes 8 (headSeq ?f) @ le_bytes 8 (tailPage ?f) @ le_bytes 8 (tailSeq ?f) @ le_bytes 8 (kv_version db) @ rest"
    by (simp add: meta72_def)
  have "get_le 8 (meta72 db @ rest) 16 = Some (kv_root db)"
    unfolding m by (rule get_le_append) (use f in auto)
  moreover have "get_le 8 (meta72 db @ rest) 24 = Some (page_flushed db)"
    unfolding m using get_le_append [of "DB_SIG @ le_bytes 8 (kv_root db)"] f by simp
  moreover have "get_le 8 (meta72 db @ rest) 32 = Some (headPage ?f)"
    unfolding m using get_le_append [of "DB_SIG @ le_bytes 8 (kv_root db) @ le_bytes 8 (page_flushed db)"] f by simp
  moreover have "get_le 8 (meta72 db @ rest) 40 = Some (headSeq ?f)"
    unfolding m using get_le_append [of "DB_SIG @ le_bytes 8 (kv_root db) @ le_bytes 8 (page_flushed db) @ le_bytes 8 (headPage ?f)"] f
    by simp
  moreover have "get_le 8 (meta72 db @ rest) 48 = Some (tailPage ?f)"
    unfolding m using get_le_append [of "DB_SIG @ le_bytes 8 (kv_root db) @ le_bytes 8 (page_flushed db) @ le_bytes 8 (headPage ?f)
      @ le_bytes 8 (headSeq ?f)"] f by simp
  moreover have "get_le 8 (meta72 db @ rest) 56 = Some (tailSeq ?f)"
    unfolding m using get_le_append [of "DB_SIG @ le_bytes 8 (kv_root db) @ le_bytes 8 (page_flushed db) @ le_bytes 8 (headPage ?f)
      @ le_bytes 8 (headSeq ?f) @ le_bytes 8 (tailPage ?f)"] f by simp
  moreover have "get_le 8 (meta72 db @ rest) 64 = Some (kv_version db)"
    unfolding m using get_le_append [of "DB_SIG @ le_bytes 8 (kv_root db) @ le_bytes 8 (page_flushed db) @ le_bytes 8 (headPage ?f)
      @ le_bytes 8 (headSeq ?f) @ le_bytes 8 (tailPage ?f) @ le_bytes 8 (tailSeq ?f)"] f by simp
  ultimately show ?thesis by (simp add: loadMeta_def restore_meta_def)
qed

section \<open>Writing the pages\<close>

definition wr :: "KV \<Rightarrow> nat \<Rightarrow> nat \<times> bytes" where
  "wr db p = (p * 4096, the (page_updates db p))"

lemma paging_write:
  assumes "paging torn P f0 os" "p \<in> P" "d \<noteq> []" "length d \<le> 4096" "torn \<or> length d = 4096"
  shows "paging torn P f0 ((os_write os d (p * 4096))\<lparr>os_outcomes := rs\<rparr>)"
  using assms by (auto simp: paging_def os_write_def page_writes_def)

lemma paging_outcomes [simp]: "paging torn P f0 (os\<lparr>os_outcomes := rs\<rparr>) = paging torn P f0 os"
  by (simp add: paging_def)

lemma writeLoop_ok:
  assumes "paging False P f0 (kv_os db)" "set ord \<subseteq> dom (page_updates db)"
    and "dom (page_updates db) \<subseteq> P" "\<forall>p b. page_updates db p = Some b \<longrightarrow> length b = 4096 \<and> p * 4096 < 2 ^ 64"
  shows "\<exists>err os. writeLoop db ord = Some (err, db\<lparr>kv_os := os\<rparr>) \<and> paging (\<not> untorn (os_outcomes (kv_os db))) P f0 os
    \<and> set (os_outcomes os) \<subseteq> set (os_outcomes (kv_os db)) \<and> (os_outcomes (kv_os db) = [] \<longrightarrow> err = None)
    \<and> (err = None \<longrightarrow> paging False P f0 os \<and> os_file os = apply_writes (os_file (kv_os db)) (map (wr db) ord))"
  using assms
proof (induction ord arbitrary: db)
  case Nil
  then show ?case using paging_torn [OF Nil(1)] by (auto intro: exI [of _ "kv_os db"])
next
  case (Cons p ord)
  then obtain b where b: "page_updates db p = Some b" by auto
  have lb: "length b = 4096" "u64 (p * BTREE_PAGE_SIZE) = p * 4096" "p \<in> P"
    using b Cons.prems(3) Cons.prems(4) [rule_format, OF b] by (auto simp: BTREE_PAGE_SIZE_def)
  then have bn: "b \<noteq> []" by auto
  obtain err os1 where w: "sys_pwrite (kv_os db) b (p * 4096) = (err, os1)" by fastforce
  let ?t = "\<not> untorn (os_outcomes (kv_os db))"
  note ev = b w lb(2) Let_def
  from w show ?case
  proof (cases rule: pwrite_cases)
    case (all rs)
    have pg: "paging False P f0 os1" using paging_write [OF Cons.prems(1) lb(3) bn] lb(1) all(2) by simp
    let ?db = "db\<lparr>kv_os := os1\<rparr>"
    have "untorn (os_outcomes (kv_os db)) \<Longrightarrow> untorn (os_outcomes os1)" using untorn_sub all(1,2) by simp
    moreover obtain err' os where r: "writeLoop ?db ord = Some (err', ?db\<lparr>kv_os := os\<rparr>)" "paging (\<not> untorn (os_outcomes os1)) P f0 os"
      "set (os_outcomes os) \<subseteq> set (os_outcomes os1)" "os_outcomes os1 = [] \<longrightarrow> err' = None"
      "err' = None \<longrightarrow> paging False P f0 os \<and> os_file os = apply_writes (os_file os1) (map (wr ?db) ord)"
      using Cons.IH [of ?db] pg Cons.prems(2,3) Cons.prems(4) [rule_format] by force
    ultimately have t: "paging ?t P f0 os" using paging_torn [OF r(2)] by blast
    have wr: "wr ?db = wr db" by (simp add: wr_def fun_eq_iff)
    have "writeLoop db (p # ord) = Some (err', db\<lparr>kv_os := os\<rparr>)" using r(1) all(3) by (simp add: ev)
    moreover have "apply_writes (os_file (kv_os db)) (map (wr db) (p # ord)) = apply_writes (os_file os1) (map (wr db) ord)"
      using all(2) b by (simp add: wr_def os_write_def)
    ultimately show ?thesis using r(3-5) t all wr by (intro exI [of _ err'] exI [of _ os]) auto
  next
    case (part rs e n)
    have "take n b \<noteq> []" "length (take n b) \<le> 4096" using part(5) bn lb(1) by auto
    moreover have "?t \<or> length (take n b) = 4096" using part(4,5) lb(1) by (fastforce simp: untorn_def min_def)
    ultimately have "paging ?t P f0 os1" using paging_write [OF paging_torn [OF Cons.prems(1), of ?t] lb(3)] part(2) by simp
    then show ?thesis using part by (intro exI [of _ err] exI [of _ os1]) (auto simp: ev)
  next
    case (none rs e)
    then show ?thesis using paging_torn [OF Cons.prems(1), of ?t] by (intro exI [of _ err] exI [of _ os1]) (auto simp: ev)
  qed
qed

text \<open>The file after all pages have been written.\<close>

lemma written_other:
  assumes "p \<notin> set ord" "has_pages f (Suc p)" "\<forall>q \<in> set ord. length (the (page_updates db q)) = 4096"
  shows "page_at (apply_writes f (map (wr db) ord)) p = page_at f p \<and> has_pages (apply_writes f (map (wr db) ord)) (Suc p)"
proof -
  have "page_writes False (set ord) (map (wr db) ord)" using assms(3) by (fastforce simp: page_writes_def wr_def)
  from agree_writes [OF this, of f] show ?thesis using assms(1,2) agree_has by (simp add: agree_def has_pages_def)
qed

lemma written_page:
  assumes "distinct ord" "p \<in> set ord" "\<forall>q \<in> set ord. length (the (page_updates db q)) = 4096"
  shows "page_at (apply_writes f (map (wr db) ord)) p = the (page_updates db p)
    \<and> has_pages (apply_writes f (map (wr db) ord)) (Suc p)"
  using assms
proof (induction ord arbitrary: f)
  case (Cons q ord)
  let ?f = "write_at f (q * 4096) (the (page_updates db q))"
  have lq: "length (the (page_updates db q)) = 4096" using Cons.prems(3) by simp
  then have ne: "the (page_updates db q) \<noteq> []" by auto
  show ?case
  proof (cases "p = q")
    case True
    have "has_pages ?f (Suc q)" using lq ne by (simp add: has_pages_def)
    moreover have "page_at ?f q = the (page_updates db q)" by (rule page_at_write_same [OF lq])
    ultimately show ?thesis
      using True written_other [of p ord ?f db] Cons.prems wr_def [of db q] by simp
  next
    case False
    then show ?thesis using Cons.IH [of ?f] Cons.prems wr_def [of db q] by simp
  qed
qed simp


text \<open>A store with pending pages, over a file on which everything is synced.\<close>

definition ready :: "bytes \<Rightarrow> nat list \<Rightarrow> KV \<Rightarrow> bool" where
  "ready f0 ord db \<longleftrightarrow> pages_ok db \<and> map_ok db \<and> clean_os f0 (kv_os db)
     \<and> distinct ord \<and> set ord = dirty db
     \<and> (0 < page_nappend db \<or> has_pages f0 (page_flushed db))
     \<and> (page_flushed db = 2 \<or> has_pages f0 (page_flushed db) \<and> page_flushed db * 4096 \<le> mmap_total db)"

definition on_file :: "KV \<Rightarrow> bytes \<Rightarrow> bool" where
  "on_file db f \<longleftrightarrow> has_pages f (page_end db) \<and> (\<forall>p. 0 < p \<and> p < page_end db \<and> p \<notin> blank db \<longrightarrow> pview db p = Some (page_at f p))"

lemma file_page_at:
  assumes "ready f0 ord db" "p < page_flushed db" "page_flushed db \<noteq> 2"
  shows "file_page db p = Some (page_at f0 p)" "has_pages f0 (Suc p)"
proof -
  have r: "map_ok db" "has_pages f0 (page_flushed db)" "page_flushed db * 4096 \<le> mmap_total db" "os_file (kv_os db) = f0"
    using assms by (auto simp: ready_def clean_os_def)
  show "has_pages f0 (Suc p)" using has_pages_le [OF r(2)] assms(2) by simp
  then show "file_page db p = Some (page_at f0 p)"
    using mmapRead_ok [OF r(1), of p f0] r(3,4) assms(2) by (simp add: file_page_def)
qed

lemma written_on_file:
  assumes rd: "ready f0 ord db"
  shows "on_file db (apply_writes f0 (map (wr db) ord))"
proof -
  let ?f = "apply_writes f0 (map (wr db) ord)"
  have r: "pages_ok db" "distinct ord" "set ord = dirty db" "0 < page_nappend db \<or> has_pages f0 (page_flushed db)"
    using rd by (auto simp: ready_def)
  have len: "\<forall>q \<in> set ord. length (the (page_updates db q)) = 4096"
    using pages_okD(3) [OF r(1)] by (auto simp: r(3) dirty_def BTREE_PAGE_SIZE_def)
  have view: "pview db p = Some (page_at ?f p)" if p: "0 < p" "p < page_end db" "p \<notin> blank db" for p
  proof (cases "p \<in> dirty db")
    case True
    then show ?thesis using written_page [OF r(2) _ len, of p f0] p r(3) by (auto simp: pview_def dirty_def)
  next
    case False
    then have fl: "p < page_flushed db" using pages_okD(4) [OF r(1), of p] p(2) by (force simp: dirty_def)
    have "page_flushed db \<noteq> 2"
    proof
      assume two: "page_flushed db = 2"
      then have "p = 1" using fl p(1) by simp
      then show False using two p(3) False by (cases "page_updates db 1") (auto simp: blank_def dirty_def)
    qed
    from file_page_at [OF rd fl this] written_other [of p ord f0 db] False r(3) len \<open>page_flushed db \<noteq> 2\<close>
    show ?thesis using p by (auto simp: pview_def dirty_def split: option.split)
  qed
  have "has_pages ?f (page_end db)"
  proof (cases "page_nappend db")
    case 0
    then have h: "has_pages f0 (Suc (page_flushed db - 1))" using r(4) pages_okD(1) [OF r(1)] by simp
    have "has_pages ?f (Suc (page_flushed db - 1))"
      using written_other [OF _ h len] written_page [OF r(2) _ len, of "page_flushed db - 1" f0] by blast
    then show ?thesis using 0 pages_okD(1) [OF r(1)] by (simp add: page_end_def)
  next
    case (Suc n)
    then have "page_flushed db + n \<in> dirty db" "Suc (page_flushed db + n) = page_end db"
      using pages_okD(4) [OF r(1), of "page_flushed db + n"] by (auto simp: page_end_def dirty_def)
    then show ?thesis using written_page [OF r(2) _ len, of "page_flushed db + n" f0] r(3) by simp
  qed
  with view show ?thesis by (simp add: on_file_def)
qed

definition same_rest :: "KV \<Rightarrow> KV \<Rightarrow> bool" where
  "same_rest db db' \<longleftrightarrow> db' = db\<lparr>kv_os := kv_os db', mmap_chunks := mmap_chunks db', mmap_total := mmap_total db'\<rparr>"

definition flushed_to :: "KV \<Rightarrow> KV" where
  "flushed_to db = db\<lparr>page_flushed := page_end db, page_nappend := 0, page_updates := Map.empty\<rparr>"

lemma writePages_ok:
  assumes rd: "ready f0 ord db"
  obtains err db' where "writePages db ord = Some (err, db')" "paging (\<not> untorn (os_outcomes (kv_os db))) (dirty db) f0 (kv_os db')" "map_ok db'"
    "mmap_total db \<le> mmap_total db'" "err = None \<Longrightarrow> paging False (dirty db) f0 (kv_os db')"
    "set (os_outcomes (kv_os db')) \<subseteq> set (os_outcomes (kv_os db))" "os_outcomes (kv_os db) = [] \<Longrightarrow> err = None"
    "err = None \<Longrightarrow> same_rest (flushed_to db) db' \<and> on_file db (os_file (kv_os db')) \<and> page_end db * 4096 \<le> mmap_total db'"
    "err \<noteq> None \<Longrightarrow> same_rest db db'"
proof -
  have r: "pages_ok db" "map_ok db" "clean_os f0 (kv_os db)" "set ord = dirty db"
    "page_end db < 2 ^ 51" using rd pages_okD(2) by (auto simp: ready_def)
  let ?sz = "u64 (page_flushed db + page_nappend db) * BTREE_PAGE_SIZE"
  have sz: "?sz = page_end db * 4096" using page_end_u64 [OF r(1)] by (simp add: BTREE_PAGE_SIZE_def)
  obtain err db1 where e: "extendMmap db ?sz = (err, db1)" by fastforce
  from extendMmap_ok [OF r(2) e] obtain os cs t where
    x: "db1 = db\<lparr>kv_os := os, mmap_chunks := cs, mmap_total := t\<rparr>" "map_ok db1" "mmap_total db \<le> t" "err = None \<Longrightarrow> ?sz \<le> t"
    "os_file os = os_file (kv_os db)" "os_synced os = os_synced (kv_os db)" "os_unsynced os = os_unsynced (kv_os db)"
    "set (os_outcomes os) \<subseteq> set (os_outcomes (kv_os db))" "os_outcomes (kv_os db) = [] \<Longrightarrow> err = None \<and> os = kv_os db"
    by metis
  have cl: "clean_os f0 (kv_os db1)" using r(3) x(1,5-7) by (simp add: clean_os_def)
  show ?thesis
  proof (cases err)
    case (Some m)
    then have "writePages db ord = Some (err, db1)" using e by (simp add: writePages_def)
    then show ?thesis
      by (rule that) (use Some x cl clean_paging [OF cl] in \<open>auto simp: same_rest_def\<close>)
  next
    case None
    have upd: "page_updates db1 = page_updates db" and os1: "kv_os db1 = os" using x(1) by simp_all
    have ut: "untorn (os_outcomes (kv_os db)) \<Longrightarrow> untorn (os_outcomes (kv_os db1))" using untorn_sub x(8) os1 by simp
    have pg: "\<forall>p b. page_updates db1 p = Some b \<longrightarrow> length b = 4096 \<and> p * 4096 < 2 ^ 64"
    proof (intro allI impI)
      fix p b assume "page_updates db1 p = Some b"
      then have "p < page_end db" "length b = 4096" using pages_okD(3) [OF r(1)] upd by (auto simp: BTREE_PAGE_SIZE_def)
      then show "length b = 4096 \<and> p * 4096 < 2 ^ 64" using r(5) by simp
    qed
    obtain err' os' where w: "writeLoop db1 ord = Some (err', db1\<lparr>kv_os := os'\<rparr>)"
      "paging (\<not> untorn (os_outcomes (kv_os db1))) (dirty db) f0 os'"
      "set (os_outcomes os') \<subseteq> set (os_outcomes (kv_os db1))" "os_outcomes (kv_os db1) = [] \<longrightarrow> err' = None"
      "err' = None \<longrightarrow> paging False (dirty db) f0 os' \<and> os_file os' = apply_writes (os_file (kv_os db1)) (map (wr db1) ord)"
      using writeLoop_ok [OF clean_paging [OF cl, of False "dirty db"] _ _ pg, of ord] r(4) upd by (auto simp: dirty_def)
    have w2: "paging (\<not> untorn (os_outcomes (kv_os db))) (dirty db) f0 os'" using paging_torn [OF w(2)] ut by blast
    let ?db1 = "db1\<lparr>kv_os := os'\<rparr>"
    have mk: "map_ok ?db1" using x(2) by simp
    have oc: "set (os_outcomes os') \<subseteq> set (os_outcomes (kv_os db))" using w(3) x(8) os1 by simp
    show ?thesis
    proof (cases err')
      case Some
      then have "writePages db ord = Some (err', ?db1)" using e w(1) None by (simp add: writePages_def)
      then show ?thesis
        by (rule that) (use Some x mk oc w w2 in \<open>auto simp: same_rest_def\<close>)
    next
      case N: None
      let ?db2 = "?db1\<lparr>page_flushed := page_end db, page_nappend := 0, page_updates := Map.empty\<rparr>"
      have ev: "writePages db ord = Some (None, ?db2)"
        using e w(1) None N page_end_u64 [OF r(1)] x(1) by (simp add: writePages_def)
      have "wr db1 = wr db" by (simp add: wr_def upd fun_eq_iff)
      then have of: "on_file db (os_file os')"
        using w(5) N written_on_file [OF rd] cl by (simp add: clean_os_def)
      show ?thesis
      proof (rule that [OF ev])
        show "map_ok ?db2" using mk by simp
        have "page_end db * 4096 \<le> t" using x(4) [OF None] sz by simp
        then show "same_rest (flushed_to db) ?db2 \<and> on_file db (os_file (kv_os ?db2)) \<and> page_end db * 4096 \<le> mmap_total ?db2"
          using of x(1) by (simp add: same_rest_def flushed_to_def)
      qed (use w2 w(5) N oc x(1,3) in auto)
    qed
  qed
qed


section \<open>The two phases\<close>

lemma same_rest_os: "same_rest db db' \<Longrightarrow> same_rest db (db'\<lparr>kv_os := os\<rparr>)"
  by (cases db; cases db'; simp add: same_rest_def)

lemma same_rest_meta: "same_rest db db' \<Longrightarrow> meta72 db' = meta72 db"
  by (cases db; cases db'; simp add: same_rest_def meta72_def)

text \<open>
  \<open>f1\<close> is the file between the phases: all pages are written and synced, the meta page is still
  the old one.
\<close>

definition half_done :: "bytes \<Rightarrow> KV \<Rightarrow> bytes \<Rightarrow> bool" where
  "half_done f0 db f1 \<longleftrightarrow> on_file db f1 \<and> (\<exists>ws. page_writes False (dirty db) ws \<and> f1 = apply_writes f0 ws)"

lemma crash_meta:
  assumes "clean_os f1 os" "os' = (os_write os d 0)\<lparr>os_outcomes := rs\<rparr>"
  shows "crash_files os' = {f1, write_at f1 0 d}"
  using assms by (auto simp: clean_os_def crash_files_def os_write_def intro: exI [of _ "[]"] exI [of _ "[(0, d)]"])

lemma file_survives: "os_file os = apply_writes (os_synced os) (os_unsynced os) \<Longrightarrow> os_file os \<in> crash_files os"
  by (auto simp: crash_files_def intro!: exI [of _ "os_unsynced os"])

lemma paging_survives: "paging torn P f0 os \<Longrightarrow> os_file os \<in> crash_files os"
  unfolding paging_def by (rule file_survives) simp

lemma clean_survives: "clean_os f0 os \<Longrightarrow> os_file os \<in> crash_files os"
  unfolding clean_os_def by (rule file_survives) simp

lemma updateFile_cases:
  assumes rd: "ready f0 ord db"
  obtains err db' where "updateFile db ord = Some (err, db')" "os_file (kv_os db') \<in> crash_files (kv_os db')" "os_outcomes (kv_os db) = [] \<Longrightarrow> err = None" "map_ok db'"
    "mmap_total db \<le> mmap_total db'"
    "same_rest db db' \<or> same_rest (flushed_to db) db'" "set (os_outcomes (kv_os db')) \<subseteq> set (os_outcomes (kv_os db))"
    "err \<noteq> None \<and> paging (\<not> untorn (os_outcomes (kv_os db))) (dirty db) f0 (kv_os db')
     \<or> (\<exists>f1 d. half_done f0 db f1 \<and> crash_files (kv_os db') \<subseteq> {f1, write_at f1 0 d}
         \<and> meta_part (os_outcomes (kv_os db)) (meta72 (flushed_to db)) d
         \<and> (err = None \<longrightarrow> clean_os (write_at f1 0 (meta72 (flushed_to db))) (kv_os db')
              \<and> same_rest (flushed_to db) db' \<and> page_end db * 4096 \<le> mmap_total db'))"
proof -
  let ?M = "meta72 (flushed_to db)"
  obtain err db1 where w: "writePages db ord = Some (err, db1)" "paging (\<not> untorn (os_outcomes (kv_os db))) (dirty db) f0 (kv_os db1)"
    "map_ok db1" "mmap_total db \<le> mmap_total db1"
    "set (os_outcomes (kv_os db1)) \<subseteq> set (os_outcomes (kv_os db))" "os_outcomes (kv_os db) = [] \<Longrightarrow> err = None"
    "err = None \<Longrightarrow> same_rest (flushed_to db) db1 \<and> on_file db (os_file (kv_os db1)) \<and> page_end db * 4096 \<le> mmap_total db1"
    "err \<noteq> None \<Longrightarrow> same_rest db db1" "err = None \<Longrightarrow> paging False (dirty db) f0 (kv_os db1)" using writePages_ok [OF rd] by metis
  show ?thesis
  proof (cases "err = None")
    case False
    then have "updateFile db ord = Some (err, db1)" using w(1) by (simp add: updateFile_def)
    then show ?thesis by (rule that) (use w False paging_survives [OF w(2)] in auto)
  next
    case True
    let ?f1 = "os_file (kv_os db1)"
    have sr: "same_rest (flushed_to db) db1" "on_file db ?f1" "page_end db * 4096 \<le> mmap_total db1" using w(7) [OF True] by auto
    have hd: "half_done f0 db ?f1" using sr(2) w(9) [OF True] by (auto simp: half_done_def paging_def)
    obtain e2 os2 where s2: "sys_fsync (kv_os db1) = (e2, os2)" by fastforce
    let ?db2 = "db1\<lparr>kv_os := os2\<rparr>"
    have f2: "kv_Fsync db1 = (e2, ?db2)" using s2 by (simp add: kv_Fsync_def)
    from s2 show ?thesis
    proof (cases rule: fsync_cases)
      case (2 rs e)
      have "updateFile db ord = Some (e2, ?db2)" using w(1) True f2 2 by (simp add: updateFile_def)
      then show ?thesis
      proof (rule that)
        assume "os_outcomes (kv_os db) = []"
        then show "e2 = None" using w(5) 2(4) by simp
      qed (use w 2 same_rest_os [OF sr(1)] paging_survives [OF w(2)] in \<open>auto simp: crash_files_def\<close>)
    next
      case (1 rs)
      have oc2: "set (os_outcomes os2) \<subseteq> set (os_outcomes (kv_os db))" using 1 w(5) by auto
      have M: "saveMeta ?db2 = Some ?M" using same_rest_meta [OF same_rest_os [OF sr(1)]] by (simp add: saveMeta_eq)
      obtain e3 os3 where s3: "sys_pwrite os2 ?M 0 = (e3, os3)" by fastforce
      define err3 where "err3 = map_option (\<lambda>e. ''write meta page: '' @ e) e3"
      have n3: "err3 = None \<longleftrightarrow> e3 = None" by (simp add: err3_def)
      let ?e3 = err3 and ?db3 = "?db2\<lparr>kv_os := os3\<rparr>"
      have u3: "updateRoot ?db2 = Some (?e3, ?db3)"
        using M s3 by (cases e3) (simp_all add: updateRoot_def err3_def)
      have ev: "updateFile db ord = (if err3 \<noteq> None then Some (?e3, ?db3) else Some (kv_Fsync ?db3))"
        using w(1) True f2 1(2) u3 by (simp add: updateFile_def)
      have mk: "map_ok ?db3" and sr3: "same_rest (flushed_to db) ?db3" using w(3) same_rest_os [OF same_rest_os [OF sr(1)]] by simp_all
      have fin: "\<exists>f1 d. half_done f0 db f1 \<and> crash_files os \<subseteq> {f1, write_at f1 0 d}
          \<and> meta_part (os_outcomes (kv_os db)) ?M d" if "crash_files os \<subseteq> {?f1, write_at ?f1 0 d}" "meta_part (os_outcomes os2) ?M d" for os d
        using that hd meta_part_sub [OF that(2) oc2] by blast
      have "length ?M \<le> 72" by simp
      with s3 show ?thesis
      proof (cases rule: pwrite_meta)
        case (2 rs' e)
        have cr: "crash_files os3 = {?f1}" using clean_crash [of ?f1 os3] 1(3) 2(2) by (simp add: clean_os_def)
        have sv: "os_file os3 \<in> crash_files os3" using cr 2(2) 1(3) by (simp add: clean_os_def)
        have "updateFile db ord = Some (?e3, ?db3)" using ev 2(3) n3 by simp
        then show ?thesis
        proof (rule that)
          assume "os_outcomes (kv_os db) = []"
          then show "?e3 = None" using oc2 2(4) by simp
        qed (use w(4) mk sr3 oc2 2 n3 sv fin [of os3 ?M] cr meta_part_refl in auto)
      next
        case p1: (1 rs' d)
        note cr = crash_meta [OF 1(3) p1(2)]
        have sv: "os_file os3 \<in> crash_files os3" using cr p1(2) 1(3) by (auto simp: clean_os_def os_write_def)
        have oc3: "set (os_outcomes os3) \<subseteq> set (os_outcomes (kv_os db))" using p1(1,2) oc2 by auto
        show ?thesis
        proof (cases "e3 = None")
          case False
          then have "updateFile db ord = Some (?e3, ?db3)" using ev n3 by simp
          then show ?thesis
          proof (rule that)
            assume "os_outcomes (kv_os db) = []"
            then show "?e3 = None" using oc2 p1(3) n3 by simp
          qed (use w(4) mk sr3 oc3 fin [OF eq_refl [OF cr] p1(4)] False n3 sv in auto)
        next
          case e3: True
          obtain e4 os4 where s4: "sys_fsync os3 = (e4, os4)" by fastforce
          have ev4: "updateFile db ord = Some (e4, ?db3\<lparr>kv_os := os4\<rparr>)" using ev e3 n3 s4 by (simp add: kv_Fsync_def)
          have dM: "d = ?M" by (rule p1(5) [OF e3])
          have f3: "os_file os3 = write_at ?f1 0 ?M" using p1(2) 1(3) dM by (simp add: os_write_def clean_os_def)
          from s4 show ?thesis
          proof (cases rule: fsync_cases)
            case (2 rs'' e)
            have cr4: "crash_files os4 = crash_files os3" using 2(3) by (simp add: crash_files_def)
            have n4: "os_outcomes (kv_os db) \<noteq> []" using 2(4) oc3 by auto
            show ?thesis
              by (rule that [OF ev4])
                (use w(4) n4 2(1-3) oc3 mk sr3 same_rest_os [OF sr3, of os4] fin [of os4 d] p1(4) cr cr4 sv in auto)
          next
            case p4: (1 rs'')
            have cr4: "crash_files os4 = {write_at ?f1 0 ?M}" using clean_crash [OF p4(3)] f3 by simp
            have "\<exists>f1 d. half_done f0 db f1 \<and> crash_files os4 \<subseteq> {f1, write_at f1 0 d} \<and> meta_part (os_outcomes (kv_os db)) ?M d
                \<and> clean_os (write_at f1 0 ?M) os4"
              using hd cr4 meta_part_refl p4(3) f3 by (intro exI [of _ ?f1] exI [of _ ?M]) simp
            then show ?thesis
              by (intro that [OF ev4])
                (use w(4) p4 oc3 mk sr3 same_rest_os [OF sr3, of os4] sr(3) clean_survives [OF p4(3)] in auto)
          qed
        qed
      qed
    qed
  qed
qed


text \<open>\<^const>\<open>updateOrRevert\<close> for a store whose last update did not fail.\<close>

definition reverted :: "KV \<Rightarrow> KV \<Rightarrow> KV" where
  "reverted db' old = (restore_meta (db'\<lparr>kv_failed := True\<rparr>) old)\<lparr>page_nappend := 0, page_updates := Map.empty\<rparr>"

lemma updateOrRevert_cases:
  assumes rd: "ready f0 ord db" and ok: "\<not> kv_failed db" and old: "meta_fits old"
  obtains db' where "updateOrRevert db (meta72 old) ord = Some (None, db')" "map_ok db'" "same_rest (flushed_to db) db'"
      "\<exists>f1. half_done f0 db f1 \<and> clean_os (write_at f1 0 (meta72 (flushed_to db))) (kv_os db')"
      "page_end db * 4096 \<le> mmap_total db'" "set (os_outcomes (kv_os db')) \<subseteq> set (os_outcomes (kv_os db))"
  | e db' where "updateOrRevert db (meta72 old) ord = Some (Some e, reverted db' old)" "map_ok db'" "mmap_total db \<le> mmap_total db'" "os_outcomes (kv_os db) \<noteq> []"
      "same_rest db db' \<or> same_rest (flushed_to db) db'"
      "os_file (kv_os db') \<in> crash_files (kv_os db')"
      "paging (\<not> untorn (os_outcomes (kv_os db))) (dirty db) f0 (kv_os db')
       \<or> (\<exists>f1 d. half_done f0 db f1 \<and> crash_files (kv_os db') \<subseteq> {f1, write_at f1 0 d}
            \<and> meta_part (os_outcomes (kv_os db)) (meta72 (flushed_to db)) d)"
proof -
  have re: "rewriteMeta db (meta72 old) = (None, db)" using ok by (simp add: rewriteMeta_def)
  obtain err db' where u: "updateFile db ord = Some (err, db')" "os_file (kv_os db') \<in> crash_files (kv_os db')" "os_outcomes (kv_os db) = [] \<Longrightarrow> err = None" "map_ok db'"
    "mmap_total db \<le> mmap_total db'"
    "same_rest db db' \<or> same_rest (flushed_to db) db'" 
    "set (os_outcomes (kv_os db')) \<subseteq> set (os_outcomes (kv_os db))"
    "err \<noteq> None \<and> paging (\<not> untorn (os_outcomes (kv_os db))) (dirty db) f0 (kv_os db')
     \<or> (\<exists>f1 d. half_done f0 db f1 \<and> crash_files (kv_os db') \<subseteq> {f1, write_at f1 0 d}
         \<and> meta_part (os_outcomes (kv_os db)) (meta72 (flushed_to db)) d
         \<and> (err = None \<longrightarrow> clean_os (write_at f1 0 (meta72 (flushed_to db))) (kv_os db')
              \<and> same_rest (flushed_to db) db' \<and> page_end db * 4096 \<le> mmap_total db'))"
    by (rule updateFile_cases [OF rd]) metis
  show ?thesis
  proof (cases err)
    case None
    then have "updateOrRevert db (meta72 old) ord = Some (None, db')" using re u(1) by (simp add: updateOrRevert_def)
    then show ?thesis by (rule that(1)) (use u None in auto)
  next
    case (Some e)
    have "loadMeta (db'\<lparr>kv_failed := True\<rparr>) (meta72 old) = Some (restore_meta (db'\<lparr>kv_failed := True\<rparr>) old)"
      using loadMeta_meta72 [OF old, of _ "[]"] by simp
    then have "updateOrRevert db (meta72 old) ord = Some (Some e, reverted db' old)"
      using re u(1) Some by (simp add: updateOrRevert_def reverted_def)
    then show ?thesis by (rule that(2)) (use u Some in auto)
  qed
qed

section \<open>Opening a file\<close>

lemma take_page: "has_pages f (Suc 0) \<Longrightarrow> n \<le> 4096 \<Longrightarrow> take n f = take n (page_at f 0)"
  by (simp add: page_at_def sub_def min_def)

text \<open>A file with a good meta page.\<close>

definition openable :: "KV \<Rightarrow> bytes \<Rightarrow> bool" where
  "openable db f \<longleftrightarrow> take 72 f = meta72 db \<and> meta_fits db \<and> has_pages f (page_flushed db) \<and> length f mod 4096 = 0
     \<and> 0 < kv_root db \<and> kv_root db < page_flushed db \<and> 0 < headPage (kv_free db) \<and> headPage (kv_free db) < page_flushed db
     \<and> 0 < tailPage (kv_free db) \<and> tailPage (kv_free db) < page_flushed db"

lemma open_ok:
  assumes op: "openable db f"
  obtains db' where "kv_Open (new_kv \<lparr>os_file = f, os_synced = s, os_unsynced = u, os_outcomes = []\<rparr>) = Some (None, db')"
    "kv_root db' = kv_root db" "page_flushed db' = page_flushed db" "kv_version db' = kv_version db"
    "page_updates db' = Map.empty" "page_nappend db' = 0" "map_ok db'" "page_flushed db' * 4096 \<le> mmap_total db'"
    "kv_os db' = \<lparr>os_file = f, os_synced = s, os_unsynced = u, os_outcomes = []\<rparr>"
    "headPage (kv_free db') = headPage (kv_free db)" "headSeq (kv_free db') = headSeq (kv_free db)"
    "tailPage (kv_free db') = tailPage (kv_free db)" "tailSeq (kv_free db') = tailSeq (kv_free db)"
    "maxSeq (kv_free db') = tailSeq (kv_free db)" "maxVer (kv_free db') = kv_version db" "kv_ongoing db' = []" "kv_history db' = []"
    "\<not> kv_failed db'"
proof -
  let ?os = "\<lparr>os_file = f, os_synced = s, os_unsynced = u, os_outcomes = []\<rparr>"
  let ?k = "new_kv ?os"
  have o: "take 72 f = meta72 db" "meta_fits db" "has_pages f (page_flushed db)" "length f mod 4096 = 0"
    "0 < kv_root db" "kv_root db < page_flushed db" using op by (auto simp: openable_def)
  have len: "4096 \<le> length f" "page_flushed db \<le> length f div 4096"
    using o(3,5,6) by (auto simp: has_pages_def less_eq_div_iff_mult_less_eq)
  have c: "sys_call ?os = (None, ?os)" by (simp add: sys_call_def next_outcome_def)
  have cf: "createFileSync ?os = (None, ?os)" by (simp add: createFileSync_def c)
  define A where "A = growAlloc 0 (64 * 2 ^ 20) (length f)"
  have A: "length f \<le> A" "A mod 4096 = 0" using growAlloc_ok [where tot = 0 and alloc = "64 * 2 ^ 20" and sz = "length f"] by (simp_all add: A_def)
  let ?k1 = "?k\<lparr>mmap_chunks := [(0, A)], mmap_total := A\<rparr>"
  have e: "extendMmap (?k\<lparr>page_updates := Map.empty, kv_os := ?os\<rparr>) (length f) = (None, ?k1)"
    using len(1) by (simp add: extendMmap_def new_kv_def c A_def Let_def) auto
  have mb: "meta_bytes ?k1 = Some (meta72 db)"
    using o(1) len(1) A(1) by (simp add: meta_bytes_def mapped_bytes_def new_kv_def sub_def)
  have ld: "loadMeta ?k1 (meta72 db) = Some (restore_meta ?k1 db)" using loadMeta_meta72 [OF o(2), of _ "[]"] by simp
  let ?r = "restore_meta ?k1 db"
  let ?k2 = "?r\<lparr>kv_free := SetMaxVer (kv_free ?r) (kv_version ?r)\<rparr>"
  have sig: "sub (meta72 db) 0 16 = DB_SIG" by (simp add: meta72_def sub_def)
  have rr: "readRoot ?k1 (length f) = Some (None, ?k2)"
    using len o(4-6) mb ld sig op
    by (simp add: readRoot_def BTREE_PAGE_SIZE_def Let_def openable_def) (auto simp: restore_meta_def SetMaxVer_def)
  have ev: "kv_Open ?k = Some (None, ?k2)"
    using cf c e rr by (simp add: kv_Open_def new_kv_def)
  show ?thesis
    by (rule that [OF ev]) (use A o(3) in \<open>auto simp: restore_meta_def SetMaxVer_def new_kv_def map_ok_def has_pages_def\<close>)
qed

end
