(* ===== verification/KVProps.thy ===== *)
theory KVProps
  imports KVCommit
begin

text \<open>
  What the store of \<^verbatim>\<open>db/kv.go\<close> promises: a set of insertions is committed as a whole, reading
  back after any crash gives the contents of before or of after, and a failed commit leaves
  the contents of before.
\<close>

section \<open>Stores at rest\<close>

definition fresh :: "KV \<Rightarrow> bool" where
  "fresh db \<longleftrightarrow> page_flushed db = 2 \<and> kv_root db = 0 \<and> os_file (kv_os db) = []"

definition settled :: "KV \<Rightarrow> bool" where
  "settled db \<longleftrightarrow> page_updates db = Map.empty \<and> page_nappend db = 0 \<and> map_ok db
     \<and> clean_os (os_file (kv_os db)) (kv_os db) \<and> \<not> kv_failed db \<and> meta_fits db \<and> page_flushed db < 2 ^ 51
     \<and> maxVer (kv_free db) \<le> kv_version db \<and> kv_version db + 1 < 2 ^ 64 \<and> (\<exists>ps q. kv_list db ps q)
     \<and> (fresh db \<or> openable db (os_file (kv_os db)) \<and> 2 < page_flushed db \<and> page_flushed db * 4096 \<le> mmap_total db)"

definition store_holds :: "KV \<Rightarrow> nat \<Rightarrow> kv list \<Rightarrow> bool" where
  "store_holds db h kvs \<longleftrightarrow> settled db \<and> tree_holds (kv_view db) (kv_root db) h kvs"

text \<open>Reading needs no free list.\<close>

interpretation kvr: pager kv_callbacks "\<lambda>db. pages_ok db \<and> blank db = {}" pview "\<lambda>db. 0"
  by unfold_locales (simp_all add: kv_callbacks_def pageRead_ok)

definition reads_as :: "nat \<Rightarrow> KV \<Rightarrow> kv list \<Rightarrow> bool" where
  "reads_as fuel db kvs \<longleftrightarrow> (\<forall>key. key \<noteq> [] \<longrightarrow> btree_Get kv_callbacks fuel key (kv_root db) db = Some (map_of kvs key))"

lemma reads_asI:
  assumes "pages_ok db" "blank db = {}" "tree_holds (pview db) (kv_root db) h kvs" "h < fuel"
  shows "reads_as fuel db kvs"
  using kvr.btree_Get_ok [OF _ assms(3,4)] assms(1,2) by (simp add: reads_as_def)

lemma has_page_at: "has_pages f (Suc p) \<Longrightarrow> length (page_at f p) = BTREE_PAGE_SIZE"
  by (simp add: page_at_def has_pages_def BTREE_PAGE_SIZE_def)

text \<open>A store without pending pages over a mapped file.\<close>

lemma quiet_pages:
  assumes "page_updates db = Map.empty" "page_nappend db = 0" "map_ok db" "page_flushed db * 4096 \<le> mmap_total db"
    and "has_pages (os_file (kv_os db)) (page_flushed db)" "2 < page_flushed db" "page_flushed db < 2 ^ 51"
  shows "pages_ok db" "blank db = {}" "dirty db = {}"
    "\<And>p. 0 < p \<Longrightarrow> p < page_flushed db \<Longrightarrow> pview db p = Some (page_at (os_file (kv_os db)) p)"
proof -
  have fp: "file_page db p = Some (page_at (os_file (kv_os db)) p)" "has_pages (os_file (kv_os db)) (Suc p)" if "p < page_flushed db" for p
  proof -
    show h: "has_pages (os_file (kv_os db)) (Suc p)" using has_pages_le [OF assms(5)] that by simp
    show "file_page db p = Some (page_at (os_file (kv_os db)) p)"
      using mmapRead_ok [OF assms(3) _ h] assms(4) that by (simp add: file_page_def)
  qed
  show "pages_ok db" using assms fp has_page_at by (auto simp: pages_ok_def dirty_def page_end_def has_page_def)
  show "blank db = {}" "dirty db = {}" using assms by (auto simp: blank_def dirty_def)
  show "pview db p = Some (page_at (os_file (kv_os db)) p)" if "0 < p" "p < page_flushed db" for p
    using assms fp that by (auto simp: pview_def page_end_def)
qed

lemma settled_pages: "settled db \<Longrightarrow> pages_ok db"
proof (cases "fresh db")
  case True
  then show "settled db \<Longrightarrow> pages_ok db"
    by (auto simp: settled_def fresh_def pages_ok_def dirty_def page_end_def)
next
  case False
  then show "settled db \<Longrightarrow> pages_ok db"
    by (intro quiet_pages(1)) (auto simp: settled_def openable_def)
qed

section \<open>One commit\<close>

text \<open>
  A set of insertions and the update of the file, the way \<^verbatim>\<open>KV.Commit\<close> drives them. The order
  in which Go walks the map of pending pages is a parameter.
\<close>

definition map_order :: "((nat \<rightharpoonup> bytes) \<Rightarrow> nat list) \<Rightarrow> bool" where
  "map_order mo \<longleftrightarrow> (\<forall>m. finite (dom m) \<longrightarrow> distinct (mo m) \<and> set (mo m) = dom m)"

definition begin_update :: "KV \<Rightarrow> KV" where
  "begin_update db = db\<lparr>kv_free := (kv_free db)\<lparr>curVer := kv_version db + 1\<rparr>\<rparr>"

definition update_store :: "((nat \<rightharpoonup> bytes) \<Rightarrow> nat list) \<Rightarrow> nat \<Rightarrow> kv list \<Rightarrow> KV \<Rightarrow> (go_error option \<times> KV) option" where
  "update_store mo fuel ops db = do {
     meta \<leftarrow> saveMeta db;
     (root, db') \<leftarrow> upserts kv_callbacks fuel ops (kv_root db) (begin_update db);
     updateOrRevert (db'\<lparr>kv_root := root, kv_version := kv_version db + 1\<rparr>) meta (mo (page_updates db'))
   }"

lemma begin_update_simps [simp]:
  "pview (begin_update db) = pview db" "dirty (begin_update db) = dirty db" "blank (begin_update db) = blank db"
  "pages_ok (begin_update db) = pages_ok db" "kv_room (begin_update db) = kv_room db" "kv_root (begin_update db) = kv_root db"
  by (simp_all add: begin_update_def kv_room_def)

lemma fl_rep_curVer: "fl_rep e v bl dt fl ps q \<Longrightarrow> n < 2 ^ 64 \<Longrightarrow> fl_rep e v bl dt (fl\<lparr>curVer := n\<rparr>) ps q"
  by (auto simp: fl_rep_def clean_def)

lemma begin_list: "kv_list db ps q \<Longrightarrow> kv_version db + 1 < 2 ^ 64 \<Longrightarrow> kv_list (begin_update db) ps q"
  using fl_rep_curVer [of 1 "pview db" "blank db" "dirty db" "kv_free db" ps q "kv_version db + 1"]
  by (simp add: kv_list_def) (simp add: begin_update_def)

lemma begin_view: "kv_list db ps q \<Longrightarrow> kv_version db + 1 < 2 ^ 64 \<Longrightarrow> kv_view (begin_update db) = kv_view db"
proof -
  assume l: "kv_list db ps q" "kv_version db + 1 < 2 ^ 64"
  have "owned (begin_update db) = owned db" using owned_eq [OF begin_list [OF l]] owned_eq [OF l(1)] by simp
  then show ?thesis by (simp add: kv_view_def fun_eq_iff)
qed

abbreviation snapshot_pages :: "KV \<Rightarrow> nat set" where
  "snapshot_pages db \<equiv> dom (kv_view db)"

lemma begin_ok:
  assumes "settled db"
  shows "kv_ok (kv_version db) (snapshot_pages db) (begin_update db) (begin_update db)"
proof -
  obtain ps q where l: "kv_list db ps q" and s: "kv_version db + 1 < 2 ^ 64" "page_updates db = Map.empty"
    "maxVer (kv_free db) \<le> kv_version db" "meta_fits db" using assms by (auto simp: settled_def)
  have "guarded (kv_version db) (snapshot_pages db) (begin_update db) ps q"
  proof -
    have "dirty db = {}" using s(2) by (simp add: dirty_def)
    then show ?thesis using owned_eq [OF l] avail_sub [of "kv_version db" ps q]
      by (auto simp: guarded_def kv_view_def split: if_splits)
  qed
  then show ?thesis
    using begin_list [OF l s(1)] settled_pages [OF assms] s(3,4)
    by (auto simp: kv_ok_def page_inv_def same_base_simps begin_update_def meta_fits_def)
qed


text \<open>What a commit needs: small pairs, fuel for the height and room for the new pages.\<close>

definition fits :: "nat \<Rightarrow> kv list \<Rightarrow> KV \<Rightarrow> nat \<Rightarrow> kv list \<Rightarrow> bool" where
  "fits fuel ops db h kvs \<longleftrightarrow> ops \<noteq> [] \<and> (\<forall>op \<in> set ops. small_op op) \<and> small_kvs kvs
     \<and> h + length ops < fuel \<and> length ops * (4 * (h + length ops) + 5) \<le> kv_room db"

lemma ins_kv_ne: "ins_kv k v kvs \<noteq> []"
  by (cases kvs) (auto split: if_splits)

lemma ins_all_ne: "kvs \<noteq> [] \<Longrightarrow> ins_all ops kvs \<noteq> []"
proof (induction ops arbitrary: kvs)
  case (Cons op ops)
  obtain k v where "op = (k, v)" by (cases op)
  then show ?case using Cons.IH [OF ins_kv_ne [of k v kvs]] by simp
qed simp

lemma map_ok_cong: "mmap_chunks a = mmap_chunks b \<Longrightarrow> mmap_total a = mmap_total b \<Longrightarrow> map_ok a = map_ok b"
  by (simp only: map_ok_def)

definition same_pages :: "KV \<Rightarrow> KV \<Rightarrow> bool" where
  "same_pages a b \<longleftrightarrow> os_file (kv_os a) = os_file (kv_os b) \<and> mmap_chunks a = mmap_chunks b
     \<and> page_flushed a = page_flushed b \<and> page_nappend a = page_nappend b \<and> page_updates a = page_updates b"

lemma same_pages:
  assumes "same_pages a b"
  shows "page_end a = page_end b" "file_page a = file_page b" "pview a = pview b" "blank a = blank b" "dirty a = dirty b"
    "pages_ok a = pages_ok b" "kv_free a = kv_free b \<Longrightarrow> kv_list a = kv_list b"
proof -
  note a = assms [unfolded same_pages_def]
  show e: "page_end a = page_end b" and f: "file_page a = file_page b" and b: "blank a = blank b" and d: "dirty a = dirty b"
    using a by (simp_all add: page_end_def file_page_def [abs_def] blank_def dirty_def)
  show v: "pview a = pview b"
  proof
    show "pview a p = pview b p" for p using a e f by (simp add: pview_def cong: option.case_cong)
  qed
  show "pages_ok a = pages_ok b" using a e f d by (simp add: pages_ok_def)
  show "kv_list a = kv_list b" if "kv_free a = kv_free b"
    by (intro ext) (simp add: kv_list_def v b d that)
qed

lemma rooted [simp]:
  "same_pages (db\<lparr>kv_root := n, kv_version := m\<rparr>) db"
  by (simp add: same_pages_def)

lemmas rooted_simps [simp] = same_pages [OF rooted]

lemma same_baseD:
  assumes "same_base base db"
  shows "kv_os db = kv_os base" "mmap_chunks db = mmap_chunks base" "mmap_total db = mmap_total base"
    "page_flushed db = page_flushed base" "kv_failed db = kv_failed base" "kv_version db = kv_version base"
    "kv_ongoing db = kv_ongoing base" "kv_history db = kv_history base" "kv_root db = kv_root base"
  using assms by (cases db; cases base; simp add: same_base_def)+

lemma finite_dirty: "pages_ok db \<Longrightarrow> finite (dirty db)"
  unfolding pages_ok_def using finite_subset [of "dirty db" "{0<..<page_end db}"] by blast

lemma list_uses_a_page:
  assumes "kv_list db ps q" "kv_view db root = Some b"
  shows "2 < page_end db"
proof -
  have r: "ps \<noteq> []" "\<forall>p \<in> set (free_pages ps q). p \<noteq> 0 \<and> has_page (pview db) p"
    using assms(1) by (auto simp: kv_list_def fl_rep_def)
  then have "hd ps \<in> set (free_pages ps q)" by (simp add: free_pages_def)
  moreover from this obtain c where "hd ps \<noteq> 0" "pview db (hd ps) = Some c" using r(2) by (auto simp: has_page_def)
  ultimately have h: "hd ps \<in> owned db" "hd ps \<noteq> 0" "hd ps < page_end db"
    using owned_eq [OF assms(1)] pview_range [of db "hd ps" c] by auto
  have "root \<notin> owned db" "root \<noteq> 0" "root < page_end db"
    using assms(2) pview_range [of db root] by (auto simp: kv_view_def split: if_splits)
  then have "root \<noteq> hd ps" using h(1) by auto
  with h \<open>root \<noteq> 0\<close> \<open>root < page_end db\<close> show ?thesis by linarith
qed

lemma commit_ready:
  assumes holds: "store_holds base h kvs" and fits: "fits fuel ops base h kvs" and mo: "map_order mo"
  obtains root h' db where "upserts kv_callbacks fuel ops (kv_root base) (begin_update base) = Some (root, db)"
    "kv_ok (kv_version base) (snapshot_pages base) (begin_update base) db" "same_base (begin_update base) db"
    "tree_holds (kv_view db) root h' (ins_all ops kvs)" "h' < fuel" "root \<noteq> 0"
    "h' \<le> h + length ops" "kv_room base \<le> kv_room db + length ops * (4 * (h + length ops) + 5)"
    "ready (os_file (kv_os base)) (mo (page_updates db)) (db\<lparr>kv_root := root, kv_version := kv_version base + 1\<rparr>)"
proof -
  have st: "settled base" and tr: "tree_holds (kv_view base) (kv_root base) h kvs" using holds by (auto simp: store_holds_def)
  obtain ps0 q0 where l0: "kv_list base ps0 q0" and ver: "kv_version base + 1 < 2 ^ 64" using st by (auto simp: settled_def)
  have tr': "tree_holds (kv_view (begin_update base)) (kv_root base) h kvs" using tr begin_view [OF l0 ver] by simp
  have f: "\<forall>op \<in> set ops. small_op op" "small_kvs kvs" "h + length ops < fuel"
    "length ops * (4 * (h + length ops) + 5) \<le> kv_room (begin_update base)" "ops \<noteq> []" using fits by (auto simp: fits_def)
  obtain root h' db where u: "upserts kv_callbacks fuel ops (kv_root base) (begin_update base) = Some (root, db)"
    "kv_ok (kv_version base) (snapshot_pages base) (begin_update base) db" "h' \<le> h + length ops"
    "tree_holds (kv_view db) root h' (ins_all ops kvs)" "kv_room base \<le> kv_room db + length ops * (4 * (h + length ops) + 5)"
    using kvp.upserts_ok [OF begin_ok [OF st] tr' f(2,1,3,4)] unfolding begin_update_simps by blast
  have "ins_all ops kvs \<noteq> []"
  proof -
    obtain k v ops' where "ops = (k, v) # ops'" using f(5) by (metis list.exhaust surj_pair)
    then show ?thesis using ins_all_ne [OF ins_kv_ne] by simp
  qed
  then have r0: "root \<noteq> 0" using u(4) by (metis tree_holds_empty)
  obtain ps q where k: "page_inv (begin_update base) db" "kv_list db ps q" by (rule kv_okE [OF u(2)])
  then have sb: "same_base (begin_update base) db" and po: "pages_ok db" by (simp_all add: page_inv_def)
  note e = same_baseD [OF sb]
  have app: "0 < page_nappend db \<or> has_pages (os_file (kv_os base)) (page_flushed db)"
  proof (cases "fresh base")
    case True
    have "2 < page_end db" using list_uses_a_page [OF k(2)] u(4) r0 by (auto elim: tree_holdsE)
    then show ?thesis using True e(4) by (auto simp: fresh_def page_end_def begin_update_def)
  next
    case False
    then show ?thesis using st e(4) by (auto simp: settled_def openable_def begin_update_def)
  qed
  have rd: "ready (os_file (kv_os base)) (mo (page_updates db)) (db\<lparr>kv_root := root, kv_version := kv_version base + 1\<rparr>)"
    unfolding ready_def
  proof (intro conjI)
    show "map_ok (db\<lparr>kv_root := root, kv_version := kv_version base + 1\<rparr>)"
      using st e(2,3) map_ok_cong [of db base] by (simp add: settled_def begin_update_def)
    have "finite (dom (page_updates db))" using finite_dirty [OF po] by (simp add: dirty_def)
    then show "distinct (mo (page_updates db))"
        "set (mo (page_updates db)) = dirty (db\<lparr>kv_root := root, kv_version := kv_version base + 1\<rparr>)"
      using mo by (auto simp: map_order_def dirty_def)
    show "page_flushed (db\<lparr>kv_root := root, kv_version := kv_version base + 1\<rparr>) = 2 \<or>
        has_pages (os_file (kv_os base)) (page_flushed (db\<lparr>kv_root := root, kv_version := kv_version base + 1\<rparr>)) \<and>
        page_flushed (db\<lparr>kv_root := root, kv_version := kv_version base + 1\<rparr>) * 4096
          \<le> mmap_total (db\<lparr>kv_root := root, kv_version := kv_version base + 1\<rparr>)"
      using st e(3,4) by (auto simp: settled_def fresh_def openable_def begin_update_def)
  qed (use po app st e(1) in \<open>auto simp: settled_def begin_update_def\<close>)
  show ?thesis by (rule that [OF u(1,2) sb u(4) _ r0 u(3,5) rd]) (use u(3) f(3) in linarith)
qed


section \<open>The file after a commit\<close>

lemma agree_page: "agree torn P f0 f \<Longrightarrow> p \<notin> P \<Longrightarrow> has_pages f0 (Suc p) \<Longrightarrow> page_at f p = page_at f0 p"
  by (simp add: agree_def)

lemma dirty_no_meta: "pages_ok db \<Longrightarrow> 0 \<notin> dirty db"
  by (auto simp: pages_ok_def)

text \<open>The pages of the old snapshot and the old meta page are still there.\<close>

lemma old_openable:
  assumes op: "openable base f0" and ag: "agree False P f0 f" "0 \<notin> P"
  shows "openable base f"
proof -
  have h: "has_pages f0 (page_flushed base)" "0 < page_flushed base" using op by (auto simp: openable_def)
  then have h1: "has_pages f0 (Suc 0)" using has_pages_le by (metis Suc_leI)
  have "take 72 f = take 72 f0"
    using take_page [OF h1, of 72] take_page [OF agree_has [OF ag(1) h1], of 72] agree_page [OF ag(1,2) h1] by simp
  then show ?thesis
    using op agree_has [OF ag(1) h(1)] ag(1) by (auto simp: openable_def agree_def)
qed

lemma old_view:
  assumes st: "settled base" "\<not> fresh base" and ok: "kv_ok r (snapshot_pages base) (begin_update base) db"
    and ag: "agree torn (dirty db) (os_file (kv_os base)) f" and v: "kv_view base p = Some b"
  shows "0 < p" "p < page_flushed base" "page_at f p = b"
proof -
  let ?f0 = "os_file (kv_os base)"
  have s: "page_updates base = Map.empty" "page_nappend base = 0" "map_ok base" "page_flushed base * 4096 \<le> mmap_total base"
    "has_pages ?f0 (page_flushed base)" "2 < page_flushed base" "page_flushed base < 2 ^ 51"
    using st by (auto simp: settled_def openable_def)
  have pv: "pview base p = Some b" using v by (auto simp: kv_view_def split: if_splits)
  then show r: "0 < p" "p < page_flushed base" using pview_range [OF pv] s(2) by (auto simp: page_end_def)
  have "p \<notin> dirty db" using ok v by (auto simp: kv_ok_def guarded_def)
  moreover have "has_pages ?f0 (Suc p)" using has_pages_le [OF s(5)] r(2) by simp
  ultimately have "page_at f p = page_at ?f0 p" using agree_page [OF ag] by simp
  then show "page_at f p = b" using quiet_pages(4) [OF s r] pv by simp
qed

definition os_on :: "bytes \<Rightarrow> OS" where
  "os_on f = \<lparr>os_file = f, os_synced = f, os_unsynced = [], os_outcomes = []\<rparr>"

text \<open>\<open>recovers fuel f kvs\<close>: a file that opens, and reads as \<open>kvs\<close>.\<close>

definition recovers :: "nat \<Rightarrow> bytes \<Rightarrow> kv list \<Rightarrow> bool" where
  "recovers fuel f kvs \<longleftrightarrow> (\<exists>db. kv_Open (new_kv (os_on f)) = Some (None, db) \<and> reads_as fuel db kvs)"

lemma opensI:
  assumes op: "openable db f" "2 < page_flushed db" "page_flushed db < 2 ^ 51"
    and tr: "tree_holds v (kv_root db) h kvs" "h < fuel"
    and pg: "\<And>p b. v p = Some b \<Longrightarrow> 0 < p \<and> p < page_flushed db \<and> page_at f p = b"
  shows "\<exists>db'. kv_Open (new_kv (os_on f)) = Some (None, db') \<and> kv_version db' = kv_version db \<and> reads_as fuel db' kvs"
proof -
  obtain db' where o: "kv_Open (new_kv \<lparr>os_file = f, os_synced = f, os_unsynced = [], os_outcomes = []\<rparr>) = Some (None, db')"
    "kv_root db' = kv_root db" "page_flushed db' = page_flushed db"
    "page_updates db' = Map.empty" "page_nappend db' = 0" "map_ok db'" "page_flushed db' * 4096 \<le> mmap_total db'"
    "kv_os db' = \<lparr>os_file = f, os_synced = f, os_unsynced = [], os_outcomes = []\<rparr>" "kv_version db' = kv_version db"
    by (rule open_ok [OF op(1), where s = f and u = "[]"]) blast
  have h: "has_pages (os_file (kv_os db')) (page_flushed db')" "2 < page_flushed db'" "page_flushed db' < 2 ^ 51"
    using op o(3,8) by (auto simp: openable_def)
  note q = quiet_pages [OF o(4-7) h]
  have "tree_holds (pview db') (kv_root db') h kvs"
    unfolding o(2) by (rule tree_holds_cong [OF tr(1)]) (use q(4) pg o(3,8) in auto)
  then show ?thesis
    using reads_asI [OF q(1,2) _ tr(2)] o(1,9) by (auto simp: os_on_def)
qed

lemma recoversI:
  assumes "openable db f" "2 < page_flushed db" "page_flushed db < 2 ^ 51" "tree_holds v (kv_root db) h kvs" "h < fuel"
    and "\<And>p b. v p = Some b \<Longrightarrow> 0 < p \<and> p < page_flushed db \<and> page_at f p = b"
  shows "recovers fuel f kvs"
  using opensI [OF assms] by (auto simp: recovers_def)

text \<open>A store at rest can be read, and it survives a crash.\<close>

lemma rest_pages:
  assumes "store_holds db h kvs" "kv_root db \<noteq> 0"
  shows "page_updates db = Map.empty" "page_nappend db = 0" "map_ok db" "page_flushed db * 4096 \<le> mmap_total db"
    "has_pages (os_file (kv_os db)) (page_flushed db)" "2 < page_flushed db" "page_flushed db < 2 ^ 51"
    "openable db (os_file (kv_os db))" "clean_os (os_file (kv_os db)) (kv_os db)" "tree_holds (kv_view db) (kv_root db) h kvs"
  using assms by (auto simp: store_holds_def fresh_def settled_def openable_def)

lemma rest_reads:
  assumes "store_holds db h kvs" "kv_root db \<noteq> 0" "h < fuel"
  shows "reads_as fuel db kvs"
proof -
  note s = rest_pages [OF assms(1,2)]
  note q = quiet_pages [OF s(1-7)]
  have "tree_holds (pview db) (kv_root db) h kvs"
    by (rule tree_holds_cong [OF s(10)]) (simp add: kv_view_def split: if_splits)
  then show ?thesis by (rule reads_asI [OF q(1,2) _ assms(3)])
qed

lemma rest_survives:
  assumes "store_holds db h kvs" "kv_root db \<noteq> 0" "h < fuel" "f \<in> crash_files (kv_os db)"
  shows "\<exists>db'. kv_Open (new_kv (os_on f)) = Some (None, db') \<and> kv_version db' = kv_version db \<and> reads_as fuel db' kvs"
proof -
  note s = rest_pages [OF assms(1,2)]
  have f: "f = os_file (kv_os db)" using assms(4) clean_crash [OF s(9)] by simp
  show ?thesis
    unfolding f
  proof (rule opensI [OF s(8,6,7,10) assms(3)])
    fix p b assume v: "kv_view db p = Some b"
    then have pv: "pview db p = Some b" by (auto simp: kv_view_def split: if_splits)
    then have "0 < p" "p < page_flushed db" using pview_range [OF pv] s(2) by (auto simp: page_end_def)
    then show "0 < p \<and> p < page_flushed db \<and> page_at (os_file (kv_os db)) p = b" using quiet_pages(4) [OF s(1-7)] pv by simp
  qed
qed

text \<open>The new contents are complete once the pages are on the file.\<close>

lemma new_view:
  assumes "on_file db f" "kv_list db ps q" "kv_view db p = Some b"
  shows "0 < p" "p < page_end db" "page_at f p = b"
proof -
  have pv: "pview db p = Some b" "p \<notin> owned db" using assms(3) by (auto simp: kv_view_def split: if_splits)
  then show r: "0 < p" "p < page_end db" using pview_range by auto
  have "p \<notin> blank db" using assms(2) pv(2) owned_eq [OF assms(2)] by (auto simp: kv_list_def fl_rep_def free_pages_def)
  then show "page_at f p = b" using assms(1) pv(1) r by (simp add: on_file_def)
qed

lemma page_at_meta:
  assumes "length d \<le> 72" "0 < p" "has_pages f (Suc p)"
  shows "page_at (write_at f 0 d) p = page_at f p"
  using page_at_write_other [of p 0 d f] assms by simp

lemma new_openable:
  assumes "has_pages f1 (page_flushed db)" "length f1 mod 4096 = 0" "meta_fits db" "0 < kv_root db" "kv_root db < page_flushed db"
    "0 < headPage (kv_free db)" "headPage (kv_free db) < page_flushed db"
    "0 < tailPage (kv_free db)" "tailPage (kv_free db) < page_flushed db"
  shows "openable db (write_at f1 0 (meta72 db))"
proof -
  have "1 * 4096 \<le> page_flushed db * 4096" using assms(5) by (intro mult_le_mono1) simp
  then have "4096 \<le> length f1" using assms(1) unfolding has_pages_def by linarith
  then have l: "length (write_at f1 0 (meta72 db)) = length f1" by (auto simp: max_def simp flip: length_0_conv)
  have "take 72 (write_at f1 0 (meta72 db)) = meta72 db" by (simp add: write_at_def)
  then show ?thesis using assms l by (simp add: openable_def has_pages_def)
qed


lemma flushed_to_simps [simp]:
  "kv_root (flushed_to db) = kv_root db" "page_flushed (flushed_to db) = page_end db" "kv_free (flushed_to db) = kv_free db"
  "kv_version (flushed_to db) = kv_version db" "page_nappend (flushed_to db) = 0" "page_updates (flushed_to db) = Map.empty"
  by (simp_all add: flushed_to_def)

text \<open>The numbers a commit puts in the meta page.\<close>

lemma new_numbers:
  assumes ok: "kv_ok r K base db" and root: "kv_view db root = Some b" and ver: "v < 2 ^ 64"
  defines "d \<equiv> flushed_to (db\<lparr>kv_root := root, kv_version := v\<rparr>)"
  shows "meta_fits d" "0 < kv_root d" "kv_root d < page_flushed d" "0 < headPage (kv_free d)" "headPage (kv_free d) < page_flushed d"
    "0 < tailPage (kv_free d)" "tailPage (kv_free d) < page_flushed d" "page_flushed d < 2 ^ 51" "2 \<le> page_flushed d"
proof -
  obtain ps q where k: "page_inv base db" "kv_list db ps q" "tailSeq (kv_free db) < 2 ^ 64" using ok by (auto simp: kv_ok_def)
  have po: "pages_ok db" using k(1) by (simp add: page_inv_def)
  have rt: "0 < root" "root < page_end db" using root pview_range by (auto simp: kv_view_def split: if_splits)
  have e: "page_end db < 2 ^ 51" "2 \<le> page_end db" using pages_okD(1,2) [OF po] by (auto simp: page_end_def)
  have ps: "ps \<noteq> []" "headPage (kv_free db) = hd ps" "tailPage (kv_free db) = last ps" "headSeq (kv_free db) \<le> tailSeq (kv_free db)"
    "\<forall>p \<in> set ps. 0 < p \<and> has_page (pview db) p" using k(2) by (auto simp: kv_list_def fl_rep_def free_pages_def)
  have "0 < p \<and> p < page_end db" if "p \<in> set ps" for p
    using ps(5) that pview_range [of db p] by (auto simp: has_page_def)
  then have h: "0 < hd ps" "hd ps < page_end db" "0 < last ps" "last ps < page_end db" using ps(1) by auto
  show "0 < kv_root d" "kv_root d < page_flushed d" "0 < headPage (kv_free d)" "headPage (kv_free d) < page_flushed d"
    "0 < tailPage (kv_free d)" "tailPage (kv_free d) < page_flushed d" "page_flushed d < 2 ^ 51" "2 \<le> page_flushed d"
    using rt e h ps(2,3) by (simp_all add: d_def)
  show "meta_fits d" using rt e h ps k(3) ver by (simp add: meta_fits_def d_def)
qed

text \<open>What one crash state of a commit gives.\<close>

lemma recovers_old:
  assumes "store_holds base h kvs" "kv_root base \<noteq> 0" "h < fuel" and ok: "kv_ok r (snapshot_pages base) (begin_update base) db"
    and ag: "agree False (dirty db) (os_file (kv_os base)) f"
  shows "recovers fuel f kvs"
proof -
  have st: "settled base" and tr: "tree_holds (kv_view base) (kv_root base) h kvs" and nf: "\<not> fresh base"
    using assms(1,2) by (auto simp: store_holds_def fresh_def)
  have op: "openable base (os_file (kv_os base))" "2 < page_flushed base" "page_flushed base < 2 ^ 51"
    using st nf by (auto simp: settled_def)
  have "0 \<notin> dirty db" using ok dirty_no_meta by (auto simp: kv_ok_def page_inv_def)
  from old_openable [OF op(1) ag this] show ?thesis
    by (rule recoversI [OF _ op(2,3) tr assms(3)]) (use old_view [OF st nf ok ag] in blast)
qed

lemma recovers_new:
  assumes tr: "tree_holds (kv_view db) root h kvs" "root \<noteq> 0" "h < fuel" and ok: "kv_ok r K base db" and v: "v < 2 ^ 64"
    and f1: "on_file db f1" "length f1 mod 4096 = 0"
  defines "d \<equiv> flushed_to (db\<lparr>kv_root := root, kv_version := v\<rparr>)"
  assumes two: "2 < page_end db"
  shows "recovers fuel (write_at f1 0 (meta72 d)) kvs" "openable d (write_at f1 0 (meta72 d))"
proof -
  obtain b where b: "kv_view db root = Some b" using tr(1,2) by (auto elim: tree_holdsE)
  obtain ps q where l: "kv_list db ps q" using ok by (auto simp: kv_ok_def)
  note n = new_numbers [OF ok b v, folded d_def]
  have fl: "page_flushed d = page_end db" "kv_root d = root" by (simp_all add: d_def)
  have hp: "has_pages f1 (page_flushed d)" using f1(1) fl by (simp add: on_file_def)
  show op: "openable d (write_at f1 0 (meta72 d))" by (rule new_openable [OF hp f1(2) n(1-7)])
  have tr': "tree_holds (kv_view db) (kv_root d) h kvs" using tr(1) fl by simp
  show "recovers fuel (write_at f1 0 (meta72 d)) kvs"
  proof (rule recoversI [OF op _ n(8) tr' tr(3)])
    show "2 < page_flushed d" using two fl by simp
    fix p b' assume "kv_view db p = Some b'"
    note nv = new_view [OF f1(1) l this]
    have "has_pages f1 (Suc p)" using has_pages_le [OF hp] nv(2) fl by simp
    then show "0 < p \<and> p < page_flushed d \<and> page_at (write_at f1 0 (meta72 d)) p = b'"
      using nv page_at_meta [of "meta72 d" p f1] fl by simp
  qed
qed

lemma half_doneD:
  assumes "half_done f0 db f1" "length f0 mod 4096 = 0"
  shows "on_file db f1" "agree False (dirty db) f0 f1" "length f1 mod 4096 = 0"
proof -
  show "on_file db f1" using assms(1) by (simp add: half_done_def)
  show ag: "agree False (dirty db) f0 f1" using assms(1) agree_writes by (auto simp: half_done_def)
  then show "length f1 mod 4096 = 0" using assms(2) by (simp add: agree_def)
qed

lemma on_file_rooted [simp]: "on_file (db\<lparr>kv_root := n, kv_version := m\<rparr>) f = on_file db f"
  by (simp add: on_file_def)

lemma half_done_rooted [simp]: "half_done f0 (db\<lparr>kv_root := n, kv_version := m\<rparr>) f = half_done f0 db f"
  by (simp add: half_done_def)

lemma settled_length: "settled db \<Longrightarrow> length (os_file (kv_os db)) mod 4096 = 0"
  by (auto simp: settled_def fresh_def openable_def)

text \<open>A file whose last page is not complete: \<^const>\<open>kv_Open\<close> refuses it.\<close>

definition torn_file :: "bytes \<Rightarrow> bool" where
  "torn_file f \<longleftrightarrow> length f mod 4096 \<noteq> 0
     \<and> (\<exists>db. kv_Open (new_kv (os_on f)) = Some (Some ''KV.Open: file is not multiple of pages'', db))"

lemma torn_fails:
  assumes "length f mod 4096 \<noteq> 0"
  shows "\<exists>db. kv_Open (new_kv (os_on f)) = Some (Some ''KV.Open: file is not multiple of pages'', db)"
proof -
  let ?k = "new_kv (os_on f)"
  have c: "sys_call (os_on f) = (None, os_on f)" by (simp add: sys_call_def next_outcome_def os_on_def)
  have cf: "createFileSync (os_on f) = (None, os_on f)" by (simp add: createFileSync_def c)
  have osf: "os_file (os_on f) = f" and ne: "f \<noteq> []" using assms by (auto simp: os_on_def)
  define A where "A = growAlloc 0 (64 * 2 ^ 20) (length f)"
  let ?k1 = "?k\<lparr>mmap_chunks := [(0, A)], mmap_total := A\<rparr>"
  have e: "extendMmap (?k\<lparr>page_updates := Map.empty, kv_os := os_on f\<rparr>) (length f) = (None, ?k1)"
    using ne by (simp add: extendMmap_def new_kv_def c A_def Let_def)
  have rr: "readRoot ?k1 (length f) = Some (Some ''file is not multiple of pages'', ?k1)"
    using assms ne by (simp add: readRoot_def BTREE_PAGE_SIZE_def)
  have "kv_Close ?k1 = Some (?k1\<lparr>kv_os := os_on f\<rparr>)" by (simp add: kv_Close_def new_kv_def c)
  then show ?thesis
    using cf c e rr osf by (simp add: kv_Open_def new_kv_def open_fail_def Let_def)
qed

text \<open>The meta page written in part over that of a file that reads as \<open>kvs\<close>.\<close>

definition torn_meta :: "nat \<Rightarrow> kv list \<Rightarrow> bytes \<Rightarrow> bool" where
  "torn_meta fuel kvs f \<longleftrightarrow> (\<exists>f1 m n. recovers fuel f1 kvs \<and> length m = 72 \<and> 0 < n \<and> n < 72 \<and> f = write_at f1 0 (take n m))"

lemma commit_crash:
  assumes "store_holds base h kvs" "kv_root base \<noteq> 0" "fits fuel ops base h kvs" "map_order mo"
  shows "\<exists>err db'. update_store mo fuel ops base = Some (err, db')
    \<and> (\<forall>f \<in> crash_files (kv_os db'). recovers fuel f (ins_all ops kvs)
      \<or> err \<noteq> None \<and> (recovers fuel f kvs \<or> \<not> untorn (os_outcomes (kv_os base)) \<and> torn_file f
        \<or> \<not> meta_whole (os_outcomes (kv_os base)) \<and> torn_meta fuel kvs f))"
proof -
  let ?v = "kv_version base + 1" and ?f0 = "os_file (kv_os base)"
  have st: "settled base" using assms(1) by (simp add: store_holds_def)
  have s: "\<not> kv_failed base" "meta_fits base" "?v < 2 ^ 64" "2 < page_flushed base"
    using st assms(2) by (auto simp: settled_def fresh_def)
  have hf: "h < fuel" using assms(3) by (simp add: fits_def)
  obtain root h' db where u: "upserts kv_callbacks fuel ops (kv_root base) (begin_update base) = Some (root, db)"
    "kv_ok (kv_version base) (snapshot_pages base) (begin_update base) db" "same_base (begin_update base) db"
    "tree_holds (kv_view db) root h' (ins_all ops kvs)" "h' < fuel" "root \<noteq> 0"
    "ready ?f0 (mo (page_updates db)) (db\<lparr>kv_root := root, kv_version := ?v\<rparr>)"
    by (rule commit_ready [OF assms(1,3,4)]) blast
  define d where "d = db\<lparr>kv_root := root, kv_version := ?v\<rparr>"
  let ?M = "meta72 (flushed_to d)"
  note e = same_baseD [OF u(3)]
  note len = settled_length [OF st]
  have hd: "half_done ?f0 d f1 = half_done ?f0 db f1" for f1 by (simp add: d_def)
  have dd: "dirty d = dirty db" by (simp add: d_def)
  have nf: "\<not> kv_failed d" using s(1) e(5) by (simp add: begin_update_def d_def)
  have two: "2 < page_end db" using s(4) e(4) by (simp add: page_end_def begin_update_def)
  have ev: "update_store mo fuel ops base = updateOrRevert d (meta72 base) (mo (page_updates db))"
    using u(1) by (simp add: update_store_def saveMeta_eq d_def)
  have new: "recovers fuel (write_at f1 0 ?M) (ins_all ops kvs)" if "half_done ?f0 db f1" for f1
    unfolding d_def by (rule recovers_new(1) [OF u(4,6,5,2) s(3) half_doneD(1,3) [OF that len] two])
  have old: "recovers fuel f kvs" if "agree False (dirty db) ?f0 f" for f
    by (rule recovers_old [OF assms(1,2) hf u(2) that])
  have part: "recovers fuel (write_at f1 0 c) (ins_all ops kvs) \<or> \<not> meta_whole (os_outcomes (kv_os base)) \<and> torn_meta fuel kvs (write_at f1 0 c)"
    if f1: "half_done ?f0 db f1" and c: "meta_part (os_outcomes (kv_os base)) ?M c" for f1 c
  proof (cases "c = ?M")
    case True
    then show ?thesis using new [OF f1] by simp
  next
    case False
    obtain n where n: "0 < n" "c = take n ?M" using c by (auto simp: meta_part_def)
    have "n < 72" using False n(2) by (cases "n < 72") simp_all
    then have "torn_meta fuel kvs (write_at f1 0 c)"
      unfolding torn_meta_def using n old [OF half_doneD(2) [OF f1 len]]
      by (intro exI [of _ f1] exI [of _ ?M] exI [of _ n]) simp
    then show ?thesis using False c by (simp add: meta_part_def)
  qed
  have oc: "os_outcomes (kv_os d) = os_outcomes (kv_os base)" using e(1) by (simp add: d_def begin_update_def)
  have torn: "recovers fuel f kvs \<or> \<not> untorn (os_outcomes (kv_os base)) \<and> torn_file f"
    if ag: "agree (\<not> untorn (os_outcomes (kv_os d))) (dirty db) ?f0 f" for f
  proof (cases "length f mod 4096 = 0")
    case True
    then show ?thesis using old [OF agree_whole [OF ag True]] by simp
  next
    case False
    then have "\<not> untorn (os_outcomes (kv_os base))" using ag len oc by (auto simp: agree_def)
    then show ?thesis using torn_fails [OF False] False by (simp add: torn_file_def)
  qed
  from u(7) [folded d_def] nf s(2) show ?thesis
  proof (cases rule: updateOrRevert_cases)
    case (1 db')
    then obtain f1 where f1: "half_done ?f0 db f1" "clean_os (write_at f1 0 ?M) (kv_os db')" unfolding hd by blast
    have "\<forall>f \<in> crash_files (kv_os db'). recovers fuel f (ins_all ops kvs)"
      unfolding clean_crash [OF f1(2)] using new [OF f1(1)] by simp
    then show ?thesis unfolding ev 1(1) by blast
  next
    case (2 e db')
    have os: "kv_os (reverted db' base) = kv_os db'" by (simp add: reverted_def restore_meta_def)
    have "\<forall>f \<in> crash_files (kv_os db'). recovers fuel f (ins_all ops kvs) \<or> recovers fuel f kvs
        \<or> \<not> untorn (os_outcomes (kv_os base)) \<and> torn_file f \<or> \<not> meta_whole (os_outcomes (kv_os base)) \<and> torn_meta fuel kvs f"
      using 2(7) unfolding hd dd
    proof
      assume "paging (\<not> untorn (os_outcomes (kv_os d))) (dirty db) ?f0 (kv_os db')"
      then show ?thesis using paging_crash torn by blast
    next
      assume "\<exists>f1 c. half_done ?f0 db f1 \<and> crash_files (kv_os db') \<subseteq> {f1, write_at f1 0 c} \<and> meta_part (os_outcomes (kv_os d)) ?M c"
      then obtain f1 c where f1: "half_done ?f0 db f1" "crash_files (kv_os db') \<subseteq> {f1, write_at f1 0 c}" "meta_part (os_outcomes (kv_os base)) ?M c"
        unfolding oc by blast
      then show ?thesis using part [OF f1(1,3)] old [OF half_doneD(2) [OF f1(1) len]] by blast
    qed
    then show ?thesis unfolding ev 2(1) by (metis option.distinct(1) os)
  qed
qed


text \<open>The store after a successful commit is at rest again.\<close>

lemma list_after_flush:
  assumes l: "kv_list db ps q" and v: "\<And>p. 0 < p \<Longrightarrow> p < page_end db \<Longrightarrow> p \<notin> blank db \<Longrightarrow> pview db' p = pview db p"
    and b: "\<And>p. p \<in> blank db \<Longrightarrow> has_page (pview db') p" and e: "blank db' = {}" "dirty db' = {}" "kv_free db' = kv_free db"
  shows "kv_list db' ps q"
proof -
  have r: "fl_rep 1 (pview db) (blank db) (dirty db) (kv_free db) ps q" using l by (simp add: kv_list_def)
  have pg: "\<forall>p \<in> set (free_pages ps q). 0 < p \<and> p < page_end db" using r pview_range by (force simp: fl_rep_def has_page_def)
  show ?thesis
  proof (cases "blank db = {}")
    case True
    have "fl_rep 1 (pview db') (blank db) {} (kv_free db) ps q"
      by (rule fl_rep_cong [OF r]) (use pg v True in auto)
    then show ?thesis unfolding kv_list_def e True .
  next
    case False
    then obtain p where p: "p \<in> blank db" "ps = [p]" "q = []" using r by (auto simp: fl_rep_def)
    show ?thesis
      using r b [OF p(1)] unfolding kv_list_def e p(2,3) by (simp add: fl_rep_def free_pages_def links_def slots_def clean_def)
  qed
qed

lemma same_restD:
  assumes "same_rest a b"
  shows "page_flushed b = page_flushed a" "page_nappend b = page_nappend a" "page_updates b = page_updates a"
    "kv_free b = kv_free a" "kv_root b = kv_root a" "kv_version b = kv_version a" "kv_failed b = kv_failed a"
    "kv_ongoing b = kv_ongoing a" "kv_history b = kv_history a"
  using assms by (cases a; cases b; simp add: same_rest_def)+

lemma commit_done:
  assumes holds: "store_holds base h kvs" and fits: "fits fuel ops base h kvs" and mo: "map_order mo"
    and calls: "os_outcomes (kv_os base) = []" and ver: "kv_version base + 2 < 2 ^ 64"
  shows "\<exists>db' h'. update_store mo fuel ops base = Some (None, db') \<and> store_holds db' h' (ins_all ops kvs)
    \<and> kv_version db' = kv_version base + 1 \<and> reads_as fuel db' (ins_all ops kvs) \<and> kv_root db' \<noteq> 0
    \<and> h' \<le> h + length ops \<and> kv_room base \<le> kv_room db' + length ops * (4 * (h + length ops) + 5)
    \<and> os_outcomes (kv_os db') = []"
proof -
  let ?v = "kv_version base + 1" and ?f0 = "os_file (kv_os base)"
  have st: "settled base" using holds by (simp add: store_holds_def)
  have s: "\<not> kv_failed base" "meta_fits base" "?v < 2 ^ 64" "2 \<le> page_flushed base" "maxVer (kv_free base) \<le> kv_version base"
    using st by (auto simp: settled_def fresh_def)
  obtain root h' db where u: "upserts kv_callbacks fuel ops (kv_root base) (begin_update base) = Some (root, db)"
    "kv_ok (kv_version base) (snapshot_pages base) (begin_update base) db" "same_base (begin_update base) db"
    "tree_holds (kv_view db) root h' (ins_all ops kvs)" "h' < fuel" "root \<noteq> 0"
    "h' \<le> h + length ops" "kv_room base \<le> kv_room db + length ops * (4 * (h + length ops) + 5)"
    "ready ?f0 (mo (page_updates db)) (db\<lparr>kv_root := root, kv_version := ?v\<rparr>)"
    by (rule commit_ready [OF holds fits mo]) blast
  define d where "d = db\<lparr>kv_root := root, kv_version := ?v\<rparr>"
  let ?F = "flushed_to d" and ?M = "meta72 (flushed_to d)"
  note e = same_baseD [OF u(3)]
  have nf: "\<not> kv_failed d" using s(1) e(5) by (simp add: begin_update_def d_def)
  have ev: "update_store mo fuel ops base = updateOrRevert d (meta72 base) (mo (page_updates db))"
    using u(1) by (simp add: update_store_def saveMeta_eq d_def)
  have nocalls: "os_outcomes (kv_os d) = []" using calls e(1) by (simp add: d_def begin_update_def)
  obtain ps q where k: "page_inv (begin_update base) db" "kv_list db ps q" "maxVer (kv_free db) \<le> kv_version base"
    using u(2) by (auto simp: kv_ok_def)
  obtain b where b: "kv_view db root = Some b" using u(4,6) by (auto elim: tree_holdsE)
  note n = new_numbers [OF u(2) b s(3), folded d_def]
  have two: "2 < page_end db" by (rule list_uses_a_page [OF k(2) b])
  from u(9) [folded d_def] nf s(2) show ?thesis
  proof (cases rule: updateOrRevert_cases)
    case (1 db')
    then obtain f1 where f1: "half_done ?f0 d f1" "clean_os (write_at f1 0 ?M) (kv_os db')" by blast
    note r = same_restD [OF 1(3)]
    note on = half_doneD [OF f1(1) settled_length [OF st]]
    let ?ff = "write_at f1 0 ?M"
    have fl: "page_flushed db' = page_end db" "page_updates db' = Map.empty" "page_nappend db' = 0" "kv_root db' = root"
      "kv_free db' = kv_free db" "kv_version db' = ?v" using r by (simp_all add: d_def)
    have fil: "os_file (kv_os db') = ?ff" using f1(2) by (simp add: clean_os_def)
    have op: "openable ?F ?ff"
      unfolding d_def by (rule recovers_new(2) [OF u(4,6,5,2) s(3) _ on(3) two]) (use on(1) in \<open>simp add: d_def\<close>)
    then have op': "openable db' ?ff" using fl same_rest_meta [OF 1(3)] by (simp add: openable_def d_def meta_fits_def)
    have hp: "has_pages ?ff (page_flushed db')" using op' by (simp add: openable_def)
    note qp = quiet_pages [OF fl(2,3) 1(2) _ hp [folded fil]]
    have q: "pages_ok db'" "blank db' = {}" "dirty db' = {}"
      "\<And>p. 0 < p \<Longrightarrow> p < page_end db \<Longrightarrow> pview db' p = Some (page_at ?ff p)"
      using qp 1(5) two n(8) fl fil by (auto simp: d_def)
    have on': "on_file db f1" using on(1) by (simp add: d_def)
    have hp1: "has_pages f1 (page_end db)" using on' by (simp add: on_file_def)
    have same: "pview db' p = pview db p" if "0 < p" "p < page_end db" "p \<notin> blank db" for p
    proof -
      have "has_pages f1 (Suc p)" using has_pages_le [OF hp1] that(2) by simp
      then show ?thesis using q(4) [OF that(1,2)] page_at_meta [of ?M p f1] that on' by (simp add: on_file_def)
    qed
    have l': "kv_list db' ps q"
    proof (rule list_after_flush [OF k(2) same])
      fix p assume "p \<in> blank db"
      then have "p = 1" by (auto simp: blank_def split: if_splits)
      then show "has_page (pview db') p" using pview_has [OF q(1), of p] two fl by (simp add: page_end_def)
    qed (use q fl in auto)
    have ow: "owned db' = owned db" using owned_eq [OF l'] owned_eq [OF k(2)] by simp
    have tr: "tree_holds (kv_view db') (kv_root db') h' (ins_all ops kvs)"
      unfolding fl(4)
    proof (rule tree_holds_cong [OF u(4)])
      fix p c assume "kv_view db p = Some c"
      note nv = new_view [OF on' k(2) this]
      then show "kv_view db' p = Some c"
        using \<open>kv_view db p = Some c\<close> same [OF nv(1,2)] ow q(4) [OF nv(1,2)] page_at_meta [of ?M p f1] has_pages_le [OF hp1, of "Suc p"]
        by (auto simp: kv_view_def split: if_splits)
    qed
    have "settled db'"
      unfolding settled_def
    proof (intro conjI)
      show "clean_os (os_file (kv_os db')) (kv_os db')" using f1(2) fil by simp
      show "\<not> kv_failed db'" using nf r(7) by (simp add: flushed_to_def)
      show "\<exists>ps q. kv_list db' ps q" using l' by blast
      show "fresh db' \<or> openable db' (os_file (kv_os db')) \<and> 2 < page_flushed db' \<and> page_flushed db' * 4096 \<le> mmap_total db'"
        using op' two fl(1) fil 1(5) by (simp add: d_def)
    qed (use fl 1(2) op' n(8) k(3) ver in \<open>auto simp: openable_def d_def\<close>)
    then have sh: "store_holds db' h' (ins_all ops kvs)" using tr by (simp add: store_holds_def)
    have "tree_holds (pview db') (kv_root db') h' (ins_all ops kvs)"
      by (rule tree_holds_cong [OF tr]) (simp add: kv_view_def split: if_splits)
    from reads_asI [OF q(1,2) this u(5)] have ra: "reads_as fuel db' (ins_all ops kvs)" .
    have room: "kv_room db' = kv_room db" using fl by (simp add: kv_room_def proom_def page_end_def)
    have oc: "os_outcomes (kv_os db') = []" using 1(6) nocalls by simp
    show ?thesis
      using sh ra fl(4,6) u(6,7,8) room oc unfolding ev 1(1) by auto
  next
    case (2 e db')
    then show ?thesis using nocalls by simp
  qed
qed


lemma commit_reverts:
  assumes holds: "store_holds base h kvs" and old: "kv_root base \<noteq> 0" and fits: "fits fuel ops base h kvs" and mo: "map_order mo"
    and fails: "update_store mo fuel ops base = Some (Some e, db')"
  shows "reads_as fuel db' kvs" "kv_root db' = kv_root base" "kv_version db' = kv_version base" "page_updates db' = Map.empty"
    "kv_failed db'"
proof -
  let ?v = "kv_version base + 1" and ?f0 = "os_file (kv_os base)"
  have st: "settled base" and tb: "tree_holds (kv_view base) (kv_root base) h kvs" using holds by (auto simp: store_holds_def)
  have nfr: "\<not> fresh base" using old by (simp add: fresh_def)
  have s: "\<not> kv_failed base" "meta_fits base" "?v < 2 ^ 64" "2 < page_flushed base" "page_flushed base < 2 ^ 51"
    "has_pages ?f0 (page_flushed base)" "page_flushed base * 4096 \<le> mmap_total base"
    using st nfr by (auto simp: settled_def openable_def)
  have hf: "h < fuel" using fits by (simp add: fits_def)
  obtain root h' db where u: "upserts kv_callbacks fuel ops (kv_root base) (begin_update base) = Some (root, db)"
    "kv_ok (kv_version base) (snapshot_pages base) (begin_update base) db" "same_base (begin_update base) db"
    "ready ?f0 (mo (page_updates db)) (db\<lparr>kv_root := root, kv_version := ?v\<rparr>)"
    by (rule commit_ready [OF holds fits mo]) blast
  define d where "d = db\<lparr>kv_root := root, kv_version := ?v\<rparr>"
  let ?M = "meta72 (flushed_to d)"
  note e = same_baseD [OF u(3)]
  have hd: "half_done ?f0 d f1 = half_done ?f0 db f1" and dd: "dirty d = dirty db" for f1 by (simp_all add: d_def)
  have nf: "\<not> kv_failed d" using s(1) e(5) by (simp add: begin_update_def d_def)
  have ev: "updateOrRevert d (meta72 base) (mo (page_updates db)) = Some (Some e, db')"
    using u(1) fails by (simp add: update_store_def saveMeta_eq d_def)
  from u(4) [folded d_def] nf s(2) have "reads_as fuel db' kvs \<and> kv_root db' = kv_root base \<and> kv_version db' = kv_version base
    \<and> page_updates db' = Map.empty \<and> kv_failed db'"
  proof (cases rule: updateOrRevert_cases)
    case (2 e' db2)
    have r: "db' = reverted db2 base" using 2(1) ev by simp
    have f: "page_updates db' = Map.empty" "page_nappend db' = 0" "page_flushed db' = page_flushed base" "kv_root db' = kv_root base"
      "kv_version db' = kv_version base" "kv_failed db'" "kv_os db' = kv_os db2" "mmap_total db' = mmap_total db2" "map_ok db'"
      using 2(2) by (simp_all add: r reverted_def restore_meta_def)
    let ?ff = "os_file (kv_os db')"
    have pages: "page_at ?ff p = b \<and> 0 < p \<and> p < page_flushed base \<and> has_pages ?ff (page_flushed base)" if "kv_view base p = Some b" for p b
    proof -
      have cr: "?ff \<in> crash_files (kv_os db2)" using 2(6) f(7) by simp
      show ?thesis
        using 2(7) unfolding hd dd
      proof
        let ?t = "\<not> untorn (os_outcomes (kv_os d))"
        assume "paging ?t (dirty db) ?f0 (kv_os db2)"
        then have "agree ?t (dirty db) ?f0 ?ff" using paging_crash cr by blast
        then show ?thesis using old_view [OF st nfr u(2) _ that] agree_has s(6) by blast
      next
        assume "\<exists>f1 c. half_done ?f0 db f1 \<and> crash_files (kv_os db2) \<subseteq> {f1, write_at f1 0 c} \<and> meta_part (os_outcomes (kv_os d)) ?M c"
        then obtain f1 c where f1: "half_done ?f0 db f1" "?ff = f1 \<or> ?ff = write_at f1 0 c" "length c \<le> 72"
          using cr by (fastforce simp: meta_part_def)
        note ag = half_doneD(2) [OF f1(1) settled_length [OF st]]
        note ov = old_view [OF st nfr u(2) ag that] and h1 = agree_has [OF ag s(6)]
        have "page_at (write_at f1 0 c) p = page_at f1 p" using page_at_meta [OF f1(3)] ov(1,2) has_pages_le [OF h1] by simp
        then show ?thesis using f1(2) ov h1 has_pages_write [OF h1] by auto
      qed
    qed
    obtain b where "kv_view base (kv_root base) = Some b" using tb old by (auto elim: tree_holdsE)
    then have hp: "has_pages ?ff (page_flushed db')" using pages f(3) by auto
    have "page_flushed db' * 4096 \<le> mmap_total db'"
      using 2(3) s(7) e(3) f(3,8) by (simp add: d_def begin_update_def)
    note q = quiet_pages [OF f(1,2,9) this hp]
    have "tree_holds (pview db') (kv_root db') h kvs"
      unfolding f(4) by (rule tree_holds_cong [OF tb]) (use q(4) pages f(3) s(4,5) in auto)
    then have "reads_as fuel db' kvs" using reads_asI [OF q(1,2) _ hf] f(3) s(4,5) by simp
    then show ?thesis using f by simp
  qed (use ev in simp)
  then show "reads_as fuel db' kvs" "kv_root db' = kv_root base" "kv_version db' = kv_version base" "page_updates db' = Map.empty"
    "kv_failed db'" by auto
qed


section \<open>A new database\<close>

lemma open_new:
  obtains db where "kv_Open (new_kv (os_on [])) = Some (None, db)" "store_holds db 0 []" "kv_version db = 0"
    "kv_os db = os_on []" "kv_root db = 0" "kv_room db = 2 ^ 51 - 3" "mmap_total db = 0" "page_flushed db = 2"
    "headSeq (kv_free db) = maxSeq (kv_free db)"
proof -
  let ?k = "new_kv (os_on [])"
  let ?db = "?k\<lparr>page_flushed := 2, kv_free := (kv_free ?k)\<lparr>headPage := 1, tailPage := 1\<rparr>\<rparr>"
  have c: "sys_call (os_on []) = (None, os_on [])" by (simp add: sys_call_def next_outcome_def os_on_def)
  have "extendMmap ?k 0 = (None, ?k)" by (simp add: extendMmap_def)
  moreover have "?k\<lparr>page_updates := Map.empty, kv_os := os_on []\<rparr> = ?k" by (simp add: new_kv_def)
  moreover have "createFileSync (os_on []) = (None, os_on [])" by (simp add: createFileSync_def c)
  ultimately have ev: "kv_Open ?k = Some (None, ?db)"
    using c by (simp add: kv_Open_def new_kv_def readRoot_def) (simp add: os_on_def readRoot_def)
  have pv: "pview ?db 1 = Some (make_buf BTREE_PAGE_SIZE)" by (simp add: pview_def page_end_def new_kv_def)
  have l: "kv_list ?db [1] []"
    using pv by (simp add: kv_list_def fl_rep_def new_kv_def free_pages_def has_page_def links_def slots_def clean_def make_buf_def
      blank_def)
  have "settled ?db"
    unfolding settled_def
  proof (intro conjI)
    show "\<exists>ps q. kv_list ?db ps q" using l by blast
    show "map_ok ?db" by (simp add: map_ok_def new_kv_def)
  qed (simp_all add: fresh_def new_kv_def os_on_def clean_os_def meta_fits_def)
  then have "store_holds ?db 0 []" by (simp add: store_holds_def new_kv_def)
  then show ?thesis
    by (rule that [OF ev]) (simp_all add: new_kv_def os_on_def kv_room_def proom_def page_end_def)
qed

text \<open>A file with pages but no meta page cannot be opened.\<close>

lemma zero_page_write:
  assumes "\<forall>i < 4096. i < length f \<longrightarrow> f ! i = 0" "0 < q"
  shows "\<forall>i < 4096. i < length (write_at f (q * 4096) d) \<longrightarrow> write_at f (q * 4096) d ! i = 0"
  using assms nth_write_at [of _ f "q * 4096" d] by (auto simp del: length_write_at)

lemma no_meta_fails:
  assumes "f \<noteq> []" "length f mod 4096 = 0" "\<forall>i < 4096. i < length f \<longrightarrow> f ! i = 0"
  shows "\<exists>db. kv_Open (new_kv (os_on f)) = Some (Some ''KV.Open: bad meta page'', db)"
proof -
  have len: "4096 \<le> length f" using assms(1,2) by (auto simp: dvd_imp_le simp flip: dvd_eq_mod_eq_0)
  let ?k = "new_kv (os_on f)"
  have c: "sys_call (os_on f) = (None, os_on f)" by (simp add: sys_call_def next_outcome_def os_on_def)
  have osf: "os_file (os_on f) = f" by (simp add: os_on_def)
  define A where "A = growAlloc 0 (64 * 2 ^ 20) (length f)"
  have A: "length f \<le> A" using growAlloc_ok [where tot = 0 and alloc = "64 * 2 ^ 20" and sz = "length f"] by (simp add: A_def)
  let ?k1 = "?k\<lparr>mmap_chunks := [(0, A)], mmap_total := A\<rparr>"
  have e: "extendMmap (?k\<lparr>page_updates := Map.empty, kv_os := os_on f\<rparr>) (length f) = (None, ?k1)"
    using len by (simp add: extendMmap_def new_kv_def c A_def Let_def) auto
  have cf: "createFileSync (os_on f) = (None, os_on f)" by (simp add: createFileSync_def c)
  let ?d = "sub f 0 72"
  have mb: "meta_bytes ?k1 = Some ?d" using len A by (simp add: meta_bytes_def mapped_bytes_def new_kv_def os_on_def)
  have "length ?d = 72" using len by simp
  then obtain db2 where ld: "loadMeta ?k1 ?d = Some db2" using len by (simp add: loadMeta_def get_le_def)
  then have os2: "kv_os db2 = os_on f" "mmap_chunks db2 = [(0, A)]"
    by (auto simp: loadMeta_def new_kv_def bind_eq_Some_conv)
  have "?d ! 0 = 0" using assms(3) len by (simp add: sub_def)
  moreover have "sub ?d 0 16 ! 0 = ?d ! 0" by (simp add: sub_def)
  ultimately have "DB_SIG ! 0 \<noteq> sub ?d 0 16 ! 0" by (simp add: DB_SIG_def)
  then have bad: "DB_SIG \<noteq> sub ?d 0 16" by metis
  let ?db3 = "db2\<lparr>kv_free := SetMaxVer (kv_free db2) (kv_version db2)\<rparr>"
  have rr: "readRoot ?k1 (length f) = Some (Some ''bad meta page'', ?db3)"
    using assms(1,2) mb ld bad by (simp add: readRoot_def BTREE_PAGE_SIZE_def Let_def)
  have "kv_Close ?db3 = Some (?db3\<lparr>kv_os := os_on f\<rparr>)" using os2 c by (simp add: kv_Close_def)
  then show ?thesis
    using cf c e rr osf by (simp add: kv_Open_def new_kv_def open_fail_def Let_def)
qed


section \<open>Sequences of commits\<close>

fun commits :: "((nat \<rightharpoonup> bytes) \<Rightarrow> nat list) \<Rightarrow> nat \<Rightarrow> kv list list \<Rightarrow> KV \<Rightarrow> (go_error option \<times> KV) option" where
  "commits mo fuel [] db = Some (None, db)"
| "commits mo fuel (ops # opss) db = do {
     (err, db) \<leftarrow> update_store mo fuel ops db;
     (if err \<noteq> None then Some (err, db) else commits mo fuel opss db)
   }"

lemma small_ins_all: "small_kvs kvs \<Longrightarrow> \<forall>op \<in> set ops. small_op op \<Longrightarrow> small_kvs (ins_all ops kvs)"
proof (induction ops arbitrary: kvs)
  case (Cons op ops)
  obtain k v where "op = (k, v)" by (cases op)
  then show ?case using Cons small_ins_kv [of kvs k v] by (simp add: small_op_def)
qed simp

lemma commits_ok:
  assumes "store_holds base h kvs" "small_kvs kvs" "\<forall>ops \<in> set opss. ops \<noteq> [] \<and> (\<forall>op \<in> set ops. small_op op)"
    and "h + length (concat opss) < fuel" "length (concat opss) * (4 * (h + length (concat opss)) + 5) \<le> kv_room base"
    and "map_order mo" "os_outcomes (kv_os base) = []" "kv_version base + length opss + 1 < 2 ^ 64"
  shows "\<exists>db h'. commits mo fuel opss base = Some (None, db) \<and> store_holds db h' (ins_all (concat opss) kvs)
    \<and> kv_version db = kv_version base + length opss \<and> h' \<le> h + length (concat opss) \<and> (opss \<noteq> [] \<longrightarrow> kv_root db \<noteq> 0 \<and> reads_as fuel db (ins_all (concat opss) kvs))"
  using assms
proof (induction opss arbitrary: base h kvs)
  case Nil
  then show ?case by auto
next
  case (Cons ops opss)
  let ?n = "length ops" and ?m = "length (concat opss)"
  define X where "X = ?m * (4 * (h + ?n + ?m) + 5)"
  have split: "length (concat (ops # opss)) * (4 * (h + length (concat (ops # opss))) + 5) = ?n * (4 * (h + ?n + ?m) + 5) + X"
    by (simp add: X_def add_mult_distrib add.assoc)
  have le: "?n * (4 * (h + ?n) + 5) \<le> ?n * (4 * (h + ?n + ?m) + 5)" by (intro mult_le_mono2) simp
  have room: "?n * (4 * (h + ?n) + 5) + X \<le> kv_room base" using Cons.prems(5) le unfolding split by linarith
  have fits: "fits fuel ops base h kvs"
    using Cons.prems(2-4,7) room by (auto simp: fits_def)
  have ver: "kv_version base + 2 < 2 ^ 64" using Cons.prems(8) by simp
  obtain db' h' where d: "update_store mo fuel ops base = Some (None, db')" "store_holds db' h' (ins_all ops kvs)"
    "kv_version db' = kv_version base + 1" "reads_as fuel db' (ins_all ops kvs)" "kv_root db' \<noteq> 0" "h' \<le> h + ?n"
    "kv_room base \<le> kv_room db' + ?n * (4 * (h + ?n) + 5)" "os_outcomes (kv_os db') = []"
    using commit_done [OF Cons.prems(1) fits Cons.prems(6,7) ver] by blast
  have "?m * (4 * (h' + ?m) + 5) \<le> X" unfolding X_def using d(6) by (intro mult_le_mono2) simp
  then have room': "?m * (4 * (h' + ?m) + 5) \<le> kv_room db'" using room d(7) by linarith
  have sm: "small_kvs (ins_all ops kvs)" using small_ins_all Cons.prems(2,3) by simp
  have f': "h' + ?m < fuel" using Cons.prems(4) d(6) by simp
  have "\<exists>db h''. commits mo fuel opss db' = Some (None, db) \<and> store_holds db h'' (ins_all (concat opss) (ins_all ops kvs))
    \<and> kv_version db = kv_version db' + length opss \<and> h'' \<le> h' + ?m \<and> (opss \<noteq> [] \<longrightarrow> kv_root db \<noteq> 0 \<and> reads_as fuel db (ins_all (concat opss) (ins_all ops kvs)))"
    by (rule Cons.IH [OF d(2) sm _ f' room' Cons.prems(6) d(8)]) (use Cons.prems(3,8) d(3) in auto)
  then obtain db h'' where e: "commits mo fuel opss db' = Some (None, db)" "store_holds db h'' (ins_all (concat opss) (ins_all ops kvs))"
    "kv_version db = kv_version db' + length opss" "h'' \<le> h' + ?m" "opss \<noteq> [] \<longrightarrow> kv_root db \<noteq> 0 \<and> reads_as fuel db (ins_all (concat opss) (ins_all ops kvs))" by blast
  have "kv_root db \<noteq> 0 \<and> reads_as fuel db (ins_all (concat opss) (ins_all ops kvs))"
  proof (cases "opss = []")
    case True
    then show ?thesis using e(1) d(4,5) by simp
  next
    case False
    then show ?thesis using e(5) by blast
  qed
  then show ?case
    using d(1,3,6) e(1-4) by (intro exI [of _ db] exI [of _ h'']) simp
qed

lemma kv_ok_protects: "kv_ok r K base db \<Longrightarrow> dirty db \<inter> K = {}"
  by (auto simp: kv_ok_def guarded_def)

text \<open>An order in which the map of pending pages may be walked, and a store with one pair.\<close>

definition ascending :: "(nat \<rightharpoonup> bytes) \<Rightarrow> nat list" where
  "ascending m = sorted_list_of_set (dom m)"

lemma ascending_order: "map_order ascending"
  by (simp add: map_order_def ascending_def)

lemma fits_small: "h \<le> 1 \<Longrightarrow> 2 ^ 50 \<le> kv_room db \<Longrightarrow> small_kvs kvs \<Longrightarrow> fits 3 [([1], [10])] db h kvs"
  by (simp add: fits_def small_op_def small_kvs_def)

lemma one_pair:
  obtains base db h where "kv_Open (new_kv (os_on [])) = Some (None, base)" "commits ascending 3 [[([1], [10])]] base = Some (None, db)"
    "store_holds db h [([1], [10])]" "kv_root db \<noteq> 0" "fits 3 [([1], [10])] db h [([1], [10])]" "kv_version db = 1"
    "os_outcomes (kv_os db) = []"
proof -
  obtain base where b: "kv_Open (new_kv (os_on [])) = Some (None, base)" "store_holds base 0 []" "kv_version base = 0"
    "kv_os base = os_on []" "kv_room base = 2 ^ 51 - 3" by (rule open_new)
  have oc: "os_outcomes (kv_os base) = []" using b(4) by (simp add: os_on_def)
  have f: "fits 3 [([1], [10])] base 0 []" using fits_small [of 0 base "[]"] b(5) by (simp add: small_kvs_def)
  from commit_done [OF b(2) f ascending_order oc] b(3)
  obtain db h where d: "update_store ascending 3 [([1], [10])] base = Some (None, db)" "store_holds db h [([1], [10])]"
      "kv_version db = 1" "kv_root db \<noteq> 0" "h \<le> 1" "kv_room base \<le> kv_room db + 9" "os_outcomes (kv_os db) = []" by auto
  have "fits 3 [([1], [10])] db h [([1], [10])]"
    using fits_small [of h db "[([1], [10])]"] d(5,6) b(5) by (simp add: small_kvs_def)
  with d b(1) show ?thesis by (intro that [of base db h]) simp_all
qed

section \<open>Failing system calls\<close>

definition set_outcomes :: "outcome list \<Rightarrow> KV \<Rightarrow> KV" where
  "set_outcomes rs db = db\<lparr>kv_os := (kv_os db)\<lparr>os_outcomes := rs\<rparr>\<rparr>"

lemma set_outcomes_pages: "same_pages (set_outcomes rs db) db" "kv_free (set_outcomes rs db) = kv_free db"
  "kv_root (set_outcomes rs db) = kv_root db"
  by (simp_all add: same_pages_def set_outcomes_def)

lemma set_outcomes_holds: "store_holds db h kvs \<Longrightarrow> store_holds (set_outcomes rs db) h kvs"
proof -
  let ?db = "set_outcomes rs db"
  assume h: "store_holds db h kvs"
  have l: "kv_list ?db = kv_list db" by (rule same_pages(7) [OF set_outcomes_pages(1,2)])
  then have "owned ?db = owned db" by (simp add: owned_def)
  then have v: "kv_view ?db = kv_view db" by (simp add: kv_view_def fun_eq_iff same_pages(3) [OF set_outcomes_pages(1)])
  have mk: "map_ok ?db = map_ok db" by (rule map_ok_cong) (simp_all add: set_outcomes_def)
  have "settled ?db"
    using h unfolding store_holds_def settled_def l mk
    by (simp add: set_outcomes_def clean_os_def meta_fits_def fresh_def openable_def meta72_def) blast
  then show ?thesis using h v set_outcomes_pages(3) by (simp add: store_holds_def)
qed

lemma set_outcomes_fits: "fits fuel ops db h kvs \<Longrightarrow> fits fuel ops (set_outcomes rs db) h kvs"
  by (simp add: fits_def set_outcomes_def kv_room_def proom_def page_end_def)

lemma first_call_fails:
  assumes "ready f0 ord db" "os_outcomes (kv_os db) = [SysErr e 0]"
  shows "\<exists>m db'. updateFile db ord = Some (Some m, db')"
proof -
  let ?sz = "u64 (page_flushed db + page_nappend db) * BTREE_PAGE_SIZE"
  note calls = sys_call_def sys_pwrite_def sys_fsync_def next_outcome_def assms(2)
  show ?thesis
  proof (cases "?sz \<le> mmap_total db")
    case False
    then show ?thesis by (simp add: updateFile_def writePages_def extendMmap_def calls Let_def)
  next
    case True
    then have x: "extendMmap db ?sz = (None, db)" by (simp add: extendMmap_def)
    show ?thesis
    proof (cases ord)
      case Nil
      then show ?thesis using x by (simp add: updateFile_def writePages_def kv_Fsync_def calls)
    next
      case (Cons p ord')
      then have "p \<in> dirty db" using assms(1) by (auto simp: ready_def)
      then obtain b where "page_updates db p = Some b" by (auto simp: dirty_def)
      then show ?thesis using x Cons by (simp add: updateFile_def writePages_def calls)
    qed
  qed
qed

lemma update_fails:
  assumes "store_holds base h kvs" "fits fuel ops base h kvs" "map_order mo" "os_outcomes (kv_os base) = [SysErr e 0]"
  shows "\<exists>m db. update_store mo fuel ops base = Some (Some m, db)"
proof -
  obtain root h' db where u: "upserts kv_callbacks fuel ops (kv_root base) (begin_update base) = Some (root, db)"
    "same_base (begin_update base) db"
    "ready (os_file (kv_os base)) (mo (page_updates db)) (db\<lparr>kv_root := root, kv_version := kv_version base + 1\<rparr>)"
    by (rule commit_ready [OF assms(1-3)]) blast
  let ?d = "db\<lparr>kv_root := root, kv_version := kv_version base + 1\<rparr>"
  have st: "meta_fits base" "\<not> kv_failed base" using assms(1) by (auto simp: store_holds_def settled_def)
  have "os_outcomes (kv_os ?d) = [SysErr e 0]" using same_baseD(1) [OF u(2)] assms(4) by (simp add: begin_update_def)
  from first_call_fails [OF u(3) this] obtain m db' where f: "updateFile ?d (mo (page_updates db)) = Some (Some m, db')" by blast
  have nf: "\<not> kv_failed ?d" using same_baseD(5) [OF u(2)] st(2) by (simp add: begin_update_def)
  show ?thesis
    using u(1) f nf loadMeta_meta72 [OF st(1), of "db'\<lparr>kv_failed := True\<rparr>" "[]"]
    by (simp add: update_store_def saveMeta_eq updateOrRevert_def rewriteMeta_def)
qed

section \<open>A torn append\<close>

text \<open>Another order of the pending pages: from the last one down.\<close>

definition descending :: "(nat \<rightharpoonup> bytes) \<Rightarrow> nat list" where
  "descending m = rev (sorted_list_of_set (dom m))"

lemma descending_order: "map_order descending"
  by (simp add: map_order_def descending_def)

lemma descending_first:
  assumes "finite (dom m)" "p \<in> dom m" "\<forall>q \<in> dom m. q \<le> p"
  obtains ord where "descending m = p # ord"
proof -
  obtain q ord where d: "descending m = q # ord"
    using assms(1,2) by (cases "descending m") (auto simp: descending_def)
  have "set (descending m) = dom m" "sorted_wrt (\<ge>) (descending m)"
    using assms(1) by (simp_all add: descending_def sorted_wrt_rev)
  then have "q = p" using d assms(2,3) by (metis antisym insert_iff list.set(2) sorted_wrt.simps(2))
  then show ?thesis using d that by simp
qed

text \<open>Outcomes for a commit whose first write of a page stores \<open>n\<close> bytes: the mapping may have to grow first.\<close>

definition torn_call :: "nat \<Rightarrow> go_error \<Rightarrow> nat \<Rightarrow> KV \<Rightarrow> outcome list" where
  "torn_call sz e n db = (if sz \<le> mmap_total db then [] else [SysOk]) @ [SysErr e n]"

lemma torn_append:
  assumes holds: "store_holds base h kvs" and fits: "fits fuel ops base h kvs"
    and u: "upserts kv_callbacks fuel ops (kv_root base) (begin_update base) = Some (root, db)"
    and app: "0 < page_nappend db" "length (os_file (kv_os base)) \<le> page_flushed base * BTREE_PAGE_SIZE"
    and n: "0 < n" "n < BTREE_PAGE_SIZE"
    and calls: "os_outcomes (kv_os base) = torn_call (page_end db * BTREE_PAGE_SIZE) e n base"
  shows "\<exists>db'. update_store descending fuel ops base = Some (Some e, db')
    \<and> page_updates db' = Map.empty \<and> kv_version db' = kv_version base
    \<and> (\<exists>db''. kv_Open (new_kv (os_on (os_file (kv_os db')))) = Some (Some ''KV.Open: file is not multiple of pages'', db''))"
proof -
  have k: "kv_ok (kv_version base) (snapshot_pages base) (begin_update base) db" "same_base (begin_update base) db"
    by (rule commit_ready [OF holds fits descending_order]; use u in simp)+
  then have po: "pages_ok db" by (auto simp: kv_ok_def page_inv_def)
  define d where "d = db\<lparr>kv_root := root, kv_version := kv_version base + 1\<rparr>"
  have st: "settled base" using holds by (simp add: store_holds_def)
  note sb = same_baseD [OF k(2)]
  have os: "kv_os d = kv_os base" "mmap_total d = mmap_total base" "page_flushed d = page_flushed base" "\<not> kv_failed d"
    using sb(1,3,4,5) st by (simp_all add: d_def begin_update_def settled_def)
  have pd: "pages_ok d" using po by (simp add: d_def)
  have pe: "page_end d = page_end db" "page_updates d = page_updates db" by (simp_all add: d_def page_end_def)
  let ?p = "page_end db - 1"
  have fl: "page_flushed db = page_flushed base" using os(3) by (simp add: d_def)
  have p: "page_flushed base \<le> ?p" "?p < page_end db" using app(1) fl by (auto simp: page_end_def)
  have "?p \<in> dirty db" using pages_okD(4) [OF po, of ?p] p fl by (auto simp: dirty_def)
  then have dp: "?p \<in> dom (page_updates db)" by (simp add: dirty_def)
  have fin: "finite (dom (page_updates db))" using finite_dirty [OF po] by (simp add: dirty_def)
  have le: "\<forall>q \<in> dom (page_updates db). q \<le> ?p" using pages_okD(3) [OF po] by fastforce
  obtain ord where ord: "descending (page_updates db) = ?p # ord" by (rule descending_first [OF fin dp le])
  obtain w where w: "page_updates db ?p = Some w" using dp by auto
  have lw: "length w = 4096" "?p * 4096 < 2 ^ 64" "0 < ?p"
    using pages_okD(3) [OF po w] pages_okD(1,2) [OF po] p by (auto simp: BTREE_PAGE_SIZE_def)
  define os1 where "os1 = (kv_os base)\<lparr>os_outcomes := [SysErr e n]\<rparr>"
  have sz: "u64 (page_flushed d + page_nappend d) * BTREE_PAGE_SIZE = page_end db * BTREE_PAGE_SIZE"
    using page_end_u64 [OF pd] pe by simp
  obtain cs t where x: "extendMmap d (page_end db * BTREE_PAGE_SIZE) = (None, d\<lparr>kv_os := os1, mmap_chunks := cs, mmap_total := t\<rparr>)"
  proof (cases "page_end db * BTREE_PAGE_SIZE \<le> mmap_total base")
    case True
    then have "kv_os base = os1" using calls by (simp add: os1_def torn_call_def)
    then show ?thesis using True os that [of "mmap_total d" "mmap_chunks d"] by (simp add: extendMmap_def)
  next
    case False
    then have "sys_call (kv_os base) = (None, os1)" using calls by (simp add: sys_call_def next_outcome_def torn_call_def os1_def)
    then show ?thesis using False os that by (auto simp: extendMmap_def Let_def)
  qed
  let ?f = "write_at (os_file (kv_os base)) (?p * 4096) (take n w)" and ?os2 = "(os_write os1 (take n w) (?p * 4096))\<lparr>os_outcomes := []\<rparr>"
  have pw: "sys_pwrite os1 w (?p * 4096) = (Some e, ?os2)" using n(1) by (simp add: sys_pwrite_def next_outcome_def os1_def os_write_def)
  have uf: "updateFile d (descending (page_updates db)) = Some (Some e, d\<lparr>kv_os := ?os2, mmap_chunks := cs, mmap_total := t\<rparr>)"
    using x ord w lw sz pw pe(2) by (simp add: updateFile_def writePages_def BTREE_PAGE_SIZE_def)
  have mf: "meta_fits base" using st by (simp add: settled_def)
  have ev: "\<exists>db'. update_store descending fuel ops base = Some (Some e, db') \<and> os_file (kv_os db') = ?f
      \<and> page_updates db' = Map.empty \<and> kv_version db' = kv_version base"
    using u uf os(4) loadMeta_meta72 [OF mf, of _ "[]"]
    by (simp add: update_store_def saveMeta_eq updateOrRevert_def rewriteMeta_def d_def restore_meta_def os_write_def os1_def)
  have "take n w \<noteq> []" "length (take n w) = n" using n lw(1) by (auto simp: BTREE_PAGE_SIZE_def)
  moreover have "length (os_file (kv_os base)) \<le> ?p * 4096" using app(2) p(1) by (simp add: BTREE_PAGE_SIZE_def)
  ultimately have "length ?f = ?p * 4096 + n" using n(1) by simp
  then have "length ?f mod 4096 \<noteq> 0" using n by (simp add: BTREE_PAGE_SIZE_def)
  from torn_fails [OF this] ev show ?thesis by metis
qed

section \<open>Properties\<close>

text \<open>C32: the meta page. What \<^const>\<open>saveMeta\<close> writes, \<^const>\<open>loadMeta\<close> reads back: the root, the
  size, the free-list positions and the version, behind the signature and within 72 bytes.\<close>

theorem meta_roundtrip:
  assumes "meta_fits db"
  shows "\<exists>data. saveMeta db = Some data \<and> length data = 72 \<and> take 16 data = DB_SIG
    \<and> (\<forall>db' rest. loadMeta db' (data @ rest) = Some (restore_meta db' db))"
  using loadMeta_meta72 [OF assms] by (intro exI [of _ "meta72 db"]) (simp add: saveMeta_eq meta72_def)

theorem meta_roundtrip_witness:
  "\<exists>data. saveMeta (new_kv (os_on []))= Some data \<and> length data = 72"
  using meta_roundtrip [of "new_kv (os_on [])"] by (auto simp: meta_fits_def new_kv_def)

text \<open>C29: allocation and release of pages. On a store whose pages and free list are consistent,
  \<^const>\<open>pageAlloc\<close> never fails, stores the node under a page number nothing else uses, and
  leaves every other page as it is; \<^const>\<open>kv_PushTail\<close> hands a page to the free list and leaves
  every other page as it is. Both keep the store consistent and never write to a page in
  \<open>K\<close> that a snapshot of version at most \<open>r\<close> may still read.\<close>

theorem page_manager:
  assumes "kv_ok r K base db" "0 < kv_room db"
  shows "(\<forall>b. length b = BTREE_PAGE_SIZE \<longrightarrow> (\<exists>p db'. pageAlloc db b = Some (p, db') \<and> kv_ok r K base db' \<and> p \<noteq> 0
      \<and> kv_view db p = None \<and> kv_view db' = (kv_view db)(p \<mapsto> b) \<and> dirty db' \<inter> K = {}))
    \<and> (\<forall>p. kv_view db p \<noteq> None \<longrightarrow> (\<exists>db'. kv_PushTail db p = Some db' \<and> kv_ok r K base db' \<and> p \<in> owned db'
      \<and> (\<forall>p'. p' \<noteq> p \<longrightarrow> kv_view db' p' = kv_view db p') \<and> dirty db' \<inter> K = {}))"
proof (intro conjI allI impI)
  fix b :: bytes assume "length b = BTREE_PAGE_SIZE"
  from pageAlloc_ok [OF assms this] obtain p db' where "pageAlloc db b = Some (p, db')" "kv_ok r K base db'" "p \<noteq> 0"
      "kv_view db p = None" "kv_view db' = (kv_view db)(p \<mapsto> b)" by blast
  then show "\<exists>p db'. pageAlloc db b = Some (p, db') \<and> kv_ok r K base db' \<and> p \<noteq> 0
      \<and> kv_view db p = None \<and> kv_view db' = (kv_view db)(p \<mapsto> b) \<and> dirty db' \<inter> K = {}"
    using kv_ok_protects [of r K base db'] by (intro exI [of _ p] exI [of _ db']) simp
next
  fix p assume "kv_view db p \<noteq> None"
  from kv_PushTail_ok [OF assms this] obtain db' where "kv_PushTail db p = Some db'" "kv_ok r K base db'"
      "\<forall>q. q \<noteq> p \<longrightarrow> kv_view db' q = kv_view db q" "insert p (owned db) \<subseteq> owned db'" by blast
  then show "\<exists>db'. kv_PushTail db p = Some db' \<and> kv_ok r K base db' \<and> p \<in> owned db'
      \<and> (\<forall>p'. p' \<noteq> p \<longrightarrow> kv_view db' p' = kv_view db p') \<and> dirty db' \<inter> K = {}"
    using kv_ok_protects [of r K base db'] by (intro exI [of _ db']) simp
qed

theorem page_manager_witness:
  "\<exists>db p db'. kv_Open (new_kv (os_on [])) = Some (None, db)
     \<and> pageAlloc (begin_update db) (make_buf BTREE_PAGE_SIZE) = Some (p, db') \<and> kv_view db' p = Some (make_buf BTREE_PAGE_SIZE)"
proof -
  obtain db where db: "kv_Open (new_kv (os_on [])) = Some (None, db)" "store_holds db 0 []" "kv_room db = 2 ^ 51 - 3" by (rule open_new)
  have ok: "kv_ok (kv_version db) (snapshot_pages db) (begin_update db) (begin_update db)"
    using begin_ok db(2) by (simp add: store_holds_def)
  have "0 < kv_room (begin_update db)" "length (make_buf BTREE_PAGE_SIZE) = BTREE_PAGE_SIZE" using db(3) by (simp_all add: make_buf_def)
  with page_manager [OF ok] obtain p db' where "pageAlloc (begin_update db) (make_buf BTREE_PAGE_SIZE) = Some (p, db')"
      "kv_view db' = (kv_view (begin_update db))(p \<mapsto> make_buf BTREE_PAGE_SIZE)" by blast
  then show ?thesis using db(1) by (intro exI [of _ db] exI [of _ p] exI [of _ db']) simp
qed

text \<open>C28: the free list as a queue. \<open>q\<close> is the queue of (page, version) items stored in the list's
  nodes. Popping returns the oldest item if its version is not above \<open>maxVer\<close> and it was
  pushed before the last \<^const>\<open>SetMaxVer\<close>, and 0 otherwise, without a change; so no page freed
  at a version that a reader may still need is ever handed out. Pushing appends the page
  with the current version. Both end in a list that again stands for a queue; when a node
  boundary is crossed, list nodes move between queue and list.\<close>

theorem free_list_queue:
  assumes "kv_ok r K base db" "0 < kv_room db" "kv_list db ps q"
  shows "(\<exists>p db' ps' q'. kv_PopHead db = Some (p, db') \<and> kv_list db' ps' q'
      \<and> (if headSeq (kv_free db) \<noteq> maxSeq (kv_free db) \<and> snd (hd q) \<le> maxVer (kv_free db)
         then p = fst (hd q) \<and> p \<noteq> 0 \<and> p \<notin> owned db' \<and> ((headSeq (kv_free db) + 1) mod 255 \<noteq> 0 \<longrightarrow> q' = tl q)
         else p = 0 \<and> db' = db))
    \<and> (\<forall>p. kv_view db p \<noteq> None \<longrightarrow> (\<exists>db' ps' q'. kv_PushTail db p = Some db' \<and> kv_list db' ps' q' \<and> p \<in> owned db'
      \<and> ((tailSeq (kv_free db) + 1) mod 255 \<noteq> 0 \<longrightarrow> q' = q @ [(p, curVer (kv_free db))])))"
proof (intro conjI allI impI)
  have k: "page_inv base db" "pages_ok db" using assms(1) by (simp_all add: kv_ok_def page_inv_def)
  have rep: "fl_rep 1 (pview db) (blank db) (dirty db) (kv_free db) ps q" using assms(3) by (simp add: kv_list_def)
  have pos: "0 < proom db" "tailSeq (kv_free db) + 2 < 2 ^ 64" using room_pos [OF assms(2)] by auto
  obtain p fl' s1 ps' q' where st: "PopHead kv_fl_callbacks (kv_free db) db = Some (p, fl', s1)"
    "fl_rep 1 (pview s1) (blank s1) (dirty s1) fl' ps' q'"
    "if can_pop (kv_free db) q then p = fst (hd q) \<and> p \<noteq> 0 \<and> p \<notin> set (free_pages ps' q') \<and> p \<notin> dirty s1
        \<and> kvl.list_frame base db s1 (set (free_pages ps q) - {p}) (set (free_pages ps' q'))
        \<and> ((headSeq (kv_free db) + 1) mod 255 \<noteq> 0 \<longrightarrow> q' = tl q)
      else p = 0 \<and> s1 = db \<and> fl' = kv_free db \<and> ps' = ps \<and> q' = q"
    by (rule kvl.PopHead_ok [OF k(1) rep pos]) blast
  have kl: "kv_list (s1\<lparr>kv_free := fl'\<rparr>) ps' q'" using st(2) by (simp add: kv_list_def)
  have "kv_PopHead db = Some (p, s1\<lparr>kv_free := fl'\<rparr>)" using st(1) by (simp add: kv_PopHead_def)
  then show "\<exists>p db' ps' q'. kv_PopHead db = Some (p, db') \<and> kv_list db' ps' q'
      \<and> (if headSeq (kv_free db) \<noteq> maxSeq (kv_free db) \<and> snd (hd q) \<le> maxVer (kv_free db)
         then p = fst (hd q) \<and> p \<noteq> 0 \<and> p \<notin> owned db' \<and> ((headSeq (kv_free db) + 1) mod 255 \<noteq> 0 \<longrightarrow> q' = tl q)
         else p = 0 \<and> db' = db)"
    using kl st(3) owned_eq [OF kl] unfolding can_pop_def
    by (intro exI [of _ p] exI [of _ "s1\<lparr>kv_free := fl'\<rparr>"] exI [of _ ps'] exI [of _ q']) (auto split: if_splits)
  fix p assume v: "kv_view db p \<noteq> None"
  have pv: "p \<notin> set (free_pages ps q)" "pview db p \<noteq> None"
    using v owned_eq [OF assms(3)] by (auto simp: kv_view_def split: if_splits)
  have p: "p \<noteq> 0" "p < 2 ^ 64" "has_page (pview db) p"
    using pv(2) pview_range [of db p] pages_okD(2) [OF k(2)] pages_ok_has [OF k(2)] by force+
  obtain fl2 s2 ps2 q2 where st: "PushTail kv_fl_callbacks (kv_free db) db p = Some (fl2, s2)"
    "fl_rep 1 (pview s2) (blank s2) (dirty s2) fl2 ps2 q2"
    "kvl.list_frame base db s2 (insert p (set (free_pages ps q))) (set (free_pages ps2 q2))"
    "(tailSeq (kv_free db) + 1) mod 255 \<noteq> 0 \<longrightarrow> q2 = q @ [(p, curVer (kv_free db))]"
    by (rule kvl.PushTail_ok [OF k(1) rep pos(1) pv(1) p pos(2)]) blast
  have kl2: "kv_list (s2\<lparr>kv_free := fl2\<rparr>) ps2 q2" using st(2) by (simp add: kv_list_def)
  have "p \<in> owned (s2\<lparr>kv_free := fl2\<rparr>)" using st(3) owned_eq [OF kl2] by (auto simp: kvl.list_frame_def)
  moreover have "kv_PushTail db p = Some (s2\<lparr>kv_free := fl2\<rparr>)" using st(1) by (simp add: kv_PushTail_def)
  ultimately show "\<exists>db' ps' q'. kv_PushTail db p = Some db' \<and> kv_list db' ps' q' \<and> p \<in> owned db'
      \<and> ((tailSeq (kv_free db) + 1) mod 255 \<noteq> 0 \<longrightarrow> q' = q @ [(p, curVer (kv_free db))])"
    using kl2 st(4) by blast
qed

theorem free_list_queue_witness:
  "\<exists>base db p db'. kv_Open (new_kv (os_on [])) = Some (None, base) \<and> kv_PopHead (begin_update base) = Some (0, begin_update base)
     \<and> pageAlloc (begin_update base) (make_buf BTREE_PAGE_SIZE) = Some (p, db) \<and> kv_PushTail db p = Some db' \<and> p \<in> owned db'"
proof -
  obtain base where b: "kv_Open (new_kv (os_on [])) = Some (None, base)" "store_holds base 0 []" "kv_room base = 2 ^ 51 - 3"
    "headSeq (kv_free base) = maxSeq (kv_free base)" by (rule open_new)
  let ?b = "begin_update base"
  have ok: "kv_ok (kv_version base) (snapshot_pages base) ?b ?b" using begin_ok b(2) by (simp add: store_holds_def)
  then obtain ps q where l: "kv_list ?b ps q" by (auto simp: kv_ok_def)
  have room: "0 < kv_room ?b" "2 \<le> kv_room ?b" using b(3) by simp_all
  have "length (make_buf BTREE_PAGE_SIZE) = BTREE_PAGE_SIZE" by (simp add: make_buf_def)
  from pageAlloc_ok [OF ok room(1) this] obtain p db where a: "pageAlloc ?b (make_buf BTREE_PAGE_SIZE) = Some (p, db)"
      "kv_ok (kv_version base) (snapshot_pages base) ?b db" "kv_view db = (kv_view ?b)(p \<mapsto> make_buf BTREE_PAGE_SIZE)"
      "kv_room ?b \<le> Suc (kv_room db)" by blast
  obtain ps' q' where l': "kv_list db ps' q'" using a(2) by (auto simp: kv_ok_def)
  have r': "0 < kv_room db" using a(4) room(2) by simp
  have "headSeq (kv_free ?b) = maxSeq (kv_free ?b)" using b(4) by (simp add: begin_update_def)
  then show ?thesis
    using free_list_queue [OF ok room(1) l] free_list_queue [OF a(2) r' l'] a(1,3) b(1) by fastforce
qed

text \<open>C27: snapshots on disk. While a transaction's insertions are carried out, no page the committed
  tree consists of is overwritten: every pending write goes to another page, and the file is
  not touched before the commit.\<close>

theorem snapshot_untouched:
  assumes "store_holds base h kvs" "fits fuel ops base h kvs"
    and "upserts kv_callbacks fuel ops (kv_root base) (begin_update base) = Some (root, db)"
    and "kv_view base p \<noteq> None"
  shows "page_updates db p = None \<and> kv_os db = kv_os base"
proof -
  obtain root' h' db' where u: "upserts kv_callbacks fuel ops (kv_root base) (begin_update base) = Some (root', db')"
    "kv_ok (kv_version base) (snapshot_pages base) (begin_update base) db'" "same_base (begin_update base) db'"
    by (rule commit_ready [OF assms(1,2) ascending_order])
  then have k: "kv_ok (kv_version base) (snapshot_pages base) (begin_update base) db" "same_base (begin_update base) db"
    using assms(3) by simp_all
  have "p \<notin> dirty db" using kv_ok_protects [OF k(1)] assms(4) by blast
  then have "page_updates db p = None" by (simp add: dirty_def domIff)
  then show ?thesis using same_baseD(1) [OF k(2)] by (simp add: begin_update_def)
qed

theorem snapshot_untouched_witness:
  "\<exists>base root db p. upserts kv_callbacks 3 [([1], [10])] (kv_root base) (begin_update base) = Some (root, db)
     \<and> kv_view base p \<noteq> None \<and> page_updates db p = None"
proof -
  obtain base h where b: "store_holds base h [([1], [10])]" "kv_root base \<noteq> 0" "fits 3 [([1], [10])] base h [([1], [10])]"
    by (rule one_pair) blast
  obtain root h' db where u: "upserts kv_callbacks 3 [([1], [10])] (kv_root base) (begin_update base) = Some (root, db)"
    by (rule commit_ready [OF b(1,3) ascending_order])
  have "kv_view base (kv_root base) \<noteq> None" using b(1,2) by (auto simp: store_holds_def elim: tree_holdsE)
  then show ?thesis using snapshot_untouched [OF b(1,3) u] u by blast
qed




text \<open>C24: atomic commits. Take a store at rest (open, consistent, its last update not failed) that holds
  small pairs and has been committed to before, and a non-empty batch of small insertions for which page
  numbers and fuel suffice. Whatever system calls of the commit fail, and whatever part of its bytes a failing
  write leaves behind, the commit returns. Then whichever of the unsynced writes a crash loses, the file
  opens again and reads as the new contents or, only when the commit reported an error, as the old
  ones. There are two exceptions, both after a failed commit: a write of a page that stored a part of
  it can leave a file whose length is no multiple of the page size, which \<^const>\<open>kv_Open\<close> refuses; and a
  write that stored some but not all of the 72 bytes of the meta page leaves these bytes in a file that
  otherwise reads as the old contents.\<close>

theorem commit_crash_safe:
  assumes "store_holds base h kvs" "kv_root base \<noteq> 0" "fits fuel ops base h kvs" "map_order mo"
  shows "\<exists>err db. update_store mo fuel ops base = Some (err, db)
    \<and> (\<forall>f \<in> crash_files (kv_os db). recovers fuel f (ins_all ops kvs)
         \<or> err \<noteq> None \<and> (recovers fuel f kvs \<or> \<not> untorn (os_outcomes (kv_os base)) \<and> torn_file f
              \<or> \<not> meta_whole (os_outcomes (kv_os base)) \<and> torn_meta fuel kvs f))"
  by (rule commit_crash [OF assms])

theorem commit_crash_safe_witness:
  "\<exists>base err db. update_store ascending 3 [([1], [10])] base = Some (err, db)
     \<and> (\<forall>f \<in> crash_files (kv_os db). recovers 3 f [([1], [10])])"
proof -
  obtain base h where b: "store_holds base h [([1], [10])]" "kv_root base \<noteq> 0" "fits 3 [([1], [10])] base h [([1], [10])]"
    "os_outcomes (kv_os base) = []" by (rule one_pair) blast
  have "untorn (os_outcomes (kv_os base))" using b(4) by (simp add: untorn_def)
  from commit_crash_safe [OF b(1-3) ascending_order] this untorn_meta [OF this] show ?thesis by auto
qed

text \<open>C26: failed commits. Take a store at rest (open, consistent, its last update not failed) that holds
  small pairs and has been committed to before, and a commit of small insertions, for which page
  numbers and fuel suffice, that reports an error because a system call failed, whatever part of its
  bytes a failing write has stored. Then the store in memory is back at the committed state: no
  pending pages, the old root and version, and every lookup answers from the old contents, even
  where new pages have already been written to the file. It remembers that the update failed.\<close>

theorem commit_failure:
  assumes "store_holds base h kvs" "kv_root base \<noteq> 0" "fits fuel ops base h kvs" "map_order mo"
    and "update_store mo fuel ops base = Some (Some e, db)"
  shows "reads_as fuel db kvs \<and> kv_root db = kv_root base \<and> kv_version db = kv_version base
    \<and> page_updates db = Map.empty \<and> kv_failed db"
  using commit_reverts [OF assms] by blast

theorem commit_failure_witness:
  "\<exists>base e db. update_store ascending 3 [([1], [10])] base = Some (Some e, db) \<and> reads_as 3 db [([1], [10])]"
proof -
  obtain db h where b: "store_holds db h [([1], [10])]" "kv_root db \<noteq> 0" "fits 3 [([1], [10])] db h [([1], [10])]"
    by (rule one_pair) blast
  let ?base = "set_outcomes [SysErr ''EIO'' 0] db"
  note c = set_outcomes_holds [OF b(1)] set_outcomes_fits [OF b(3)] ascending_order
  have "os_outcomes (kv_os ?base) = [SysErr ''EIO'' 0]" "kv_root ?base \<noteq> 0" using b(2) by (simp_all add: set_outcomes_def)
  then show ?thesis using update_fails [OF c] commit_failure [OF c(1) _ c(2,3)] by blast
qed

text \<open>C30: a torn append damages the database. Take a store at rest with no page after its last used one,
  and a commit that needs a new page at the end of the file. If the pages happen to be written from the
  last one down (the order of a Go map is any order), and the first of these writes fails after storing
  a part of its page, then the commit reports the error and undoes the update in memory, but it leaves
  the part in the file, and from then on \<^const>\<open>kv_Open\<close> refuses the file, whatever was committed before.\<close>

theorem torn_append_bricks:
  assumes "store_holds base h kvs" "fits fuel ops base h kvs"
    and "upserts kv_callbacks fuel ops (kv_root base) (begin_update base) = Some (root, db)"
    and "0 < page_nappend db" "length (os_file (kv_os base)) \<le> page_flushed base * BTREE_PAGE_SIZE"
    and "0 < n" "n < BTREE_PAGE_SIZE" "os_outcomes (kv_os base) = torn_call (page_end db * BTREE_PAGE_SIZE) e n base"
  shows "\<exists>db'. update_store descending fuel ops base = Some (Some e, db')
    \<and> page_updates db' = Map.empty \<and> kv_version db' = kv_version base
    \<and> (\<exists>db''. kv_Open (new_kv (os_on (os_file (kv_os db')))) = Some (Some ''KV.Open: file is not multiple of pages'', db''))"
  by (rule torn_append [OF assms])

theorem torn_append_bricks_witness:
  "\<exists>base db'. update_store descending 3 [([1], [10])] base = Some (Some ''EIO'', db')
    \<and> (\<exists>db''. kv_Open (new_kv (os_on (os_file (kv_os db')))) = Some (Some ''KV.Open: file is not multiple of pages'', db''))"
proof -
  obtain base0 where b: "store_holds base0 0 []" "kv_root base0 = 0" "kv_os base0 = os_on []" "kv_room base0 = 2 ^ 51 - 3"
    "mmap_total base0 = 0" "page_flushed base0 = 2" by (rule open_new)
  have fits: "fits 3 [([1], [10])] base0 0 []" using fits_small [of 0 base0 "[]"] b(4) by (simp add: small_kvs_def)
  define base where "base = set_outcomes [SysOk, SysErr ''EIO'' 100] base0"
  note c = set_outcomes_holds [OF b(1), of "[SysOk, SysErr ''EIO'' 100]", folded base_def]
    set_outcomes_fits [OF fits, of "[SysOk, SysErr ''EIO'' 100]", folded base_def]
  have m: "mmap_total base = 0" "page_flushed base = 2" "os_file (kv_os base) = []" "os_outcomes (kv_os base) = [SysOk, SysErr ''EIO'' 100]"
    using b(3,5,6) by (simp_all add: base_def set_outcomes_def os_on_def)
  obtain root h' db where u: "upserts kv_callbacks 3 [([1], [10])] (kv_root base) (begin_update base) = Some (root, db)"
    "kv_ok (kv_version base) (snapshot_pages base) (begin_update base) db" "same_base (begin_update base) db"
    "tree_holds (kv_view db) root h' (ins_all [([1], [10])] [])" "root \<noteq> 0"
    by (rule commit_ready [OF c ascending_order]) blast
  have fl: "page_flushed db = 2" using same_baseD(4) [OF u(3)] m(2) by (simp add: begin_update_def)
  obtain ps q v where k: "kv_list db ps q" "kv_view db root = Some v" using u(2,4,5) by (auto simp: kv_ok_def elim: tree_holdsE)
  have two: "2 < page_end db" by (rule list_uses_a_page [OF k])
  then have "0 < page_nappend db" using fl by (simp add: page_end_def)
  moreover have "length (os_file (kv_os base)) \<le> page_flushed base * BTREE_PAGE_SIZE" "(0::nat) < 100" "100 < BTREE_PAGE_SIZE"
    using m by (simp_all add: BTREE_PAGE_SIZE_def)
  moreover have "os_outcomes (kv_os base) = torn_call (page_end db * BTREE_PAGE_SIZE) ''EIO'' 100 base"
    using m two by (simp add: torn_call_def BTREE_PAGE_SIZE_def)
  ultimately show ?thesis using torn_append_bricks [OF c u(1)] by blast
qed

text \<open>C31: a damaged new database. There is a run in which the first commit reports an error after one
  page has reached the file, and the file it leaves can never be opened again.\<close>

theorem first_commit_bricks:
  "\<exists>base e db. kv_Open (new_kv (os_on [])) = Some (None, base)
     \<and> update_store ascending 3 [([1], [10])] (set_outcomes [SysOk, SysErr ''EIO'' 4096] base) = Some (Some e, db)
     \<and> (\<exists>db'. kv_Open (new_kv (os_on (os_file (kv_os db)))) = Some (Some ''KV.Open: bad meta page'', db'))"
proof -
  obtain base where b: "kv_Open (new_kv (os_on [])) = Some (None, base)" "store_holds base 0 []" "kv_root base = 0"
    "kv_os base = os_on []" "kv_room base = 2 ^ 51 - 3"
    and m: "mmap_total base = 0" "page_flushed base = 2" by (rule open_new)
  have fits: "fits 3 [([1], [10])] base 0 []" using fits_small [of 0 base "[]"] b(5) by (simp add: small_kvs_def)
  let ?rs = "[SysOk, SysErr ''EIO'' 4096]" and ?ops = "[([1], [10])] :: kv list"
  let ?base = "set_outcomes ?rs base"
  note c = set_outcomes_holds [OF b(2), of ?rs] set_outcomes_fits [OF fits] ascending_order
  obtain root h' db where u: "upserts kv_callbacks 3 ?ops (kv_root ?base) (begin_update ?base) = Some (root, db)"
    "same_base (begin_update ?base) db" "kv_ok (kv_version ?base) (snapshot_pages ?base) (begin_update ?base) db"
    "tree_holds (kv_view db) root h' (ins_all ?ops [])" "root \<noteq> 0"
    "ready (os_file (kv_os ?base)) (ascending (page_updates db)) (db\<lparr>kv_root := root, kv_version := kv_version ?base + 1\<rparr>)"
    by (rule commit_ready [OF c]) blast
  define d where "d = db\<lparr>kv_root := root, kv_version := kv_version ?base + 1\<rparr>"
  note sb = same_baseD [OF u(2)]
  have os: "kv_os d = (os_on [])\<lparr>os_outcomes := ?rs\<rparr>" "mmap_total d = 0" "page_flushed d = 2" "\<not> kv_failed d"
    using sb(1,3,4,5) b c(1) m by (simp_all add: d_def begin_update_def set_outcomes_def store_holds_def settled_def)
  obtain ps q v where k: "pages_ok db" "kv_list db ps q" "kv_view db root = Some v"
    using u(3-5) by (auto simp: kv_ok_def page_inv_def elim: tree_holdsE)
  have two: "2 < page_end d" using list_uses_a_page [OF k(2,3)] by (simp add: d_def)
  have pd: "pages_ok d" using k(1) by (simp add: d_def)
  have "2 \<in> dirty d" using pages_okD(4) [OF pd, of 2] os(3) two by (auto simp: dirty_def)
  moreover have "set (ascending (page_updates d)) = dirty d"
    using ascending_order finite_dirty [OF pd] by (auto simp: map_order_def dirty_def)
  ultimately obtain p ord where ord: "ascending (page_updates d) = p # ord" "p \<in> dirty d"
    by (cases "ascending (page_updates d)") auto
  then obtain w where w: "page_updates d p = Some w" by (auto simp: dirty_def)
  have pw: "0 < p" "p * 4096 < 2 ^ 64" "length w = 4096"
    using pages_okD(2) [OF pd] pages_okD(3) [OF pd w] by (simp_all add: BTREE_PAGE_SIZE_def)
  let ?sz = "u64 (page_flushed d + page_nappend d) * BTREE_PAGE_SIZE" and ?os2 = "(os_write (os_on []) w (p * 4096))"
  have sz: "0 < ?sz" using page_end_u64 [OF pd] two by (simp add: BTREE_PAGE_SIZE_def)
  obtain cs t where x: "extendMmap d ?sz = (None, d\<lparr>kv_os := (os_on [])\<lparr>os_outcomes := tl ?rs\<rparr>, mmap_chunks := cs, mmap_total := t\<rparr>)"
    using sz os by (auto simp: extendMmap_def sys_call_def next_outcome_def Let_def)
  have uf: "updateFile d (ascending (page_updates d)) = Some (Some ''EIO'', d\<lparr>kv_os := ?os2, mmap_chunks := cs, mmap_total := t\<rparr>)"
    using x ord(1) w pw
    by (simp add: updateFile_def writePages_def sys_pwrite_def next_outcome_def BTREE_PAGE_SIZE_def os_write_def os_on_def)
  have mf: "meta_fits ?base" using c(1) by (simp add: store_holds_def settled_def)
  have ev: "\<exists>db'. update_store ascending 3 ?ops ?base = Some (Some ''EIO'', db') \<and> kv_os db' = ?os2"
    using u(1) uf os(4) loadMeta_meta72 [OF mf, of _ "[]"]
    by (simp add: update_store_def saveMeta_eq updateOrRevert_def rewriteMeta_def d_def restore_meta_def)
  define g where "g = os_file ?os2"
  have g: "g = write_at [] (p * 4096) w" by (simp add: os_write_def os_on_def g_def)
  have "w \<noteq> []" using pw(3) by auto
  then have lg: "length g = p * 4096 + 4096" using pw(3) unfolding g by simp
  have "\<exists>db'. kv_Open (new_kv (os_on g)) = Some (Some ''KV.Open: bad meta page'', db')"
  proof (rule no_meta_fails)
    show "g \<noteq> []" using lg by (cases g) simp_all
    show "length g mod 4096 = 0" using lg by simp
    show "\<forall>i < 4096. i < length g \<longrightarrow> g ! i = 0" unfolding g by (rule zero_page_write) (use pw(1) in simp_all)
  qed
  then show ?thesis using b(1) ev unfolding g_def by metis
qed

end
