(* ===== verification/Codec.thy ===== *)
theory Codec
  imports Prelude
begin

text \<open>
  Cells, records and the order-preserving key encoding of \<^verbatim>\<open>db/table.go\<close>, with the comparison
  operators of \<^verbatim>\<open>db/btree_iter.go\<close> that the encoded keys are compared under. The lemmas show
  that encoding is injective and that the byte order of encoded rows is the order of the
  rows, also when a query gives only the first columns of an index.
\<close>

section \<open>Comparison operators\<close>

definition CMP_GE :: int where [format_consts]: "CMP_GE = 3"
definition CMP_GT :: int where [format_consts]: "CMP_GT = 2"
definition CMP_LT :: int where [format_consts]: "CMP_LT = -2"
definition CMP_LE :: int where [format_consts]: "CMP_LE = -3"

definition cmpOK :: "bytes \<Rightarrow> int \<Rightarrow> bytes \<Rightarrow> bool option" where
  "cmpOK cur cmp key =
     (let r = bytesCompare cur key in
      if cmp = CMP_GE then Some (r \<ge> 0)
      else if cmp = CMP_GT then Some (r > 0)
      else if cmp = CMP_LT then Some (r < 0)
      else if cmp = CMP_LE then Some (r \<le> 0)
      else None)"

text \<open>The relation a comparison operator stands for.\<close>

definition cmp_holds :: "int \<Rightarrow> 'a::linorder \<Rightarrow> 'a \<Rightarrow> bool" where
  "cmp_holds cmp a b =
     (if cmp = CMP_GE then b \<le> a else if cmp = CMP_GT then b < a
      else if cmp = CMP_LT then a < b else a \<le> b)"

definition valid_cmp :: "int \<Rightarrow> bool" where
  "valid_cmp cmp \<longleftrightarrow> cmp \<in> {CMP_GE, CMP_GT, CMP_LT, CMP_LE}"

lemma cmpOK_holds: "valid_cmp cmp \<Longrightarrow> cmpOK a cmp b = Some (cmp_holds cmp a b)"
  by (auto simp: cmpOK_def cmp_holds_def valid_cmp_def Let_def)

section \<open>Cells\<close>

definition TYPE_BYTES :: nat where [format_consts]: "TYPE_BYTES = 1"
definition TYPE_INT64 :: nat where [format_consts]: "TYPE_INT64 = 2"

record Value =
  Type :: nat
  I64 :: "64 word"
  Str :: bytes

text \<open>A cell of the given type with Go's zero values.\<close>

definition zero_value :: "nat \<Rightarrow> Value" where
  "zero_value t = \<lparr>Type = t, I64 = 0, Str = []\<rparr>"

definition sign_bit :: "64 word" where
  "sign_bit = push_bit 63 1"

section \<open>Escaping\<close>

text \<open>\<^verbatim>\<open>out[pos] = b\<close>\<close>

definition set_byte :: "bytes \<Rightarrow> nat \<Rightarrow> byte \<Rightarrow> bytes option" where
  "set_byte out pos b = (if pos < length out then Some (out[pos := b]) else None)"

fun escapeLoop :: "bytes \<Rightarrow> nat \<Rightarrow> bytes \<Rightarrow> bytes option" where
  "escapeLoop out pos [] = Some out"
| "escapeLoop out pos (ch # rest) =
     (if ch \<le> 1 then do {
        out \<leftarrow> set_byte out pos 1;
        out \<leftarrow> set_byte out (pos + 1) (ch + 1);
        escapeLoop out (pos + 2) rest
      } else do {
        out \<leftarrow> set_byte out pos ch;
        escapeLoop out (pos + 1) rest
      })"

definition escapeString :: "bytes \<Rightarrow> bytes option" where
  "escapeString inp =
     (let toEscape = count_list inp 0 + count_list inp 1 in
      if toEscape = 0 then Some inp
      else escapeLoop (replicate (length inp + toEscape) 0) 0 inp)"

fun unescapeLoop :: "bytes \<Rightarrow> bytes \<Rightarrow> bytes option" where
  "unescapeLoop out [] = Some out"
| "unescapeLoop out (ch # rest) =
     (if ch = 1 then
        (case rest of
           [] \<Rightarrow> None
         | c # rest' \<Rightarrow> do {
             _ \<leftarrow> go_assert (c = 1 \<or> c = 2);
             unescapeLoop (out @ [c - 1]) rest'
           })
      else unescapeLoop (out @ [ch]) rest)"

definition unescapeString :: "bytes \<Rightarrow> bytes option" where
  "unescapeString inp = (if count_list inp 1 = 0 then Some inp else unescapeLoop [] inp)"

section \<open>Rows and keys\<close>

fun encodeValues :: "bytes \<Rightarrow> Value list \<Rightarrow> bytes option" where
  "encodeValues out [] = Some out"
| "encodeValues out (v # vals) =
     (let out = out @ [of_nat (Type v)] in
      if Type v = TYPE_INT64 then
        encodeValues (out @ be_bytes 8 (unat (I64 v XOR sign_bit))) vals
      else if Type v = TYPE_BYTES then do {
        s \<leftarrow> escapeString (Str v);
        encodeValues (out @ s @ [0]) vals
      }
      else None)"

definition encodeKey :: "bytes \<Rightarrow> nat \<Rightarrow> Value list \<Rightarrow> bytes option" where
  "encodeKey out pfx vals = encodeValues (out @ be_bytes 4 pfx) vals"

definition encodeKeyPartial :: "bytes \<Rightarrow> nat \<Rightarrow> Value list \<Rightarrow> int \<Rightarrow> bytes option" where
  "encodeKeyPartial out pfx vals cmp = do {
     out \<leftarrow> encodeKey out pfx vals;
     Some (if cmp = CMP_GT \<or> cmp = CMP_LE then out @ [255] else out)
   }"

text \<open>\<^verbatim>\<open>bytes.IndexByte(in, 0)\<close> and the two slices around it.\<close>

definition split_null :: "bytes \<Rightarrow> (bytes \<times> bytes) option" where
  "split_null inp =
     (if 0 \<in> set inp then Some (takeWhile (\<lambda>b. b \<noteq> 0) inp, tl (dropWhile (\<lambda>b. b \<noteq> 0) inp)) else None)"

fun decodeValues :: "bytes \<Rightarrow> Value list \<Rightarrow> Value list option" where
  "decodeValues inp [] = do { _ \<leftarrow> go_assert (inp = []); Some [] }"
| "decodeValues [] (v # out) = None"
| "decodeValues (t # inp) (v # out) = do {
     _ \<leftarrow> go_assert (Type v = unat t);
     (if Type v = TYPE_INT64 then do {
        buf \<leftarrow> slice_at inp 0 8;
        vals \<leftarrow> decodeValues (drop 8 inp) out;
        Some (v\<lparr>I64 := of_nat (be_val buf) XOR sign_bit\<rparr> # vals)
      }
      else if Type v = TYPE_BYTES then do {
        (s, rest) \<leftarrow> split_null inp;
        s \<leftarrow> unescapeString s;
        vals \<leftarrow> decodeValues rest out;
        Some (v\<lparr>Str := s\<rparr> # vals)
      }
      else None)
   }"

definition decodeKey :: "bytes \<Rightarrow> Value list \<Rightarrow> Value list option" where
  "decodeKey inp out = (if 4 \<le> length inp then decodeValues (drop 4 inp) out else None)"

section \<open>Escaping, as a function on strings\<close>

definition esc :: "byte \<Rightarrow> bytes" where
  "esc ch = (if ch \<le> 1 then [1, ch + 1] else [ch])"

definition escaped :: "bytes \<Rightarrow> bytes" where
  "escaped s = concat (map esc s)"

lemma escaped_simps [simp]:
  "escaped [] = []" "escaped (c # s) = esc c @ escaped s"
  by (simp_all add: escaped_def)

lemma byte_le_1: "(ch :: byte) \<le> 1 \<longleftrightarrow> ch = 0 \<or> ch = 1"
proof
  assume "ch \<le> 1"
  then have "unat ch \<le> 1" by (simp add: word_le_nat_alt)
  then consider "unat ch = 0" | "unat ch = 1" by linarith
  then show "ch = 0 \<or> ch = 1"
  proof cases
    case 2
    then have "ch = 1" by (intro word_unat_eq_iff [THEN iffD2]) simp
    then show ?thesis by simp
  qed (simp add: unat_eq_0)
qed auto

lemma length_escaped: "length (escaped s) = length s + count_list s 0 + count_list s 1"
  by (induction s) (auto simp: esc_def byte_le_1)

lemma escaped_id: "count_list s 0 + count_list s 1 = 0 \<Longrightarrow> escaped s = s"
  by (induction s) (auto simp: esc_def byte_le_1 split: if_splits)

lemma escapeLoop_escaped:
  "length out = pos + length (escaped s) \<Longrightarrow> escapeLoop out pos s = Some (take pos out @ escaped s)"
proof (induction s arbitrary: out pos)
  case (Cons c s)
  show ?case
  proof (cases "c \<le> 1")
    case True
    then have "length out = pos + 2 + length (escaped s)" using Cons.prems by (simp add: esc_def)
    with Cons.IH [of "out[pos := 1, pos + 1 := c + 1]" "pos + 2"] True show ?thesis
      by (simp add: set_byte_def esc_def take_Suc_conv_app_nth nth_list_update)
  next
    case False
    then have "length out = pos + 1 + length (escaped s)" using Cons.prems by (simp add: esc_def)
    with Cons.IH [of "out[pos := c]" "pos + 1"] False show ?thesis
      by (simp add: set_byte_def esc_def take_Suc_conv_app_nth)
  qed
qed simp

lemma escapeString_escaped [simp]: "escapeString s = Some (escaped s)"
  using escapeLoop_escaped [of "replicate (length (escaped s)) 0" 0 s] escaped_id [of s]
  by (auto simp: escapeString_def Let_def length_escaped add.assoc)

lemma escaped_no_null: "0 \<notin> set (escaped s)"
proof -
  have "esc c ! 0 \<noteq> 0 \<and> 0 \<notin> set (esc c)" for c
  proof (cases "c \<le> 1")
    case True
    then show ?thesis by (auto simp: esc_def byte_le_1)
  qed (auto simp: esc_def)
  then show ?thesis by (induction s) auto
qed

lemma unescapeLoop_escaped: "unescapeLoop out (escaped s) = Some (out @ s)"
proof (induction s arbitrary: out)
  case (Cons c s)
  show ?case
  proof (cases "c \<le> 1")
    case True
    then show ?thesis using Cons by (auto simp: esc_def byte_le_1)
  next
    case False
    then have "c \<noteq> 1" by auto
    with Cons False show ?thesis by (simp add: esc_def)
  qed
qed simp

lemma unescape_escaped [simp]: "unescapeString (escaped s) = Some s"
proof (cases "count_list (escaped s) 1 = 0")
  case True
  then have "escaped s = s"
  proof (induction s)
    case (Cons c s)
    then have "\<not> c \<le> 1" by (auto simp: esc_def split: if_splits)
    with Cons show ?case by (auto simp: esc_def split: if_splits)
  qed simp
  then show ?thesis using True by (simp add: unescapeString_def)
qed (simp add: unescapeString_def unescapeLoop_escaped)

section \<open>The order of cells\<close>

text \<open>
  What a cell means: a number or a byte string. Numbers come after strings, as the type tags
  do; rows are compared column by column.
\<close>

datatype cell = Text bytes | Num int

instantiation cell :: linorder
begin

definition less_eq_cell :: "cell \<Rightarrow> cell \<Rightarrow> bool" where
  "less_eq_cell a b = (case a of
     Text s \<Rightarrow> (case b of Text t \<Rightarrow> s \<le> t | Num j \<Rightarrow> True)
   | Num i \<Rightarrow> (case b of Text t \<Rightarrow> False | Num j \<Rightarrow> i \<le> j))"

definition less_cell :: "cell \<Rightarrow> cell \<Rightarrow> bool" where
  "less_cell a b = (a \<le> b \<and> \<not> b \<le> a)"

instance
  by standard (auto simp: less_eq_cell_def less_cell_def split: cell.splits)

end

lemma cell_less_simps [simp]:
  "Text s < Text t \<longleftrightarrow> s < t" "Num i < Num j \<longleftrightarrow> i < j" "Text s < Num j" "\<not> Num i < Text t"
  by (auto simp: less_cell_def less_eq_cell_def)

definition cell :: "Value \<Rightarrow> cell" where
  "cell v = (if Type v = TYPE_INT64 then Num (sint (I64 v)) else Text (Str v))"

text \<open>Values as the program builds them: the field that the type does not use is zero.\<close>

definition wf_value :: "Value \<Rightarrow> bool" where
  "wf_value v \<longleftrightarrow> Type v = TYPE_INT64 \<and> Str v = [] \<or> Type v = TYPE_BYTES \<and> I64 v = 0"

definition enc :: "Value \<Rightarrow> bytes" where
  "enc v = of_nat (Type v) #
     (if Type v = TYPE_INT64 then be_bytes 8 (unat (I64 v XOR sign_bit)) else escaped (Str v) @ [0])"

abbreviation enc_all :: "Value list \<Rightarrow> bytes" where
  "enc_all vals \<equiv> concat (map enc vals)"

lemma encodeValues_enc: "list_all wf_value vals \<Longrightarrow> encodeValues out vals = Some (out @ enc_all vals)"
  by (induction vals arbitrary: out)
     (auto simp: wf_value_def enc_def Let_def TYPE_INT64_def TYPE_BYTES_def)

lemma encodeKey_enc:
  "list_all wf_value vals \<Longrightarrow> encodeKey out pfx vals = Some (out @ be_bytes 4 pfx @ enc_all vals)"
  by (simp add: encodeKey_def encodeValues_enc)

section \<open>Round trip\<close>

lemma sign_bit_twice: "(x XOR sign_bit) XOR sign_bit = x"
  by (simp add: xor.assoc)

lemma be_val_word: "of_nat (be_val (be_bytes 8 (unat (x :: 64 word)))) = x"
proof -
  have "unat x < 256 ^ 8" using unsigned_less [of x, where ?'a = nat] by simp
  then show ?thesis by simp
qed

lemma split_null_append: "0 \<notin> set s \<Longrightarrow> split_null (s @ 0 # rest) = Some (s, rest)"
proof -
  assume "0 \<notin> set s"
  then have "\<forall>b \<in> set s. b \<noteq> 0" by auto
  then show ?thesis by (simp add: split_null_def)
qed

lemma decodeValues_enc:
  assumes "list_all wf_value vals"
  shows "decodeValues (enc_all vals) (map (\<lambda>v. zero_value (Type v)) vals) = Some vals"
  using assms
proof (induction vals)
  case (Cons v vals)
  show ?case
  proof (cases "Type v = TYPE_INT64")
    case True
    then show ?thesis
      using Cons by (cases v)
        (auto simp: enc_def zero_value_def slice_at_def sub_def be_val_word sign_bit_twice wf_value_def
          TYPE_INT64_def TYPE_BYTES_def)
  next
    case False
    then show ?thesis
      using Cons by (cases v)
        (auto simp: enc_def zero_value_def split_null_append escaped_no_null wf_value_def
          TYPE_INT64_def TYPE_BYTES_def)
  qed
qed simp

section \<open>Order\<close>

lemma be_bytes_Suc: "be_bytes (Suc n) v = be_bytes n (v div 256) @ [of_nat v]"
  by (simp add: be_bytes_def)

lemma be_bytes_less:
  assumes "a < 256 ^ n" "b < 256 ^ n"
  shows "be_bytes n a @ x < be_bytes n b @ y \<longleftrightarrow> a < b \<or> a = b \<and> x < y"
  using assms
proof (induction n arbitrary: a b x y)
  case (Suc n)
  have "a div 256 < 256 ^ n" "b div 256 < 256 ^ n"
    using Suc.prems by (simp_all add: less_mult_imp_div_less mult.commute)
  note IH = Suc.IH [OF this, of "of_nat a # x" "of_nat b # y"]
  have ab: "a = 256 * (a div 256) + a mod 256" "b = 256 * (b div 256) + b mod 256" by simp_all
  have "a < b \<longleftrightarrow> a div 256 < b div 256 \<or> a div 256 = b div 256 \<and> a mod 256 < b mod 256"
    using ab mod_less_divisor [of 256 a] mod_less_divisor [of 256 b] by linarith
  moreover have "a = b \<longleftrightarrow> a div 256 = b div 256 \<and> a mod 256 = b mod 256"
    using ab by metis
  moreover have "(of_nat a :: byte) < of_nat b \<longleftrightarrow> a mod 256 < b mod 256"
    "(of_nat a :: byte) = of_nat b \<longleftrightarrow> a mod 256 = b mod 256"
    by (simp_all add: word_less_nat_alt word_unat_eq_iff)
  ultimately show ?case using IH by (auto simp: be_bytes_Suc)
qed (simp add: be_bytes_def)

lemma unat_flip_sign: "int (unat (x XOR sign_bit)) = sint x + 2 ^ 63"
proof -
  have "uint (x XOR sign_bit) = flip_bit 63 (uint x)"
    by (simp add: sign_bit_def uint_xor flip_bit_eq_xor)
  also have "\<dots> = uint x + 2 ^ 63 - of_bool (bit x 63) * 2 ^ 64"
    by (auto simp: flip_bit_eq_if set_bit_eq unset_bit_eq bit_uint_iff)
  also have "\<dots> = sint x + 2 ^ 63"
    using unsigned_less [of x, where ?'a = int] unsigned_greater_eq [of x, where ?'a = int]
    by (simp add: sint_uint signed_take_bit_eq_take_bit_minus bit_uint_iff take_bit_eq_mod)
  finally show ?thesis by simp
qed

lemma esc_less:
  assumes "c < d"
  shows "esc c @ x < esc d @ y"
proof (cases "d \<le> 1")
  case True
  with assms show ?thesis by (auto simp: esc_def byte_le_1)
next
  case False
  then have "1 < d" by simp
  with assms False show ?thesis by (auto simp: esc_def)
qed

lemma esc_Cons: obtains b r where "esc c = b # r" "0 < b"
  using that by (cases "c \<le> 1") (auto simp: esc_def word_gt_0 byte_le_1)

lemma escaped_less:
  "escaped s @ 0 # x < escaped t @ 0 # y \<longleftrightarrow> s < t \<or> s = t \<and> x < (y :: bytes)"
proof (induction s arbitrary: t)
  case Nil
  show ?case
  proof (cases t)
    case (Cons d t')
    obtain b r where "esc d = b # r" "0 < b" by (rule esc_Cons)
    then show ?thesis using Cons by simp
  qed simp
next
  case (Cons c s)
  show ?case
  proof (cases t)
    case Nil
    obtain b r where "esc c = b # r" "0 < b" by (rule esc_Cons)
    then show ?thesis using Nil by auto
  next
    case (Cons d t')
    consider "c < d" | "c = d" | "d < c" by force
    then show ?thesis
    proof cases
      case 1
      then show ?thesis using Cons esc_less [OF 1] by auto
    next
      case 2
      then show ?thesis using Cons Cons.IH by simp
    next
      case 3
      then show ?thesis using Cons less_asym [OF esc_less [OF 3]] by auto
    qed
  qed
qed

lemma enc_less:
  assumes "wf_value v" "wf_value w"
  shows "enc v @ x < enc w @ y \<longleftrightarrow> cell v < cell w \<or> cell v = cell w \<and> x < y"
proof -
  have u: "unat (a XOR sign_bit) < 256 ^ 8" for a
    using unsigned_less [of "a XOR sign_bit", where ?'a = nat] by simp
  have num: "be_bytes 8 (unat (a XOR sign_bit)) @ x < be_bytes 8 (unat (b XOR sign_bit)) @ y
      \<longleftrightarrow> sint a < sint b \<or> sint a = sint b \<and> x < y" for a b
    unfolding be_bytes_less [OF u u] using unat_flip_sign [of a] unat_flip_sign [of b] by linarith
  show ?thesis
    using assms num escaped_less
    by (auto simp: enc_def cell_def wf_value_def TYPE_INT64_def TYPE_BYTES_def)
qed

lemma enc_all_less:
  assumes "list_all wf_value vs" "list_all wf_value ws"
  shows "enc_all vs < enc_all ws \<longleftrightarrow> map cell vs < map cell ws"
  using assms
proof (induction vs ws rule: list_induct2')
  case (4 v vs w ws)
  then show ?case using enc_less [of v w "enc_all vs" "enc_all ws"] by auto
qed (simp_all add: enc_def)

lemma enc_all_append_less:
  assumes "list_all wf_value vs" "list_all wf_value ws" "length vs = length ws"
  shows "enc_all vs @ x < enc_all ws @ y \<longleftrightarrow> map cell vs < map cell ws \<or> map cell vs = map cell ws \<and> x < y"
  using assms(3,1,2)
  by (induction vs ws rule: list_induct2) (auto simp: enc_less)

lemma enc_all_not_above: "list_all wf_value vs \<Longrightarrow> \<not> [255] < enc_all vs"
  by (cases vs) (auto simp: enc_def wf_value_def TYPE_INT64_def TYPE_BYTES_def)

lemma key_less:
  assumes "a < 2 ^ 32" "b < 2 ^ 32"
  shows "be_bytes 4 a @ x < be_bytes 4 b @ y \<longleftrightarrow> a < b \<or> a = b \<and> x < y"
  using be_bytes_less [of a 4 b] assms by simp

lemma partial_key_less:
  assumes vs: "list_all wf_value vs" and ps: "list_all wf_value ps" "length ps \<le> length vs"
  shows "enc_all vs < enc_all ps @ y \<longleftrightarrow> map cell (take (length ps) vs) < map cell ps
      \<or> map cell (take (length ps) vs) = map cell ps \<and> enc_all (drop (length ps) vs) < y"
    and "enc_all ps @ y < enc_all vs \<longleftrightarrow> map cell ps < map cell (take (length ps) vs)
      \<or> map cell ps = map cell (take (length ps) vs) \<and> y < enc_all (drop (length ps) vs)"
proof -
  let ?t = "take (length ps) vs" and ?d = "drop (length ps) vs"
  have wf: "list_all wf_value ?t" using vs by (auto simp: list_all_iff dest: in_set_takeD)
  have split: "enc_all vs = enc_all ?t @ enc_all ?d"
    by (simp only: concat_append [symmetric] map_append [symmetric] append_take_drop_id)
  have len: "length ?t = length ps" using ps(2) by simp
  show "enc_all vs < enc_all ps @ y \<longleftrightarrow> map cell ?t < map cell ps \<or> map cell ?t = map cell ps \<and> enc_all ?d < y"
    unfolding split by (rule enc_all_append_less [OF wf ps(1) len])
  show "enc_all ps @ y < enc_all vs \<longleftrightarrow> map cell ps < map cell ?t \<or> map cell ps = map cell ?t \<and> y < enc_all ?d"
    unfolding split by (rule enc_all_append_less [OF ps(1) wf len [symmetric]])
qed

text \<open>The byte that makes a partial key stand above every key it is a prefix of.\<close>

definition key_pad :: "int \<Rightarrow> bytes" where
  "key_pad cmp = (if cmp = CMP_GT \<or> cmp = CMP_LE then [255] else [])"

lemma encodeKeyPartial_pad:
  "encodeKey [] q ps = Some k \<Longrightarrow> encodeKeyPartial [] q ps cmp = Some (k @ key_pad cmp)"
  by (simp add: encodeKeyPartial_def key_pad_def)

lemma partial_key_holds:
  assumes "valid_cmp cmp" "list_all wf_value vs" "list_all wf_value ps" "length ps \<le> length vs"
    and "p < 2 ^ 32" "q < 2 ^ 32"
  shows "cmp_holds cmp (be_bytes 4 p @ enc_all vs) (be_bytes 4 q @ enc_all ps @ key_pad cmp) \<longleftrightarrow>
    (if p = q then cmp_holds cmp (map cell (take (length ps) vs)) (map cell ps) else cmp_holds cmp p q)"
proof -
  have top: "\<not> [255] < enc_all (drop (length ps) vs)"
    using enc_all_not_above [of "drop (length ps) vs"] assms(2) by (auto simp: list_all_iff dest: in_set_dropD)
  define L R ct cp where d: "L = be_bytes 4 p @ enc_all vs" "R = be_bytes 4 q @ enc_all ps @ key_pad cmp"
    "ct = map cell (take (length ps) vs)" "cp = map cell ps"
  have LR: "L < R \<longleftrightarrow> p < q \<or> p = q \<and> (ct < cp \<or> ct = cp \<and> enc_all (drop (length ps) vs) < key_pad cmp)"
    unfolding d using partial_key_less(1) [OF assms(2-4), of "key_pad cmp"] key_less [OF assms(5,6)] by simp
  have RL: "R < L \<longleftrightarrow> q < p \<or> q = p \<and> (cp < ct \<or> cp = ct \<and> key_pad cmp < enc_all (drop (length ps) vs))"
    unfolding d using partial_key_less(2) [OF assms(2-4), of "key_pad cmp"] key_less [OF assms(6,5)] by simp
  consider "cmp = CMP_GE" | "cmp = CMP_GT" | "cmp = CMP_LT" | "cmp = CMP_LE"
    using assms(1) by (auto simp: valid_cmp_def)
  then have "cmp_holds cmp L R = (if p = q then cmp_holds cmp ct cp else cmp_holds cmp p q)"
  proof cases
    case 1
    then show ?thesis using LR by (auto simp: key_pad_def cmp_holds_def not_less [symmetric] CMP_GE_def CMP_GT_def CMP_LE_def)
  next
    case 2
    then show ?thesis using RL top by (auto simp: key_pad_def cmp_holds_def CMP_GE_def CMP_GT_def)
  next
    case 3
    then show ?thesis using LR by (auto simp: key_pad_def cmp_holds_def CMP_GE_def CMP_GT_def CMP_LT_def CMP_LE_def)
  next
    case 4
    then show ?thesis using RL top
      by (auto simp: key_pad_def cmp_holds_def not_less [symmetric] CMP_GE_def CMP_GT_def CMP_LT_def CMP_LE_def)
  qed
  then show ?thesis by (simp only: d)
qed

section \<open>Properties\<close>

text \<open>Escaping of strings round-trips: whatever bytes a string holds, the escaped form has no
  null byte and unescaping gives the string back.\<close>

lemma escape_roundtrip:
  "\<exists>e. escapeString s = Some e \<and> 0 \<notin> set e \<and> unescapeString e = Some s"
  using escaped_no_null [of s] by simp

text \<open>C23: the encoding of rows and keys round-trips: decoding an encoded key against the column
  types gives back the values, for every list of well-formed values and every prefix.\<close>

theorem encodeKey_roundtrip:
  assumes "list_all wf_value vals"
  shows "\<exists>k. encodeKey [] pfx vals = Some k \<and> decodeKey k (map (\<lambda>v. zero_value (Type v)) vals) = Some vals"
  using encodeKey_enc [OF assms, of "[]" pfx] decodeValues_enc [OF assms] by (simp add: decodeKey_def)

theorem encodeKey_roundtrip_witness:
  "\<exists>k. encodeKey [] 100 [\<lparr>Type = 1, I64 = 0, Str = [0, 1, 7]\<rparr>, \<lparr>Type = 2, I64 = -5, Str = []\<rparr>] = Some k
     \<and> decodeKey k [zero_value 1, zero_value 2]
       = Some [\<lparr>Type = 1, I64 = 0, Str = [0, 1, 7]\<rparr>, \<lparr>Type = 2, I64 = -5, Str = []\<rparr>]"
  using encodeKey_roundtrip [of "[\<lparr>Type = 1, I64 = 0, Str = [0, 1, 7]\<rparr>, \<lparr>Type = 2, I64 = -5, Str = []\<rparr>]" 100]
  by (simp add: wf_value_def TYPE_BYTES_def TYPE_INT64_def)

text \<open>C22: keys compare like rows. For any comparison operator, the index key of a row satisfies
  the operator against an encoded query key exactly when the prefix does or, for equal
  prefixes, when the row's first columns satisfy it against the query's columns. The query
  may give fewer columns than the index has: the missing ones act as the infinity the
  operator needs. Numbers are compared as signed integers, strings bytewise.\<close>

theorem partial_key_order:
  assumes "valid_cmp cmp" "list_all wf_value vs" "list_all wf_value ps" "length ps \<le> length vs"
    and "p < 2 ^ 32" "q < 2 ^ 32"
  shows "\<exists>key bound. encodeKey [] p vs = Some key \<and> encodeKeyPartial [] q ps cmp = Some bound
    \<and> cmpOK key cmp bound = Some (if p = q then cmp_holds cmp (map cell (take (length ps) vs)) (map cell ps)
        else cmp_holds cmp p q)"
  using encodeKey_enc [OF assms(2)] encodeKeyPartial_pad [OF encodeKey_enc [OF assms(3)]] partial_key_holds [OF assms]
    cmpOK_holds [OF assms(1)] by simp

theorem partial_key_order_witness:
  "\<exists>key bound. encodeKey [] 100 [\<lparr>Type = 2, I64 = -1, Str = []\<rparr>, \<lparr>Type = 1, I64 = 0, Str = [0]\<rparr>] = Some key
     \<and> encodeKeyPartial [] 100 [\<lparr>Type = 2, I64 = 3, Str = []\<rparr>] CMP_LE = Some bound \<and> cmpOK key CMP_LE bound = Some True"
  using partial_key_order [of CMP_LE "[\<lparr>Type = 2, I64 = -1, Str = []\<rparr>, \<lparr>Type = 1, I64 = 0, Str = [0]\<rparr>]"
      "[\<lparr>Type = 2, I64 = 3, Str = []\<rparr>]" 100 100]
  by (simp add: wf_value_def TYPE_BYTES_def TYPE_INT64_def valid_cmp_def cell_def cmp_holds_def
      CMP_GE_def CMP_GT_def CMP_LT_def CMP_LE_def)

end
