(* ===== verification/BIter.thy ===== *)
theory BIter
  imports TreeRoot Codec
begin

text \<open>
  The B+tree iterator of \<^verbatim>\<open>db/btree_iter.go\<close>: the path from the root to a leaf with a position
  in each node, seeking, and moving by one key in either direction.
\<close>

section \<open>Definitions\<close>

record BIter =
  path :: "BNode list"
  pos :: "nat list"

text \<open>The loop of \<^verbatim>\<open>SeekLE\<close>; the fuel bounds the length of the path.\<close>

fun seekLoop :: "'s callbacks \<Rightarrow> 's \<Rightarrow> nat \<Rightarrow> bytes \<Rightarrow> nat \<Rightarrow> BIter \<Rightarrow> BIter option" where
  "seekLoop cb s fuel key ptr it =
     (if ptr = 0 then Some it
      else case fuel of
        0 \<Rightarrow> None
      | Suc f \<Rightarrow> do {
          node \<leftarrow> tree_get cb s ptr;
          idx \<leftarrow> nodeLookupLE node key;
          p \<leftarrow> getPtr node idx;
          seekLoop cb s f key p \<lparr>path = path it @ [node], pos = pos it @ [idx]\<rparr>
        })"

definition SeekLE :: "'s callbacks \<Rightarrow> 's \<Rightarrow> nat \<Rightarrow> nat \<Rightarrow> bytes \<Rightarrow> BIter option" where
  "SeekLE cb s fuel root key = seekLoop cb s fuel key root \<lparr>path = [], pos = []\<rparr>"

definition iterIsFirst :: "BIter \<Rightarrow> bool" where
  "iterIsFirst it = list_all (\<lambda>p. p = 0) (pos it)"

definition iterIsEnd :: "BIter \<Rightarrow> bool option" where
  "iterIsEnd it =
     (if path it = [] then Some True
      else do {
        p \<leftarrow> list_at (pos it) (length (path it) - 1);
        n \<leftarrow> nkeys (last (path it));
        Some (p = n)
      })"

definition iterValid :: "BIter \<Rightarrow> bool option" where
  "iterValid it = (if iterIsFirst it then Some False else do { e \<leftarrow> iterIsEnd it; Some (\<not> e) })"

definition iterDeref :: "BIter \<Rightarrow> (bytes \<times> bytes) option" where
  "iterDeref it = do {
     valid \<leftarrow> iterValid it;
     _ \<leftarrow> go_assert valid;
     node \<leftarrow> list_at (path it) (length (path it) - 1);
     p \<leftarrow> list_at (pos it) (length (path it) - 1);
     k \<leftarrow> getKey node p;
     v \<leftarrow> getVal node p;
     Some (k, v)
   }"

text \<open>The tail of \<^verbatim>\<open>iterNext\<close> and \<^verbatim>\<open>iterPrev\<close>: reload the kid below \<open>level\<close>, if there is one.\<close>

definition reloadKid :: "'s callbacks \<Rightarrow> 's \<Rightarrow> (BNode \<Rightarrow> nat option) \<Rightarrow> nat \<Rightarrow> BIter \<Rightarrow> BIter option" where
  "reloadKid cb s first level it =
     (if level + 1 < length (pos it) then do {
        node \<leftarrow> list_at (path it) level;
        p \<leftarrow> list_at (pos it) level;
        ptr \<leftarrow> getPtr node p;
        kid \<leftarrow> tree_get cb s ptr;
        i \<leftarrow> first kid;
        path' \<leftarrow> list_set (path it) (level + 1) kid;
        pos' \<leftarrow> list_set (pos it) (level + 1) i;
        Some \<lparr>path = path', pos = pos'\<rparr>
      } else Some it)"

text \<open>The position at \<open>level\<close> moves by one.\<close>

definition setPos :: "BIter \<Rightarrow> nat \<Rightarrow> nat \<Rightarrow> BIter option" where
  "setPos it level p = do { pos' \<leftarrow> list_set (pos it) level p; Some (it\<lparr>pos := pos'\<rparr>) }"

fun iterNext :: "'s callbacks \<Rightarrow> 's \<Rightarrow> BIter \<Rightarrow> nat \<Rightarrow> BIter option" where
  "iterNext cb s it level = do {
     p \<leftarrow> list_at (pos it) level;
     node \<leftarrow> list_at (path it) level;
     n \<leftarrow> nkeys node;
     (if u16 (p + 1) < n then do {
        it \<leftarrow> setPos it level (u16 (p + 1));
        reloadKid cb s (\<lambda>kid. Some 0) level it
      }
      else case level of
        Suc l \<Rightarrow> do {
          it \<leftarrow> iterNext cb s it l;
          reloadKid cb s (\<lambda>kid. Some 0) level it
        }
      | 0 \<Rightarrow> do {
          let leaf = length (pos it) - 1;
          pl \<leftarrow> list_at (pos it) leaf;
          it \<leftarrow> setPos it leaf (u16 (pl + 1));
          leafNode \<leftarrow> list_at (path it) leaf;
          n \<leftarrow> nkeys leafNode;
          _ \<leftarrow> go_assert (u16 (pl + 1) = n);
          Some it
        })
   }"

fun iterPrev :: "'s callbacks \<Rightarrow> 's \<Rightarrow> BIter \<Rightarrow> nat \<Rightarrow> BIter option" where
  "iterPrev cb s it level = do {
     p \<leftarrow> list_at (pos it) level;
     it \<leftarrow> (if p > 0 then setPos it level (p - 1)
            else case level of Suc l \<Rightarrow> iterPrev cb s it l | 0 \<Rightarrow> None);
     reloadKid cb s (\<lambda>kid. do { n \<leftarrow> nkeys kid; Some (sub16 n 1) }) level it
   }"

declare seekLoop.simps [simp del] iterNext.simps [simp del] iterPrev.simps [simp del]

definition iter_Next :: "'s callbacks \<Rightarrow> 's \<Rightarrow> BIter \<Rightarrow> BIter option" where
  "iter_Next cb s it = do {
     e \<leftarrow> iterIsEnd it;
     (if \<not> e then iterNext cb s it (length (path it) - 1) else Some it)
   }"

definition iter_Prev :: "'s callbacks \<Rightarrow> 's \<Rightarrow> BIter \<Rightarrow> BIter option" where
  "iter_Prev cb s it =
     (if \<not> iterIsFirst it then iterPrev cb s it (length (path it) - 1) else Some it)"

definition btree_Seek :: "'s callbacks \<Rightarrow> 's \<Rightarrow> nat \<Rightarrow> nat \<Rightarrow> bytes \<Rightarrow> int \<Rightarrow> BIter option" where
  "btree_Seek cb s fuel root key cmp = do {
     it \<leftarrow> SeekLE cb s fuel root key;
     e \<leftarrow> iterIsEnd it;
     _ \<leftarrow> go_assert (iterIsFirst it \<or> \<not> e);
     it \<leftarrow> (if cmp \<noteq> CMP_LE then do {
         cur \<leftarrow> (if \<not> iterIsFirst it then do { (k, v) \<leftarrow> iterDeref it; Some k } else Some []);
         ok \<leftarrow> cmpOK cur cmp key;
         (if \<not> ok then (if cmp > 0 then iter_Next cb s it else iter_Prev cb s it) else Some it)
       } else Some it);
     valid \<leftarrow> iterValid it;
     (if valid then do {
        (k, v) \<leftarrow> iterDeref it;
        ok \<leftarrow> cmpOK k cmp key;
        _ \<leftarrow> go_assert ok;
        Some it
      } else Some it)
   }"

section \<open>The nodes of a level\<close>

text \<open>
  \<open>level d t\<close> lists the nodes at depth \<open>d\<close> from left to right. The entries of one level, in
  order, are the nodes of the next; an iterator is a chain of such positions.
\<close>

fun kid_trees :: "shape \<Rightarrow> shape list" where
  "kid_trees (SLeaf es) = []"
| "kid_trees (SNode ks) = map kid_tree ks"

primrec nodes_at :: "nat \<Rightarrow> shape \<Rightarrow> shape list" where
  "nodes_at 0 t = [t]"
| "nodes_at (Suc d) t = concat (map kid_trees (nodes_at d t))"

definition width :: "shape \<Rightarrow> nat" where
  "width t = length (entries_of t)"

definition before :: "shape list \<Rightarrow> nat \<Rightarrow> nat" where
  "before ts r = sum_list (map width (take r ts))"

lemma before_0 [simp]: "before ts 0 = 0"
  by (simp add: before_def)

lemma before_Suc: "r < length ts \<Longrightarrow> before ts (Suc r) = before ts r + width (ts ! r)"
  by (simp add: before_def take_Suc_conv_app_nth)

lemma before_mono: "r \<le> r' \<Longrightarrow> before ts r \<le> before ts r'"
  by (simp add: before_def) (metis le_add1 map_append sum_list_append take_add le_iff_add)

lemma concat_nth:
  assumes "r < length xss" "i < length (xss ! r)"
  shows "concat xss ! (sum_list (map length (take r xss)) + i) = xss ! r ! i"
    and "sum_list (map length (take r xss)) + i < length (concat xss)"
proof -
  have eq: "concat xss = concat (take r xss) @ xss ! r @ concat (drop (Suc r) xss)"
    by (subst (1) id_take_nth_drop [OF assms(1)]) simp
  have len: "length (concat (take r xss)) = sum_list (map length (take r xss))"
    by (simp add: length_concat)
  show "concat xss ! (sum_list (map length (take r xss)) + i) = xss ! r ! i"
    by (subst eq) (use assms(2) len in \<open>simp add: nth_append\<close>)
  show "sum_list (map length (take r xss)) + i < length (concat xss)"
    by (subst eq) (use assms(2) len in simp)
qed

text \<open>Below an inner level the nodes are the kids, at the bottom the entries are the pairs.\<close>

definition sound :: "(nat \<Rightarrow> BNode option) \<Rightarrow> nat \<Rightarrow> shape \<Rightarrow> bool" where
  "sound v h t \<longleftrightarrow> wf_shape h t \<and> stored v t \<and> kvs_of t \<noteq> []"

lemma sound_cases:
  assumes "sound v h t"
  obtains (leaf) es where "h = 0" "t = SLeaf es" "es \<noteq> []"
    | (node) h' ks where "h = Suc h'" "t = SNode ks" "ks \<noteq> []" "\<forall>c \<in> set ks. wf_kid h' c \<and> stored_kid v c"
      "\<forall>c \<in> set ks. sound v h' (kid_tree c)"
proof -
  have wf: "wf_shape h t" using assms by (simp add: sound_def)
  then show ?thesis
  proof (cases rule: wf_shape_cases)
    case (leaf es)
    with assms that(1) show ?thesis by (simp add: sound_def)
  next
    case (node h' ks)
    then have "\<forall>c \<in> set ks. wf_kid h' c \<and> stored_kid v c" "ks \<noteq> []" using assms by (auto simp: sound_def)
    with node that(2) show ?thesis by (auto simp: sound_def wf_kid_def stored_kid_def)
  qed
qed

lemma sound_width: "sound v h t \<Longrightarrow> 0 < width t"
  by (erule sound_cases) (simp_all add: width_def)

lemma nodes_at_sound: "sound v h t \<Longrightarrow> d \<le> h \<Longrightarrow> n \<in> set (nodes_at d t) \<Longrightarrow> sound v (h - d) n"
proof (induction d arbitrary: n)
  case (Suc d)
  then obtain m where m: "m \<in> set (nodes_at d t)" "n \<in> set (kid_trees m)" by auto
  have "sound v (h - d) m" using Suc m(1) by simp
  moreover have "h - d = Suc (h - Suc d)" using Suc.prems(2) by simp
  ultimately have "sound v (Suc (h - Suc d)) m" by simp
  then show ?case
    by (rule sound_cases) (use m(2) in auto)
qed simp

lemma kid_trees_width: "sound v (Suc h) t \<Longrightarrow> length (kid_trees t) = width t"
  by (erule sound_cases) (simp_all add: width_def)

lemma kids_of_level:
  assumes "\<forall>n \<in> set ts. sound v (Suc h) n" "r < length ts"
  shows "sum_list (map length (take r (map kid_trees ts))) = before ts r"
    and "length (kid_trees (ts ! r)) = width (ts ! r)"
proof -
  have "map length (map kid_trees (take r ts)) = map width (take r ts)"
    using assms(1) kid_trees_width [of v h] by (auto dest: in_set_takeD)
  then show "sum_list (map length (take r (map kid_trees ts))) = before ts r"
    using arg_cong [of _ _ sum_list] by (metis before_def take_map)
  show "length (kid_trees (ts ! r)) = width (ts ! r)"
    using assms kid_trees_width nth_mem by blast
qed

lemma level_down:
  assumes "sound v h t" "d < h" "r < length (nodes_at d t)" "i < width (nodes_at d t ! r)"
  shows "before (nodes_at d t) r + i < length (nodes_at (Suc d) t)"
    and "nodes_at (Suc d) t ! (before (nodes_at d t) r + i) = kid_trees (nodes_at d t ! r) ! i"
proof -
  let ?ts = "nodes_at d t"
  have ts: "\<forall>n \<in> set ?ts. sound v (Suc (h - Suc d)) n"
    using nodes_at_sound [OF assms(1), of d] assms(2) by (auto simp: Suc_diff_Suc)
  note k = kids_of_level [OF ts assms(3)]
  note c = concat_nth [of r "map kid_trees ?ts" i, unfolded k(1)]
  show "before ?ts r + i < length (nodes_at (Suc d) t)"
    using c(2) assms(3,4) k(2) by simp
  show "nodes_at (Suc d) t ! (before ?ts r + i) = kid_trees (?ts ! r) ! i"
    using c(1) assms(3,4) k(2) by simp
qed

definition total :: "nat \<Rightarrow> shape \<Rightarrow> nat" where
  "total d t = before (nodes_at d t) (length (nodes_at d t))"

lemma total_inner:
  assumes "sound v h t" "d < h"
  shows "total d t = length (nodes_at (Suc d) t)"
proof -
  have "map length (map kid_trees (nodes_at d t)) = map width (nodes_at d t)"
    using nodes_at_sound [OF assms(1), of d] assms(2) kid_trees_width [of v "h - Suc d"]
    by (auto simp: Suc_diff_Suc)
  then have "sum_list (map length (map kid_trees (nodes_at d t))) = sum_list (map width (nodes_at d t))"
    by (rule arg_cong)
  then show ?thesis by (simp add: total_def before_def length_concat)
qed

text \<open>All pairs, seen from one level.\<close>

definition kvs_all :: "shape list \<Rightarrow> kv list" where
  "kvs_all ts = concat (map kvs_of ts)"

lemma kvs_all_simps [simp]:
  "kvs_all [] = []" "kvs_all (t # ts) = kvs_of t @ kvs_all ts" "kvs_all (ts @ ts') = kvs_all ts @ kvs_all ts'"
  by (simp_all add: kvs_all_def)

lemma kvs_all_kids: "\<forall>n \<in> set ts. sound v (Suc h) n \<Longrightarrow> kvs_all (concat (map kid_trees ts)) = kvs_all ts"
proof (induction ts)
  case (Cons t ts)
  then have "sound v (Suc h) t" by simp
  then have "kvs_all (kid_trees t) = kvs_of t"
    by (rule sound_cases) (simp_all add: kvs_all_def kids_kvs_def comp_def)
  with Cons show ?case by simp
qed simp

lemma kvs_all_level: "sound v h t \<Longrightarrow> d \<le> h \<Longrightarrow> kvs_all (nodes_at d t) = kvs_of t"
proof (induction d)
  case (Suc d)
  have "\<forall>n \<in> set (nodes_at d t). sound v (Suc (h - Suc d)) n"
    using nodes_at_sound [OF Suc.prems(1), of d] Suc.prems(2) by (auto simp: Suc_diff_Suc)
  with kvs_all_kids Suc show ?case by simp
qed simp

lemma leaves_length: "\<forall>n \<in> set ts. sound v 0 n \<Longrightarrow> length (kvs_all ts) = sum_list (map width ts)"
  by (induction ts) (auto simp: width_def elim!: sound_cases)

lemma total_leaves:
  assumes "sound v h t"
  shows "total h t = length (kvs_of t)"
  using leaves_length [of "nodes_at h t" v] nodes_at_sound [OF assms, of h] kvs_all_level [OF assms, of h]
  by (simp add: total_def before_def)

lemma leaf_entry:
  assumes "sound v h t" "r < length (nodes_at h t)" "i < width (nodes_at h t ! r)"
  shows "kvs_of t ! (before (nodes_at h t) r + i) = snd (entries_of (nodes_at h t ! r) ! i)"
    and "before (nodes_at h t) r + i < length (kvs_of t)"
proof -
  let ?ts = "nodes_at h t"
  have ts: "\<forall>n \<in> set ?ts. sound v 0 n" using nodes_at_sound [OF assms(1), of h] by simp
  have leaf: "kvs_of n = map snd (entries_of n)" if "n \<in> set ?ts" for n
    using ts that by (auto elim!: sound_cases)
  then have len: "map length (map kvs_of (take r ?ts)) = map width (take r ?ts)"
    by (auto simp: width_def dest: in_set_takeD)
  have r: "?ts ! r \<in> set ?ts" using assms(2) by simp
  note c = concat_nth [of r "map kvs_of ?ts" i]
  have kvs: "concat (map kvs_of ?ts) = kvs_of t" using kvs_all_level [OF assms(1), of h] by (simp add: kvs_all_def)
  have b: "sum_list (map length (take r (map kvs_of ?ts))) = before ?ts r"
    using arg_cong [OF len, of sum_list] by (simp add: before_def take_map)
  show "kvs_of t ! (before ?ts r + i) = snd (entries_of (?ts ! r) ! i)"
    "before ?ts r + i < length (kvs_of t)"
    using c assms(2,3) leaf [OF r] unfolding kvs b by (simp_all add: width_def)
qed

section \<open>Where an iterator stands\<close>

primrec row :: "shape \<Rightarrow> nat list \<Rightarrow> nat \<Rightarrow> nat" where
  "row t ps 0 = 0"
| "row t ps (Suc d) = before (nodes_at d t) (row t ps d) + ps ! d"

lemma row_cong: "(\<And>e. e < d \<Longrightarrow> ps ! e = ps' ! e) \<Longrightarrow> row t ps d = row t ps' d"
  by (induction d) simp_all

definition node_on :: "shape \<Rightarrow> BIter \<Rightarrow> nat \<Rightarrow> shape" where
  "node_on t it d = nodes_at d t ! row t (pos it) d"

text \<open>Level \<open>d\<close> of the iterator is in order.\<close>

definition level_ok :: "shape \<Rightarrow> BIter \<Rightarrow> nat \<Rightarrow> bool" where
  "level_ok t it d \<longleftrightarrow> row t (pos it) d < length (nodes_at d t) \<and> pos it ! d < width (node_on t it d)
     \<and> node_rep (path it ! d) (stype (node_on t it d)) (entries_of (node_on t it d))"

definition ok_to :: "nat \<Rightarrow> shape \<Rightarrow> BIter \<Rightarrow> nat \<Rightarrow> bool" where
  "ok_to h t it d \<longleftrightarrow> length (path it) = Suc h \<and> length (pos it) = Suc h \<and> d \<le> h \<and> (\<forall>e \<le> d. level_ok t it e)"

text \<open>The iterator stands on the pair number \<open>r\<close> of the tree.\<close>

definition iter_at :: "nat \<Rightarrow> shape \<Rightarrow> BIter \<Rightarrow> nat \<Rightarrow> bool" where
  "iter_at h t it r \<longleftrightarrow> ok_to h t it h \<and> row t (pos it) (Suc h) = r"

lemma level_ok_nkeys: "level_ok t it d \<Longrightarrow> nkeys (path it ! d) = Some (width (node_on t it d))"
  by (auto simp: level_ok_def width_def dest: node_rep_readers(1))

lemma level_ok_small: "level_ok t it d \<Longrightarrow> pos it ! d < 6554"
  using node_rep_bounds(3) by (force simp: level_ok_def width_def)

lemma level_ok_cong:
  assumes "\<And>e. e \<le> d \<Longrightarrow> pos it' ! e = pos it ! e" "path it' ! d = path it ! d" "level_ok t it d"
  shows "level_ok t it' d"
proof -
  have "row t (pos it') d = row t (pos it) d" by (rule row_cong) (simp add: assms(1))
  with assms show ?thesis by (simp add: level_ok_def node_on_def)
qed

lemma ok_to_mono: "ok_to h t it d \<Longrightarrow> e \<le> d \<Longrightarrow> ok_to h t it e"
  by (auto simp: ok_to_def)

lemma ok_to_Suc: "ok_to h t it (Suc d) \<longleftrightarrow> ok_to h t it d \<and> Suc d \<le> h \<and> level_ok t it (Suc d)"
  by (auto simp: ok_to_def le_Suc_eq)

declare nodes_at.simps(2) [simp del] row.simps(2) [simp del]

text \<open>One level of the recursions, unfolded.\<close>

lemma iterNext_here:
  assumes "level_ok t it l" "l < length (path it)" "l < length (pos it)" "pos it ! l + 1 < width (node_on t it l)"
  shows "iterNext cb s it l = do { it \<leftarrow> setPos it l (pos it ! l + 1); reloadKid cb s (\<lambda>kid. Some 0) l it }"
  using assms level_ok_nkeys [OF assms(1)] level_ok_small [OF assms(1)]
  by (simp add: iterNext.simps [of _ _ _ l])

lemma iterNext_up:
  assumes "level_ok t it (Suc l)" "Suc l < length (path it)" "Suc l < length (pos it)"
    and "\<not> pos it ! Suc l + 1 < width (node_on t it (Suc l))"
  shows "iterNext cb s it (Suc l) = do { it \<leftarrow> iterNext cb s it l; reloadKid cb s (\<lambda>kid. Some 0) (Suc l) it }"
  using assms level_ok_nkeys [OF assms(1)] level_ok_small [OF assms(1)]
  by (simp add: iterNext.simps [of _ _ _ "Suc l"])

abbreviation last_entry :: "BNode \<Rightarrow> nat option" where
  "last_entry kid \<equiv> do { n \<leftarrow> nkeys kid; Some (sub16 n 1) }"

lemma iterPrev_here:
  assumes "l < length (pos it)" "0 < pos it ! l"
  shows "iterPrev cb s it l = do { it \<leftarrow> setPos it l (pos it ! l - 1); reloadKid cb s last_entry l it }"
  using assms by (simp add: iterPrev.simps [of _ _ _ l])

lemma iterPrev_up:
  assumes "Suc l < length (pos it)" "pos it ! Suc l = 0"
  shows "iterPrev cb s it (Suc l) = do { it \<leftarrow> iterPrev cb s it l; reloadKid cb s last_entry (Suc l) it }"
  using assms by (simp add: iterPrev.simps [of _ _ _ "Suc l"])

context pager
begin

text \<open>Reloading the kid below a level puts the next level in order.\<close>

lemma reload_ok:
  assumes inv: "inv s" and t: "sound (view s) h t" and ok: "ok_to h t it l" and l: "l < h"
    and first: "\<And>b. nkeys b = Some (width (node_on t it (Suc l))) \<Longrightarrow> first b = Some i"
    and i: "i < width (node_on t it (Suc l))"
  obtains it' where "reloadKid cb s first l it = Some it'" "ok_to h t it' (Suc l)" "pos it' ! Suc l = i"
    "pos it' = (pos it)[Suc l := i]" "row t (pos it') (Suc l) = row t (pos it) (Suc l)"
proof -
  let ?n = "node_on t it l" and ?r = "row t (pos it) l" and ?i = "pos it ! l"
  have lens: "length (path it) = Suc h" "length (pos it) = Suc h" and lv: "level_ok t it l"
    using ok by (auto simp: ok_to_def)
  have r: "?r < length (nodes_at l t)" "?i < width (nodes_at l t ! ?r)"
    using lv by (simp_all add: level_ok_def node_on_def)
  have sn: "sound (view s) (Suc (h - Suc l)) ?n"
    using nodes_at_sound [OF t, of l ?n] r(1) l by (simp add: node_on_def Suc_diff_Suc)
  obtain ks where ks: "?n = SNode ks" "\<forall>c \<in> set ks. wf_kid (h - Suc l) c \<and> stored_kid (view s) c"
    using sn by (rule sound_cases) auto
  have ik: "?i < length ks" using r(2) ks(1) by (simp add: width_def node_on_def)
  let ?c = "ks ! ?i"
  have down: "row t (pos it) (Suc l) < length (nodes_at (Suc l) t)" "node_on t it (Suc l) = kid_tree ?c"
    using level_down [OF t l r] ks(1) ik by (simp_all add: node_on_def row.simps(2))
  have ptr: "getPtr (path it ! l) ?i = Some (kid_ptr ?c)"
    using lv ks(1) ik node_rep_readers(3) [of "path it ! l" BNODE_NODE "map kid_entry ks" ?i]
    by (simp add: level_ok_def kid_entry_def)
  obtain b where b: "view s (kid_ptr ?c) = Some b" "node_rep b (stype (kid_tree ?c)) (entries_of (kid_tree ?c))"
    using ks(2) nth_mem [OF ik] unfolding stored_kid_def by blast
  have fi: "first b = Some i" using first node_rep_readers(1) [OF b(2)] down(2) by (simp add: width_def)
  let ?it = "\<lparr>path = (path it)[Suc l := b], pos = (pos it)[Suc l := i]\<rparr>"
  have row: "row t (pos ?it) e = row t (pos it) e" if "e \<le> Suc l" for e
    by (rule row_cong) (use that in simp)
  have "reloadKid cb s first l it = Some ?it"
    using lens l ptr get_ok [OF inv b(1)] fi by (simp add: reloadKid_def)
  moreover have "level_ok t ?it e" if "e \<le> l" for e
    by (rule level_ok_cong [of e ?it it]) (use that ok in \<open>auto simp: ok_to_def\<close>)
  moreover have on: "node_on t ?it (Suc l) = node_on t it (Suc l)"
    using row [of "Suc l"] by (simp only: node_on_def)
  then have "level_ok t ?it (Suc l)"
    using row [of "Suc l"] down b(2) i lens l unfolding level_ok_def on by simp
  ultimately show ?thesis
    using that [of ?it] lens l row [of "Suc l"] by (simp add: ok_to_def le_Suc_eq)
qed

lemma setPos_ok:
  assumes "ok_to h t it l" "i < width (node_on t it l)"
  obtains it' where "setPos it l i = Some it'" "ok_to h t it' l" "pos it' = (pos it)[l := i]"
    "row t (pos it') (Suc l) = before (nodes_at l t) (row t (pos it) l) + i"
proof -
  let ?it = "it\<lparr>pos := (pos it)[l := i]\<rparr>"
  have lens: "length (path it) = Suc h" "length (pos it) = Suc h" "l \<le> h" using assms(1) by (auto simp: ok_to_def)
  have row: "row t (pos ?it) e = row t (pos it) e" if "e \<le> l" for e
    by (rule row_cong) (use that in simp)
  have "level_ok t ?it e" if "e < l" for e
    by (rule level_ok_cong [of e ?it it]) (use that assms(1) in \<open>auto simp: ok_to_def\<close>)
  moreover have "node_on t ?it l = node_on t it l" using row [of l] by (simp only: node_on_def)
  then have "level_ok t ?it l"
    using assms lens row [of l] by (auto simp: ok_to_def level_ok_def)
  ultimately show ?thesis
    using that [of ?it] lens row [of l] by (auto simp: setPos_def ok_to_def le_less row.simps(2))
qed

text \<open>Which position to take in a reloaded kid: the first for \<^verbatim>\<open>Next\<close>, the last for \<^verbatim>\<open>Prev\<close>.\<close>

definition entry_point :: "(BNode \<Rightarrow> nat option) \<Rightarrow> (nat \<Rightarrow> nat) \<Rightarrow> bool" where
  "entry_point first f \<longleftrightarrow> (\<forall>b n. nkeys b = Some n \<longrightarrow> 0 < n \<longrightarrow> first b = Some (f n)) \<and> (\<forall>n > 0. f n < n)"

lemma reload_step:
  assumes "inv s" and t: "sound (view s) h t" and ok: "ok_to h t it l" and f: "entry_point first f"
  obtains it' where "reloadKid cb s first l it = Some it'" "ok_to h t it' l"
    "row t (pos it') (Suc l) = row t (pos it) (Suc l)" "\<And>e. e \<le> l \<Longrightarrow> pos it' ! e = pos it ! e"
    "l < h \<Longrightarrow> ok_to h t it' (Suc l) \<and> pos it' ! Suc l = f (width (node_on t it' (Suc l)))"
proof (cases "l < h")
  case False
  then have "reloadKid cb s first l it = Some it" using ok by (simp add: reloadKid_def ok_to_def)
  then show ?thesis using that [of it] ok False by simp
next
  case True
  let ?n = "node_on t it (Suc l)"
  have "level_ok t it l" using ok by (simp add: ok_to_def)
  then have "row t (pos it) (Suc l) < length (nodes_at (Suc l) t)"
    using level_down(1) [OF t True] by (simp add: level_ok_def node_on_def row.simps(2))
  then have "sound (view s) (h - Suc l) ?n"
    using nodes_at_sound [OF t, of "Suc l" ?n] True nth_mem unfolding node_on_def by (meson Suc_leI)
  then have w: "0 < width ?n" by (rule sound_width)
  obtain it' where r: "reloadKid cb s first l it = Some it'" "ok_to h t it' (Suc l)" "pos it' ! Suc l = f (width ?n)"
    "row t (pos it') (Suc l) = row t (pos it) (Suc l)" "pos it' = (pos it)[Suc l := f (width ?n)]"
    by (rule reload_ok [OF assms(1) t ok True, of first "f (width ?n)"]) (use f w in \<open>auto simp: entry_point_def\<close>)
  moreover have "node_on t it' (Suc l) = ?n" using r(4) by (simp only: node_on_def)
  ultimately show ?thesis using that [of it'] ok_to_mono [OF r(2)] by simp
qed

lemma step_here:
  assumes "inv s" "sound (view s) h t" "ok_to h t it l" "entry_point first f" "i < width (node_on t it l)"
  obtains it' where "do { it \<leftarrow> setPos it l i; reloadKid cb s first l it } = Some it'" "ok_to h t it' l"
    "row t (pos it') (Suc l) = before (nodes_at l t) (row t (pos it) l) + i"
    "l < h \<Longrightarrow> ok_to h t it' (Suc l) \<and> pos it' ! Suc l = f (width (node_on t it' (Suc l)))"
proof -
  obtain it1 where 1: "setPos it l i = Some it1" "ok_to h t it1 l"
    "row t (pos it1) (Suc l) = before (nodes_at l t) (row t (pos it) l) + i"
    by (rule setPos_ok [OF assms(3,5)])
  show ?thesis
    by (rule reload_step [OF assms(1,2) 1(2) assms(4)]) (use that 1 in simp)
qed

lemma entry_points: "entry_point (\<lambda>b. Some 0) (\<lambda>n. 0)" "entry_point last_entry (\<lambda>n. n - 1)"
  by (auto simp: entry_point_def dest: nkeys_less)

lemma iterNext_ok:
  assumes "inv s" "sound (view s) h t" "ok_to h t it l" "row t (pos it) (Suc l) + 1 < total l t"
  shows "\<exists>it'. iterNext cb s it l = Some it' \<and> ok_to h t it' l
    \<and> row t (pos it') (Suc l) = Suc (row t (pos it) (Suc l))
    \<and> (l < h \<longrightarrow> ok_to h t it' (Suc l) \<and> pos it' ! Suc l = 0)"
  using assms(3,4)
proof (induction l arbitrary: it)
  case (0 it)
  have lv: "level_ok t it 0" and lens: "0 < length (path it)" "0 < length (pos it)"
    using "0.prems"(1) by (auto simp: ok_to_def)
  have i: "pos it ! 0 + 1 < width (node_on t it 0)"
    using "0.prems"(2) by (simp add: total_def before_def node_on_def row.simps(2))
  show ?case
    unfolding iterNext_here [OF lv lens i]
    by (rule step_here [OF assms(1,2) "0.prems"(1) entry_points(1) i]) (auto simp: row.simps(2))
next
  case (Suc l it)
  let ?r = "row t (pos it) (Suc l)" and ?p = "pos it ! Suc l"
  have lv: "level_ok t it (Suc l)" and lens: "Suc l < length (path it)" "Suc l < length (pos it)" "Suc l \<le> h"
    using Suc.prems(1) by (auto simp: ok_to_def)
  have row: "row t (pos it) (Suc (Suc l)) = before (nodes_at (Suc l) t) ?r + ?p" by (simp add: row.simps(2))
  show ?case
  proof (cases "?p + 1 < width (node_on t it (Suc l))")
    case True
    show ?thesis
      unfolding iterNext_here [OF lv lens(1,2) True]
      by (rule step_here [OF assms(1,2) Suc.prems(1) entry_points(1) True]) (auto simp: row)
  next
    case False
    have r: "?r < length (nodes_at (Suc l) t)" "?p + 1 = width (nodes_at (Suc l) t ! ?r)"
      using lv False by (auto simp: level_ok_def node_on_def)
    have "before (nodes_at (Suc l) t) (Suc ?r) < before (nodes_at (Suc l) t) (length (nodes_at (Suc l) t))"
      using Suc.prems(2) r before_Suc [OF r(1)] row by (simp add: total_def)
    then have "Suc ?r < length (nodes_at (Suc l) t)"
      using before_mono [of "length (nodes_at (Suc l) t)" "Suc ?r" "nodes_at (Suc l) t"] by (meson not_le)
    then have "?r + 1 < total l t" using total_inner [OF assms(2)] lens(3) by simp
    then obtain it1 where 1: "iterNext cb s it l = Some it1" "row t (pos it1) (Suc l) = Suc ?r"
        "ok_to h t it1 (Suc l)" "pos it1 ! Suc l = 0"
      using Suc.IH [OF ok_to_mono [OF Suc.prems(1)]] lens(3) by auto
    have new: "row t (pos it1) (Suc (Suc l)) = Suc (row t (pos it) (Suc (Suc l)))"
      using 1(2,4) before_Suc [OF r(1)] r(2) by (simp add: row.simps(2))
    show ?thesis
      unfolding iterNext_up [OF lv lens(1,2) False]
      by (rule reload_step [OF assms(1,2) 1(3) entry_points(1)]) (use 1(1) new in auto)
  qed
qed

lemma iterPrev_ok:
  assumes "inv s" "sound (view s) h t" "ok_to h t it l" "0 < row t (pos it) (Suc l)"
  shows "\<exists>it'. iterPrev cb s it l = Some it' \<and> ok_to h t it' l
    \<and> Suc (row t (pos it') (Suc l)) = row t (pos it) (Suc l)
    \<and> (l < h \<longrightarrow> ok_to h t it' (Suc l) \<and> pos it' ! Suc l = width (node_on t it' (Suc l)) - 1)"
  using assms(3,4)
proof (induction l arbitrary: it)
  case (0 it)
  have lens: "0 < length (pos it)" and i: "0 < pos it ! 0" "pos it ! 0 - 1 < width (node_on t it 0)"
    using "0.prems" by (auto simp: ok_to_def level_ok_def row.simps(2))
  show ?case
    unfolding iterPrev_here [OF lens i(1)]
    by (rule step_here [OF assms(1,2) "0.prems"(1) entry_points(2) i(2)]) (use i(1) in \<open>auto simp: row.simps(2)\<close>)
next
  case (Suc l it)
  let ?r = "row t (pos it) (Suc l)" and ?p = "pos it ! Suc l"
  have lv: "level_ok t it (Suc l)" and lens: "Suc l < length (pos it)" "Suc l \<le> h"
    using Suc.prems(1) by (auto simp: ok_to_def)
  have row: "row t ps (Suc (Suc l)) = before (nodes_at (Suc l) t) (row t ps (Suc l)) + ps ! Suc l" for ps
    by (simp add: row.simps(2))
  have p: "?p - 1 < width (node_on t it (Suc l))" and r: "?r < length (nodes_at (Suc l) t)"
    using lv by (auto simp: level_ok_def)
  show ?case
  proof (cases "0 < ?p")
    case True
    show ?thesis
      unfolding iterPrev_here [OF lens(1) True]
      by (rule step_here [OF assms(1,2) Suc.prems(1) entry_points(2) p]) (use True in \<open>auto simp: row\<close>)
  next
    case False
    have z: "?p = 0" using False by simp
    have r0: "0 < ?r" using Suc.prems(2) False by (cases ?r) (simp_all add: row)
    then obtain it1 where 1: "iterPrev cb s it l = Some it1" "Suc (row t (pos it1) (Suc l)) = ?r"
        "ok_to h t it1 (Suc l)" "pos it1 ! Suc l = width (node_on t it1 (Suc l)) - 1"
      using Suc.IH [OF ok_to_mono [OF Suc.prems(1)]] lens(2) by auto
    let ?r1 = "row t (pos it1) (Suc l)"
    have "level_ok t it1 (Suc l)" using 1(3) by (simp add: ok_to_def)
    then have "0 < width (nodes_at (Suc l) t ! ?r1)" "?r1 < length (nodes_at (Suc l) t)"
      by (auto simp: level_ok_def node_on_def)
    then have new: "Suc (row t (pos it1) (Suc (Suc l))) = row t (pos it) (Suc (Suc l))"
      using 1(2,4) before_Suc [of ?r1 "nodes_at (Suc l) t"] False by (simp add: row node_on_def)
    show ?thesis
      unfolding iterPrev_up [OF lens(1) z]
      by (rule reload_step [OF assms(1,2) 1(3) entry_points(2)]) (use 1(1) new in auto)
  qed
qed

lemma iterNext_last0:
  assumes ok: "ok_to h t it h" and last: "pos it ! 0 + 1 = width (node_on t it 0)" "pos it ! h + 1 = width (node_on t it h)"
  shows "iterNext cb s it 0 = Some (it\<lparr>pos := (pos it)[h := pos it ! h + 1]\<rparr>)"
proof -
  have lens: "length (path it) = Suc h" "length (pos it) = Suc h" and lv: "level_ok t it 0" "level_ok t it h"
    using ok by (auto simp: ok_to_def)
  show ?thesis
    using lens last level_ok_nkeys [OF lv(1)] level_ok_nkeys [OF lv(2)] level_ok_small [OF lv(1)] level_ok_small [OF lv(2)]
    by (simp add: iterNext.simps [of _ _ _ 0] setPos_def Let_def)
qed

text \<open>On the last pair every level is at its last entry.\<close>

lemma last_levels:
  assumes t: "sound (view s) h t" and ok: "ok_to h t it h" and r: "row t (pos it) (Suc h) + 1 = total h t" and l: "l \<le> h"
  shows "pos it ! l + 1 = width (node_on t it l) \<and> row t (pos it) (Suc l) + 1 = total l t"
  using l
proof (induction "h - l" arbitrary: l)
  case 0
  then have "l = h" by simp
  moreover have lv: "level_ok t it h" using ok by (simp add: ok_to_def)
  let ?r = "row t (pos it) h" and ?ts = "nodes_at h t"
  have w: "?r < length ?ts" "pos it ! h < width (?ts ! ?r)" using lv by (simp_all add: level_ok_def node_on_def)
  have "before ?ts (Suc ?r) \<le> before ?ts (length ?ts)" using w(1) by (intro before_mono) simp
  then have "pos it ! h + 1 = width (?ts ! ?r)"
    using r w before_Suc [OF w(1)] by (simp add: total_def row.simps(2))
  ultimately show ?case using r by (simp add: node_on_def)
next
  case (Suc k)
  then have IH: "row t (pos it) (Suc (Suc l)) + 1 = total (Suc l) t" "pos it ! Suc l + 1 = width (node_on t it (Suc l))"
    using Suc.hyps(1) [of "Suc l"] by auto
  have lv: "level_ok t it l" "level_ok t it (Suc l)" using ok Suc.hyps(2) Suc.prems by (auto simp: ok_to_def)
  let ?r = "row t (pos it) (Suc l)" and ?ts = "nodes_at (Suc l) t"
  have w: "?r < length ?ts" using lv(2) by (simp add: level_ok_def)
  have "before ?ts (Suc ?r) = before ?ts (length ?ts)"
    using IH before_Suc [OF w] by (simp add: total_def row.simps(2) [of _ _ "Suc l"] node_on_def)
  moreover have "before ?ts (Suc ?r) < before ?ts (length ?ts)" if "Suc ?r < length ?ts"
  proof -
    have "sound (view s) (h - Suc l) (?ts ! Suc ?r)"
      using nodes_at_sound [OF t, of "Suc l"] that Suc.hyps(2) nth_mem by (metis Suc_leI Suc_le_lessD zero_less_Suc zero_less_diff)
    then have "before ?ts (Suc ?r) < before ?ts (Suc (Suc ?r))"
      using before_Suc [OF that] sound_width by simp
    also have "\<dots> \<le> before ?ts (length ?ts)" using that by (intro before_mono) simp
    finally show ?thesis .
  qed
  ultimately have "Suc ?r = length ?ts" using w by (metis Suc_lessI less_irrefl)
  then have t1: "?r + 1 = total l t" using total_inner [OF t, of l] Suc.hyps(2) by simp
  let ?q = "row t (pos it) l" and ?us = "nodes_at l t"
  have u: "?q < length ?us" "pos it ! l < width (?us ! ?q)" using lv(1) by (simp_all add: level_ok_def node_on_def)
  have "before ?us (Suc ?q) \<le> before ?us (length ?us)" using u(1) by (intro before_mono) simp
  then have "pos it ! l + 1 = width (?us ! ?q)"
    using t1 u before_Suc [OF u(1)] by (simp add: total_def row.simps(2))
  with t1 show ?case by (simp add: node_on_def)
qed

text \<open>At least three levels: moving on from the last pair goes back.\<close>

lemma iterNext_wraps:
  assumes inv: "inv s" and t: "sound (view s) h t" and ok: "ok_to h t it h" and r: "row t (pos it) (Suc h) + 1 = total h t"
    and h: "2 \<le> h" "Suc l \<le> h"
  shows "\<exists>it'. iterNext cb s it (Suc l) = Some it' \<and> ok_to h t it' (min (Suc (Suc l)) h)
    \<and> row t (pos it') 2 = row t (pos it) 2 \<and> (\<forall>e. 2 \<le> e \<longrightarrow> e \<le> min (Suc (Suc l)) h \<longrightarrow> pos it' ! e = 0)"
  using h(2)
proof (induction l)
  case 0
  note last = last_levels [OF t ok r]
  have lens: "1 < length (path it)" "1 < length (pos it)" "length (pos it) = Suc h" and lv: "level_ok t it 1"
    using ok h(1) by (auto simp: ok_to_def)
  let ?it = "it\<lparr>pos := (pos it)[h := pos it ! h + 1]\<rparr>"
  have n0: "iterNext cb s it 0 = Some ?it" using iterNext_last0 [OF ok] last [of 0] last [of h] by simp
  have "level_ok t ?it e" if "e \<le> 1" for e
    by (rule level_ok_cong [of e ?it it]) (use that ok h(1) in \<open>auto simp: ok_to_def\<close>)
  then have ok1: "ok_to h t ?it 1" using ok h(1) by (auto simp: ok_to_def)
  have row: "row t (pos ?it) 2 = row t (pos it) 2" by (rule row_cong) (use h(1) in simp)
  have z: "\<not> pos it ! Suc 0 + 1 < width (node_on t it (Suc 0))" using last [of 1] h(1) by simp
  show ?case
    unfolding iterNext_up [OF lv [unfolded One_nat_def] lens(1,2) [unfolded One_nat_def] z] n0
    by (rule reload_step [OF inv t ok1 entry_points(1)])
       (use h(1) row in \<open>auto simp: numeral_2_eq_2 le_Suc_eq\<close>)
next
  case (Suc l)
  then obtain it1 where 1: "iterNext cb s it (Suc l) = Some it1" "ok_to h t it1 (Suc (Suc l))"
      "row t (pos it1) 2 = row t (pos it) 2" "\<forall>e. 2 \<le> e \<longrightarrow> e \<le> Suc (Suc l) \<longrightarrow> pos it1 ! e = 0"
    by (auto simp: min_def)
  have lens: "Suc (Suc l) < length (path it)" "Suc (Suc l) < length (pos it)" and lv: "level_ok t it (Suc (Suc l))"
    using ok Suc.prems by (auto simp: ok_to_def)
  have z: "\<not> pos it ! Suc (Suc l) + 1 < width (node_on t it (Suc (Suc l)))"
    using last_levels [OF t ok r Suc.prems] by simp
  have "\<exists>it'. reloadKid cb s (\<lambda>kid. Some 0) (Suc (Suc l)) it1 = Some it' \<and> ok_to h t it' (min (Suc (Suc (Suc l))) h)
    \<and> (\<forall>e \<le> Suc (Suc l). pos it' ! e = pos it1 ! e) \<and> (Suc (Suc l) < h \<longrightarrow> pos it' ! Suc (Suc (Suc l)) = 0)"
    by (rule reload_step [OF inv t 1(2) entry_points(1)])
       (use Suc.prems in \<open>cases "Suc (Suc l) < h"; force simp: min_def dest: le_antisym\<close>)
  then obtain it' where it': "reloadKid cb s (\<lambda>kid. Some 0) (Suc (Suc l)) it1 = Some it'"
      "ok_to h t it' (min (Suc (Suc (Suc l))) h)" "\<forall>e \<le> Suc (Suc l). pos it' ! e = pos it1 ! e"
      "Suc (Suc l) < h \<longrightarrow> pos it' ! Suc (Suc (Suc l)) = 0" by blast
  have "row t (pos it') 2 = row t (pos it1) 2" by (rule row_cong) (use it'(3) in simp)
  moreover have "pos it' ! e = 0" if "2 \<le> e" "e \<le> min (Suc (Suc (Suc l))) h" for e
    using that it'(3,4) 1(4) by (cases "e \<le> Suc (Suc l)") (auto simp: le_Suc_eq)
  ultimately show ?case
    unfolding iterNext_up [OF lv lens z] 1(1) using it'(1,2) 1(3) by simp
qed

section \<open>The iterator on the list of pairs\<close>

lemma row_zero:
  assumes ok: "ok_to h t it h" and t: "sound (view s) h t"
  shows "row t (pos it) (Suc h) = 0 \<longleftrightarrow> iterIsFirst it"
proof -
  have lens: "length (pos it) = Suc h" using ok by (simp add: ok_to_def)
  have zero: "row t (pos it) (Suc d) = 0 \<longleftrightarrow> (\<forall>e \<le> d. pos it ! e = 0)" if "d \<le> h" for d
    using that
  proof (induction d)
    case (Suc d)
    let ?ts = "nodes_at (Suc d) t" and ?r = "row t (pos it) (Suc d)"
    have r: "?r < length ?ts" using ok Suc.prems by (auto simp: ok_to_def level_ok_def)
    have "before ?ts ?r = 0 \<longleftrightarrow> ?r = 0"
    proof (cases ?r)
      case (Suc q)
      have "sound (view s) (h - Suc d) (?ts ! q)"
        using nodes_at_sound [OF t Suc.prems] r Suc nth_mem by (metis Suc_lessD)
      then show ?thesis using before_Suc [of q ?ts] sound_width r Suc by fastforce
    qed simp
    then show ?case using Suc by (auto simp: row.simps(2) [of _ _ "Suc d"] le_Suc_eq)
  qed (simp add: row.simps(2))
  show ?thesis
    using zero [of h] lens by (simp add: iterIsFirst_def list_all_length less_Suc_eq_le)
qed

lemma iter_at_facts:
  assumes at: "iter_at h t it r" and t: "sound (view s) h t"
  shows "r < length (kvs_of t)" "iterIsFirst it \<longleftrightarrow> r = 0" "iterIsEnd it = Some False"
    "iterValid it = Some (r \<noteq> 0)" "r \<noteq> 0 \<Longrightarrow> iterDeref it = Some (kvs_of t ! r)" "ok_to h t it h"
    "length (path it) = Suc h" "row t (pos it) (Suc h) = r"
proof -
  have ok: "ok_to h t it h" and row: "row t (pos it) (Suc h) = r" using at by (auto simp: iter_at_def)
  have lens: "length (path it) = Suc h" "length (pos it) = Suc h" and lv: "level_ok t it h"
    using ok by (auto simp: ok_to_def)
  note n = level_ok_nkeys [OF lv]
  have w: "row t (pos it) h < length (nodes_at h t)" "pos it ! h < width (nodes_at h t ! row t (pos it) h)"
    and rep: "node_rep (path it ! h) (stype (node_on t it h)) (entries_of (node_on t it h))"
    using lv by (simp_all add: level_ok_def node_on_def)
  have r: "before (nodes_at h t) (row t (pos it) h) + pos it ! h = r" using row by (simp add: row.simps(2))
  show "r < length (kvs_of t)" using leaf_entry(2) [OF t w] r by simp
  show first: "iterIsFirst it \<longleftrightarrow> r = 0" using row_zero [OF ok t] row by simp
  have lst: "last (path it) = path it ! h" "path it \<noteq> []" using lens(1) by (cases "path it = []"; auto simp: last_conv_nth)+
  show e: "iterIsEnd it = Some False"
    using lens lst n w(2) by (auto simp: iterIsEnd_def node_on_def)
  show v: "iterValid it = Some (r \<noteq> 0)" using first e by (simp add: iterValid_def)
  have i: "pos it ! h < length (entries_of (node_on t it h))" using w(2) by (simp add: width_def node_on_def)
  have "kvs_of t ! r = snd (entries_of (node_on t it h) ! (pos it ! h))"
    using leaf_entry(1) [OF t w] r by (simp add: node_on_def)
  then show "iterDeref it = Some (kvs_of t ! r)" if "r \<noteq> 0"
    using that lens v node_rep_readers(4,5) [OF rep i] by (simp add: iterDeref_def)
  show "ok_to h t it h" by (rule ok)
  show "length (path it) = Suc h" by (rule lens)
  show "row t (pos it) (Suc h) = r" by (rule row)
qed

lemma iter_Next_ok:
  assumes inv: "inv s" and t: "sound (view s) h t" and at: "iter_at h t it r" and r: "r + 1 < length (kvs_of t)"
  shows "\<exists>it'. iter_Next cb s it = Some it' \<and> iter_at h t it' (r + 1)"
  using iterNext_ok [OF inv t, of it h] iter_at_facts [OF at t] r total_leaves [OF t]
  by (auto simp: iter_Next_def iter_at_def)

lemma iter_Prev_ok:
  assumes inv: "inv s" and t: "sound (view s) h t" and at: "iter_at h t it r"
  shows "\<exists>it'. iter_Prev cb s it = Some it' \<and> iter_at h t it' (r - 1)"
proof (cases "r = 0")
  case True
  then show ?thesis using iter_at_facts [OF at t] at by (simp add: iter_Prev_def)
next
  case False
  with iterPrev_ok [OF inv t, of it h] iter_at_facts [OF at t] show ?thesis
    by (auto simp: iter_Prev_def iter_at_def)
qed

text \<open>Past the last pair, in a tree of one or two levels.\<close>

definition iter_end :: "nat \<Rightarrow> shape \<Rightarrow> BIter \<Rightarrow> bool" where
  "iter_end h t it \<longleftrightarrow> (\<exists>it0. iter_at h t it0 (length (kvs_of t) - 1)
     \<and> it = it0\<lparr>pos := (pos it0)[h := pos it0 ! h + 1]\<rparr>)"

lemma at_end_last:
  assumes t: "sound (view s) h t" and at: "iter_at h t it r" and r: "r + 1 = length (kvs_of t)"
  shows "row t (pos it) (Suc h) + 1 = total h t" "ok_to h t it h"
  using at r total_leaves [OF t] by (auto simp: iter_at_def)

lemma iter_Next_end:
  assumes t: "sound (view s) h t" and at: "iter_at h t it r" and r: "r + 1 = length (kvs_of t)" and h: "h \<le> 1"
  shows "\<exists>it'. iter_Next cb s it = Some it' \<and> iter_end h t it'"
proof -
  note f = iter_at_facts [OF at t] and l = at_end_last [OF t at r]
  let ?it = "it\<lparr>pos := (pos it)[h := pos it ! h + 1]\<rparr>"
  have n0: "iterNext cb s it 0 = Some ?it"
    using iterNext_last0 [OF l(2)] last_levels [OF t l(2,1), of 0] last_levels [OF t l(2,1), of h] by simp
  have "iterNext cb s it h = Some ?it"
  proof (cases h)
    case 0
    then show ?thesis using n0 by simp
  next
    case (Suc k)
    then have k: "k = 0" using h by simp
    have lens: "Suc 0 < length (path it)" "Suc 0 < length (pos it)" and lv: "level_ok t it (Suc 0)"
      using l(2) Suc by (auto simp: ok_to_def)
    have z: "\<not> pos it ! Suc 0 + 1 < width (node_on t it (Suc 0))"
      using last_levels [OF t l(2,1), of "Suc 0"] Suc by simp
    show ?thesis
      unfolding Suc k iterNext_up [OF lv lens z] using n0 Suc k l(2)
      by (simp add: reloadKid_def ok_to_def)
  qed
  then have "iter_Next cb s it = Some ?it" using f(3,7) by (simp add: iter_Next_def)
  moreover have "length (kvs_of t) - 1 = r" using r by simp
  ultimately show ?thesis using at by (auto simp: iter_end_def)
qed

lemma iter_end_facts:
  assumes t: "sound (view s) h t" and e: "iter_end h t it" and two: "2 \<le> length (kvs_of t)"
  shows "iterIsEnd it = Some True" "iterValid it = Some False" "iter_Next cb s it = Some it"
proof -
  obtain it0 where at: "iter_at h t it0 (length (kvs_of t) - 1)"
    and it: "it = it0\<lparr>pos := (pos it0)[h := pos it0 ! h + 1]\<rparr>"
    using e by (auto simp: iter_end_def)
  note f = iter_at_facts [OF at t]
  have lens: "length (path it0) = Suc h" "length (pos it0) = Suc h" and lv: "level_ok t it0 h"
    using f(6) by (auto simp: ok_to_def)
  have "total h t = length (kvs_of t)" by (rule total_leaves [OF t])
  then have "pos it0 ! h + 1 = width (node_on t it0 h)"
    using last_levels [OF t f(6), of h] f(8) two by simp
  moreover have "last (path it0) = path it0 ! h" "path it0 \<noteq> []"
    using lens(1) by (cases "path it0 = []"; auto simp: last_conv_nth)+
  ultimately show 1: "iterIsEnd it = Some True"
    using level_ok_nkeys [OF lv] lens by (simp add: iterIsEnd_def it)
  have "\<not> iterIsFirst it"
    using lens by (auto simp: iterIsFirst_def list_all_length it intro!: exI [of _ h])
  with 1 show "iterValid it = Some False" by (simp add: iterValid_def)
  show "iter_Next cb s it = Some it" using 1 by (simp add: iter_Next_def)
qed

lemma iter_Next_wraps:
  assumes inv: "inv s" and t: "sound (view s) h t" and at: "iter_at h t it r"
    and r: "r + 1 = length (kvs_of t)" and h: "2 \<le> h"
  shows "\<exists>it' r'. iter_Next cb s it = Some it' \<and> iter_at h t it' r' \<and> r' \<le> r"
proof -
  note f = iter_at_facts [OF at t] and l = at_end_last [OF t at r]
  obtain k where k: "h = Suc k" using h by (cases h) auto
  obtain it' where it': "iterNext cb s it h = Some it'" "ok_to h t it' h"
      "row t (pos it') 2 = row t (pos it) 2" "\<forall>e. 2 \<le> e \<longrightarrow> e \<le> h \<longrightarrow> pos it' ! e = 0"
    using iterNext_wraps [OF inv t l(2,1) h, of k] k by auto
  have "row t (pos it') (e + 2) \<le> row t (pos it) (e + 2)" if "e + 2 \<le> Suc h" for e
    using that
  proof (induction e)
    case (Suc e)
    then show ?case
      using it'(4) before_mono [of "row t (pos it') (e + 2)" "row t (pos it) (e + 2)" "nodes_at (Suc (Suc e)) t"]
      by (simp add: row.simps(2) [of _ _ "Suc (Suc e)"])
  qed (use it'(3) in \<open>simp add: numeral_2_eq_2\<close>)
  from this [of "h - 1"] have "row t (pos it') (Suc h) \<le> r" using h f(8) by simp
  then show ?thesis using it'(1,2) f by (auto simp: iter_Next_def iter_at_def)
qed

end

section \<open>Seeking\<close>

text \<open>The node that the search has reached at depth \<open>d\<close> splits all pairs around the key.\<close>

definition splits :: "shape \<Rightarrow> nat \<Rightarrow> nat \<Rightarrow> bytes \<Rightarrow> bool" where
  "splits t d r key \<longleftrightarrow> (\<forall>k \<in> fst ` set (kvs_all (take r (nodes_at d t))). k < key)
     \<and> (\<forall>k \<in> fst ` set (kvs_all (drop (Suc r) (nodes_at d t))). key < k)"

lemma concat_take_drop:
  assumes "r < length xss" "i < length (xss ! r)"
  shows "take (sum_list (map length (take r xss)) + i) (concat xss) = concat (take r xss) @ take i (xss ! r)"
    and "drop (Suc (sum_list (map length (take r xss)) + i)) (concat xss)
      = drop (Suc i) (xss ! r) @ concat (drop (Suc r) xss)"
proof -
  have eq: "concat xss = concat (take r xss) @ xss ! r @ concat (drop (Suc r) xss)"
    by (subst (1) id_take_nth_drop [OF assms(1)]) simp
  have len: "length (concat (take r xss)) = sum_list (map length (take r xss))"
    by (simp add: length_concat)
  show "take (sum_list (map length (take r xss)) + i) (concat xss) = concat (take r xss) @ take i (xss ! r)"
    "drop (Suc (sum_list (map length (take r xss)) + i)) (concat xss)
      = drop (Suc i) (xss ! r) @ concat (drop (Suc r) xss)"
    using assms(2) len by (subst eq; simp)+
qed

lemma splits_down:
  assumes t: "sound v h t" and d: "d < h" and r: "r < length (nodes_at d t)" and n: "nodes_at d t ! r = SNode ks"
    and i: "i < length ks" and s: "splits t d r key"
    and k: "\<forall>k \<in> fst ` set (kids_kvs (take i ks)). k < key" "\<forall>k \<in> fst ` set (kids_kvs (drop (Suc i) ks)). key < k"
  shows "splits t (Suc d) (before (nodes_at d t) r + i) key"
proof -
  let ?ts = "nodes_at d t"
  have ts: "\<forall>n \<in> set ?ts. sound v (Suc (h - Suc d)) n"
    using nodes_at_sound [OF t, of d] d by (auto simp: Suc_diff_Suc)
  have sub: "\<forall>n \<in> set (take m ?ts). sound v (Suc (h - Suc d)) n" "\<forall>n \<in> set (drop m ?ts). sound v (Suc (h - Suc d)) n" for m
    using ts by (auto dest: in_set_takeD in_set_dropD)
  note b = kids_of_level [OF ts r]
  have kt: "kid_trees (?ts ! r) = map kid_tree ks" using n by simp
  have kk: "kvs_all (map kid_tree cs) = kids_kvs cs" for cs
    by (simp add: kvs_all_def kids_kvs_def comp_def)
  note ctd = concat_take_drop [of r "map kid_trees ?ts" i, unfolded b(1)]
  have "kvs_all (take (before ?ts r + i) (nodes_at (Suc d) t)) = kvs_all (take r ?ts) @ kids_kvs (take i ks)"
    using ctd(1) r i kt kvs_all_kids [OF sub(1) [of r]] by (simp add: nodes_at.simps(2) take_map kk)
  moreover have "kvs_all (drop (Suc (before ?ts r + i)) (nodes_at (Suc d) t)) = kids_kvs (drop (Suc i) ks) @ kvs_all (drop (Suc r) ?ts)"
    using ctd(2) r i kt kvs_all_kids [OF sub(2) [of "Suc r"]] by (simp add: nodes_at.simps(2) drop_map kk)
  ultimately show ?thesis using s k by (auto simp: splits_def)
qed

lemma splits_leaf:
  assumes t: "sound v h t" and r: "r < length (nodes_at h t)" and n: "nodes_at h t ! r = SLeaf es"
    and i: "at_pos (map ent_key es) i key" and srt: "sorted_kvs (map snd es)" and s: "splits t h r key"
  shows "at_pos (map fst (kvs_of t)) (before (nodes_at h t) r + i) key"
proof -
  let ?ts = "nodes_at h t" and ?j = "before (nodes_at h t) r + i"
  have ie: "i < length es" using i by (simp add: at_pos_def)
  then have w: "i < width (?ts ! r)" using n by (simp add: width_def)
  note le = leaf_entry [OF t r w]
  have kvs: "kvs_of t = kvs_all (take r ?ts) @ map snd es @ kvs_all (drop (Suc r) ?ts)"
    using kvs_all_level [OF t, of h] id_take_nth_drop [OF r] n
    by (metis kvs_all_simps(2,3) kvs_of.simps(1) order_refl)
  have ts: "\<forall>n \<in> set (take r ?ts). sound v 0 n" using nodes_at_sound [OF t, of h] by (auto dest: in_set_takeD)
  have len: "length (kvs_all (take r ?ts)) = before ?ts r" using leaves_length [OF ts] by (simp add: before_def)
  have above: "key < fst (kvs_of t ! j)" if "?j < j" "j < length (kvs_of t)" for j
  proof (cases "j < before ?ts r + length es")
    case True
    then have "kvs_of t ! j = snd (es ! (j - before ?ts r))"
      using that(1) len by (auto simp: kvs nth_append)
    moreover have "i < j - before ?ts r" "j - before ?ts r < length es" using that(1) True ie by auto
    then have "key < ent_key (es ! (j - before ?ts r))" using i by (simp add: at_pos_def)
    ultimately show ?thesis by simp
  next
    case False
    then have "kvs_of t ! j = kvs_all (drop (Suc r) ?ts) ! (j - before ?ts r - length es)"
      using len by (auto simp: kvs nth_append)
    moreover have "j - before ?ts r - length es < length (kvs_all (drop (Suc r) ?ts))"
      using that(2) False len by (simp add: kvs)
    ultimately show ?thesis using s nth_mem unfolding splits_def by fastforce
  qed
  have "fst (kvs_of t ! ?j) \<le> key" using le(1) n i ie by (simp add: at_pos_def)
  then show ?thesis using le(2) above by (simp add: at_pos_def)
qed

text \<open>
  The number of the pair a seek ends on, given the last pair \<open>r\<close> that is not above the key;
  the number of pairs stands for the position past the end.
\<close>

definition target :: "kv list \<Rightarrow> nat \<Rightarrow> bytes \<Rightarrow> int \<Rightarrow> nat" where
  "target K r key cmp =
     (if cmp = CMP_LE then r
      else if cmp = CMP_LT then (if fst (K ! r) = key then r - 1 else r)
      else if cmp = CMP_GE then (if fst (K ! r) = key then r else r + 1)
      else r + 1)"

text \<open>What a seek should find: the first pair from the left, or from the right.\<close>

definition seek_find :: "kv list \<Rightarrow> int \<Rightarrow> bytes \<Rightarrow> kv option" where
  "seek_find kvs cmp key = find (\<lambda>kv. cmp_holds cmp (fst kv) key) (if cmp > 0 then kvs else rev kvs)"

lemma find_from:
  "(\<And>j. j < length xs \<Longrightarrow> P (xs ! j) \<longleftrightarrow> m \<le> j) \<Longrightarrow> find P xs = (if m < length xs then Some (xs ! m) else None)"
proof (induction xs arbitrary: m)
  case (Cons x xs)
  show ?case
  proof (cases m)
    case 0
    then show ?thesis using Cons.prems [of 0] by simp
  next
    case (Suc m')
    have "P (xs ! j) \<longleftrightarrow> m' \<le> j" if "j < length xs" for j using Cons.prems [of "Suc j"] that Suc by simp
    then show ?thesis using Cons.IH [of m'] Cons.prems [of 0] Suc by simp
  qed
qed simp

lemma find_upto:
  assumes "\<And>j. j < length xs \<Longrightarrow> P (xs ! j) \<longleftrightarrow> j < m" "m \<le> length xs"
  shows "find P (rev xs) = (if m = 0 then None else Some (xs ! (m - 1)))"
proof -
  have "find P (rev xs) = (if length xs - m < length (rev xs) then Some (rev xs ! (length xs - m)) else None)"
    by (rule find_from) (use assms in \<open>auto simp: rev_nth\<close>)
  then show ?thesis using assms(2) by (auto simp: rev_nth)
qed

lemma target_find:
  assumes K: "K = ([], []) # kvs" and pos: "at_pos (map fst K) r key" and srt: "sorted_kvs K"
    and cmp: "valid_cmp cmp" and key: "key \<noteq> []"
  shows "seek_find kvs cmp key = (if target K r key cmp \<noteq> 0 \<and> target K r key cmp < length K
    then Some (K ! target K r key cmp) else None)"
proof -
  have r: "r < length K" "fst (K ! r) \<le> key" and above: "\<And>j. r < j \<Longrightarrow> j < length K \<Longrightarrow> key < fst (K ! j)"
    using pos by (auto simp: at_pos_def)
  have below: "fst (K ! j) < fst (K ! r)" if "j < r" for j
    using sorted_wrt_nth_less [OF srt, of j r] that r(1) by simp
  have at: "fst (kvs ! j) \<le> key \<longleftrightarrow> j < r" "fst (kvs ! j) < key \<longleftrightarrow> Suc j < r \<or> Suc j = r \<and> fst (K ! r) \<noteq> key"
    if "j < length kvs" for j
  proof -
    have k: "kvs ! j = K ! Suc j" "Suc j < length K" using that K by simp_all
    consider "Suc j < r" | "Suc j = r" | "r < Suc j" by linarith
    then have "(fst (kvs ! j) \<le> key \<longleftrightarrow> j < r) \<and> (fst (kvs ! j) < key \<longleftrightarrow> Suc j < r \<or> Suc j = r \<and> fst (K ! r) \<noteq> key)"
    proof cases
      case 1
      then show ?thesis using below [OF 1] r(2) k by auto
    next
      case 2
      then show ?thesis using r(2) k by auto
    next
      case 3
      then show ?thesis using above [OF 3 k(2)] k by auto
    qed
    then show "fst (kvs ! j) \<le> key \<longleftrightarrow> j < r" "fst (kvs ! j) < key \<longleftrightarrow> Suc j < r \<or> Suc j = r \<and> fst (K ! r) \<noteq> key"
      by auto
  qed
  have r0: "fst (K ! r) = key \<Longrightarrow> r \<noteq> 0" using K key by (cases r) auto
  define m where "m = (if fst (K ! r) = key then r - 1 else r)"
  have lt: "fst (kvs ! j) < key \<longleftrightarrow> j < m" if "j < length kvs" for j
    unfolding m_def at(2) [OF that] using r0 by (cases "fst (K ! r) = key"; cases r) auto
  have rm: "r < Suc (length kvs)" "m \<le> length kvs" using r(1) K by (auto simp: m_def)
  consider "cmp = CMP_LE" | "cmp = CMP_LT" | "cmp = CMP_GE" | "cmp = CMP_GT"
    using cmp by (auto simp: valid_cmp_def)
  then show ?thesis
  proof cases
    case 1
    have "find (\<lambda>kv. fst kv \<le> key) (rev kvs) = (if r = 0 then None else Some (kvs ! (r - 1)))"
      by (rule find_upto) (use at(1) rm(1) in simp_all)
    then show ?thesis using 1 r(1) K
      by (simp add: seek_find_def cmp_holds_def target_def CMP_GE_def CMP_GT_def CMP_LT_def CMP_LE_def nth_Cons')
  next
    case 2
    have "find (\<lambda>kv. fst kv < key) (rev kvs) = (if m = 0 then None else Some (kvs ! (m - 1)))"
      by (rule find_upto) (use lt rm(2) in simp_all)
    moreover have "seek_find kvs cmp key = find (\<lambda>kv. fst kv < key) (rev kvs)"
      by (simp add: 2 seek_find_def cmp_holds_def CMP_GE_def CMP_GT_def CMP_LT_def)
    moreover have "target K r key cmp = m" by (simp add: 2 m_def target_def CMP_LT_def CMP_LE_def)
    ultimately show ?thesis using K rm(2) by (simp add: nth_Cons')
  next
    case 3
    have "find (\<lambda>kv. key \<le> fst kv) kvs = (if m < length kvs then Some (kvs ! m) else None)"
      by (rule find_from) (use lt in \<open>simp add: not_less [symmetric]\<close>)
    moreover have "seek_find kvs cmp key = find (\<lambda>kv. key \<le> fst kv) kvs"
      by (simp add: 3 seek_find_def cmp_holds_def CMP_GE_def)
    moreover have "target K r key cmp = Suc m" using r0
      by (simp add: 3 m_def target_def CMP_GE_def CMP_GT_def CMP_LT_def CMP_LE_def)
    ultimately show ?thesis using K by simp
  next
    case 4
    have "find (\<lambda>kv. key < fst kv) kvs = (if r < length kvs then Some (kvs ! r) else None)"
      by (rule find_from) (use at in \<open>auto simp: not_le [symmetric]\<close>)
    then show ?thesis using 4 K
      by (simp add: seek_find_def cmp_holds_def target_def CMP_GE_def CMP_GT_def CMP_LT_def CMP_LE_def)
  qed
qed

text \<open>A client that walks forward and collects the pairs.\<close>

fun collect :: "'s callbacks \<Rightarrow> 's \<Rightarrow> nat \<Rightarrow> BIter \<Rightarrow> kv list option" where
  "collect cb s 0 it = None"
| "collect cb s (Suc f) it = do {
     valid \<leftarrow> iterValid it;
     (if valid then do {
        kv \<leftarrow> iterDeref it;
        it \<leftarrow> iter_Next cb s it;
        kvs \<leftarrow> collect cb s f it;
        Some (kv # kvs)
      } else Some [])
   }"

context pager
begin

lemma seek_level:
  assumes inv: "inv s" and t: "sound (view s) h t" and key: "h - d = k" "d \<le> h" "k < fuel"
    and lens: "length (path it) = d" "length (pos it) = d" and lv: "\<forall>e < d. level_ok t it e"
    and r: "row t (pos it) d < length (nodes_at d t)" and n: "n = nodes_at d t ! row t (pos it) d"
    and b: "view s ptr = Some b" "ptr \<noteq> 0" "node_tree (view s) (h - d) b n" "fst (hd (kvs_of n)) \<le> key"
    and s: "splits t d (row t (pos it) d) key"
  shows "\<exists>it' r. seekLoop cb s fuel key ptr it = Some it' \<and> iter_at h t it' r \<and> at_pos (map fst (kvs_of t)) r key"
  using key lens lv r n b s
proof (induction k arbitrary: d fuel it n ptr b)
  case 0
  then have dh: "d = h" by simp
  obtain f where f: "fuel = Suc f" using "0.prems"(3) by (cases fuel) auto
  obtain es where es: "n = SLeaf es" using "0.prems" dh by (auto simp: node_tree_def elim: wf_shape_cases)
  have rep: "node_rep b BNODE_LEAF es" and srt: "sorted_kvs (map snd es)" and ne: "es \<noteq> []"
    and wf: "\<forall>e \<in> set es. ent_ptr e = 0"
    using "0.prems"(11) es dh by (auto simp: node_tree_def repr_def)
  obtain i where look: "nodeLookupLE b key = Some i" and p: "at_pos (map ent_key es) i key"
    by (rule nodeLookupLE_found [OF rep, of key]) (use "0.prems"(12) es srt ne in \<open>auto simp: comp_def hd_map\<close>)
  have i: "i < length es" using p by (simp add: at_pos_def)
  let ?it = "\<lparr>path = path it @ [b], pos = pos it @ [i]\<rparr>"
  have ptr: "getPtr b i = Some 0" using node_rep_readers(3) [OF rep i] wf i by simp
  have ev: "seekLoop cb s fuel key ptr it = Some ?it"
    using f get_ok [OF inv "0.prems"(9)] look ptr "0.prems"(10) by (simp add: seekLoop.simps)
  have row: "row t (pos ?it) d = row t (pos it) d"
    by (rule row_cong) (use "0.prems"(5) in \<open>simp add: nth_append\<close>)
  have on: "node_on t ?it d = SLeaf es" using row "0.prems"(8) es by (simp add: node_on_def)
  have "level_ok t ?it e" if "e < d" for e
    by (rule level_ok_cong [of e ?it it]) (use that "0.prems"(4-6) in \<open>auto simp: nth_append\<close>)
  moreover have "level_ok t ?it d"
    using row "0.prems"(4,5,7) rep i on unfolding level_ok_def on by (simp add: width_def nth_append)
  ultimately have "ok_to h t ?it h" using "0.prems"(4,5) dh by (auto simp: ok_to_def le_less)
  then have "iter_at h t ?it (before (nodes_at h t) (row t (pos it) h) + i)"
    using row dh "0.prems"(5) by (simp add: iter_at_def row.simps(2) nth_append)
  with ev splits_leaf [OF t, of "row t (pos it) h" es i key] "0.prems"(7,8,13) dh es p srt show ?case by blast
next
  case (Suc k)
  obtain f where f: "fuel = Suc f" "k < f" using Suc.prems(3) by (cases fuel) auto
  have hd: "h - d = Suc (h - Suc d)" "d < h" "h - Suc d = k" using Suc.prems(1) by auto
  obtain ks i c' where d: "n = SNode ks" "nodeLookupLE b key = Some i" "i < length ks"
    "node_rep b BNODE_NODE (map kid_entry ks)" "\<forall>c \<in> set ks. wf_kid (h - Suc d) c \<and> stored_kid (view s) c"
    "getPtr b i = Some (kid_ptr (ks ! i))" "tree_get cb s (kid_ptr (ks ! i)) = Some c'"
    "node_tree (view s) (h - Suc d) c' (kid_tree (ks ! i))" "fst (hd (kvs_of (kid_tree (ks ! i)))) \<le> key"
    "\<forall>k \<in> fst ` set (kids_kvs (take i ks)). k < key" "\<forall>k \<in> fst ` set (kids_kvs (drop (Suc i) ks)). key < k"
    by (rule descend [OF inv Suc.prems(11) [unfolded hd(1)] Suc.prems(12)])
  obtain c where vc: "view s (kid_ptr (ks ! i)) = Some c" "kid_ptr (ks ! i) \<noteq> 0"
    using d(5) nth_mem [OF d(3)] unfolding stored_kid_def wf_kid_def by blast
  then have cc: "c' = c" using get_ok [OF inv vc(1)] d(7) by simp
  let ?it = "\<lparr>path = path it @ [b], pos = pos it @ [i]\<rparr>"
  have ev: "seekLoop cb s fuel key ptr it = seekLoop cb s f key (kid_ptr (ks ! i)) ?it"
    using f(1) get_ok [OF inv Suc.prems(9)] d(2,6) Suc.prems(10) by (simp add: seekLoop.simps [of _ _ "Suc f"])
  have row: "row t (pos ?it) d = row t (pos it) d"
    by (rule row_cong) (use Suc.prems(5) in \<open>simp add: nth_append\<close>)
  have on: "node_on t ?it d = SNode ks" using row Suc.prems(8) d(1) by (simp add: node_on_def)
  have "level_ok t ?it e" if "e < d" for e
    by (rule level_ok_cong [of e ?it it]) (use that Suc.prems(4-6) in \<open>auto simp: nth_append\<close>)
  moreover have "level_ok t ?it d"
    using row Suc.prems(4,5,7) d(3,4) unfolding level_ok_def on by (simp add: width_def nth_append)
  ultimately have lv: "\<forall>e < Suc d. level_ok t ?it e" by (auto simp: less_Suc_eq)
  have rowS: "row t (pos ?it) (Suc d) = before (nodes_at d t) (row t (pos it) d) + i"
    using row Suc.prems(5) by (simp add: row.simps(2) nth_append)
  have n: "nodes_at d t ! row t (pos it) d = SNode ks" using Suc.prems(8) d(1) by simp
  note down = level_down [OF t hd(2) Suc.prems(7), of i]
  have nk: "kid_tree (ks ! i) = nodes_at (Suc d) t ! row t (pos ?it) (Suc d)"
    "row t (pos ?it) (Suc d) < length (nodes_at (Suc d) t)"
    unfolding rowS using down d(3) n by (simp_all add: width_def)
  show ?case
    unfolding ev
    by (rule Suc.IH [OF hd(3) _ f(2) _ _ lv nk(2,1) vc d(8) [unfolded cc] d(9)])
       (use hd(2) Suc.prems(4,5) rowS splits_down [OF t hd(2) Suc.prems(7) n d(3) Suc.prems(13) d(10,11)] in auto)
qed

text \<open>Seeking in a tree: the last pair that is not above the key.\<close>

lemma SeekLE_ok:
  assumes inv: "inv s" and t: "node_tree (view s) h b t" "view s root = Some b" "root \<noteq> 0"
    and first: "fst (hd (kvs_of t)) \<le> key" and f: "h < fuel"
  obtains it r where "SeekLE cb s fuel root key = Some it" "iter_at h t it r" "at_pos (map fst (kvs_of t)) r key"
proof -
  have "sound (view s) h t" using t(1) by (simp add: sound_def node_tree_def repr_def)
  then have "\<exists>it' r. seekLoop cb s fuel key root \<lparr>path = [], pos = []\<rparr> = Some it' \<and> iter_at h t it' r
      \<and> at_pos (map fst (kvs_of t)) r key"
    by (rule seek_level [OF inv, where d = 0 and k = h and b = b and n = t])
       (use t first f in \<open>auto simp: splits_def\<close>)
  then show ?thesis using that by (auto simp: SeekLE_def)
qed

definition iter_on :: "nat \<Rightarrow> shape \<Rightarrow> BIter \<Rightarrow> nat \<Rightarrow> bool" where
  "iter_on h t it i \<longleftrightarrow> (if i < length (kvs_of t) then iter_at h t it i
     else h \<le> 1 \<and> i = length (kvs_of t) \<and> iter_end h t it)"

lemma iter_on_Next:
  assumes "inv s" "sound (view s) h t" "iter_at h t it i" "i + 1 < length (kvs_of t) \<or> h \<le> 1"
  shows "\<exists>it'. iter_Next cb s it = Some it' \<and> iter_on h t it' (i + 1)"
proof (cases "i + 1 < length (kvs_of t)")
  case True
  with iter_Next_ok [OF assms(1-3)] show ?thesis by (auto simp: iter_on_def)
next
  case False
  then have "i + 1 = length (kvs_of t)" using iter_at_facts(1) [OF assms(3,2)] by simp
  with iter_Next_end [OF assms(2,3)] assms(4) False show ?thesis by (auto simp: iter_on_def)
qed

lemma iter_on_valid:
  assumes "sound (view s) h t" "iter_on h t it i" "2 \<le> length (kvs_of t)"
  shows "iterValid it = Some (i \<noteq> 0 \<and> i < length (kvs_of t))"
    and "i \<noteq> 0 \<Longrightarrow> i < length (kvs_of t) \<Longrightarrow> iterDeref it = Some (kvs_of t ! i)"
  using assms iter_at_facts(4,5) [OF _ assms(1), of it i] iter_end_facts(2) [OF assms(1) _ assms(3), of it]
  by (auto simp: iter_on_def split: if_splits)

lemma target_holds:
  assumes pos: "at_pos (map fst K) r key" and srt: "sorted_kvs K" and cmp: "valid_cmp cmp"
    and i: "i = target K r key cmp" "i < length K" "i \<noteq> 0"
  shows "cmp_holds cmp (fst (K ! i)) key"
proof -
  have r: "r < length K" "fst (K ! r) \<le> key" "\<And>j. r < j \<Longrightarrow> j < length K \<Longrightarrow> key < fst (K ! j)"
    using pos by (auto simp: at_pos_def)
  have less: "fst (K ! a) < fst (K ! b)" if "a < b" "b < length K" for a b
    using sorted_wrt_nth_less [OF srt, of a b] that by simp
  consider "cmp = CMP_LE" | "cmp = CMP_LT" | "cmp = CMP_GE" | "cmp = CMP_GT"
    using cmp by (auto simp: valid_cmp_def)
  then show ?thesis
  proof cases
    case 2
    then show ?thesis using i r less [of "r - 1" r]
      by (auto simp: target_def cmp_holds_def CMP_GE_def CMP_GT_def CMP_LT_def CMP_LE_def split: if_splits)
  next
    case 3
    then show ?thesis using i r(2) r(3) [of "r + 1"]
      by (auto simp: target_def cmp_holds_def CMP_GE_def CMP_GT_def CMP_LT_def CMP_LE_def split: if_splits)
  next
    case 4
    then show ?thesis using i r(3) [of "r + 1"]
      by (auto simp: target_def cmp_holds_def CMP_GE_def CMP_GT_def CMP_LT_def CMP_LE_def)
  qed (use i r in \<open>auto simp: target_def cmp_holds_def CMP_GE_def CMP_GT_def CMP_LT_def CMP_LE_def\<close>)
qed

text \<open>The adjustment after \<^verbatim>\<open>SeekLE\<close>.\<close>

lemma seek_adjust:
  assumes inv: "inv s" and t: "sound (view s) h t" and K: "kvs_of t = ([], []) # kvs"
    and at: "iter_at h t it r" and pos: "at_pos (map fst (kvs_of t)) r key" and cmp: "valid_cmp cmp"
    and bound: "target (kvs_of t) r key cmp < length (kvs_of t) \<or> h \<le> 1"
  shows "\<exists>it'. (if cmp \<noteq> CMP_LE then do {
         cur \<leftarrow> (if \<not> iterIsFirst it then do { (k, v) \<leftarrow> iterDeref it; Some k } else Some []);
         ok \<leftarrow> cmpOK cur cmp key;
         (if \<not> ok then (if cmp > 0 then iter_Next cb s it else iter_Prev cb s it) else Some it)
       } else Some it) = Some it' \<and> iter_on h t it' (target (kvs_of t) r key cmp)"
proof -
  note f = iter_at_facts [OF at t]
  have on: "iter_on h t it r" using at f(1) by (simp add: iter_on_def)
  let ?k = "fst (kvs_of t ! r)"
  have cur: "(if \<not> iterIsFirst it then do { (k, v) \<leftarrow> iterDeref it; Some k } else Some []) = Some ?k"
    using f(2,5) K by (cases "r = 0") (simp_all add: split_beta)
  have le: "?k \<le> key" using pos by (auto simp: at_pos_def)
  obtain itp where prev: "iter_Prev cb s it = Some itp" "iter_at h t itp (r - 1)"
    using iter_Prev_ok [OF inv t at] by auto
  have prev_on: "iter_on h t itp (r - 1)" using prev(2) f(1) by (simp add: iter_on_def less_imp_diff_less)
  consider "cmp = CMP_LE" | "cmp = CMP_LT" | "cmp = CMP_GE" | "cmp = CMP_GT"
    using cmp by (auto simp: valid_cmp_def)
  then show ?thesis
  proof cases
    case 2
    then have c: "cmp \<noteq> CMP_LE" "\<not> cmp > 0" "cmpOK ?k cmp key = Some (?k < key)"
      by (simp_all add: cmpOK_def CMP_GE_def CMP_GT_def CMP_LT_def CMP_LE_def)
    show ?thesis unfolding cur using c 2 le on prev(1) prev_on
      by (auto simp: target_def CMP_LT_def CMP_LE_def)
  next
    case 3
    then have c: "cmp \<noteq> CMP_LE" "cmp \<noteq> CMP_LT" "cmp > 0" "cmpOK ?k cmp key = Some (key \<le> ?k)"
      by (simp_all add: cmpOK_def CMP_GE_def CMP_GT_def CMP_LT_def CMP_LE_def)
    show ?thesis unfolding cur using c 3 le on iter_on_Next [OF inv t at] bound
      by (auto simp: target_def)
  next
    case 4
    then have c: "cmp \<noteq> CMP_LE" "cmp \<noteq> CMP_LT" "cmp \<noteq> CMP_GE" "cmp > 0" "cmpOK ?k cmp key = Some (key < ?k)"
      by (simp_all add: cmpOK_def CMP_GE_def CMP_GT_def CMP_LT_def CMP_LE_def)
    show ?thesis unfolding cur using c 4 le iter_on_Next [OF inv t at] bound
      by (auto simp: target_def)
  qed (use on in \<open>auto simp: target_def\<close>)
qed

lemma Seek_ok:
  assumes inv: "inv s" and nt: "node_tree (view s) h b t" "view s root = Some b" "root \<noteq> 0"
    and K: "kvs_of t = ([], []) # kvs" "kvs \<noteq> []" and f: "h < fuel" and cmp: "valid_cmp cmp"
    and bound: "h \<le> 1 \<or> (\<exists>k \<in> fst ` set kvs. key < k) \<or> cmp < 0"
  shows "\<exists>it r. btree_Seek cb s fuel root key cmp = Some it \<and> at_pos (map fst (kvs_of t)) r key
    \<and> iter_on h t it (target (kvs_of t) r key cmp)"
proof -
  have t: "sound (view s) h t" using nt(1) by (simp add: sound_def node_tree_def repr_def)
  have srt: "sorted_kvs (kvs_of t)" using nt(1) by (simp add: node_tree_def)
  obtain it r where sk: "SeekLE cb s fuel root key = Some it" "iter_at h t it r" "at_pos (map fst (kvs_of t)) r key"
    by (rule SeekLE_ok [OF inv nt _ f, of key]) (use K in auto)
  note fa = iter_at_facts [OF sk(2) t]
  let ?i = "target (kvs_of t) r key cmp"
  have r: "r < length (kvs_of t)" using sk(3) by (simp add: at_pos_def)
  have "?i < length (kvs_of t) \<or> h \<le> 1"
  proof (cases "h \<le> 1 \<or> cmp < 0")
    case True
    then show ?thesis using r cmp by (auto simp: target_def valid_cmp_def CMP_GE_def CMP_GT_def CMP_LT_def CMP_LE_def)
  next
    case False
    then obtain k where "k \<in> fst ` set (kvs_of t)" "key < k" using bound K by auto
    then obtain j where j: "j < length (kvs_of t)" "key < fst (kvs_of t ! j)" by (auto simp: in_set_conv_nth)
    have "\<not> j \<le> r"
    proof
      assume "j \<le> r"
      then have "fst (kvs_of t ! j) \<le> fst (kvs_of t ! r)"
        using sorted_wrt_nth_less [OF srt, of j r] r by (cases "j = r") auto
      then show False using j(2) sk(3) by (auto simp: at_pos_def)
    qed
    then show ?thesis using j(1) by (auto simp: target_def)
  qed
  then obtain it' where adj: "(if cmp \<noteq> CMP_LE then do {
         cur \<leftarrow> (if \<not> iterIsFirst it then do { (k, v) \<leftarrow> iterDeref it; Some k } else Some []);
         ok \<leftarrow> cmpOK cur cmp key;
         (if \<not> ok then (if cmp > 0 then iter_Next cb s it else iter_Prev cb s it) else Some it)
       } else Some it) = Some it'" "iter_on h t it' ?i"
    using seek_adjust [OF inv t K(1) sk(2,3) cmp] by blast
  have two: "2 \<le> length (kvs_of t)" using K by (cases kvs) auto
  note v = iter_on_valid [OF t adj(2) two]
  have "cmpOK (fst (kvs_of t ! ?i)) cmp key = Some True" if "?i \<noteq> 0" "?i < length (kvs_of t)"
    using target_holds [OF sk(3) srt cmp refl that(2,1)] cmpOK_holds [OF cmp] by simp
  then have "btree_Seek cb s fuel root key cmp = Some it'"
    unfolding btree_Seek_def sk(1) using fa(3) adj(1) v by (auto simp: split_beta)
  then show ?thesis using sk(3) adj(2) by blast
qed

text \<open>Walking forward collects all remaining pairs in a tree of at most two levels.\<close>

lemma collect_ok:
  assumes inv: "inv s" and t: "sound (view s) h t" "h \<le> 1" "2 \<le> length (kvs_of t)"
  shows "iter_on h t it i \<Longrightarrow> 0 < i \<Longrightarrow> length (kvs_of t) - i < fuel \<Longrightarrow>
    collect cb s fuel it = Some (drop i (kvs_of t))"
proof (induction fuel arbitrary: it i)
  case (Suc f)
  note v = iter_on_valid [OF t(1) Suc.prems(1) t(3)]
  show ?case
  proof (cases "i < length (kvs_of t)")
    case True
    then have at: "iter_at h t it i" using Suc.prems(1) by (simp add: iter_on_def)
    obtain it' where it': "iter_Next cb s it = Some it'" "iter_on h t it' (i + 1)"
      using iter_on_Next [OF inv t(1) at] t(2) by auto
    have "collect cb s f it' = Some (drop (i + 1) (kvs_of t))"
      using Suc.IH [OF it'(2)] Suc.prems(3) True by simp
    then show ?thesis using v True Suc.prems(2) it'(1) by (simp add: Cons_nth_drop_Suc)
  qed (use v in simp)
qed simp

text \<open>In a tree of three or more levels whose root has two kids, the walk never ends.\<close>

lemma last_not_first:
  assumes t: "sound (view s) h t" and ok: "ok_to h t it h" "row t (pos it) (Suc h) + 1 = total h t"
    and h: "2 \<le> h" "2 \<le> width t"
  shows "0 < row t (pos it) 2"
proof -
  have s1: "\<forall>n \<in> set (nodes_at 1 t). 0 < width n"
    using nodes_at_sound [OF t, of 1] h(1) sound_width by auto
  have "length ts \<le> sum_list (map width ts)" if "\<forall>n \<in> set ts. 0 < width n" for ts
    using that by (induction ts) fastforce+
  then have "length (nodes_at 1 t) \<le> total 1 t" using s1 by (simp add: total_def before_def)
  moreover have "total 0 t = length (nodes_at 1 t)" using total_inner [OF t, of 0] h(1) by simp
  moreover have "total 0 t = width t" by (simp add: total_def before_def)
  ultimately have "2 \<le> total 1 t" using h(2) by simp
  then show ?thesis using last_levels [OF t ok, of 1] h(1) by (simp add: numeral_2_eq_2)
qed

lemma iter_Next_never_ends:
  assumes inv: "inv s" and t: "sound (view s) h t" "2 \<le> h" "2 \<le> width t" and at: "iter_at h t it r" "0 < r"
  shows "\<exists>it' r'. iter_Next cb s it = Some it' \<and> iter_at h t it' r' \<and> 0 < r'"
proof (cases "r + 1 < length (kvs_of t)")
  case True
  with iter_Next_ok [OF inv t(1) at(1)] show ?thesis by auto
next
  case False
  then have r: "r + 1 = length (kvs_of t)" using iter_at_facts(1) [OF at(1) t(1)] by simp
  note f = iter_at_facts [OF at(1) t(1)] and l = at_end_last [OF t(1) at(1) r]
  obtain k where k: "h = Suc k" using t(2) by (cases h) auto
  obtain it' where it': "iterNext cb s it h = Some it'" "ok_to h t it' h" "row t (pos it') 2 = row t (pos it) 2"
    using iterNext_wraps [OF inv t(1) l(2,1) t(2), of k] k by auto
  have at': "iter_at h t it' (row t (pos it') (Suc h))" using it'(2) by (simp add: iter_at_def)
  have "0 < row t (pos it') 2" using it'(3) last_not_first [OF t(1) l(2,1) t(2,3)] by simp
  then have "pos it' ! 0 \<noteq> 0 \<or> pos it' ! 1 \<noteq> 0" by (cases "pos it' ! 0 = 0") (auto simp: numeral_2_eq_2 row.simps(2))
  then have "\<not> iterIsFirst it'"
    using it'(2) t(2) unfolding iterIsFirst_def list_all_length ok_to_def by (metis One_nat_def Suc_le_lessD le_SucI less_Suc_eq numeral_2_eq_2 zero_less_Suc)
  then have "0 < row t (pos it') (Suc h)" using iter_at_facts(2) [OF at' t(1)] by simp
  then show ?thesis using it'(1) at' f(3,7) by (auto simp: iter_Next_def)
qed

lemma collect_never_ends:
  assumes inv: "inv s" and t: "sound (view s) h t" "2 \<le> h" "2 \<le> width t"
  shows "iter_at h t it r \<Longrightarrow> 0 < r \<Longrightarrow> collect cb s fuel it = None"
proof (induction fuel arbitrary: it r)
  case (Suc f)
  obtain it' r' where "iter_Next cb s it = Some it'" "iter_at h t it' r'" "0 < r'"
    using iter_Next_never_ends [OF inv t Suc.prems] by blast
  with Suc.IH iter_at_facts(4,5) [OF Suc.prems(1) t(1)] Suc.prems(2) show ?case by simp
qed simp

text \<open>Seek from the start, as a commit does, and walk.\<close>

lemma Seek_first:
  assumes inv: "inv s" and nt: "node_tree (view s) h b t" "view s root = Some b" "root \<noteq> 0"
    and K: "kvs_of t = ([], []) # kvs" "kvs \<noteq> []" and f: "h < fuel"
  shows "\<exists>it. btree_Seek cb s fuel root [] CMP_GT = Some it \<and> iter_at h t it 1"
proof -
  have srt: "sorted_kvs (kvs_of t)" using nt(1) by (simp add: node_tree_def)
  have "\<exists>k \<in> fst ` set kvs. [] < k" using K srt by (cases kvs) auto
  then obtain it r where it: "btree_Seek cb s fuel root [] CMP_GT = Some it" "at_pos (map fst (kvs_of t)) r []"
    "iter_on h t it (target (kvs_of t) r [] CMP_GT)"
    using Seek_ok [OF inv nt K f, of CMP_GT "[]"] by (auto simp: valid_cmp_def)
  have "r = 0"
  proof (rule ccontr)
    assume "r \<noteq> 0"
    then have "fst (kvs_of t ! 0) < fst (kvs_of t ! r)"
      using sorted_wrt_nth_less [OF srt, of 0 r] it(2) by (cases "length (kvs_of t)") (auto simp: at_pos_def)
    then show False using it(2) \<open>r \<noteq> 0\<close> by (auto simp: at_pos_def)
  qed
  then have "iter_on h t it 1" using it(3) by (simp add: target_def CMP_GT_def CMP_GE_def CMP_LT_def CMP_LE_def)
  then have "iter_at h t it 1" using K by (cases kvs) (auto simp: iter_on_def)
  with it(1) show ?thesis by blast
qed

end

end
