(* ===== verification/NodeProps.thy ===== *)
theory NodeProps
  imports NodeOps
begin

text \<open>
  What the node format and the single-node operations of \<^verbatim>\<open>db/btree.go\<close> promise: nodes that are
  written entry by entry read back, the binary search finds the last key that is not above
  the search key, edits do to the page what they say on the list of entries, and the exact
  condition under which a node can be split into pages.
\<close>

section \<open>Building a node\<close>

text \<open>A client that writes the header and then appends entry after entry.\<close>

fun appendAll :: "BNode \<Rightarrow> nat \<Rightarrow> entry list \<Rightarrow> BNode option" where
  "appendAll b i [] = Some b"
| "appendAll b i (e # es) = do {
     b \<leftarrow> nodeAppendKV b i (ent_ptr e) (ent_key e) (ent_val e);
     appendAll b (Suc i) es
   }"

definition build_node :: "nat \<Rightarrow> nat \<Rightarrow> entry list \<Rightarrow> BNode option" where
  "build_node len ty es = do {
     b \<leftarrow> setHeader (make_buf len) ty (length es);
     appendAll b 0 es
   }"

abbreviation ptrs_ok :: "entry list \<Rightarrow> bool" where
  "ptrs_ok es \<equiv> list_all (\<lambda>e. ent_ptr e < 2 ^ 64) es"

lemma appendAll_holds:
  assumes "holds b ty n fs" "length fs + length es \<le> n" "ptrs_ok es"
    and "4 + 10 * n + koff (fs @ es) \<le> length b"
  shows "\<exists>b'. appendAll b (length fs) es = Some b' \<and> length b' = length b \<and> holds b' ty n (fs @ es)"
  using assms
proof (induction es arbitrary: b fs)
  case (Cons e es)
  obtain b1 where b1: "nodeAppendKV b (length fs) (ent_ptr e) (ent_key e) (ent_val e) = Some b1"
      "length b1 = length b" "holds b1 ty n (fs @ [e])"
    by (rule append_kv_rep [OF Cons.prems(1) refl, of "ent_ptr e" "ent_key e" "ent_val e"])
       (use Cons.prems in \<open>auto simp: koff_def\<close>)
  show ?case
    using Cons.IH [OF b1(3)] Cons.prems b1 by (auto simp: koff_def)
qed simp

lemma build_node_rep:
  assumes "nsize es \<le> len" "len < 65536" "ty < 65536" "ptrs_ok es"
  obtains b where "build_node len ty es = Some b" "length b = len" "node_rep b ty es"
proof -
  obtain b0 where b0: "setHeader (make_buf len) ty (length es) = Some b0" "length b0 = len" "holds b0 ty (length es) []"
    by (rule node_rep_init [of "make_buf len" es ty]) (use assms in auto)
  obtain b where "appendAll b0 0 es = Some b" "length b = len" "holds b ty (length es) es"
    using appendAll_holds [OF b0(3), of es] assms b0(2) by (auto simp: nsize_def)
  then show ?thesis using that b0(1) by (simp add: build_node_def node_rep_def)
qed

lemma split_pos_stay: "nsize (drop i es) \<le> BTREE_PAGE_SIZE \<Longrightarrow> split_pos es i = i"
  by (subst split_pos.simps) simp

section \<open>Properties\<close>

text \<open>C16: round trip of the node format. A node that was written entry by entry into a buffer
  that is large enough reads back: type, number of keys, used size, and every entry's
  pointer, key and value.\<close>

theorem node_roundtrip:
  assumes "nsize es \<le> len" "len < 65536" "ty < 65536" "ptrs_ok es"
  shows "\<exists>b. build_node len ty es = Some b \<and> length b = len \<and> btype b = Some ty
    \<and> nkeys b = Some (length es) \<and> nbytes b = Some (nsize es)
    \<and> (\<forall>i < length es. getPtr b i = Some (ent_ptr (es ! i)) \<and> getKey b i = Some (ent_key (es ! i))
         \<and> getVal b i = Some (ent_val (es ! i)))"
proof -
  obtain b where b: "build_node len ty es = Some b" "length b = len" "node_rep b ty es"
    by (rule build_node_rep [OF assms])
  with node_rep_readers [OF b(3)] show ?thesis by auto
qed

theorem node_roundtrip_witness:
  "\<exists>b. build_node 4096 BNODE_LEAF [(0, [], []), (0, [1, 2], [3])] = Some b
     \<and> getKey b 1 = Some [1, 2] \<and> getVal b 1 = Some [3]"
  using node_roundtrip [of "[(0, [], []), (0, [1, 2], [3])]" 4096 BNODE_LEAF]
  by (force simp: nsize_def BNODE_LEAF_def less_Suc_eq)

text \<open>C15: the binary search. In a node whose keys ascend strictly and start at or below the
  search key, \<^const>\<open>nodeLookupLE\<close> returns the position of the last key that is not above it.\<close>

theorem nodeLookupLE_correct:
  assumes "node_rep node ty es" "sorted_wrt (<) (map ent_key es)" "es \<noteq> []" "ent_key (hd es) \<le> key"
  shows "\<exists>idx. nodeLookupLE node key = Some idx \<and> idx < length es \<and> ent_key (es ! idx) \<le> key
    \<and> (\<forall>j < length es. idx < j \<longrightarrow> key < ent_key (es ! j))"
  by (rule nodeLookupLE_found [OF assms]) (auto simp: at_pos_def)

theorem nodeLookupLE_correct_witness:
  "\<exists>b. build_node 4096 BNODE_LEAF [(0, [], []), (0, [5], [1]), (0, [9], [])] = Some b
     \<and> (\<exists>idx. nodeLookupLE b [7] = Some idx \<and> idx < 3 \<and> (\<forall>j < 3. idx < j \<longrightarrow> [7] < ([[], [5], [9]] :: bytes list) ! j))"
proof -
  let ?es = "[(0, [], []), (0, [5], [1]), (0, [9], [])] :: entry list"
  obtain b where b: "build_node 4096 BNODE_LEAF ?es = Some b" "node_rep b BNODE_LEAF ?es"
    by (rule build_node_rep [of ?es 4096 BNODE_LEAF]) (auto simp: nsize_def BNODE_LEAF_def)
  show ?thesis
    using nodeLookupLE_correct [OF b(2), of "[7]"] b(1) by (force simp: less_Suc_eq numeral_3_eq_3)
qed

text \<open>C17: leaf edits. Inserting, overwriting and deleting at an index of a leaf give the page
  whose entry list is edited at that index, as long as the result fits the buffer.\<close>

theorem leaf_edits:
  assumes "node_rep old BNODE_LEAF es" "i < length es" "len < 65536"
    and "nsize (take i es @ [(0, k, v)] @ drop i es) \<le> len"
    and "nsize (take i es @ [(0, k, v)] @ drop (Suc i) es) \<le> len" "nsize es \<le> len"
  shows "(\<exists>b. leafInsert (make_buf len) old i k v = Some b \<and> node_rep b BNODE_LEAF (take i es @ [(0, k, v)] @ drop i es))
    \<and> (\<exists>b. leafUpdate (make_buf len) old i k v = Some b \<and> node_rep b BNODE_LEAF (take i es @ [(0, k, v)] @ drop (Suc i) es))
    \<and> (\<exists>b. leafDelete (make_buf len) old i = Some b \<and> node_rep b BNODE_LEAF (take i es @ drop (Suc i) es))"
proof (intro conjI)
  show "\<exists>b. leafInsert (make_buf len) old i k v = Some b \<and> node_rep b BNODE_LEAF (take i es @ [(0, k, v)] @ drop i es)"
    by (rule leafInsert_rep [OF assms(1) _ _ refl, of i "make_buf len" k v]) (use assms in auto)
  show "\<exists>b. leafUpdate (make_buf len) old i k v = Some b
      \<and> node_rep b BNODE_LEAF (take i es @ [(0, k, v)] @ drop (Suc i) es)"
    by (rule leafUpdate_rep [OF assms(1,2) _ refl, of "make_buf len" k v]) (use assms in auto)
  have "nsize (take i es @ drop (Suc i) es) \<le> nsize es"
    using nsize_split [of i es] arg_cong [OF Cons_nth_drop_Suc [OF assms(2)], of nsize]
      nsize_append [of "take i es" "drop (Suc i) es"]
    by (simp add: nsize_Cons)
  then have fit: "nsize (take i es @ drop (Suc i) es) \<le> length (make_buf len)" using assms(6) by simp
  show "\<exists>b. leafDelete (make_buf len) old i = Some b \<and> node_rep b BNODE_LEAF (take i es @ drop (Suc i) es)"
    by (rule leafDelete_rep [OF assms(1,2) _ refl fit]) (use assms(3) in auto)
qed

theorem leaf_edits_witness:
  "\<exists>b b'. build_node 4096 BNODE_LEAF [(0, [], []), (0, [5], [1])] = Some b
     \<and> leafInsert (make_buf 4096) b 1 [3] [4] = Some b'
     \<and> node_rep b' BNODE_LEAF [(0, [], []), (0, [3], [4]), (0, [5], [1])]"
proof -
  let ?es = "[(0, [], []), (0, [5], [1])] :: entry list"
  obtain b where b: "build_node 4096 BNODE_LEAF ?es = Some b" "node_rep b BNODE_LEAF ?es"
    by (rule build_node_rep [of ?es 4096 BNODE_LEAF]) (auto simp: nsize_def BNODE_LEAF_def)
  show ?thesis
    using leaf_edits [OF b(2), of 1 4096 "[3]" "[4]"] b(1) by (auto simp: nsize_def)
qed

text \<open>C14: when a node can be split. For a node of at most two pages, \<^const>\<open>nodeSplit3\<close> returns
  exactly when every part that its cuts produce fits a page; the pages it returns then hold
  the entries of the node, in order and none lost. Otherwise it panics.\<close>

theorem nodeSplit3_iff:
  assumes "node_rep old ty es" "es \<noteq> []" "nsize es \<le> 2 * BTREE_PAGE_SIZE" "BTREE_PAGE_SIZE \<le> length old"
  shows "if splittable es
    then \<exists>bs ps. nodeSplit3 old = Some bs \<and> concat ps = es \<and> length ps \<le> 3
      \<and> list_all2 (\<lambda>b p. length b = BTREE_PAGE_SIZE \<and> node_rep b ty p \<and> p \<noteq> []) bs ps
    else nodeSplit3 old = None"
proof (cases "splittable es")
  case True
  obtain bs where bs: "nodeSplit3 old = Some bs" "pages_of ty bs (split3 es)"
    by (rule nodeSplit3_rep [OF assms(1,4,3) True])
  then have "list_all2 (\<lambda>b p. length b = BTREE_PAGE_SIZE \<and> node_rep b ty p \<and> p \<noteq> []) bs (split3 es)"
    using True by (auto simp: pages_of_def list_all2_conv_all_nth splittable_def)
  moreover have "length (split3 es) \<le> 3" by (simp add: split3_def Let_def)
  ultimately show ?thesis using True bs(1) concat_split3 by auto
qed (use nodeSplit3_None [OF assms(1,3,2)] in simp)

theorem nodeSplit3_iff_witness:
  "\<exists>b bs ps. build_node 4096 BNODE_LEAF [(0, [], []), (0, [5], [1])] = Some b
     \<and> nodeSplit3 b = Some bs \<and> concat ps = [(0, [], []), (0, [5], [1])]
     \<and> list_all2 (\<lambda>b p. length b = BTREE_PAGE_SIZE \<and> node_rep b BNODE_LEAF p \<and> p \<noteq> []) bs ps"
proof -
  let ?es = "[(0, [], []), (0, [5], [1])] :: entry list"
  obtain b where b: "build_node 4096 BNODE_LEAF ?es = Some b" "length b = 4096" "node_rep b BNODE_LEAF ?es"
    by (rule build_node_rep [of ?es 4096 BNODE_LEAF]) (auto simp: nsize_def BNODE_LEAF_def)
  have "splittable ?es" by (simp add: splittable_def split3_def nsize_def BTREE_PAGE_SIZE_def)
  then show ?thesis
    using nodeSplit3_iff [OF b(3)] b(1,2) by (auto simp: nsize_def BTREE_PAGE_SIZE_def)
qed

text \<open>C18: merging. Two nodes whose entries together fit a page merge into one page with the
  entries of the left node followed by those of the right one.\<close>

theorem nodeMerge_correct:
  assumes "node_rep l ty es" "node_rep r ty fs" "nsize (es @ fs) \<le> BTREE_PAGE_SIZE"
  shows "\<exists>b. nodeMerge (make_buf BTREE_PAGE_SIZE) l r = Some b \<and> length b = BTREE_PAGE_SIZE \<and> node_rep b ty (es @ fs)"
  by (rule nodeMerge_rep [OF assms(1,2) _ assms(3), of "make_buf BTREE_PAGE_SIZE"]) auto

theorem nodeMerge_correct_witness:
  "\<exists>l r b. build_node 4096 BNODE_LEAF [(0, [], [])] = Some l \<and> build_node 4096 BNODE_LEAF [(0, [5], [1])] = Some r
     \<and> nodeMerge (make_buf BTREE_PAGE_SIZE) l r = Some b \<and> node_rep b BNODE_LEAF [(0, [], []), (0, [5], [1])]"
proof -
  obtain l where l: "build_node 4096 BNODE_LEAF [(0, [], [])] = Some l" "node_rep l BNODE_LEAF [(0, [], [])]"
    by (rule build_node_rep [of "[(0, [], [])]" 4096 BNODE_LEAF]) (auto simp: nsize_def BNODE_LEAF_def)
  obtain r where r: "build_node 4096 BNODE_LEAF [(0, [5], [1])] = Some r" "node_rep r BNODE_LEAF [(0, [5], [1])]"
    by (rule build_node_rep [of "[(0, [5], [1])]" 4096 BNODE_LEAF]) (auto simp: nsize_def BNODE_LEAF_def)
  show ?thesis
    using nodeMerge_correct [OF l(2) r(2)] l(1) r(1) by (auto simp: nsize_def BTREE_PAGE_SIZE_def)
qed

end
