(* ===== verification/TxPages.thy ===== *)
theory TxPages
  imports BIter NodeProps
begin

text \<open>
  The in-memory page store of a transaction (the closures \<^verbatim>\<open>KV.Begin\<close> of
  \<^verbatim>\<open>db/transaction.go\<close> installs in \<^verbatim>\<open>tx.pending\<close>), as an instance of the \<^const>\<open>pager\<close> contract,
  and the B+tree over it. Pages are never overwritten or dropped, so an earlier root stays a
  valid tree: that is what statement rollback relies on.
\<close>

section \<open>The page store\<close>

definition mem_get :: "BNode list \<Rightarrow> nat \<Rightarrow> BNode option" where
  "mem_get pages ptr =
     (let i = u64 (ptr + 2 ^ 64 - 1) in if i < length pages then Some (pages ! i) else None)"

definition mem_new :: "BNode list \<Rightarrow> BNode \<Rightarrow> (nat \<times> BNode list) option" where
  "mem_new pages node = (let pages = pages @ [node] in Some (u64 (length pages), pages))"

definition mem_del :: "BNode list \<Rightarrow> nat \<Rightarrow> BNode list option" where
  "mem_del pages ptr = Some pages"

definition mem_callbacks :: "BNode list callbacks" where
  "mem_callbacks = \<lparr>tree_get = mem_get, tree_new = mem_new, tree_del = mem_del\<rparr>"

section \<open>The contract\<close>

definition mem_view :: "BNode list \<Rightarrow> nat \<Rightarrow> BNode option" where
  "mem_view pages p = (if 0 < p \<and> p \<le> length pages then Some (pages ! (p - 1)) else None)"

definition mem_room :: "BNode list \<Rightarrow> nat" where
  "mem_room pages = 2 ^ 64 - 1 - length pages"

lemma mem_get_view: "length pages < 2 ^ 64 \<Longrightarrow> mem_view pages p = Some b \<Longrightarrow> mem_get pages p = Some b"
proof -
  assume "length pages < 2 ^ 64" "mem_view pages p = Some b"
  then have p: "0 < p" "p - 1 < length pages" "p - 1 < 2 ^ 64" "b = pages ! (p - 1)"
    by (auto simp: mem_view_def split: if_splits)
  then have "p + 2 ^ 64 - 1 = (p - 1) + 2 ^ 64" by simp
  then have "u64 (p + 2 ^ 64 - 1) = u64 (p - 1)" by (simp only: u64_def mod_add_self2)
  then have "u64 (p + 2 ^ 64 - 1) = p - 1" using u64_id [OF p(3)] by simp
  then show "mem_get pages p = Some b" using p by (simp only: mem_get_def Let_def if_True)
qed

lemma mem_view_append: "mem_view (pages @ [b]) = (mem_view pages)(Suc (length pages) \<mapsto> b)"
  by (auto simp: mem_view_def fun_eq_iff nth_append)

interpretation mem: pager mem_callbacks "\<lambda>pages. length pages < 2 ^ 64" mem_view mem_room
proof unfold_locales
  fix s :: "BNode list" and p b
  assume "length s < 2 ^ 64" "mem_view s p = Some b"
  then show "tree_get mem_callbacks s p = Some b"
    by (simp add: mem_callbacks_def mem_get_view)
next
  fix s :: "BNode list" and b :: BNode
  assume "length s < 2 ^ 64" "0 < mem_room s" "length b = BTREE_PAGE_SIZE"
  then show "\<exists>p s'. tree_new mem_callbacks s b = Some (p, s') \<and> length s' < 2 ^ 64 \<and> p \<noteq> 0 \<and> p < 2 ^ 64
      \<and> mem_view s p = None \<and> mem_view s' = (mem_view s)(p \<mapsto> b) \<and> mem_room s \<le> Suc (mem_room s')"
    by (intro exI [of _ "Suc (length s)"] exI [of _ "s @ [b]"])
       (simp add: mem_callbacks_def mem_new_def mem_room_def mem_view_append; simp add: mem_view_def)
next
  fix s :: "BNode list" and p
  assume "length s < 2 ^ 64"
  then show "\<exists>s'. tree_del mem_callbacks s p = Some s' \<and> length s' < 2 ^ 64
      \<and> (\<forall>q. q \<noteq> p \<longrightarrow> mem_view s' q = mem_view s q) \<and> mem_room s \<le> Suc (mem_room s')"
    by (simp add: mem_callbacks_def mem_del_def)
qed

section \<open>Properties\<close>

text \<open>C13: the B+tree as a map. A transaction's pending tree, started empty and filled by any
  sequence of \<^const>\<open>btree_Upsert\<close> calls with small pairs, never panics, and every later lookup
  finds exactly the last value inserted under the key, or nothing. The fuel needed is one
  more than the number of insertions, which bounds the height of the tree.\<close>

theorem pending_tree_is_map:
  assumes "\<forall>op \<in> set ops. small_op op" "length ops < fuel" "length ops * (4 * length ops + 5) < 2 ^ 64"
  shows "\<exists>root pages. upserts mem_callbacks fuel ops 0 [] = Some (root, pages)
    \<and> (\<forall>key. key \<noteq> [] \<longrightarrow> btree_Get mem_callbacks fuel key root pages = Some (map_of (rev ops) key))"
proof -
  obtain root h pages where t: "upserts mem_callbacks fuel ops 0 [] = Some (root, pages)" "length pages < 2 ^ 64"
      "h \<le> length ops" "tree_holds (mem_view pages) root h (ins_all ops [])"
    using mem.upserts_ok [of "[]" 0 0 "[]" ops fuel] assms by (auto simp: mem_room_def small_kvs_def)
  have "btree_Get mem_callbacks fuel key root pages = Some (map_of (rev ops) key)" if "key \<noteq> []" for key
    using mem.btree_Get_ok [OF t(2,4) _ that, of fuel] t(3) assms(2) map_of_ins_all [of "[]" ops] by simp
  with t(1) show ?thesis by blast
qed

theorem pending_tree_is_map_witness:
  "\<exists>root pages. upserts mem_callbacks 4 [([1], [10]), ([2], [20]), ([1], [30])] 0 [] = Some (root, pages)
     \<and> btree_Get mem_callbacks 4 [1] root pages = Some (Some [30])
     \<and> btree_Get mem_callbacks 4 [3] root pages = Some None"
  using pending_tree_is_map [of "[([1], [10]), ([2], [20]), ([1], [30])]" 4]
  by (force simp: small_op_def)

text \<open>C19: seeking. In a pending tree of at most two levels, \<^const>\<open>btree_Seek\<close> with a non-empty
  key ends on the first pair that satisfies the comparison (the last one for \<open><\<close> and
  \<open>\<le>\<close>), or on an invalid position if there is none.\<close>

theorem pending_seek:
  assumes "length pages < 2 ^ 64" "tree_holds (mem_view pages) root h kvs" "kvs \<noteq> []" "h \<le> 1" "h < fuel"
    and "valid_cmp cmp" "key \<noteq> []"
  shows "\<exists>it. btree_Seek mem_callbacks pages fuel root key cmp = Some it
    \<and> (case seek_find kvs cmp key of
         None \<Rightarrow> iterValid it = Some False
       | Some kv \<Rightarrow> iterValid it = Some True \<and> iterDeref it = Some kv)"
proof -
  have "root \<noteq> 0" using assms(2,3) by (cases "root = 0") auto
  then obtain b t where bt: "mem_view pages root = Some b" "node_tree (mem_view pages) h b t" "kvs_of t = ([], []) # kvs"
    using assms(2) by (auto elim: tree_holdsE)
  have t: "sound (mem_view pages) h t" "sorted_kvs (kvs_of t)"
    using bt(2) by (simp_all add: sound_def node_tree_def repr_def)
  have two: "2 \<le> length (kvs_of t)" using bt(3) assms(3) by (cases kvs) auto
  obtain it r where it: "btree_Seek mem_callbacks pages fuel root key cmp = Some it" "at_pos (map fst (kvs_of t)) r key"
      "mem.iter_on h t it (target (kvs_of t) r key cmp)"
    using mem.Seek_ok [OF assms(1) bt(2,1) \<open>root \<noteq> 0\<close> bt(3) assms(3,5,6)] assms(4) by blast
  show ?thesis
    using it(1) mem.iter_on_valid [OF t(1) it(3) two] target_find [OF bt(3) it(2) t(2) assms(6,7)] by auto
qed

theorem pending_seek_witness:
  "\<exists>root pages it. upserts mem_callbacks 3 [([1], [10])] 0 [] = Some (root, pages)
     \<and> btree_Seek mem_callbacks pages 3 root [0, 5] CMP_GE = Some it
     \<and> iterValid it = Some True \<and> iterDeref it = Some ([1], [10])"
proof -
  obtain root h pages where t: "upserts mem_callbacks 3 [([1], [10])] 0 [] = Some (root, pages)" "length pages < 2 ^ 64"
      "h \<le> 1" "tree_holds (mem_view pages) root h [([1], [10])]"
    using mem.upserts_ok [of "[]" 0 0 "[]" "[([1], [10])]" 3] by (auto simp: mem_room_def small_kvs_def small_op_def)
  have "seek_find [([1], [10])] CMP_GE [0, 5] = Some ([1], [10])"
    by (simp add: seek_find_def cmp_holds_def CMP_GE_def)
  then show ?thesis
    using pending_seek [OF t(2,4), of 3 CMP_GE "[0, 5]"] t(1,3) by (auto simp: valid_cmp_def)
qed

text \<open>C20: a walk over a small pending tree. In a tree of at most two levels, starting as a commit
  does and moving forward until the iterator is invalid visits every pair once, in order.\<close>

theorem pending_scan:
  assumes "length pages < 2 ^ 64" "tree_holds (mem_view pages) root h kvs" "kvs \<noteq> []" "h \<le> 1" "h < fuel"
    and "length kvs < f"
  shows "\<exists>it. btree_Seek mem_callbacks pages fuel root [] CMP_GT = Some it \<and> collect mem_callbacks pages f it = Some kvs"
proof -
  have "root \<noteq> 0" using assms(2,3) by (cases "root = 0") auto
  then obtain b t where bt: "mem_view pages root = Some b" "node_tree (mem_view pages) h b t" "kvs_of t = ([], []) # kvs"
    using assms(2) by (auto elim: tree_holdsE)
  have t: "sound (mem_view pages) h t" using bt(2) by (simp add: sound_def node_tree_def repr_def)
  have two: "2 \<le> length (kvs_of t)" using bt(3) assms(3) by (cases kvs) auto
  obtain it where it: "btree_Seek mem_callbacks pages fuel root [] CMP_GT = Some it" "iter_at h t it 1"
    using mem.Seek_first [OF assms(1) bt(2,1) \<open>root \<noteq> 0\<close> bt(3) assms(3,5)] by auto
  then have "mem.iter_on h t it 1" using two by (simp add: mem.iter_on_def)
  then have "collect mem_callbacks pages f it = Some (drop 1 (kvs_of t))"
    by (rule mem.collect_ok [OF assms(1) t assms(4) two]) (use bt(3) assms(6) in auto)
  then show ?thesis using it(1) bt(3) by auto
qed

theorem pending_scan_witness:
  "\<exists>root pages it. upserts mem_callbacks 3 [([1], [10])] 0 [] = Some (root, pages)
     \<and> btree_Seek mem_callbacks pages 3 root [] CMP_GT = Some it
     \<and> collect mem_callbacks pages 2 it = Some [([1], [10])]"
proof -
  obtain root h pages where t: "upserts mem_callbacks 3 [([1], [10])] 0 [] = Some (root, pages)" "length pages < 2 ^ 64"
      "h \<le> 1" "tree_holds (mem_view pages) root h [([1], [10])]"
    using mem.upserts_ok [of "[]" 0 0 "[]" "[([1], [10])]" 3] by (auto simp: mem_room_def small_kvs_def small_op_def)
  then show ?thesis using pending_scan [OF t(2,4), of 3 2] by auto
qed

text \<open>Moving forward a number of times.\<close>

fun nexts :: "'s callbacks \<Rightarrow> 's \<Rightarrow> nat \<Rightarrow> BIter \<Rightarrow> BIter option" where
  "nexts cb s 0 it = Some it"
| "nexts cb s (Suc n) it = do { it \<leftarrow> nexts cb s n it; iter_Next cb s it }"

lemma nexts_tall:
  assumes "length pages < 2 ^ 64" "sound (mem_view pages) h t" "2 \<le> h" "2 \<le> width t" "iter_at h t it 1"
  shows "\<exists>it' r. nexts mem_callbacks pages n it = Some it' \<and> iter_at h t it' r \<and> 0 < r \<and> (n + 1 < length (kvs_of t) \<longrightarrow> r = n + 1)"
proof (induction n)
  case (Suc n)
  then obtain it' r where it': "nexts mem_callbacks pages n it = Some it'" "iter_at h t it' r" "0 < r"
    "n + 1 < length (kvs_of t) \<longrightarrow> r = n + 1" by (elim exE conjE) (rule that)
  show ?case
  proof (cases "n + 2 < length (kvs_of t)")
    case True
    then have "r = n + 1" using it'(4) by simp
    with True mem.iter_Next_ok [OF assms(1,2) it'(2)] obtain it2 where
      "iter_Next mem_callbacks pages it' = Some it2" "iter_at h t it2 (n + 2)" by auto
    then show ?thesis using it'(1) by (intro exI [of _ it2] exI [of _ "n + 2"]) simp
  next
    case False
    obtain it2 r2 where "iter_Next mem_callbacks pages it' = Some it2" "iter_at h t it2 r2" "0 < r2"
      using mem.iter_Next_never_ends [OF assms(1-4) it'(2,3)] by (elim exE conjE) (rule that)
    then show ?thesis using it'(1) False by (intro exI [of _ it2] exI [of _ r2]) simp
  qed
qed (use assms(5) in \<open>auto intro: exI [of _ 1]\<close>)

text \<open>C21: a walk over a larger pending tree never ends. As soon as the tree has three levels and
  its root two kids, no number of steps makes the iterator invalid, and none of them panics: the first
  steps visit the pairs in order, and every step after the last pair is at one of these pairs again. A
  commit or a scan that walks until the iterator is invalid therefore does not return.\<close>

theorem pending_scan_never_ends:
  assumes "length pages < 2 ^ 64" "tree_holds (mem_view pages) root h kvs" "kvs \<noteq> []" "2 \<le> h" "h < fuel"
    and "mem_get pages root = Some b" "nkeys b = Some n" "2 \<le> n"
  shows "\<exists>it. btree_Seek mem_callbacks pages fuel root [] CMP_GT = Some it
    \<and> (\<forall>m. \<exists>it' i. nexts mem_callbacks pages m it = Some it' \<and> iterValid it' = Some True
         \<and> i < length kvs \<and> iterDeref it' = Some (kvs ! i) \<and> (m < length kvs \<longrightarrow> i = m))
    \<and> (\<forall>f. collect mem_callbacks pages f it = None)"
proof -
  have "root \<noteq> 0" using assms(2,3) by (cases "root = 0") auto
  then obtain b' t where bt: "mem_view pages root = Some b'" "node_tree (mem_view pages) h b' t" "kvs_of t = ([], []) # kvs"
    using assms(2) by (auto elim: tree_holdsE)
  have "b' = b" using mem_get_view [OF assms(1) bt(1)] assms(6) by simp
  then have w: "2 \<le> width t"
    using bt(2) assms(7,8) node_rep_readers(1) [of b' "stype t" "entries_of t"]
    by (simp add: node_tree_def repr_def width_def)
  have t: "sound (mem_view pages) h t" using bt(2) by (simp add: sound_def node_tree_def repr_def)
  obtain it where it: "btree_Seek mem_callbacks pages fuel root [] CMP_GT = Some it" "iter_at h t it 1"
    using mem.Seek_first [OF assms(1) bt(2,1) \<open>root \<noteq> 0\<close> bt(3) assms(3,5)] by auto
  have "\<exists>it' i. nexts mem_callbacks pages m it = Some it' \<and> iterValid it' = Some True
      \<and> i < length kvs \<and> iterDeref it' = Some (kvs ! i) \<and> (m < length kvs \<longrightarrow> i = m)" for m
  proof -
    obtain it' r where it': "nexts mem_callbacks pages m it = Some it'" "iter_at h t it' r" "0 < r"
        "m + 1 < length (kvs_of t) \<longrightarrow> r = m + 1"
      using nexts_tall [OF assms(1) t assms(4) w it(2), of m] by (elim exE conjE) (rule that)
    then show ?thesis
      using mem.iter_at_facts(1,4,5) [OF it'(2) t] bt(3) by (intro exI [of _ it'] exI [of _ "r - 1"]) (auto simp: nth_Cons')
  qed
  then show ?thesis
    using it(1) mem.collect_never_ends [OF assms(1) t assms(4) w it(2)] by (intro exI [of _ it]) simp
qed

theorem pending_scan_never_ends_witness:
  "\<exists>pages root kvs it. tree_holds (mem_view pages) root 2 kvs
     \<and> btree_Seek mem_callbacks pages 3 root [] CMP_GT = Some it
     \<and> (\<forall>m. \<exists>it'. nexts mem_callbacks pages m it = Some it' \<and> iterValid it' = Some True)
     \<and> (\<forall>f. collect mem_callbacks pages f it = None)"
proof -
  let ?l1 = "[(0, [], []), (0, [1], [])] :: entry list" and ?l2 = "[(0, [2], [])] :: entry list"
  let ?i1 = "[(1, [], [])] :: entry list" and ?i2 = "[(2, [2], [])] :: entry list"
  let ?r = "[(3, [], []), (4, [2], [])] :: entry list"
  have page: "\<exists>b. length b = BTREE_PAGE_SIZE \<and> node_rep b ty es" if "nsize es \<le> 4096" "ty < 65536" "ptrs_ok es" for ty es
    using build_node_rep [of es 4096 ty] that by (auto simp: BTREE_PAGE_SIZE_def)
  obtain l1 l2 i1 i2 r where b: "length l1 = BTREE_PAGE_SIZE \<and> node_rep l1 BNODE_LEAF ?l1"
      "length l2 = BTREE_PAGE_SIZE \<and> node_rep l2 BNODE_LEAF ?l2" "length i1 = BTREE_PAGE_SIZE \<and> node_rep i1 BNODE_NODE ?i1"
      "length i2 = BTREE_PAGE_SIZE \<and> node_rep i2 BNODE_NODE ?i2" "length r = BTREE_PAGE_SIZE \<and> node_rep r BNODE_NODE ?r"
    using page [of ?l1 BNODE_LEAF] page [of ?l2 BNODE_LEAF] page [of ?i1 BNODE_NODE] page [of ?i2 BNODE_NODE]
      page [of ?r BNODE_NODE] by (auto simp: nsize_def BNODE_LEAF_def BNODE_NODE_def)
  let ?pages = "[l1, l2, i1, i2, r]"
  let ?t = "SNode [(3, [], SNode [(1, [], SLeaf ?l1)]), (4, [2], SNode [(2, [2], SLeaf ?l2)])]"
  have v: "mem_view ?pages 1 = Some l1" "mem_view ?pages 2 = Some l2" "mem_view ?pages 3 = Some i1"
      "mem_view ?pages 4 = Some i2" "mem_view ?pages 5 = Some r"
    by (simp_all add: mem_view_def eval_nat_numeral)
  have wf: "wf_shape 2 ?t"
    by (simp add: numeral_2_eq_2 wf_kid_def nsize_def BTREE_PAGE_SIZE_def kid_entry_def)
  have st: "stored (mem_view ?pages) ?t"
    using v b by (simp add: stored_kid_def kid_entry_def del: One_nat_def)
  have holds: "tree_holds (mem_view ?pages) 5 2 [([1], []), ([2], [])]"
    using v(5) b(5) wf st by (auto simp: tree_holds_def node_tree_def repr_def kid_entry_def intro!: exI [of _ ?t])
  have get: "mem_get ?pages 5 = Some r" using mem_get_view [OF _ v(5)] by simp
  have nk: "nkeys r = Some 2" using node_rep_readers(1) [of r BNODE_NODE ?r] b(5) by simp
  have len: "length ?pages < 2 ^ 64" by simp
  obtain it where "btree_Seek mem_callbacks ?pages 3 5 [] CMP_GT = Some it"
      "\<forall>m. \<exists>it'. nexts mem_callbacks ?pages m it = Some it' \<and> iterValid it' = Some True"
      "\<forall>f. collect mem_callbacks ?pages f it = None"
    using pending_scan_never_ends [OF len holds _ _ _ get nk, of 3] by (simp add: Suc_le_eq) blast
  then show ?thesis using holds by blast
qed

end
