(* ===== verification/Transaction.thy ===== *)
theory Transaction
  imports KVProps TxPages
begin

text \<open>
  Transactions (\<^verbatim>\<open>db/transaction.go\<close>): a read-only snapshot of the store, an in-memory tree of
  pending changes whose values carry a deleted/updated flag, the key ranges the transaction
  depends on, and commits that are refused when a range overlaps the writes of a newer commit.

  A read of the snapshot goes through the mappings the transaction copied, to the file as it
  is at that moment. \<open>fuel\<close> bounds the height of the trees; the walk over the pending tree in
  a commit has fuel of its own, since it need not end.
\<close>

section \<open>State\<close>

record KVTX =
  snap_root :: nat
  snap_chunks :: "(nat \<times> nat) list"
  tx_version :: nat
  pend_root :: nat
  pend_pages :: "BNode list"
  tx_reads :: "KeyRange list"
  updateAttempted :: bool
  tx_done :: bool

definition new_tx :: KVTX where
  "new_tx = \<lparr>snap_root = 0, snap_chunks = [], tx_version = 0, pend_root = 0, pend_pages = [], tx_reads = [],
     updateAttempted = False, tx_done = False\<rparr>"

record TXSaved =
  saved_root :: nat
  saved_reads :: "KeyRange list"

definition tx_Save :: "KVTX \<Rightarrow> TXSaved" where
  "tx_Save tx = \<lparr>saved_root = pend_root tx, saved_reads = tx_reads tx\<rparr>"

definition tx_Revert :: "KVTX \<Rightarrow> TXSaved \<Rightarrow> KVTX" where
  "tx_Revert tx saved = tx\<lparr>pend_root := saved_root saved, tx_reads := saved_reads saved\<rparr>"

definition FLAG_DELETED :: byte where "FLAG_DELETED = 1"
definition FLAG_UPDATED :: byte where "FLAG_UPDATED = 2"

text \<open>The snapshot tree has no callbacks to change it.\<close>

definition snap_callbacks :: "(nat \<times> nat) list \<Rightarrow> bytes callbacks" where
  "snap_callbacks chunks = \<lparr>tree_get = (\<lambda>f ptr. mmapRead f ptr chunks), tree_new = (\<lambda>f node. None), tree_del = (\<lambda>f ptr. None)\<rparr>"

definition snapshot_Get :: "KV \<Rightarrow> nat \<Rightarrow> KVTX \<Rightarrow> bytes \<Rightarrow> bytes option option" where
  "snapshot_Get kv fuel tx key = btree_Get (snap_callbacks (snap_chunks tx)) fuel key (snap_root tx) (os_file (kv_os kv))"

definition kv_Begin :: "KV \<Rightarrow> KVTX \<Rightarrow> KV \<times> KVTX" where
  "kv_Begin kv tx =
     (let tx = tx\<lparr>snap_root := kv_root kv, tx_version := kv_version kv, snap_chunks := mmap_chunks kv, pend_pages := []\<rparr>
      in (kv\<lparr>kv_ongoing := kv_ongoing kv @ [tx_version tx]\<rparr>, tx))"

section \<open>Conflicts\<close>

definition keyRangeCmp :: "KeyRange \<Rightarrow> KeyRange \<Rightarrow> int" where
  "keyRangeCmp r1 r2 = bytesCompare (kr_start r1) (kr_start r2)"

text \<open>
  \<^verbatim>\<open>slices.SortFunc\<close> with \<^const>\<open>keyRangeCmp\<close>. Go does not promise a stable sort; the answer of the
  overlap test does not depend on the order of ranges with equal starts.
\<close>

definition sortRanges :: "KeyRange list \<Rightarrow> KeyRange list" where
  "sortRanges rs = sort_key kr_start rs"

fun overlapLoop :: "KeyRange list \<Rightarrow> KeyRange list \<Rightarrow> bool" where
  "overlapLoop [] r2 = False"
| "overlapLoop r1 [] = False"
| "overlapLoop (a # r1) (b # r2) =
     (if bytesCompare (kr_stop a) (kr_start b) < 0 then overlapLoop r1 (b # r2)
      else if bytesCompare (kr_stop b) (kr_start a) < 0 then overlapLoop (a # r1) r2
      else True)"

definition sortedRangesOverlap :: "KeyRange list \<Rightarrow> KeyRange list \<Rightarrow> bool" where
  "sortedRangesOverlap r1 r2 = overlapLoop r1 r2"

text \<open>The loop of \<^verbatim>\<open>detectConflicts\<close>, over the history from its newest entry back.\<close>

fun conflictLoop :: "nat \<Rightarrow> KeyRange list \<Rightarrow> CommittedTX list \<Rightarrow> bool" where
  "conflictLoop ver rs [] = False"
| "conflictLoop ver rs (c # cs) =
     (if \<not> versionBefore ver (ctx_version c) then False
      else if sortedRangesOverlap rs (ctx_writes c) then True
      else conflictLoop ver rs cs)"

definition detectConflicts :: "KV \<Rightarrow> KVTX \<Rightarrow> bool \<times> KVTX" where
  "detectConflicts kv tx =
     (let tx = tx\<lparr>tx_reads := sortRanges (tx_reads tx)\<rparr>
      in (conflictLoop (tx_version tx) (tx_reads tx) (rev (kv_history kv)), tx))"

section \<open>The end of a transaction\<close>

fun minLoop :: "nat \<Rightarrow> nat list \<Rightarrow> nat" where
  "minLoop m [] = m"
| "minLoop m (other # vs) = minLoop (if versionBefore other m then other else m) vs"

definition txFinalize :: "KV \<Rightarrow> KVTX \<Rightarrow> KV option" where
  "txFinalize kv tx = do {
     _ \<leftarrow> go_assert (tx_version tx \<in> set (kv_ongoing kv));
     let kv = kv\<lparr>kv_ongoing := remove1 (tx_version tx) (kv_ongoing kv)\<rparr>;
     let minVersion = minLoop (kv_version kv) (kv_ongoing kv);
     Some (kv\<lparr>kv_free := SetMaxVer (kv_free kv) minVersion,
              kv_history := dropWhile (\<lambda>c. \<not> versionBefore minVersion (ctx_version c)) (kv_history kv)\<rparr>)
   }"

datatype commit_error = ErrorConflict | LimitError limit_error | FileError go_error

text \<open>
  One pending change carried over to the tree of the store: the result of the tree's method,
  whether the change should modify anything, and the store.
\<close>

definition transferOne :: "nat \<Rightarrow> KVTX \<Rightarrow> KV \<Rightarrow> bytes \<Rightarrow> bytes \<Rightarrow> ((limit_error + bool) \<times> bool \<times> KV) option" where
  "transferOne fuel tx kv key val = do {
     old \<leftarrow> snapshot_Get kv fuel tx key;
     flag \<leftarrow> list_at val 0;
     (if flag = FLAG_DELETED then do {
        let modified = (old \<noteq> None);
        (res, req, root, kv) \<leftarrow> btree_Delete kv_callbacks fuel (mk_delete key) (kv_root kv) kv;
        Some (res, modified, kv\<lparr>kv_root := root\<rparr>)
      }
      else if flag = FLAG_UPDATED then do {
        let modified = (case old of None \<Rightarrow> True | Some v \<Rightarrow> v \<noteq> drop 1 val);
        (res, req, root, kv) \<leftarrow> btree_Update kv_callbacks fuel (mk_update key (drop 1 val) MODE_UPSERT) (kv_root kv) kv;
        Some (res, modified, kv\<lparr>kv_root := root\<rparr>)
      }
      else None)
   }"

text \<open>
  The loop over the pending changes. The result is an error (with the store as it is then) or
  the ranges written.
\<close>

fun transferLoop :: "nat \<Rightarrow> nat \<Rightarrow> KVTX \<Rightarrow> KV \<Rightarrow> KeyRange list \<Rightarrow> BIter
    \<Rightarrow> ((limit_error + KeyRange list) \<times> KV) option" where
  "transferLoop 0 fuel tx kv writes it = None"
| "transferLoop (Suc steps) fuel tx kv writes it = do {
     valid \<leftarrow> iterValid it;
     (if \<not> valid then Some (Inr writes, kv) else do {
        (key, val) \<leftarrow> iterDeref it;
        (res, modified, kv) \<leftarrow> transferOne fuel tx kv key val;
        (case res of
           Inl err \<Rightarrow> Some (Inl err, kv)
         | Inr updated \<Rightarrow> do {
             _ \<leftarrow> go_assert (updated = modified);
             let writes = (if modified \<and> length (kv_ongoing kv) > 1 then writes @ [\<lparr>kr_start = key, kr_stop = key\<rparr>] else writes);
             it \<leftarrow> iter_Next mem_callbacks (pend_pages tx) it;
             transferLoop steps fuel tx kv writes it
           })
      })
   }"

text \<open>The body of \<^verbatim>\<open>Commit\<close> between the deferred \<^verbatim>\<open>txFinalize\<close> and its registration.\<close>

definition commitBody :: "((nat \<rightharpoonup> bytes) \<Rightarrow> nat list) \<Rightarrow> nat \<Rightarrow> nat \<Rightarrow> KV \<Rightarrow> KVTX \<Rightarrow> (commit_error option \<times> KV \<times> KVTX) option" where
  "commitBody mo steps fuel kv tx =
     (let (conflict, tx) = (if updateAttempted tx then detectConflicts kv tx else (False, tx))
      in if conflict then Some (Some ErrorConflict, kv, tx)
         else do {
           meta \<leftarrow> saveMeta kv;
           let root = kv_root kv;
           let kv = kv\<lparr>kv_free := (kv_free kv)\<lparr>curVer := u64 (kv_version kv + 1)\<rparr>\<rparr>;
           it \<leftarrow> btree_Seek mem_callbacks (pend_pages tx) fuel (pend_root tx) [] CMP_GT;
           (res, kv) \<leftarrow> transferLoop steps fuel tx kv [] it;
           (case res of
              Inl err \<Rightarrow> Some (Some (LimitError err), kv, tx)
            | Inr writes \<Rightarrow> do {
                (err, kv) \<leftarrow> (if kv_root kv \<noteq> root
                   then let kv = kv\<lparr>kv_version := u64 (kv_version kv + 1)\<rparr>
                        in updateOrRevert kv meta (mo (page_updates kv))
                   else Some (None, kv));
                (case err of
                   Some e \<Rightarrow> Some (Some (FileError e), kv, tx)
                 | None \<Rightarrow>
                     (if length writes > 0
                      then Some (None, kv\<lparr>kv_history := kv_history kv @ [\<lparr>ctx_version = kv_version kv, ctx_writes = sortRanges writes\<rparr>]\<rparr>, tx)
                      else Some (None, kv, tx)))
              })
         })"

definition kv_Commit :: "((nat \<rightharpoonup> bytes) \<Rightarrow> nat list) \<Rightarrow> nat \<Rightarrow> nat \<Rightarrow> KV \<Rightarrow> KVTX \<Rightarrow> (commit_error option \<times> KV \<times> KVTX) option" where
  "kv_Commit mo steps fuel kv tx = do {
     _ \<leftarrow> go_assert (\<not> tx_done tx);
     let tx = tx\<lparr>tx_done := True\<rparr>;
     (err, kv, tx) \<leftarrow> commitBody mo steps fuel kv tx;
     kv \<leftarrow> txFinalize kv tx;
     Some (err, kv, tx)
   }"

definition kv_Abort :: "KV \<Rightarrow> KVTX \<Rightarrow> (KV \<times> KVTX) option" where
  "kv_Abort kv tx = do {
     _ \<leftarrow> go_assert (\<not> tx_done tx);
     let tx = tx\<lparr>tx_done := True\<rparr>;
     kv \<leftarrow> txFinalize kv tx;
     Some (kv, tx)
   }"

section \<open>Merging the pending changes with the snapshot\<close>

record CombinedIter =
  ci_top :: BIter
  ci_bottom :: BIter
  ci_direction :: int
  ci_endKey :: bytes
  ci_endCmp :: int

definition ci_Deref :: "CombinedIter \<Rightarrow> (bytes \<times> bytes) option" where
  "ci_Deref it = do {
     topValid \<leftarrow> iterValid (ci_top it);
     bottomValid \<leftarrow> iterValid (ci_bottom it);
     _ \<leftarrow> go_assert (topValid \<or> bottomValid);
     (k1, v1) \<leftarrow> (if topValid then iterDeref (ci_top it) else Some ([], []));
     (k2, v2) \<leftarrow> (if bottomValid then iterDeref (ci_bottom it) else Some ([], []));
     (if topValid \<and> bottomValid \<and> bytesCompare k1 k2 = ci_direction it then Some (k2, v2)
      else if topValid then do { _ \<leftarrow> go_assert (1 \<le> length v1); Some (k1, drop 1 v1) }
      else Some (k2, v2))
   }"

definition ci_Valid :: "CombinedIter \<Rightarrow> bool option" where
  "ci_Valid it = do {
     topValid \<leftarrow> iterValid (ci_top it);
     bottomValid \<leftarrow> iterValid (ci_bottom it);
     (if \<not> topValid \<and> \<not> bottomValid then Some False
      else do {
        (key, v) \<leftarrow> ci_Deref it;
        cmpOK key (ci_endCmp it) (ci_endKey it)
      })
   }"

definition moveIter :: "'s callbacks \<Rightarrow> 's \<Rightarrow> int \<Rightarrow> BIter \<Rightarrow> BIter option" where
  "moveIter cb s direction it = (if direction > 0 then iter_Next cb s it else iter_Prev cb s it)"

definition ci_Next :: "KV \<Rightarrow> KVTX \<Rightarrow> CombinedIter \<Rightarrow> CombinedIter option" where
  "ci_Next kv tx it = do {
     topValid \<leftarrow> iterValid (ci_top it);
     bottomValid \<leftarrow> iterValid (ci_bottom it);
     (topMove, bottomMove) \<leftarrow>
       (if topValid \<and> bottomValid then do {
          (k1, v1) \<leftarrow> iterDeref (ci_top it);
          (k2, v2) \<leftarrow> iterDeref (ci_bottom it);
          Some (if bytesCompare k1 k2 = - ci_direction it then (True, False)
                else if bytesCompare k1 k2 = ci_direction it then (False, True)
                else (True, True))
        }
        else Some (topValid, bottomValid));
     _ \<leftarrow> go_assert (topMove \<or> bottomMove);
     top \<leftarrow> (if topMove then moveIter mem_callbacks (pend_pages tx) (ci_direction it) (ci_top it) else Some (ci_top it));
     bottom \<leftarrow> (if bottomMove
        then moveIter (snap_callbacks (snap_chunks tx)) (os_file (kv_os kv)) (ci_direction it) (ci_bottom it)
        else Some (ci_bottom it));
     Some (it\<lparr>ci_top := top, ci_bottom := bottom\<rparr>)
   }"

section \<open>The key-value interface\<close>

definition add_read :: "bytes \<Rightarrow> bytes \<Rightarrow> KVTX \<Rightarrow> KVTX" where
  "add_read start stop tx = tx\<lparr>tx_reads := tx_reads tx @ [\<lparr>kr_start = start, kr_stop = stop\<rparr>]\<rparr>"

definition tx_Get :: "KV \<Rightarrow> nat \<Rightarrow> KVTX \<Rightarrow> bytes \<Rightarrow> (bytes option \<times> KVTX) option" where
  "tx_Get kv fuel tx key = do {
     let tx = add_read key key tx;
     pending \<leftarrow> btree_Get mem_callbacks fuel key (pend_root tx) (pend_pages tx);
     (case pending of
        Some val \<Rightarrow> do {
          flag \<leftarrow> list_at val 0;
          (if flag = FLAG_UPDATED then Some (Some (drop 1 val), tx)
           else if flag = FLAG_DELETED then Some (None, tx)
           else None)
        }
      | None \<Rightarrow> do { v \<leftarrow> snapshot_Get kv fuel tx key; Some (v, tx) })
   }"

definition cmp2dir :: "int \<Rightarrow> int option" where
  "cmp2dir cmp = (if cmp > 0 then Some 1 else if cmp < 0 then Some (- 1) else None)"

definition tx_Seek :: "KV \<Rightarrow> nat \<Rightarrow> KVTX \<Rightarrow> bytes \<Rightarrow> int \<Rightarrow> bytes \<Rightarrow> int \<Rightarrow> (CombinedIter \<times> KVTX) option" where
  "tx_Seek kv fuel tx key1 cmp1 key2 cmp2 = do {
     direction \<leftarrow> cmp2dir cmp1;
     d2 \<leftarrow> cmp2dir cmp2;
     _ \<leftarrow> go_assert (direction \<noteq> d2);
     let (low, high) = (if direction < 0 then (key2, key1) else (key1, key2));
     let tx = add_read low high tx;
     top \<leftarrow> btree_Seek mem_callbacks (pend_pages tx) fuel (pend_root tx) key1 cmp1;
     bottom \<leftarrow> btree_Seek (snap_callbacks (snap_chunks tx)) (os_file (kv_os kv)) fuel (snap_root tx) key1 cmp1;
     Some (\<lparr>ci_top = top, ci_bottom = bottom, ci_direction = direction, ci_endKey = key2, ci_endCmp = cmp2\<rparr>, tx)
   }"

datatype update_error = DuplicateKey | BadSize limit_error

text \<open>The update of the pending tree.\<close>

definition pend_Update :: "nat \<Rightarrow> KVTX \<Rightarrow> bytes \<Rightarrow> bytes \<Rightarrow> ((limit_error + bool) \<times> KVTX) option" where
  "pend_Update fuel tx key val = do {
     (res, req, root, pages) \<leftarrow> btree_Update mem_callbacks fuel (mk_update key val MODE_UPSERT) (pend_root tx) (pend_pages tx);
     Some (res, tx\<lparr>pend_root := root, pend_pages := pages\<rparr>)
   }"

definition tx_Update :: "KV \<Rightarrow> nat \<Rightarrow> KVTX \<Rightarrow> UpdateReq \<Rightarrow> ((update_error + bool) \<times> UpdateReq \<times> KVTX) option" where
  "tx_Update kv fuel tx req = do {
     let tx = tx\<lparr>updateAttempted := True\<rparr>;
     (currVal, tx) \<leftarrow> tx_Get kv fuel tx (Key req);
     let exists = (currVal \<noteq> None);
     (if Mode req = MODE_INSERT_ONLY \<and> exists then Some (Inl DuplicateKey, req, tx)
      else if (Mode req = MODE_UPDATE_ONLY \<and> \<not> exists) \<or> currVal = Some (Val req) then Some (Inr False, req, tx)
      else do {
        let req = req\<lparr>Old := (case currVal of None \<Rightarrow> [] | Some v \<Rightarrow> v)\<rparr>;
        (res, tx) \<leftarrow> pend_Update fuel tx (Key req) (FLAG_UPDATED # Val req);
        (case res of
           Inl err \<Rightarrow> Some (Inl (BadSize err), req, tx)
         | Inr updated \<Rightarrow> do {
             _ \<leftarrow> go_assert updated;
             Some (Inr True, req\<lparr>Updated := True, Added := \<not> exists\<rparr>, tx)
           })
      })
   }"

definition tx_Set :: "KV \<Rightarrow> nat \<Rightarrow> KVTX \<Rightarrow> bytes \<Rightarrow> bytes \<Rightarrow> ((update_error + bool) \<times> KVTX) option" where
  "tx_Set kv fuel tx key val = do {
     (res, req, tx) \<leftarrow> tx_Update kv fuel tx (mk_update key val MODE_UPSERT);
     Some (res, tx)
   }"

definition tx_Del :: "KV \<Rightarrow> nat \<Rightarrow> KVTX \<Rightarrow> DeleteReq \<Rightarrow> ((limit_error + bool) \<times> DeleteReq \<times> KVTX) option" where
  "tx_Del kv fuel tx req = do {
     let tx = tx\<lparr>updateAttempted := True\<rparr>;
     (currVal, tx) \<leftarrow> tx_Get kv fuel tx (DKey req);
     (case currVal of
        None \<Rightarrow> Some (Inr False, req, tx)
      | Some v \<Rightarrow> do {
          let req = req\<lparr>DOld := v\<rparr>;
          (res, tx) \<leftarrow> pend_Update fuel tx (DKey req) [FLAG_DELETED];
          (case res of
             Inl err \<Rightarrow> Some (Inl err, req, tx)
           | Inr updated \<Rightarrow> do { _ \<leftarrow> go_assert updated; Some (Inr True, req, tx) })
        })
   }"

section \<open>Overlap of ranges\<close>

definition overlap :: "KeyRange \<Rightarrow> KeyRange \<Rightarrow> bool" where
  "overlap a b \<longleftrightarrow> kr_start a \<le> kr_stop b \<and> kr_start b \<le> kr_stop a"

definition sorted_ranges :: "KeyRange list \<Rightarrow> bool" where
  "sorted_ranges rs \<longleftrightarrow> sorted (map kr_start rs)"

lemma sortRanges_ok [simp]: "sorted_ranges (sortRanges rs)" "set (sortRanges rs) = set rs"
  by (simp_all add: sorted_ranges_def sortRanges_def)

lemma overlapLoop_iff:
  "sorted_ranges r1 \<Longrightarrow> sorted_ranges r2 \<Longrightarrow> overlapLoop r1 r2 \<longleftrightarrow> (\<exists>a \<in> set r1. \<exists>b \<in> set r2. overlap a b)"
proof (induction r1 r2 rule: overlapLoop.induct)
  case (3 a r1 b r2)
  have s: "\<forall>b' \<in> set r2. kr_start b \<le> kr_start b'" "\<forall>a' \<in> set r1. kr_start a \<le> kr_start a'"
      "sorted_ranges r1" "sorted_ranges r2" using 3 by (simp_all add: sorted_ranges_def)
  consider "kr_stop a < kr_start b" | "\<not> kr_stop a < kr_start b" "kr_stop b < kr_start a"
    | "\<not> kr_stop a < kr_start b" "\<not> kr_stop b < kr_start a" by blast
  then show ?case
  proof cases
    case 1
    then have "\<forall>b' \<in> set (b # r2). \<not> overlap a b'" using s(1) by (auto simp: overlap_def)
    then show ?thesis using 1 3 s by auto
  next
    case 2
    then have "\<forall>a' \<in> set (a # r1). \<not> overlap a' b" using s(2) by (auto simp: overlap_def)
    then show ?thesis using 2 3 s by auto
  next
    case 3
    then show ?thesis by (auto simp: overlap_def not_less)
  qed
qed simp_all

definition sorted_history :: "CommittedTX list \<Rightarrow> bool" where
  "sorted_history hs \<longleftrightarrow> sorted (map ctx_version hs)"

lemma conflictLoop_iff:
  assumes "sorted_ranges rs" "sorted_history (rev cs)" "\<forall>c \<in> set cs. sorted_ranges (ctx_writes c)"
  shows "conflictLoop ver rs cs \<longleftrightarrow> (\<exists>c \<in> set cs. ver < ctx_version c \<and> (\<exists>r \<in> set rs. \<exists>w \<in> set (ctx_writes c). overlap r w))"
  using assms
proof (induction ver rs cs rule: conflictLoop.induct)
  case (2 ver rs c cs)
  have "\<forall>c' \<in> set cs. ctx_version c' \<le> ctx_version c" "sorted_history (rev cs)"
    using 2(3) by (auto simp: sorted_history_def sorted_append)
  then show ?case
    using 2 overlapLoop_iff [of rs "ctx_writes c"] by (auto simp: versionBefore_def sortedRangesOverlap_def)
qed simp

end
