(* ===== verification/TreeFrame.thy ===== *)
theory TreeFrame
  imports TreeRoot
begin

text \<open>
  What an update or a delete of the B+tree leaves alone: whatever the page callbacks keep. The
  tree changes the page store only by storing and dropping pages, so a predicate kept by the
  two callbacks is kept by \<^const>\<open>btree_Update\<close> and \<^const>\<open>btree_Delete\<close>, whatever the pages hold.
\<close>

section \<open>What the tree keeps\<close>

locale page_frame =
  fixes cb :: "'s callbacks" and P :: "'s \<Rightarrow> bool"
  assumes new_keeps: "tree_new cb s b = Some (p, s') \<Longrightarrow> P s \<Longrightarrow> P s'"
    and del_keeps: "tree_del cb s p = Some s' \<Longrightarrow> P s \<Longrightarrow> P s'"
begin

lemma appendKids_keeps: "appendKids cb new idx kids s = Some (new', s') \<Longrightarrow> P s \<Longrightarrow> P s'"
proof (induction kids arbitrary: new idx s)
  case (Cons node kids)
  then show ?case by (fastforce simp: bind_eq_Some_conv dest: new_keeps)
qed simp

lemma nodeReplaceKidN_keeps: "nodeReplaceKidN cb new old idx kids s = Some (new', s') \<Longrightarrow> P s \<Longrightarrow> P s'"
  by (auto simp: nodeReplaceKidN_def bind_eq_Some_conv dest: appendKids_keeps)

lemma nodeUpdate_keeps:
  assumes IH: "\<And>req node s req' node' s'. treeUpdate cb fuel req node s = Some (req', node', s') \<Longrightarrow> P s \<Longrightarrow> P s'"
    and ev: "nodeUpdate cb fuel req new node idx s = Some (req', node', s')" and s: "P s"
  shows "P s'"
proof -
  obtain kptr kid req1 up s1 where k: "getPtr node idx = Some kptr" "tree_get cb s kptr = Some kid"
      "treeUpdate cb fuel req kid s = Some (req1, up, s1)"
    using ev by (auto simp: bind_eq_Some_conv)
  then have "P s1" using IH s by blast
  then show ?thesis
    using ev k by (auto simp: bind_eq_Some_conv Let_def split: if_splits
      dest!: nodeReplaceKidN_keeps del_keeps new_keeps)
qed

lemma treeUpdate_keeps: "treeUpdate cb fuel req node s = Some (req', node', s') \<Longrightarrow> P s \<Longrightarrow> P s'"
proof (induction fuel arbitrary: req node s req' node' s')
  case (Suc fuel)
  note ev = Suc.prems(1)
  obtain idx ty where l: "nodeLookupLE node (Key req) = Some idx" "btype node = Some ty"
    using ev by (auto simp: bind_eq_Some_conv Let_def)
  show ?case
  proof (cases "ty = BNODE_LEAF")
    case True
    then show ?thesis using ev l Suc.prems(2) by (auto simp: bind_eq_Some_conv Let_def split: if_splits)
  next
    case False
    then obtain new where "nodeUpdate cb fuel req new node idx s = Some (req', node', s')"
      using ev l by (auto simp: Let_def split: if_splits)
    then show ?thesis by (rule nodeUpdate_keeps [OF _ _ Suc.prems(2), rotated]) (rule Suc.IH)
  qed
qed simp

lemma btree_Update_keeps:
  assumes "btree_Update cb fuel req root s = Some (res, req', root', s')" "P s"
  shows "P s'"
proof -
  show ?thesis
    using assms
    by (auto simp: btree_Update_def bind_eq_Some_conv Let_def split: option.splits if_splits
        dest!: treeUpdate_keeps new_keeps del_keeps appendKids_keeps)
qed

lemma nodeDelete_keeps:
  assumes IH: "\<And>req node s req' node' s'. treeDelete cb fuel req node s = Some (req', node', s') \<Longrightarrow> P s \<Longrightarrow> P s'"
    and ev: "nodeDelete cb fuel req node idx s = Some (req', node', s')" and s: "P s"
  shows "P s'"
proof -
  obtain kptr kid req1 up s1 where k: "getPtr node idx = Some kptr" "tree_get cb s kptr = Some kid"
      "treeDelete cb fuel req kid s = Some (req1, up, s1)"
    using ev by (auto simp: bind_eq_Some_conv)
  then have "P s1" using IH s by blast
  then show ?thesis
    using ev k by (auto simp: bind_eq_Some_conv Let_def split: if_splits
      dest!: nodeReplaceKidN_keeps del_keeps new_keeps)
qed

lemma treeDelete_keeps: "treeDelete cb fuel req node s = Some (req', node', s') \<Longrightarrow> P s \<Longrightarrow> P s'"
proof (induction fuel arbitrary: req node s req' node' s')
  case (Suc fuel)
  note ev = Suc.prems(1)
  obtain idx ty where l: "nodeLookupLE node (DKey req) = Some idx" "btype node = Some ty"
    using ev by (auto simp: bind_eq_Some_conv Let_def)
  show ?case
  proof (cases "ty = BNODE_LEAF")
    case True
    then show ?thesis using ev l Suc.prems(2) by (auto simp: bind_eq_Some_conv Let_def split: if_splits)
  next
    case False
    then have "nodeDelete cb fuel req node idx s = Some (req', node', s')"
      using ev l by (auto simp: Let_def split: if_splits)
    then show ?thesis by (rule nodeDelete_keeps [OF _ _ Suc.prems(2), rotated]) (rule Suc.IH)
  qed
qed simp

lemma btree_Delete_keeps:
  assumes "btree_Delete cb fuel req root s = Some (res, req', root', s')" "P s"
  shows "P s'"
  using assms
  by (auto simp: btree_Delete_def bind_eq_Some_conv Let_def split: option.splits if_splits
      dest!: treeDelete_keeps new_keeps del_keeps)

end

section \<open>Changes the tree does not notice\<close>

text \<open>
  A change \<open>g\<close> of the page store that the callbacks commute with commutes with the methods of the
  tree: what the tree does cannot depend on the parts of the store it does not manage.
\<close>

lemma map_option_bind_push: "map_option f (x \<bind> h) = x \<bind> (\<lambda>y. map_option f (h y))"
  by (cases x) simp_all

lemma bind_map_option_pull: "map_option f x \<bind> h = x \<bind> (\<lambda>y. h (f y))"
  by (cases x) simp_all

lemma map_option_if_push: "map_option f (if b then x else y) = (if b then map_option f x else map_option f y)"
  by simp

lemma map_option_prod_push: "map_option f (case p of (a, b) \<Rightarrow> h a b) = (case p of (a, b) \<Rightarrow> map_option f (h a b))"
  by (cases p) simp

lemma map_prod_pair: "map_prod f g p = (f (fst p), g (snd p))"
  by (cases p) simp

lemmas push_map = map_option_bind_push bind_map_option_pull map_option_if_push map_option_prod_push map_prod_pair split_beta

locale page_morph =
  fixes cb :: "'s callbacks" and g :: "'s \<Rightarrow> 's"
  assumes get_g: "tree_get cb (g s) p = tree_get cb s p"
    and new_g: "tree_new cb (g s) b = map_option (map_prod id g) (tree_new cb s b)"
    and del_g: "tree_del cb (g s) p = map_option g (tree_del cb s p)"
begin

lemma appendKids_g: "appendKids cb new idx kids (g s) = map_option (map_prod id g) (appendKids cb new idx kids s)"
proof (induction kids arbitrary: new idx s)
  case (Cons node kids)
  show ?case by (simp add: new_g push_map Cons.IH split_beta)
qed simp

lemma nodeReplaceKidN_g:
  "nodeReplaceKidN cb new old idx kids (g s) = map_option (map_prod id g) (nodeReplaceKidN cb new old idx kids s)"
  by (simp add: nodeReplaceKidN_def appendKids_g push_map)

lemma nodeUpdate_g:
  assumes "\<And>req node s. treeUpdate cb fuel req node (g s) = map_option (map_prod id (map_prod id g)) (treeUpdate cb fuel req node s)"
  shows "nodeUpdate cb fuel req new node idx (g s) = map_option (map_prod id (map_prod id g)) (nodeUpdate cb fuel req new node idx s)"
  by (simp add: assms get_g del_g nodeReplaceKidN_g push_map cong: if_cong)

lemma treeUpdate_g: "treeUpdate cb fuel req node (g s) = map_option (map_prod id (map_prod id g)) (treeUpdate cb fuel req node s)"
proof (induction fuel arbitrary: req node s)
  case (Suc fuel)
  show ?case by (simp add: nodeUpdate_g [OF Suc.IH] map_option_bind_push map_option_if_push id_def Let_def del: nodeUpdate.simps cong: if_cong)
qed simp

lemma btree_Update_g:
  "btree_Update cb fuel req root (g s) = map_option (map_prod id (map_prod id (map_prod id g))) (btree_Update cb fuel req root s)"
  by (simp add: btree_Update_def get_g del_g new_g treeUpdate_g appendKids_g push_map Let_def cong: if_cong option.case_cong split: option.split)

end

end
