(* ===== verification/TxState.thy ===== *)
theory TxState
  imports Transaction TreeFrame
begin

text \<open>
  Concurrent transactions as a state machine: any number of transactions, told apart by a
  number, begin, read, write, save and revert, commit or abort in any order, each method in one
  step (the store's methods hold its mutex; a transaction's own methods touch nothing shared).
  A ghost log keeps what every commit changed, whether or not the store remembered it.
\<close>

section \<open>What a commit leaves alone\<close>

text \<open>The part of the store the transactions' bookkeeping is in.\<close>

definition books :: "KV \<Rightarrow> nat \<times> nat list \<times> CommittedTX list" where
  "books kv = (kv_version kv, kv_ongoing kv, kv_history kv)"

definition tx_part :: "KV \<Rightarrow> (nat \<times> nat list \<times> CommittedTX list) \<times> nat" where
  "tx_part kv = (books kv, maxVer (kv_free kv))"

lemma books_upd [simp]:
  "books (s\<lparr>kv_free := f\<rparr>) = books s" "books (s\<lparr>page_updates := u\<rparr>) = books s" "books (s\<lparr>kv_root := r\<rparr>) = books s"
  "books (s\<lparr>kv_os := os\<rparr>) = books s" "books (s\<lparr>kv_failed := b\<rparr>) = books s" "books (s\<lparr>page_nappend := n\<rparr>) = books s"
  by (simp_all add: books_def)

lemma tx_part_upd [simp]:
  "tx_part (s\<lparr>page_updates := u\<rparr>) = tx_part s" "tx_part (s\<lparr>kv_root := r\<rparr>) = tx_part s"
  "tx_part (s\<lparr>kv_free := (kv_free s)\<lparr>curVer := v\<rparr>\<rparr>) = tx_part s"
  by (simp_all add: tx_part_def)

lemma fl_callbacks_keep:
  "fl_new kv_fl_callbacks s b = Some (p, s') \<Longrightarrow> tx_part s' = tx_part s"
  "fl_set kv_fl_callbacks s p f = Some s' \<Longrightarrow> tx_part s' = tx_part s"
  by (auto simp: kv_fl_callbacks_def pageAppend_def pageWrite_def bind_eq_Some_conv Let_def tx_part_def)

lemma flPop_keeps: "flPop cb fl s = Some (p, h, fl') \<Longrightarrow> maxVer fl' = maxVer fl"
  by (auto simp: flPop_def bind_eq_Some_conv Let_def split: if_splits)

lemma PushTail_maxVer: "PushTail cb fl s p = Some (fl', s') \<Longrightarrow> maxVer fl' = maxVer fl"
  by (auto simp: PushTail_def bind_eq_Some_conv Let_def split: if_splits dest!: flPop_keeps)

lemma PopHead_maxVer: "PopHead cb fl s = Some (p, fl', s') \<Longrightarrow> maxVer fl' = maxVer fl"
  by (auto simp: PopHead_def bind_eq_Some_conv Let_def split: if_splits dest!: flPop_keeps PushTail_maxVer)

lemma PushTail_keeps: "PushTail kv_fl_callbacks fl s p = Some (fl', s') \<Longrightarrow> tx_part s' = tx_part s"
  by (auto simp: PushTail_def bind_eq_Some_conv Let_def split: if_splits dest!: fl_callbacks_keep)

lemma PopHead_keeps: "PopHead kv_fl_callbacks fl s = Some (p, fl', s') \<Longrightarrow> tx_part s' = tx_part s"
  by (auto simp: PopHead_def bind_eq_Some_conv Let_def split: if_splits dest!: PushTail_keeps)

lemma kv_list_keeps:
  "kv_PopHead s = Some (p, s') \<Longrightarrow> tx_part s' = tx_part s" "kv_PushTail s p = Some s' \<Longrightarrow> tx_part s' = tx_part s"
  by (auto simp: kv_PopHead_def kv_PushTail_def tx_part_def bind_eq_Some_conv dest: PopHead_maxVer PushTail_maxVer PopHead_keeps PushTail_keeps)

lemma tree_callbacks_keep:
  "tree_new kv_callbacks s b = Some (p, s') \<Longrightarrow> tx_part s' = tx_part s"
  "tree_del kv_callbacks s p = Some s' \<Longrightarrow> tx_part s' = tx_part s"
  using fl_callbacks_keep(1)
  by (auto simp: kv_callbacks_def pageAlloc_def kv_fl_callbacks_def bind_eq_Some_conv Let_def split: if_splits dest!: kv_list_keeps)

interpretation kvf: page_frame kv_callbacks "\<lambda>kv. tx_part kv = m" for m
  by unfold_locales (auto dest: tree_callbacks_keep)

lemma transferOne_keeps: "transferOne fuel tx kv key val = Some (res, modified, kv') \<Longrightarrow> tx_part kv' = tx_part kv"
  by (auto simp: transferOne_def bind_eq_Some_conv Let_def split: if_splits option.splits
      dest!: kvf.btree_Update_keeps [OF _ refl] kvf.btree_Delete_keeps [OF _ refl])

lemma transferLoop_keeps:
  "transferLoop steps fuel tx kv ws it = Some (res, kv') \<Longrightarrow> tx_part kv' = tx_part kv"
proof (induction steps arbitrary: kv ws it)
  case (Suc steps)
  obtain valid where v: "iterValid it = Some valid" using Suc.prems by (auto simp: bind_eq_Some_conv)
  show ?case
  proof (cases valid)
    case True
    obtain key val r m kv1 where one: "iterDeref it = Some (key, val)" "transferOne fuel tx kv key val = Some (r, m, kv1)"
      using Suc.prems v True by (auto simp: bind_eq_Some_conv)
    have k: "tx_part kv1 = tx_part kv" by (rule transferOne_keeps [OF one(2)])
    show ?thesis
    proof (cases r)
      case (Inl e)
      then show ?thesis using Suc.prems v True one k by simp
    next
      case (Inr b)
      then obtain ws' it' where "transferLoop steps fuel tx kv1 ws' it' = Some (res, kv')"
        using Suc.prems v True one by (auto simp: bind_eq_Some_conv Let_def)
      then show ?thesis using Suc.IH k by metis
    qed
  qed (use Suc.prems v in simp)
qed simp

text \<open>The keys the loop of a commit modifies, whether or not other transactions are running.\<close>

fun modifiedKeys :: "nat \<Rightarrow> nat \<Rightarrow> KVTX \<Rightarrow> KV \<Rightarrow> BIter \<Rightarrow> bytes list option" where
  "modifiedKeys 0 fuel tx kv it = None"
| "modifiedKeys (Suc steps) fuel tx kv it = do {
     valid \<leftarrow> iterValid it;
     (if \<not> valid then Some [] else do {
        (key, val) \<leftarrow> iterDeref it;
        (res, modified, kv) \<leftarrow> transferOne fuel tx kv key val;
        it \<leftarrow> iter_Next mem_callbacks (pend_pages tx) it;
        keys \<leftarrow> modifiedKeys steps fuel tx kv it;
        Some (if modified then key # keys else keys)
      })
   }"

definition point_range :: "bytes \<Rightarrow> KeyRange" where
  "point_range k = \<lparr>kr_start = k, kr_stop = k\<rparr>"

lemma transferLoop_writes:
  "transferLoop steps fuel tx kv ws it = Some (Inr ws', kv') \<Longrightarrow>
   \<exists>ks. modifiedKeys steps fuel tx kv it = Some ks \<and> ws' = ws @ (if length (kv_ongoing kv) > 1 then map point_range ks else [])"
proof (induction steps arbitrary: kv ws it)
  case (Suc steps)
  obtain valid where v: "iterValid it = Some valid" using Suc.prems by (auto simp: bind_eq_Some_conv)
  show ?case
  proof (cases valid)
    case True
    obtain key val r m kv1 where one: "iterDeref it = Some (key, val)" "transferOne fuel tx kv key val = Some (r, m, kv1)"
      using Suc.prems v True by (auto simp: bind_eq_Some_conv)
    have k: "kv_ongoing kv1 = kv_ongoing kv" using transferOne_keeps [OF one(2)] by (simp add: tx_part_def books_def)
    obtain it' where "iter_Next mem_callbacks (pend_pages tx) it = Some it'"
      "transferLoop steps fuel tx kv1 (if m \<and> length (kv_ongoing kv1) > 1 then ws @ [point_range key] else ws) it' = Some (Inr ws', kv')"
      using Suc.prems v True one by (auto simp: bind_eq_Some_conv Let_def point_range_def split: sum.splits cong: if_cong)
    then obtain ks where "modifiedKeys steps fuel tx kv1 it' = Some ks"
        "ws' = (if m \<and> length (kv_ongoing kv1) > 1 then ws @ [point_range key] else ws)
           @ (if length (kv_ongoing kv1) > 1 then map point_range ks else [])"
      using Suc.IH by blast
    then show ?thesis using v True one k \<open>iter_Next _ _ _ = Some it'\<close> by simp
  qed (use Suc.prems v in simp)
qed simp

section \<open>Versions through a commit\<close>

lemma saved_version:
  assumes "saveMeta kv = Some meta" "loadMeta db meta = Some db'" "kv_version kv < 2 ^ 64"
  shows "books db' = (kv_version kv, kv_ongoing db, kv_history db)" "maxVer (kv_free db') = maxVer (kv_free db)"
proof -
  obtain d where d: "put_le 8 d 64 (kv_version kv) = Some meta" using assms(1) by (auto simp: saveMeta_def bind_eq_Some_conv)
  then have "64 + 8 \<le> length d" by (simp add: put_le_def split: if_splits)
  then have "get_le 8 meta 64 = Some (kv_version kv)" using get_put_le [of 64 8 d "kv_version kv"] assms(3) d by auto
  then show "books db' = (kv_version kv, kv_ongoing db, kv_history db)" "maxVer (kv_free db') = maxVer (kv_free db)"
    using assms(2) by (auto simp: loadMeta_def books_def bind_eq_Some_conv)
qed

lemma writeLoop_keeps: "writeLoop db ord = Some (err, db') \<Longrightarrow> tx_part db' = tx_part db"
proof (induction ord arbitrary: db)
  case (Cons ptr ord)
  obtain node where n: "page_updates db ptr = Some node" using Cons.prems by (auto simp: bind_eq_Some_conv)
  obtain e os where w: "sys_pwrite (kv_os db) node (u64 (ptr * BTREE_PAGE_SIZE)) = (e, os)" by fastforce
  have k: "tx_part (db\<lparr>kv_os := os\<rparr>) = tx_part db" by (simp add: tx_part_def)
  show ?case
    using Cons.prems Cons.IH [of "db\<lparr>kv_os := os\<rparr>"] n w k by (auto simp: Let_def split: option.splits)
qed simp

lemma file_steps_keep:
  "extendMmap db sz = (err, db') \<Longrightarrow> tx_part db' = tx_part db" "kv_Fsync db = (err, db') \<Longrightarrow> tx_part db' = tx_part db"
  "rewriteMeta db meta = (err, db') \<Longrightarrow> tx_part db' = tx_part db"
  by (auto simp: extendMmap_def kv_Fsync_def rewriteMeta_def tx_part_def books_def Let_def
      split: if_split_asm option.split_asm prod.split_asm)

lemma updateRoot_keeps: "updateRoot db = Some (err, db') \<Longrightarrow> tx_part db' = tx_part db"
proof -
  assume u: "updateRoot db = Some (err, db')"
  then obtain meta where m: "saveMeta db = Some meta" by (auto simp: updateRoot_def bind_eq_Some_conv)
  obtain e os where w: "sys_pwrite (kv_os db) meta 0 = (e, os)" by fastforce
  show ?thesis using u m w by (cases e) (auto simp: updateRoot_def tx_part_def Let_def)
qed

lemma writePages_keeps: "writePages db ord = Some (err, db') \<Longrightarrow> tx_part db' = tx_part db"
proof -
  assume w: "writePages db ord = Some (err, db')"
  let ?sz = "u64 (page_flushed db + page_nappend db) * BTREE_PAGE_SIZE"
  obtain e1 db1 where x: "extendMmap db ?sz = (e1, db1)" by fastforce
  note k1 = file_steps_keep(1) [OF x]
  show ?thesis
  proof (cases e1)
    case None
    then obtain e2 db2 where l: "writeLoop db1 ord = Some (e2, db2)"
      using w x by (auto simp: writePages_def bind_eq_Some_conv)
    show ?thesis
      using writeLoop_keeps [OF l] k1 w x l None
      by (cases e2) (auto simp: writePages_def tx_part_def books_def)
  qed (use w x k1 in \<open>simp add: writePages_def\<close>)
qed

lemma updateFile_keeps: "updateFile db ord = Some (err, db') \<Longrightarrow> tx_part db' = tx_part db"
  by (auto simp: updateFile_def bind_eq_Some_conv Let_def split: if_splits prod.splits
      dest!: writePages_keeps file_steps_keep updateRoot_keeps)

lemma updateOrRevert_versions:
  assumes "updateOrRevert db meta ord = Some (err, db')" "saveMeta kv = Some meta" "kv_version kv < 2 ^ 64"
  shows "kv_ongoing db' = kv_ongoing db" "kv_history db' = kv_history db" "maxVer (kv_free db') = maxVer (kv_free db)"
    "kv_version db' = kv_version db \<or> (err \<noteq> None \<and> kv_version db' = kv_version kv)"
proof -
  obtain e1 db1 where r: "rewriteMeta db meta = (e1, db1)" by fastforce
  note k1 = file_steps_keep(3) [OF r]
  have "tx_part db' = tx_part db \<or> (err \<noteq> None \<and> tx_part db' = ((kv_version kv, kv_ongoing db, kv_history db), maxVer (kv_free db)))"
  proof (cases "e1 = None")
    case True
    then obtain e2 db2 where u: "updateFile db1 ord = Some (e2, db2)"
      using assms(1) r by (auto simp: updateOrRevert_def bind_eq_Some_conv)
    note k2 = updateFile_keeps [OF u]
    show ?thesis
    proof (cases "e2 = None")
      case False
      then obtain db3 where "loadMeta (db2\<lparr>kv_failed := True\<rparr>) meta = Some db3"
        "db' = db3\<lparr>page_nappend := 0, page_updates := Map.empty\<rparr>" "err = e2"
        using assms(1) r u True by (auto simp: updateOrRevert_def bind_eq_Some_conv Let_def)
      then show ?thesis using saved_version [OF assms(2) _ assms(3), of "db2\<lparr>kv_failed := True\<rparr>" db3] False k1 k2
        by (auto simp: tx_part_def books_def)
    qed (use assms(1) r u True k1 k2 in \<open>auto simp: updateOrRevert_def bind_eq_Some_conv Let_def\<close>)
  qed (use assms(1) r k1 in \<open>auto simp: updateOrRevert_def\<close>)
  then show "kv_ongoing db' = kv_ongoing db" "kv_history db' = kv_history db" "maxVer (kv_free db') = maxVer (kv_free db)"
    "kv_version db' = kv_version db \<or> (err \<noteq> None \<and> kv_version db' = kv_version kv)"
    by (auto simp: tx_part_def books_def)
qed

section \<open>The keys a commit changes\<close>

definition committedKeys :: "nat \<Rightarrow> nat \<Rightarrow> KV \<Rightarrow> KVTX \<Rightarrow> bytes list option" where
  "committedKeys steps fuel kv tx = do {
     it \<leftarrow> btree_Seek mem_callbacks (pend_pages tx) fuel (pend_root tx) [] CMP_GT;
     modifiedKeys steps fuel tx (kv\<lparr>kv_free := (kv_free kv)\<lparr>curVer := u64 (kv_version kv + 1)\<rparr>\<rparr>) it
   }"

lemma transferOne_reads [simp]: "transferOne fuel (tx\<lparr>tx_reads := r\<rparr>) kv key val = transferOne fuel tx kv key val"
  by (simp add: transferOne_def snapshot_Get_def)

lemma modifiedKeys_reads [simp]: "modifiedKeys steps fuel (tx\<lparr>tx_reads := r\<rparr>) kv it = modifiedKeys steps fuel tx kv it"
  by (induction steps arbitrary: kv it) (simp_all cong: if_cong)

lemma committedKeys_reads [simp]: "committedKeys steps fuel kv (tx\<lparr>tx_reads := r\<rparr>) = committedKeys steps fuel kv tx"
  by (simp add: committedKeys_def)

definition conflicting :: "KV \<Rightarrow> KVTX \<Rightarrow> bool" where
  "conflicting kv tx \<longleftrightarrow> updateAttempted tx \<and> conflictLoop (tx_version tx) (sortRanges (tx_reads tx)) (rev (kv_history kv))"

text \<open>What a commit does to the bookkeeping before it is finalized.\<close>

definition commit_books :: "nat \<Rightarrow> nat \<Rightarrow> KV \<Rightarrow> KVTX \<Rightarrow> commit_error option \<Rightarrow> KV \<Rightarrow> bool" where
  "commit_books steps fuel kv tx err kv1 \<longleftrightarrow>
     kv_ongoing kv1 = kv_ongoing kv \<and> maxVer (kv_free kv1) = maxVer (kv_free kv)
   \<and> kv_version kv1 \<in> {kv_version kv, kv_version kv + 1} \<and> (err = Some ErrorConflict \<longleftrightarrow> conflicting kv tx)
   \<and> (if err = None
      then \<exists>ks. committedKeys steps fuel kv tx = Some ks \<and> kv_history kv1 = kv_history kv
             @ (if length (kv_ongoing kv) > 1 \<and> ks \<noteq> [] then [\<lparr>ctx_version = kv_version kv1, ctx_writes = sortRanges (map point_range ks)\<rparr>] else [])
      else kv_history kv1 = kv_history kv)"

lemma commitBody_books:
  assumes ev: "commitBody mo steps fuel kv tx = Some (err, kv1, tx1)" and v: "kv_version kv + 1 < 2 ^ 64"
  shows "commit_books steps fuel kv tx err kv1" "tx_version tx1 = tx_version tx"
proof -
  obtain c t where d: "(if updateAttempted tx then detectConflicts kv tx else (False, tx)) = (c, t)" by fastforce
  then have c: "c = conflicting kv tx" and t: "tx_version t = tx_version tx" "committedKeys steps fuel kv t = committedKeys steps fuel kv tx"
    by (auto simp: detectConflicts_def conflicting_def Let_def split: if_splits)
  have "commit_books steps fuel kv tx err kv1 \<and> tx1 = t"
  proof (cases c)
    case True
    then show ?thesis using ev d c by (auto simp: commitBody_def commit_books_def)
  next
    case False
    let ?k = "kv\<lparr>kv_free := (kv_free kv)\<lparr>curVer := u64 (kv_version kv + 1)\<rparr>\<rparr>"
    obtain meta where m: "saveMeta kv = Some meta" using ev d False by (auto simp: commitBody_def bind_eq_Some_conv)
    obtain it where i: "btree_Seek mem_callbacks (pend_pages t) fuel (pend_root t) [] CMP_GT = Some it"
      using ev d False by (auto simp: commitBody_def bind_eq_Some_conv Let_def)
    obtain res k2 where l: "transferLoop steps fuel t ?k [] it = Some (res, k2)"
      using ev d False m i by (auto simp: commitBody_def bind_eq_Some_conv Let_def)
    have k2: "kv_version k2 = kv_version kv" "kv_ongoing k2 = kv_ongoing kv" "kv_history k2 = kv_history kv"
        "maxVer (kv_free k2) = maxVer (kv_free kv)"
      using transferLoop_keeps [OF l] by (simp_all add: tx_part_def books_def)
    show ?thesis
    proof (cases res)
      case (Inl e)
      then show ?thesis using ev d False m i l k2 c by (auto simp: commitBody_def Let_def commit_books_def)
    next
      case (Inr ws)
      obtain ks where ks: "committedKeys steps fuel kv tx = Some ks" "ws = (if length (kv_ongoing kv) > 1 then map point_range ks else [])"
        using transferLoop_writes [OF l [unfolded Inr]] i t(2) by (auto simp: committedKeys_def)
      let ?up = "if kv_root k2 \<noteq> kv_root kv then let k = k2\<lparr>kv_version := u64 (kv_version k2 + 1)\<rparr>
          in updateOrRevert k meta (mo (page_updates k)) else Some (None, k2)"
      obtain e k3 where u: "?up = Some (e, k3)"
        using ev d False m i l Inr by (auto simp: commitBody_def bind_eq_Some_conv Let_def)
      have k3: "kv_ongoing k3 = kv_ongoing kv" "kv_history k3 = kv_history kv" "maxVer (kv_free k3) = maxVer (kv_free kv)"
          "kv_version k3 \<in> {kv_version kv, kv_version kv + 1}"
        using u k2 v updateOrRevert_versions [OF _ m, of "k2\<lparr>kv_version := u64 (kv_version k2 + 1)\<rparr>" _ e k3]
        by (auto simp: Let_def split: if_splits)
      show ?thesis
      proof (cases e)
        case (Some x)
        then have "err = Some (FileError x)" "kv1 = k3" "tx1 = t"
          using ev d False m i l Inr u by (auto simp: commitBody_def Let_def)
        then show ?thesis using k3 c False by (simp add: commit_books_def)
      next
        case None
        then have r: "err = None" "tx1 = t" "kv1 = (if length ws > 0 then k3\<lparr>kv_history := kv_history k3 @ [\<lparr>ctx_version = kv_version k3, ctx_writes = sortRanges ws\<rparr>]\<rparr> else k3)"
          using ev d False m i l Inr u by (auto simp: commitBody_def Let_def split: if_splits)
        then show ?thesis using k3 ks c False by (auto simp: commit_books_def)
      qed
    qed
  qed
  then show "commit_books steps fuel kv tx err kv1" "tx_version tx1 = tx_version tx" using t by simp_all
qed

end
