(* ===== verification/TxMachine.thy ===== *)
theory TxMachine
  imports TxState "HOL-Library.Multiset"
begin

text \<open>
  Concurrent transactions as a state machine: any number of transactions, told apart by a
  number, begin, read, write, save, revert, commit and abort in any order, each method in one
  step (the store's methods hold its mutex, a transaction's own methods touch nothing shared).
  The system calls may be given new outcomes at any time. A ghost log keeps the version and the
  modified keys of every successful commit, whether or not the store remembers them.
\<close>

section \<open>The steps\<close>

record Sys =
  skv :: KV
  txns :: "nat \<rightharpoonup> KVTX"
  clog :: "(nat \<times> bytes list) list"

inductive tx_op :: "KV \<Rightarrow> KVTX \<Rightarrow> KVTX \<Rightarrow> bool" where
  op_get: "tx_Get kv fuel tx key = Some (v, tx') \<Longrightarrow> tx_op kv tx tx'"
| op_seek: "tx_Seek kv fuel tx key1 cmp1 key2 cmp2 = Some (it, tx') \<Longrightarrow> tx_op kv tx tx'"
| op_update: "tx_Update kv fuel tx req = Some (res, req', tx') \<Longrightarrow> tx_op kv tx tx'"
| op_del: "tx_Del kv fuel tx dreq = Some (dres, dreq', tx') \<Longrightarrow> tx_op kv tx tx'"
| op_revert: "tx_op kv tx (tx_Revert tx saved)"

inductive sys_step :: "Sys \<Rightarrow> Sys \<Rightarrow> bool" where
  step_begin: "txns s i = None \<Longrightarrow> kv_Begin (skv s) new_tx = (kv', tx)
    \<Longrightarrow> sys_step s (s\<lparr>skv := kv', txns := (txns s)(i \<mapsto> tx)\<rparr>)"
| step_op: "txns s i = Some tx \<Longrightarrow> tx_op (skv s) tx tx' \<Longrightarrow> sys_step s (s\<lparr>txns := (txns s)(i \<mapsto> tx')\<rparr>)"
| step_commit: "txns s i = Some tx \<Longrightarrow> kv_version (skv s) + 1 < 2 ^ 64 \<Longrightarrow> kv_Commit mo steps fuel (skv s) tx = Some (None, kv', tx')
    \<Longrightarrow> committedKeys steps fuel (skv s) tx = Some ks
    \<Longrightarrow> sys_step s (s\<lparr>skv := kv', txns := (txns s)(i := None), clog := clog s @ [(kv_version kv', ks)]\<rparr>)"
| step_fail: "txns s i = Some tx \<Longrightarrow> kv_version (skv s) + 1 < 2 ^ 64 \<Longrightarrow> kv_Commit mo steps fuel (skv s) tx = Some (Some err, kv', tx')
    \<Longrightarrow> sys_step s (s\<lparr>skv := kv', txns := (txns s)(i := None)\<rparr>)"
| step_abort: "txns s i = Some tx \<Longrightarrow> kv_Abort (skv s) tx = Some (kv', tx')
    \<Longrightarrow> sys_step s (s\<lparr>skv := kv', txns := (txns s)(i := None)\<rparr>)"
| step_env: "sys_step s (s\<lparr>skv := (skv s)\<lparr>kv_os := (kv_os (skv s))\<lparr>os_outcomes := rs\<rparr>\<rparr>\<rparr>)"

text \<open>A store as \<^const>\<open>kv_Open\<close> leaves it: nothing is running, nothing is remembered, and whatever the
  free list holds may be used again.\<close>

definition idle :: "KV \<Rightarrow> bool" where
  "idle kv \<longleftrightarrow> kv_ongoing kv = [] \<and> kv_history kv = [] \<and> maxVer (kv_free kv) = kv_version kv"

inductive sys_reach :: "Sys \<Rightarrow> bool" where
  reach_open: "idle kv \<Longrightarrow> sys_reach \<lparr>skv = kv, txns = Map.empty, clog = []\<rparr>"
| reach_step: "sys_reach s \<Longrightarrow> sys_step s s' \<Longrightarrow> sys_reach s'"

inductive_cases sys_step_cases: "sys_step s s'"
inductive_cases tx_op_cases: "tx_op kv tx tx'"

section \<open>Facts about single operations\<close>

lemma pend_Update_keeps: "pend_Update fuel tx key val = Some (res, tx') \<Longrightarrow> tx_version tx' = tx_version tx \<and> tx_done tx' = tx_done tx"
  by (auto simp: pend_Update_def bind_eq_Some_conv)

lemma tx_Get_keeps: "tx_Get kv fuel tx key = Some (v, tx') \<Longrightarrow> tx' = add_read key key tx"
proof -
  assume g: "tx_Get kv fuel tx key = Some (v, tx')"
  then obtain p where p: "btree_Get mem_callbacks fuel key (pend_root (add_read key key tx)) (pend_pages (add_read key key tx)) = Some p"
    by (auto simp: tx_Get_def Let_def bind_eq_Some_conv)
  show ?thesis
  proof (cases p)
    case None
    then show ?thesis using g p by (auto simp: tx_Get_def Let_def bind_eq_Some_conv)
  next
    case (Some w)
    then show ?thesis using g p by (auto simp: tx_Get_def Let_def bind_eq_Some_conv split: if_split_asm)
  qed
qed

lemma add_read_simps [simp]:
  "tx_version (add_read a b tx) = tx_version tx" "tx_done (add_read a b tx) = tx_done tx"
  "tx_reads (add_read a b tx) = tx_reads tx @ [\<lparr>kr_start = a, kr_stop = b\<rparr>]" "pend_root (add_read a b tx) = pend_root tx"
  "pend_pages (add_read a b tx) = pend_pages tx" "snap_root (add_read a b tx) = snap_root tx"
  "snap_chunks (add_read a b tx) = snap_chunks tx" "updateAttempted (add_read a b tx) = updateAttempted tx"
  by (simp_all add: add_read_def)

lemma tx_Update_keeps:
  assumes "tx_Update kv fuel tx req = Some (res, req', tx')"
  shows "tx_version tx' = tx_version tx \<and> tx_done tx' = tx_done tx"
proof -
  obtain cur t where g: "tx_Get kv fuel (tx\<lparr>updateAttempted := True\<rparr>) (Key req) = Some (cur, t)"
    using assms by (auto simp: tx_Update_def Let_def bind_eq_Some_conv)
  have t: "tx_version t = tx_version tx" "tx_done t = tx_done tx" using tx_Get_keeps [OF g] by simp_all
  show ?thesis
  proof (cases "(Mode req = MODE_INSERT_ONLY \<and> cur \<noteq> None) \<or> (Mode req = MODE_UPDATE_ONLY \<and> cur = None) \<or> cur = Some (Val req)")
    case True
    then show ?thesis using assms g t by (auto simp: tx_Update_def Let_def split: if_split_asm)
  next
    case False
    then obtain r t' where p: "pend_Update fuel t (Key req) (FLAG_UPDATED # Val req) = Some (r, t')"
      using assms g by (auto simp: tx_Update_def Let_def bind_eq_Some_conv split: if_split_asm)
    then have "tx' = t'"
      using assms g False by (cases r) (auto simp: tx_Update_def Let_def bind_eq_Some_conv split: if_split_asm)
    then show ?thesis using pend_Update_keeps [OF p] t by simp
  qed
qed

lemma tx_Del_keeps:
  assumes "tx_Del kv fuel tx req = Some (res, req', tx')"
  shows "tx_version tx' = tx_version tx \<and> tx_done tx' = tx_done tx"
proof -
  obtain cur t where g: "tx_Get kv fuel (tx\<lparr>updateAttempted := True\<rparr>) (DKey req) = Some (cur, t)"
    using assms by (auto simp: tx_Del_def Let_def bind_eq_Some_conv)
  have t: "tx_version t = tx_version tx" "tx_done t = tx_done tx" using tx_Get_keeps [OF g] by simp_all
  show ?thesis
  proof (cases cur)
    case None
    then show ?thesis using assms g t by (simp add: tx_Del_def)
  next
    case (Some v)
    then obtain r t' where p: "pend_Update fuel t (DKey req) [FLAG_DELETED] = Some (r, t')"
      using assms g by (auto simp: tx_Del_def Let_def bind_eq_Some_conv)
    then have "tx' = t'" using assms g Some by (cases r) (auto simp: tx_Del_def Let_def bind_eq_Some_conv)
    then show ?thesis using pend_Update_keeps [OF p] t by simp
  qed
qed

lemma tx_Seek_keeps: "tx_Seek kv fuel tx key1 cmp1 key2 cmp2 = Some (it, tx') \<Longrightarrow> \<exists>a b. tx' = add_read a b tx"
  by (fastforce simp: tx_Seek_def bind_eq_Some_conv Let_def split: prod.split_asm if_split_asm)

lemma tx_op_keeps: "tx_op kv tx tx' \<Longrightarrow> tx_version tx' = tx_version tx \<and> tx_done tx' = tx_done tx"
  by (induction rule: tx_op.induct)
     (auto simp: tx_Revert_def dest: tx_Get_keeps tx_Seek_keeps tx_Update_keeps tx_Del_keeps)

lemma minLoop_start: "minLoop m vs \<le> m"
proof (induction vs arbitrary: m)
  case (Cons a vs)
  then show ?case using order_trans [OF Cons [of a], of m] by (simp add: versionBefore_def)
qed simp

lemma minLoop_le: "v \<in> set vs \<Longrightarrow> minLoop m vs \<le> v"
proof (induction vs arbitrary: m)
  case (Cons a vs)
  then show ?case
    using minLoop_start [of a vs] minLoop_start [of m vs] by (cases "a < m") (auto simp: versionBefore_def not_less)
qed simp

lemma minLoop_in: "minLoop m vs \<in> insert m (set vs)"
  by (induction vs arbitrary: m) (auto simp: versionBefore_def)

lemma txFinalize_books:
  assumes "txFinalize kv tx = Some kv'"
  shows "kv_ongoing kv' = remove1 (tx_version tx) (kv_ongoing kv)" "kv_version kv' = kv_version kv"
    "maxVer (kv_free kv') = minLoop (kv_version kv) (kv_ongoing kv')" "tx_version tx \<in> set (kv_ongoing kv)"
    "kv_history kv' = dropWhile (\<lambda>c. \<not> maxVer (kv_free kv') < ctx_version c) (kv_history kv)"
  using assms by (auto simp: txFinalize_def bind_eq_Some_conv Let_def SetMaxVer_def versionBefore_def)

section \<open>Versions of the running transactions\<close>

definition active_versions :: "(nat \<rightharpoonup> KVTX) \<Rightarrow> nat multiset" where
  "active_versions m = image_mset (\<lambda>i. tx_version (the (m i))) (mset_set (dom m))"

lemma active_versions_add:
  assumes "finite (dom m)" "m i = None"
  shows "active_versions (m(i \<mapsto> tx)) = add_mset (tx_version tx) (active_versions m)"
proof -
  have "i \<notin> dom m" using assms(2) by auto
  moreover have "image_mset (\<lambda>j. tx_version (the ((m(i \<mapsto> tx)) j))) (mset_set (dom m)) = active_versions m"
    unfolding active_versions_def by (rule image_mset_cong) (use assms calculation in auto)
  ultimately show ?thesis using assms by (simp add: active_versions_def)
qed

lemma active_versions_remove:
  assumes "finite (dom m)" "m i = Some tx"
  shows "active_versions m = add_mset (tx_version tx) (active_versions (m(i := None)))"
  using active_versions_add [of "m(i := None)" i tx] assms by (simp add: fun_upd_idem)

lemma active_versions_same:
  assumes "finite (dom m)" "m i = Some tx" "tx_version tx' = tx_version tx"
  shows "active_versions (m(i \<mapsto> tx')) = active_versions m"
  using active_versions_add [of "m(i := None)" i tx'] active_versions_remove [OF assms(1,2)] assms by simp

lemma active_version_in:
  assumes "finite (dom m)" "m i = Some tx"
  shows "tx_version tx \<in># active_versions m"
  using active_versions_remove [OF assms] by simp

section \<open>The invariant\<close>

text \<open>The history entry that stands for a logged commit.\<close>

definition stands_for :: "CommittedTX \<Rightarrow> nat \<times> bytes list \<Rightarrow> bool" where
  "stands_for c e \<longleftrightarrow> ctx_version c = fst e \<and> sorted_ranges (ctx_writes c) \<and> set (ctx_writes c) = point_range ` set (snd e)"

definition sys_inv :: "Sys \<Rightarrow> bool" where
  "sys_inv s \<longleftrightarrow> finite (dom (txns s)) \<and> mset (kv_ongoing (skv s)) = active_versions (txns s)
   \<and> (\<forall>i tx. txns s i = Some tx \<longrightarrow> \<not> tx_done tx \<and> maxVer (kv_free (skv s)) \<le> tx_version tx \<and> tx_version tx \<le> kv_version (skv s))
   \<and> maxVer (kv_free (skv s)) = minLoop (kv_version (skv s)) (kv_ongoing (skv s)) \<and> sorted_history (kv_history (skv s))
   \<and> (\<forall>c \<in> set (kv_history (skv s)). maxVer (kv_free (skv s)) < ctx_version c)
   \<and> (\<forall>e \<in> set (clog s). fst e \<le> kv_version (skv s))
   \<and> (\<forall>c \<in> set (kv_history (skv s)). \<exists>e \<in> set (clog s). stands_for c e)
   \<and> (\<forall>e \<in> set (clog s). \<forall>i tx. txns s i = Some tx \<longrightarrow> tx_version tx < fst e \<longrightarrow> snd e \<noteq> []
        \<longrightarrow> (\<exists>c \<in> set (kv_history (skv s)). stands_for c e))"

lemma sys_invD:
  assumes "sys_inv s"
  shows "finite (dom (txns s))" "mset (kv_ongoing (skv s)) = active_versions (txns s)"
    "txns s i = Some tx \<Longrightarrow> \<not> tx_done tx \<and> maxVer (kv_free (skv s)) \<le> tx_version tx \<and> tx_version tx \<le> kv_version (skv s)"
    "maxVer (kv_free (skv s)) = minLoop (kv_version (skv s)) (kv_ongoing (skv s))" "sorted_history (kv_history (skv s))"
    "e \<in> set (clog s) \<Longrightarrow> fst e \<le> kv_version (skv s)"
    "c \<in> set (kv_history (skv s)) \<Longrightarrow> \<exists>e \<in> set (clog s). stands_for c e"
    "e \<in> set (clog s) \<Longrightarrow> txns s i = Some tx \<Longrightarrow> tx_version tx < fst e \<Longrightarrow> snd e \<noteq> []
       \<Longrightarrow> \<exists>c \<in> set (kv_history (skv s)). stands_for c e"
    "c \<in> set (kv_history (skv s)) \<Longrightarrow> maxVer (kv_free (skv s)) < ctx_version c"
  using assms unfolding sys_inv_def by blast+

lemma history_versions:
  "sys_inv s \<Longrightarrow> c \<in> set (kv_history (skv s)) \<Longrightarrow> ctx_version c \<le> kv_version (skv s) \<and> sorted_ranges (ctx_writes c)"
  using sys_invD(6,7) by (fastforce simp: stands_for_def)

lemma sys_inv_idle: "idle kv \<Longrightarrow> sys_inv \<lparr>skv = kv, txns = Map.empty, clog = []\<rparr>"
  by (simp add: sys_inv_def idle_def active_versions_def sorted_history_def)

lemma minLoop_snoc: "minLoop m (vs @ [m]) = minLoop m vs"
proof -
  have "minLoop m' (vs @ [m]) = minLoop m' vs" if "m' \<le> m" for m'
    using that by (induction vs arbitrary: m') (auto simp: versionBefore_def)
  then show ?thesis by simp
qed

lemma sys_inv_begin:
  assumes inv: "sys_inv s" and i: "txns s i = None" and b: "kv_Begin (skv s) new_tx = (kv', tx)"
  shows "sys_inv (s\<lparr>skv := kv', txns := (txns s)(i \<mapsto> tx)\<rparr>)"
proof -
  have v: "tx_version tx = kv_version (skv s)" "\<not> tx_done tx"
    and k: "kv_ongoing kv' = kv_ongoing (skv s) @ [kv_version (skv s)]" "kv_version kv' = kv_version (skv s)"
      "kv_history kv' = kv_history (skv s)" "kv_free kv' = kv_free (skv s)"
    using b by (auto simp: kv_Begin_def new_tx_def Let_def)
  have "e \<in> set (clog s) \<Longrightarrow> \<not> kv_version (skv s) < fst e" for e using sys_invD(6) [OF inv] by fastforce
  moreover have "mset (kv_ongoing kv') = active_versions ((txns s)(i \<mapsto> tx))"
    using active_versions_add [OF sys_invD(1) [OF inv] i] sys_invD(2) [OF inv] by (simp add: k v)
  ultimately show ?thesis
    using inv v k sys_invD(4) [OF inv] minLoop_start by (auto simp: sys_inv_def minLoop_snoc)
qed

lemma dropWhile_stay: "c \<in> set h \<Longrightarrow> \<not> P c \<Longrightarrow> c \<in> set (dropWhile P h)"
  by (induction h) auto

lemma sorted_history_append:
  "sorted_history (as @ bs) \<longleftrightarrow> sorted_history as \<and> sorted_history bs \<and> (\<forall>a \<in> set as. \<forall>b \<in> set bs. ctx_version a \<le> ctx_version b)"
  by (auto simp: sorted_history_def sorted_append)

lemma history_trimmed: "sorted_history h \<Longrightarrow> c \<in> set (dropWhile (\<lambda>c. \<not> m < ctx_version c) h) \<Longrightarrow> m < ctx_version c"
proof (induction h)
  case (Cons a h)
  then show ?case by (auto simp: sorted_history_def split: if_split_asm)
qed simp

lemma sorted_history_dropWhile: "sorted_history h \<Longrightarrow> sorted_history (dropWhile P h)"
  using sorted_history_append [of "takeWhile P h" "dropWhile P h"] by simp

text \<open>The end of a transaction: what it needs of the bookkeeping just before \<^const>\<open>txFinalize\<close>.\<close>

lemma sys_inv_end:
  assumes inv: "sys_inv s" and i: "txns s i = Some tx" and t: "tx_version t = tx_version tx"
    and k1: "kv_ongoing k1 = kv_ongoing (skv s)" "kv_version (skv s) \<le> kv_version k1" "sorted_history (kv_history k1)"
    and hist: "\<forall>c \<in> set (kv_history k1). \<exists>e \<in> set lg. stands_for c e"
    and lg: "\<forall>e \<in> set lg. fst e \<le> kv_version k1"
    and rec: "\<And>e j u. e \<in> set lg \<Longrightarrow> txns s j = Some u \<Longrightarrow> j \<noteq> i \<Longrightarrow> tx_version u < fst e \<Longrightarrow> snd e \<noteq> []
       \<Longrightarrow> \<exists>c \<in> set (kv_history k1). stands_for c e"
    and fin: "txFinalize k1 t = Some kv'"
  shows "sys_inv (s\<lparr>skv := kv', txns := (txns s)(i := None), clog := lg\<rparr>)"
proof -
  note f = txFinalize_books [OF fin]
  let ?m = "(txns s)(i := None)"
  note D = sys_invD [OF inv]
  have fin: "finite (dom ?m)" using D(1) by simp
  have ms: "mset (kv_ongoing kv') = active_versions ?m"
    using active_versions_remove [OF D(1) i] D(2) f(1) k1(1) t by simp
  have max: "maxVer (kv_free kv') = minLoop (kv_version kv') (kv_ongoing kv')" using f(2,3) by simp
  have act: "\<not> tx_done u \<and> maxVer (kv_free kv') \<le> tx_version u \<and> tx_version u \<le> kv_version kv'" if u: "?m j = Some u" for j u
  proof -
    have "tx_version u \<in># mset (kv_ongoing kv')" unfolding ms by (rule active_version_in [OF fin u])
    then have "maxVer (kv_free kv') \<le> tx_version u" unfolding f(3) by (intro minLoop_le) simp
    then show ?thesis using u D(3) [of j u] k1(2) f(2) by (auto split: if_split_asm)
  qed
  have sub: "set (kv_history kv') \<subseteq> set (kv_history k1)" unfolding f(5) using set_dropWhileD by fast
  have srt: "sorted_history (kv_history kv')"
    using k1(3) unfolding f(5) by (rule sorted_history_dropWhile)
  have new: "maxVer (kv_free kv') < ctx_version c" if "c \<in> set (kv_history kv')" for c
    using history_trimmed [OF k1(3)] that unfolding f(5) by blast
  have stay: "c \<in> set (kv_history kv')" if "c \<in> set (kv_history k1)" "maxVer (kv_free kv') < ctx_version c" for c
    using that unfolding f(5) by (intro dropWhile_stay) simp_all
  have rec': "\<exists>c \<in> set (kv_history kv'). stands_for c e"
    if e: "e \<in> set lg" "?m j = Some u" "tx_version u < fst e" "snd e \<noteq> []" for e j u
  proof -
    have "j \<noteq> i" "txns s j = Some u" using e(2) by (auto split: if_split_asm)
    then obtain c where c: "c \<in> set (kv_history k1)" "stands_for c e" using rec e by blast
    have "maxVer (kv_free kv') < ctx_version c" using act [OF e(2)] e(3) c(2) by (auto simp: stands_for_def)
    then show ?thesis using stay c by blast
  qed
  show ?thesis
    unfolding sys_inv_def using fin ms act max srt new sub hist rec' lg f(2) by simp blast
qed

lemma kv_Commit_books:
  assumes ev: "kv_Commit mo steps fuel kv tx = Some (err, kv', tx')" and v: "kv_version kv + 1 < 2 ^ 64"
  obtains k1 t where "commit_books steps fuel kv tx err k1" "tx_version t = tx_version tx" "txFinalize k1 t = Some kv'" "\<not> tx_done tx"
proof -
  let ?tx = "tx\<lparr>tx_done := True\<rparr>"
  obtain k1 t where b: "commitBody mo steps fuel kv ?tx = Some (err, k1, t)" "txFinalize k1 t = Some kv'" "\<not> tx_done tx"
    using ev by (auto simp: kv_Commit_def bind_eq_Some_conv Let_def)
  have "transferOne fuel ?tx k key val = transferOne fuel tx k key val" for k key val
    by (simp add: transferOne_def snapshot_Get_def)
  then have "modifiedKeys steps fuel ?tx k it = modifiedKeys steps fuel tx k it" for k it
    by (induction steps arbitrary: k it) (simp_all cong: if_cong)
  then have same: "committedKeys steps fuel kv ?tx = committedKeys steps fuel kv tx" "conflicting kv ?tx = conflicting kv tx"
    by (simp_all add: committedKeys_def conflicting_def)
  have "commit_books steps fuel kv tx err k1" "tx_version t = tx_version tx"
    using commitBody_books [OF b(1) v] same by (simp_all add: commit_books_def cong: if_cong)
  then show ?thesis using that b by blast
qed

lemma ongoing_others:
  assumes inv: "sys_inv s" and "txns s i = Some tx" "txns s j = Some u" "j \<noteq> i"
  shows "1 < length (kv_ongoing (skv s))"
proof -
  note D = sys_invD(1,2) [OF inv]
  let ?m = "(txns s)(i := None)"
  have f: "finite (dom ?m)" using D by simp
  have "?m j = Some u" using assms by simp
  then have "mset (kv_ongoing (skv s)) = {#tx_version tx#} + ({#tx_version u#} + active_versions (?m(j := None)))"
    using active_versions_remove [OF D(1) assms(2)] active_versions_remove [OF f] D(2) by simp
  then have "size (mset (kv_ongoing (skv s))) \<ge> 2" by simp
  then show ?thesis by simp
qed

lemma stands_for_new: "stands_for \<lparr>ctx_version = v, ctx_writes = sortRanges (map point_range ks)\<rparr> (v, ks)"
  by (simp add: stands_for_def)

lemma sys_inv_commit:
  assumes inv: "sys_inv s" and i: "txns s i = Some tx" and v: "kv_version (skv s) + 1 < 2 ^ 64"
    and ev: "kv_Commit mo steps fuel (skv s) tx = Some (None, kv', tx')" and ks: "committedKeys steps fuel (skv s) tx = Some ks"
  shows "sys_inv (s\<lparr>skv := kv', txns := (txns s)(i := None), clog := clog s @ [(kv_version kv', ks)]\<rparr>)"
proof -
  obtain k1 t where k: "commit_books steps fuel (skv s) tx None k1" "tx_version t = tx_version tx" "txFinalize k1 t = Some kv'"
    by (rule kv_Commit_books [OF ev v])
  let ?new = "\<lparr>ctx_version = kv_version k1, ctx_writes = sortRanges (map point_range ks)\<rparr>"
  have h: "kv_history k1 = kv_history (skv s) @ (if length (kv_ongoing (skv s)) > 1 \<and> ks \<noteq> [] then [?new] else [])"
    and b: "kv_ongoing k1 = kv_ongoing (skv s)" "kv_version (skv s) \<le> kv_version k1"
    using k(1) ks by (auto simp: commit_books_def)
  have v': "kv_version kv' = kv_version k1" by (rule txFinalize_books(2) [OF k(3)])
  note D = sys_invD [OF inv]
  show ?thesis
    unfolding v'
  proof (rule sys_inv_end [OF inv i k(2) b(1,2) _ _ _ _ k(3)])
    show "sorted_history (kv_history k1)"
      using D(5) history_versions [OF inv] b(2) unfolding h sorted_history_append
      by (fastforce simp: sorted_history_def)
    show "\<forall>c \<in> set (kv_history k1). \<exists>e \<in> set (clog s @ [(kv_version k1, ks)]). stands_for c e"
      using D(7) stands_for_new [of "kv_version k1" ks] unfolding h by (auto split: if_split_asm)
    show "\<forall>e \<in> set (clog s @ [(kv_version k1, ks)]). fst e \<le> kv_version k1" using D(6) b(2) by fastforce
    show "\<exists>c \<in> set (kv_history k1). stands_for c e"
      if e: "e \<in> set (clog s @ [(kv_version k1, ks)])" "txns s j = Some u" "j \<noteq> i" "tx_version u < fst e" "snd e \<noteq> []" for e j u
    proof (cases "e \<in> set (clog s)")
      case True
      then show ?thesis using D(8) [OF True e(2,4,5)] unfolding h by auto
    next
      case False
      then have "e = (kv_version k1, ks)" using e by simp
      then show ?thesis using ongoing_others [OF inv i e(2,3)] e(5) stands_for_new [of "kv_version k1" ks] unfolding h by auto
    qed
  qed
qed

lemma sys_inv_finish:
  assumes inv: "sys_inv s" and i: "txns s i = Some tx" and t: "tx_version t = tx_version tx"
    and k: "kv_ongoing k1 = kv_ongoing (skv s)" "kv_version (skv s) \<le> kv_version k1" "kv_history k1 = kv_history (skv s)"
      "txFinalize k1 t = Some kv'"
  shows "sys_inv (s\<lparr>skv := kv', txns := (txns s)(i := None)\<rparr>)"
proof -
  note D = sys_invD [OF inv]
  have "sys_inv (s\<lparr>skv := kv', txns := (txns s)(i := None), clog := clog s\<rparr>)"
  proof (rule sys_inv_end [OF inv i t k(1,2) _ _ _ _ k(4)])
    show "sorted_history (kv_history k1)" "\<forall>c \<in> set (kv_history k1). \<exists>e \<in> set (clog s). stands_for c e"
      using D(5,7) k(3) by simp_all
    show "\<forall>e \<in> set (clog s). fst e \<le> kv_version k1" using D(6) k(2) order_trans by blast
  qed (use D(8) k(3) in simp)
  then show ?thesis by simp
qed

lemma sys_inv_step: "sys_step s s' \<Longrightarrow> sys_inv s \<Longrightarrow> sys_inv s'"
proof (induction rule: sys_step.induct)
  case (step_begin s i kv' tx)
  then show ?case using sys_inv_begin by blast
next
  case (step_op s i tx tx')
  then show ?case
    using active_versions_same [of "txns s" i tx tx'] tx_op_keeps [of "skv s" tx tx'] by (auto simp: sys_inv_def)
next
  case (step_commit s i tx mo steps fuel kv' tx' ks)
  then show ?case using sys_inv_commit by blast
next
  case (step_fail s i tx mo steps fuel err kv' tx')
  obtain k1 t where k: "commit_books steps fuel (skv s) tx (Some err) k1" "tx_version t = tx_version tx" "txFinalize k1 t = Some kv'"
    by (rule kv_Commit_books [OF step_fail(3,2)])
  then show ?case using sys_inv_finish [OF step_fail(4,1)] by (auto simp: commit_books_def)
next
  case (step_abort s i tx kv' tx')
  then show ?case
    using sys_inv_finish [OF step_abort(3,1), of "tx\<lparr>tx_done := True\<rparr>" "skv s" kv'] by (auto simp: kv_Abort_def bind_eq_Some_conv Let_def)
next
  case (step_env s rs)
  then show ?case by (auto simp: sys_inv_def)
qed

lemma sys_reach_inv: "sys_reach s \<Longrightarrow> sys_inv s"
  by (induction rule: sys_reach.induct) (use sys_inv_idle sys_inv_step in blast)+

section \<open>The oldest version in use\<close>

text \<open>The oldest snapshot a running transaction reads, or the current version when none is running.\<close>

definition oldest :: "Sys \<Rightarrow> nat" where
  "oldest s = Min (insert (kv_version (skv s)) (tx_version ` ran (txns s)))"

lemma minLoop_Min: "minLoop m vs = Min (insert m (set vs))"
  by (rule sym, rule Min_eqI) (use minLoop_in minLoop_start minLoop_le in auto)

lemma active_set: "finite (dom m) \<Longrightarrow> set_mset (active_versions m) = tx_version ` ran m"
  by (force simp: active_versions_def ran_def dom_def)

lemma max_is_oldest: "sys_inv s \<Longrightarrow> maxVer (kv_free (skv s)) = oldest s"
proof -
  assume inv: "sys_inv s"
  note D = sys_invD [OF inv]
  have "set (kv_ongoing (skv s)) = set_mset (active_versions (txns s))" using D(2) by (metis set_mset_mset)
  then show ?thesis using D(4) active_set [OF D(1)] by (simp add: minLoop_Min oldest_def)
qed

text \<open>What is remembered, some running transaction may conflict with.\<close>

lemma history_needed:
  assumes inv: "sys_inv s" and c: "c \<in> set (kv_history (skv s))"
  shows "\<exists>i tx. txns s i = Some tx \<and> tx_version tx < ctx_version c"
proof -
  have lt: "maxVer (kv_free (skv s)) < ctx_version c" "ctx_version c \<le> kv_version (skv s)"
    using sys_invD(9) [OF inv c] history_versions [OF inv c] by simp_all
  have fin: "finite (ran (txns s))" using sys_invD(1) [OF inv] by (rule finite_ran)
  have "oldest s \<in> insert (kv_version (skv s)) (tx_version ` ran (txns s))"
    unfolding oldest_def by (rule Min_in) (use fin in auto)
  then show ?thesis using lt max_is_oldest [OF inv] by (fastforce simp: ran_def)
qed

lemma conflicting_iff:
  assumes inv: "sys_inv s" and i: "txns s i = Some tx"
  shows "conflicting (skv s) tx \<longleftrightarrow> updateAttempted tx \<and>
     (\<exists>(v, ks) \<in> set (clog s). tx_version tx < v \<and> (\<exists>k \<in> set ks. \<exists>r \<in> set (tx_reads tx). kr_start r \<le> k \<and> k \<le> kr_stop r))"
    (is "_ \<longleftrightarrow> _ \<and> ?ex")
proof -
  note D = sys_invD [OF inv]
  let ?h = "kv_history (skv s)"
  have "\<forall>c \<in> set ?h. sorted_ranges (ctx_writes c)" using D(7) by (auto simp: stands_for_def)
  then have "conflictLoop (tx_version tx) (sortRanges (tx_reads tx)) (rev ?h) \<longleftrightarrow>
      (\<exists>c \<in> set ?h. tx_version tx < ctx_version c \<and> (\<exists>r \<in> set (tx_reads tx). \<exists>w \<in> set (ctx_writes c). overlap r w))"
    using D(5) by (subst conflictLoop_iff) simp_all
  also have "\<dots> \<longleftrightarrow> ?ex"
  proof
    assume "\<exists>c \<in> set ?h. tx_version tx < ctx_version c \<and> (\<exists>r \<in> set (tx_reads tx). \<exists>w \<in> set (ctx_writes c). overlap r w)"
    then obtain c r w where c: "c \<in> set ?h" "tx_version tx < ctx_version c" "r \<in> set (tx_reads tx)" "w \<in> set (ctx_writes c)" "overlap r w"
      by blast
    obtain v ks where e: "(v, ks) \<in> set (clog s)" "stands_for c (v, ks)" using D(7) [OF c(1)] by fast
    then obtain k where "k \<in> set ks" "w = point_range k" using c(4) by (auto simp: stands_for_def)
    moreover have "tx_version tx < v" using c(2) e(2) by (simp add: stands_for_def)
    ultimately show ?ex using c(3,5) e(1) by (fastforce simp: overlap_def point_range_def)
  next
    assume ?ex
    then obtain v ks k r where e: "(v, ks) \<in> set (clog s)" "tx_version tx < v" "k \<in> set ks" "r \<in> set (tx_reads tx)" "kr_start r \<le> k" "k \<le> kr_stop r"
      by auto
    have "ks \<noteq> []" using e(3) by auto
    then obtain c where c: "c \<in> set ?h" "stands_for c (v, ks)" using D(8) [OF e(1) i] e(2) by auto
    have "overlap r (point_range k)" using e(5,6) by (simp add: overlap_def point_range_def)
    then show "\<exists>c \<in> set ?h. tx_version tx < ctx_version c \<and> (\<exists>r \<in> set (tx_reads tx). \<exists>w \<in> set (ctx_writes c). overlap r w)"
      using c e(2,3,4) by (intro bexI [of _ c] conjI bexI [of _ r] bexI [of _ "point_range k"]) (auto simp: stands_for_def)
  qed
  finally show ?thesis by (simp add: conflicting_def)
qed

end
