(* ===== verification/TxOps.thy ===== *)
theory TxOps
  imports TxMachine
begin

text \<open>
  A single transaction as a map: reads see the snapshot overlaid with the transaction's own
  changes, writes change only the pending tree, and going back to a saved state undoes them.
\<close>

section \<open>The map a transaction sees\<close>

definition pend_holds :: "KVTX \<Rightarrow> nat \<Rightarrow> kv list \<Rightarrow> bool" where
  "pend_holds tx h pend \<longleftrightarrow> length (pend_pages tx) < 2 ^ 64 \<and> tree_holds (mem_view (pend_pages tx)) (pend_root tx) h pend"

text \<open>Pending values are the new value behind a flag, or the mark of a deletion.\<close>

definition flagged :: "kv list \<Rightarrow> bool" where
  "flagged pend \<longleftrightarrow> (\<forall>(k, v) \<in> set pend. (\<exists>w. v = FLAG_UPDATED # w) \<or> v = [FLAG_DELETED])"

definition overlay :: "(bytes \<Rightarrow> bytes option) \<Rightarrow> kv list \<Rightarrow> bytes \<Rightarrow> bytes option" where
  "overlay m pend k = (case map_of pend k of
      None \<Rightarrow> m k
    | Some v \<Rightarrow> if v = [FLAG_DELETED] then None else Some (drop 1 v))"

definition snap_reads :: "KV \<Rightarrow> nat \<Rightarrow> KVTX \<Rightarrow> (bytes \<Rightarrow> bytes option) \<Rightarrow> bool" where
  "snap_reads kv fuel tx m \<longleftrightarrow> (\<forall>key. key \<noteq> [] \<longrightarrow> snapshot_Get kv fuel tx key = Some (m key))"

text \<open>\<open>tx_sees kv fuel tx h m pend\<close>: the transaction's snapshot is \<open>m\<close> and its pending pairs are \<open>pend\<close>.\<close>

definition tx_sees :: "KV \<Rightarrow> nat \<Rightarrow> KVTX \<Rightarrow> nat \<Rightarrow> (bytes \<Rightarrow> bytes option) \<Rightarrow> kv list \<Rightarrow> bool" where
  "tx_sees kv fuel tx h m pend \<longleftrightarrow> pend_holds tx h pend \<and> snap_reads kv fuel tx m \<and> flagged pend \<and> small_kvs pend"

lemma FLAG_simps [simp]: "FLAG_DELETED \<noteq> FLAG_UPDATED" "FLAG_UPDATED \<noteq> FLAG_DELETED"
  by (simp_all add: FLAG_DELETED_def FLAG_UPDATED_def)

lemma flagged_map_of: "flagged pend \<Longrightarrow> map_of pend k = Some v \<Longrightarrow> (\<exists>w. v = FLAG_UPDATED # w) \<or> v = [FLAG_DELETED]"
  using map_of_SomeD [of pend k v] by (fastforce simp: flagged_def)

lemma flagged_ins: "flagged pend \<Longrightarrow> (\<exists>w. v = FLAG_UPDATED # w) \<or> v = [FLAG_DELETED] \<Longrightarrow> flagged (ins_kv k v pend)"
proof -
  assume a: "flagged pend" "(\<exists>w. v = FLAG_UPDATED # w) \<or> v = [FLAG_DELETED]"
  show "flagged (ins_kv k v pend)"
    unfolding flagged_def
  proof (intro ballI, clarify)
    fix k' v' assume n: "(k', v') \<in> set (ins_kv k v pend)" "v' \<noteq> [FLAG_DELETED]"
    then have "(k', v') = (k, v) \<or> (k', v') \<in> set pend" using set_ins_kv_sub [of k v pend] by blast
    then show "\<exists>w. v' = FLAG_UPDATED # w" using a n(2) by (auto simp: flagged_def)
  qed
qed

lemma overlay_ins:
  "sorted_kvs pend \<Longrightarrow> overlay m (ins_kv k (FLAG_UPDATED # w) pend) = (overlay m pend)(k \<mapsto> w)"
  "sorted_kvs pend \<Longrightarrow> overlay m (ins_kv k [FLAG_DELETED] pend) = (overlay m pend)(k := None)"
  by (auto simp: overlay_def fun_eq_iff map_of_ins_kv)

lemma tx_sees_sorted: "tx_sees kv fuel tx h m pend \<Longrightarrow> sorted_kvs pend"
  using tree_holds_sorted(1) by (auto simp: tx_sees_def pend_holds_def)

lemma tx_sees_cong:
  assumes "tx_sees kv fuel tx h m pend" "pend_pages tx' = pend_pages tx" "pend_root tx' = pend_root tx"
    "snap_root tx' = snap_root tx" "snap_chunks tx' = snap_chunks tx"
  shows "tx_sees kv fuel tx' h m pend"
  using assms by (simp add: tx_sees_def pend_holds_def snap_reads_def snapshot_Get_def)

lemma tx_Get_ok:
  assumes s: "tx_sees kv fuel tx h m pend" and "h < fuel" "key \<noteq> []"
  shows "tx_Get kv fuel tx key = Some (overlay m pend key, add_read key key tx)"
proof -
  have g: "btree_Get mem_callbacks fuel key (pend_root tx) (pend_pages tx) = Some (map_of pend key)"
    using mem.btree_Get_ok [of "pend_pages tx" "pend_root tx" h pend fuel key] assms
    by (simp add: tx_sees_def pend_holds_def)
  have sn: "snapshot_Get kv fuel (add_read key key tx) key = Some (m key)"
    using s assms(3) by (simp add: tx_sees_def snap_reads_def snapshot_Get_def)
  have f: "map_of pend key = Some v \<Longrightarrow> (\<exists>w. v = FLAG_UPDATED # w) \<or> v = [FLAG_DELETED]" for v
    using s flagged_map_of [of pend key v] by (simp add: tx_sees_def)
  show ?thesis
    using g sn f by (auto simp: tx_Get_def overlay_def Let_def split: option.split)
qed

section \<open>Changing the pending tree\<close>

interpretation memf: page_frame mem_callbacks "\<lambda>pages. prefix ps pages" for ps
  by unfold_locales (auto simp: mem_callbacks_def mem_new_def mem_del_def Let_def)

lemma mem_view_prefix: "prefix ps pages \<Longrightarrow> mem_view ps p = Some b \<Longrightarrow> mem_view pages p = Some b"
  by (auto simp: prefix_def mem_view_def nth_append split: if_split_asm)

text \<open>What a step of a transaction keeps: its snapshot, and every page of the pending tree so far.\<close>

definition tx_grows :: "KVTX \<Rightarrow> KVTX \<Rightarrow> bool" where
  "tx_grows tx tx' \<longleftrightarrow> prefix (pend_pages tx) (pend_pages tx') \<and> snap_root tx' = snap_root tx
     \<and> snap_chunks tx' = snap_chunks tx \<and> tx_version tx' = tx_version tx \<and> tx_done tx' = tx_done tx"

lemma tx_grows_refl [simp]: "tx_grows tx tx"
  by (simp add: tx_grows_def)

lemma tx_grows_trans: "tx_grows a b \<Longrightarrow> tx_grows b c \<Longrightarrow> tx_grows a c"
  by (auto simp: tx_grows_def intro: prefix_order.trans)

lemma pend_Update_ok:
  assumes p: "pend_holds tx h pend" and small: "small_kvs pend" "small_op (k, v)" and h: "h < fuel" "4 * h + 5 \<le> mem_room (pend_pages tx)"
  obtains h' tx' where "pend_Update fuel tx k v = Some (Inr (map_of pend k \<noteq> Some v), tx')" "pend_holds tx' h' (ins_kv k v pend)"
    "h' \<le> Suc h" "mem_room (pend_pages tx) \<le> mem_room (pend_pages tx') + 4 * h + 5" "tx_grows tx tx'"
    "tx_reads tx' = tx_reads tx" "updateAttempted tx' = updateAttempted tx" "small_kvs (ins_kv k v pend)"
proof -
  let ?req = "mk_update k v MODE_UPSERT" and ?s = "pend_pages tx"
  note ph = p [unfolded pend_holds_def]
  have sk: "small_kvs (ins_kv k v pend)" using small_ins_kv [OF small(1)] small(2) by (simp add: small_op_def)
  obtain req' root h' s' where u: "btree_Update mem_callbacks fuel ?req (pend_root tx) ?s = Some (Inr (map_of pend k \<noteq> Some v), req', root, s')"
    "length s' < 2 ^ 64" "mem_room ?s \<le> mem_room s' + 4 * h + 5" "h' \<le> Suc h" "tree_holds (mem_view s') root h' (ins_kv k v pend)"
    by (rule mem.upsert_result [OF conjunct1 [OF ph] conjunct2 [OF ph] h(1,2) small(2,1)])
  let ?tx = "tx\<lparr>pend_root := root, pend_pages := s'\<rparr>"
  have "prefix ?s s'" by (rule memf.btree_Update_keeps [OF u(1)]) simp
  then have "tx_grows tx ?tx" by (simp add: tx_grows_def)
  then show ?thesis
    using u sk by (intro that [of ?tx h']) (simp_all add: pend_Update_def pend_holds_def)
qed

section \<open>Writes\<close>

datatype tx_write = SetOp bytes bytes | DelOp bytes

fun run_write :: "KV \<Rightarrow> nat \<Rightarrow> tx_write \<Rightarrow> KVTX \<Rightarrow> KVTX option" where
  "run_write kv fuel (SetOp k v) tx = do { (res, tx) \<leftarrow> tx_Set kv fuel tx k v; Some tx }"
| "run_write kv fuel (DelOp k) tx = do { (res, req, tx) \<leftarrow> tx_Del kv fuel tx (mk_delete k); Some tx }"

fun run_writes :: "KV \<Rightarrow> nat \<Rightarrow> tx_write list \<Rightarrow> KVTX \<Rightarrow> KVTX option" where
  "run_writes kv fuel [] tx = Some tx"
| "run_writes kv fuel (w # ws) tx = do { tx \<leftarrow> run_write kv fuel w tx; run_writes kv fuel ws tx }"

fun apply_write :: "tx_write \<Rightarrow> (bytes \<Rightarrow> bytes option) \<Rightarrow> bytes \<Rightarrow> bytes option" where
  "apply_write (SetOp k v) m = m(k \<mapsto> v)"
| "apply_write (DelOp k) m = m(k := None)"

text \<open>A write whose pair, with its flag, is small enough for the pending tree.\<close>

fun small_write :: "tx_write \<Rightarrow> bool" where
  "small_write (SetOp k v) \<longleftrightarrow> k \<noteq> [] \<and> length k + length v < 280"
| "small_write (DelOp k) \<longleftrightarrow> k \<noteq> [] \<and> length k < 280"

lemma tx_Update_ok:
  assumes s: "tx_sees kv fuel tx h m pend" and h: "h < fuel" "4 * h + 5 \<le> mem_room (pend_pages tx)"
    and small: "small_write (SetOp (Key req) (Val req))"
  obtains tx' h' pend' res req' where "tx_Update kv fuel tx req = Some (res, req', tx')" "tx_sees kv fuel tx' h' m pend'" "h' \<le> Suc h"
    "mem_room (pend_pages tx) \<le> mem_room (pend_pages tx') + 4 * h + 5" "tx_grows tx tx'"
    "tx_reads tx' = tx_reads tx @ [point_range (Key req)]" "updateAttempted tx'"
    "if Mode req = MODE_INSERT_ONLY \<and> overlay m pend (Key req) \<noteq> None then res = Inl DuplicateKey \<and> req' = req \<and> pend' = pend
     else if (Mode req = MODE_UPDATE_ONLY \<and> overlay m pend (Key req) = None) \<or> overlay m pend (Key req) = Some (Val req)
       then res = Inr False \<and> req' = req \<and> pend' = pend
     else res = Inr True \<and> overlay m pend' = (overlay m pend)(Key req \<mapsto> Val req)
       \<and> pend' = ins_kv (Key req) (FLAG_UPDATED # Val req) pend
       \<and> Updated req' \<and> Added req' = (overlay m pend (Key req) = None)
       \<and> Old req' = (case overlay m pend (Key req) of None \<Rightarrow> [] | Some v \<Rightarrow> v)"
proof -
  let ?u = "tx\<lparr>updateAttempted := True\<rparr>" and ?k = "Key req" and ?v = "Val req"
  let ?t = "add_read ?k ?k ?u" and ?cur = "overlay m pend ?k"
  have k: "?k \<noteq> []" using small by simp
  have su: "tx_sees kv fuel ?u h m pend" by (rule tx_sees_cong [OF s]) simp_all
  note g = tx_Get_ok [OF su h(1) k]
  have st: "tx_sees kv fuel ?t h m pend" by (rule tx_sees_cong [OF s]) simp_all
  have gr: "tx_grows tx ?t" "tx_reads ?t = tx_reads tx @ [point_range ?k]" "updateAttempted ?t"
    by (simp_all add: tx_grows_def point_range_def)
  have room: "mem_room (pend_pages ?t) = mem_room (pend_pages tx)" by simp
  consider (dup) "Mode req = MODE_INSERT_ONLY" "?cur \<noteq> None"
    | (same) "\<not> (Mode req = MODE_INSERT_ONLY \<and> ?cur \<noteq> None)" "(Mode req = MODE_UPDATE_ONLY \<and> ?cur = None) \<or> ?cur = Some ?v"
    | (ins) "\<not> (Mode req = MODE_INSERT_ONLY \<and> ?cur \<noteq> None)" "\<not> ((Mode req = MODE_UPDATE_ONLY \<and> ?cur = None) \<or> ?cur = Some ?v)" by blast
  then show ?thesis
  proof cases
    case dup
    then have "tx_Update kv fuel tx req = Some (Inl DuplicateKey, req, ?t)" using g by (simp add: tx_Update_def)
    from that [OF this st _ _ gr] dup room show ?thesis by simp
  next
    case same
    then have "tx_Update kv fuel tx req = Some (Inr False, req, ?t)" using g by (auto simp: tx_Update_def Let_def)
    from that [OF this st _ _ gr] same room show ?thesis by auto
  next
    case ins
    let ?val = "FLAG_UPDATED # ?v"
    have t: "pend_holds ?t h pend" "flagged pend" "small_kvs pend" "snap_reads kv fuel ?t m" using st by (simp_all add: tx_sees_def)
    have sm: "small_op (?k, ?val)" using small by (simp add: small_op_def)
    have "4 * h + 5 \<le> mem_room (pend_pages ?t)" using h(2) by simp
    from pend_Update_ok [OF t(1,3) sm h(1) this] obtain h' tx' where
      u: "pend_Update fuel ?t ?k ?val = Some (Inr (map_of pend ?k \<noteq> Some ?val), tx')" "pend_holds tx' h' (ins_kv ?k ?val pend)"
      "h' \<le> Suc h" "mem_room (pend_pages ?t) \<le> mem_room (pend_pages tx') + 4 * h + 5" "tx_grows ?t tx'"
      "tx_reads tx' = tx_reads ?t" "updateAttempted tx' = updateAttempted ?t" "small_kvs (ins_kv ?k ?val pend)" by blast
    have "map_of pend ?k \<noteq> Some ?val" using ins(2) by (auto simp: overlay_def FLAG_DELETED_def FLAG_UPDATED_def)
    then have ev: "tx_Update kv fuel tx req = Some (Inr True, req\<lparr>Old := (case ?cur of None \<Rightarrow> [] | Some v \<Rightarrow> v), Updated := True, Added := (?cur = None)\<rparr>, tx')"
      using g u(1) ins by (auto simp: tx_Update_def Let_def)
    have sees: "tx_sees kv fuel tx' h' m (ins_kv ?k ?val pend)"
      using u(2,5,8) t flagged_ins [OF t(2), of ?val ?k] by (auto simp: tx_sees_def snap_reads_def snapshot_Get_def tx_grows_def)
    have ov: "overlay m (ins_kv ?k ?val pend) = (overlay m pend)(?k \<mapsto> ?v)" by (rule overlay_ins(1) [OF tx_sees_sorted [OF s]])
    show ?thesis
      by (rule that [OF ev sees u(3) _ tx_grows_trans [OF gr(1) u(5)]]) (use u(4,6,7) room gr ins ov in auto)
  qed
qed

lemma tx_Del_ok:
  assumes s: "tx_sees kv fuel tx h m pend" and h: "h < fuel" "4 * h + 5 \<le> mem_room (pend_pages tx)"
    and small: "small_write (DelOp (DKey req))"
  obtains tx' h' pend' res req' where "tx_Del kv fuel tx req = Some (res, req', tx')" "tx_sees kv fuel tx' h' m pend'" "h' \<le> Suc h"
    "mem_room (pend_pages tx) \<le> mem_room (pend_pages tx') + 4 * h + 5" "tx_grows tx tx'"
    "tx_reads tx' = tx_reads tx @ [point_range (DKey req)]" "updateAttempted tx'"
    "overlay m pend' = (overlay m pend)(DKey req := None)" "res = Inr (overlay m pend (DKey req) \<noteq> None)"
    "\<forall>v. overlay m pend (DKey req) = Some v \<longrightarrow> DOld req' = v"
proof -
  let ?u = "tx\<lparr>updateAttempted := True\<rparr>" and ?k = "DKey req"
  let ?t = "add_read ?k ?k ?u" and ?cur = "overlay m pend ?k" and ?val = "[FLAG_DELETED]"
  have k: "?k \<noteq> []" using small by simp
  have su: "tx_sees kv fuel ?u h m pend" by (rule tx_sees_cong [OF s]) simp_all
  note g = tx_Get_ok [OF su h(1) k]
  have st: "tx_sees kv fuel ?t h m pend" by (rule tx_sees_cong [OF s]) simp_all
  have gr: "tx_grows tx ?t" "tx_reads ?t = tx_reads tx @ [point_range ?k]" "updateAttempted ?t"
    by (simp_all add: tx_grows_def point_range_def)
  have room: "mem_room (pend_pages ?t) = mem_room (pend_pages tx)" by simp
  show ?thesis
  proof (cases ?cur)
    case None
    then have ev: "tx_Del kv fuel tx req = Some (Inr False, req, ?t)" using g by (simp add: tx_Del_def)
    show ?thesis by (rule that [OF ev st _ _ gr]) (use None room in \<open>auto simp: fun_eq_iff\<close>)
  next
    case (Some old)
    have t: "pend_holds ?t h pend" "flagged pend" "small_kvs pend" "snap_reads kv fuel ?t m" using st by (simp_all add: tx_sees_def)
    have sm: "small_op (?k, ?val)" using small by (simp add: small_op_def)
    have "4 * h + 5 \<le> mem_room (pend_pages ?t)" using h(2) by simp
    from pend_Update_ok [OF t(1,3) sm h(1) this] obtain h' tx' where
      u: "pend_Update fuel ?t ?k ?val = Some (Inr (map_of pend ?k \<noteq> Some ?val), tx')" "pend_holds tx' h' (ins_kv ?k ?val pend)"
      "h' \<le> Suc h" "mem_room (pend_pages ?t) \<le> mem_room (pend_pages tx') + 4 * h + 5" "tx_grows ?t tx'"
      "tx_reads tx' = tx_reads ?t" "updateAttempted tx' = updateAttempted ?t" "small_kvs (ins_kv ?k ?val pend)" by blast
    have "map_of pend ?k \<noteq> Some ?val" using Some by (auto simp: overlay_def)
    then have ev: "tx_Del kv fuel tx req = Some (Inr True, req\<lparr>DOld := old\<rparr>, tx')"
      using g u(1) Some by (simp add: tx_Del_def Let_def)
    have sees: "tx_sees kv fuel tx' h' m (ins_kv ?k ?val pend)"
      using u(2,5,8) t flagged_ins [OF t(2), of ?val ?k] by (auto simp: tx_sees_def snap_reads_def snapshot_Get_def tx_grows_def)
    have ov: "overlay m (ins_kv ?k ?val pend) = (overlay m pend)(?k := None)" by (rule overlay_ins(2) [OF tx_sees_sorted [OF s]])
    show ?thesis
      by (rule that [OF ev sees u(3) _ tx_grows_trans [OF gr(1) u(5)]]) (use u(4,6,7) room gr Some ov in auto)
  qed
qed

fun write_key :: "tx_write \<Rightarrow> bytes" where
  "write_key (SetOp k v) = k"
| "write_key (DelOp k) = k"

lemma run_write_ok:
  assumes s: "tx_sees kv fuel tx h m pend" and h: "h < fuel" "4 * h + 5 \<le> mem_room (pend_pages tx)" and small: "small_write w"
  obtains tx' h' pend' where "run_write kv fuel w tx = Some tx'" "tx_sees kv fuel tx' h' m pend'" "h' \<le> Suc h"
    "mem_room (pend_pages tx) \<le> mem_room (pend_pages tx') + 4 * h + 5" "tx_grows tx tx'"
    "tx_reads tx' = tx_reads tx @ [point_range (write_key w)]" "updateAttempted tx'"
    "overlay m pend' = apply_write w (overlay m pend)"
proof (cases w)
  case (SetOp k v)
  have sm: "small_write (SetOp (Key (mk_update k v MODE_UPSERT)) (Val (mk_update k v MODE_UPSERT)))"
    using small SetOp by (simp add: mk_update_def)
  let ?req = "mk_update k v MODE_UPSERT"
  have req: "Key ?req = k" "Val ?req = v" "Mode ?req = MODE_UPSERT" by (simp_all add: mk_update_def)
  obtain tx' h' pend' res req' where
    u: "tx_Update kv fuel tx ?req = Some (res, req', tx')" "tx_sees kv fuel tx' h' m pend'" "h' \<le> Suc h"
    "mem_room (pend_pages tx) \<le> mem_room (pend_pages tx') + 4 * h + 5" "tx_grows tx tx'"
    "tx_reads tx' = tx_reads tx @ [point_range (Key ?req)]" "updateAttempted tx'"
    "overlay m pend (Key ?req) = Some (Val ?req) \<and> pend' = pend \<or> overlay m pend' = (overlay m pend)(Key ?req \<mapsto> Val ?req)"
    by (rule tx_Update_ok [OF s h sm], rule that, assumption+)
       (auto simp: mk_update_def MODE_UPSERT_def MODE_INSERT_ONLY_def MODE_UPDATE_ONLY_def split: if_split_asm)
  note u = u [unfolded req]
  have "run_write kv fuel w tx = Some tx'" using u(1) SetOp by (simp add: tx_Set_def)
  moreover have "overlay m pend' = apply_write w (overlay m pend)" using u(8) SetOp by (auto simp: fun_eq_iff)
  ultimately show ?thesis using that u SetOp by simp
next
  case (DelOp k)
  have sm: "small_write (DelOp (DKey (mk_delete k)))" using small DelOp by (simp add: mk_delete_def)
  obtain tx' h' pend' res req' where
    u: "tx_Del kv fuel tx (mk_delete k) = Some (res, req', tx')" "tx_sees kv fuel tx' h' m pend'" "h' \<le> Suc h"
    "mem_room (pend_pages tx) \<le> mem_room (pend_pages tx') + 4 * h + 5" "tx_grows tx tx'"
    "tx_reads tx' = tx_reads tx @ [point_range (DKey (mk_delete k))]" "updateAttempted tx'"
    "overlay m pend' = (overlay m pend)(DKey (mk_delete k) := None)"
    by (rule tx_Del_ok [OF s h sm], rule that, assumption+)
  then show ?thesis using that DelOp by (simp add: mk_delete_def)
qed

lemma run_writes_ok:
  assumes "tx_sees kv fuel tx h m pend" "h + length ws < fuel" "length ws * (4 * (h + length ws) + 5) \<le> mem_room (pend_pages tx)"
    "\<forall>w \<in> set ws. small_write w"
  shows "\<exists>tx' h' pend'. run_writes kv fuel ws tx = Some tx' \<and> tx_sees kv fuel tx' h' m pend' \<and> h' \<le> h + length ws
    \<and> tx_grows tx tx' \<and> overlay m pend' = fold apply_write ws (overlay m pend)
    \<and> tx_reads tx' = tx_reads tx @ map (point_range \<circ> write_key) ws \<and> (ws \<noteq> [] \<longrightarrow> updateAttempted tx')
    \<and> mem_room (pend_pages tx) \<le> mem_room (pend_pages tx') + length ws * (4 * (h + length ws) + 5)"
  using assms
proof (induction ws arbitrary: tx h pend)
  case Nil
  then show ?case by auto
next
  case (Cons w ws)
  let ?n = "length ws"
  have le: "4 * h + 5 + ?n * (4 * (Suc h + ?n) + 5) \<le> length (w # ws) * (4 * (h + length (w # ws)) + 5)" by (simp add: algebra_simps)
  then have r: "h < fuel" "4 * h + 5 \<le> mem_room (pend_pages tx)" using Cons.prems(2,3) by simp_all
  obtain tx1 h1 pend1 where 1: "run_write kv fuel w tx = Some tx1" "tx_sees kv fuel tx1 h1 m pend1" "h1 \<le> Suc h"
    "mem_room (pend_pages tx) \<le> mem_room (pend_pages tx1) + 4 * h + 5" "tx_grows tx tx1"
    "tx_reads tx1 = tx_reads tx @ [point_range (write_key w)]" "updateAttempted tx1" "overlay m pend1 = apply_write w (overlay m pend)"
    using run_write_ok [OF Cons.prems(1) r] Cons.prems(4) by (metis list.set_intros(1))
  have m: "?n * (4 * (h1 + ?n) + 5) \<le> ?n * (4 * (Suc h + ?n) + 5)" using 1(3) by (intro mult_le_mono) simp_all
  have "h1 + ?n < fuel" "\<forall>w \<in> set ws. small_write w" using 1(3) Cons.prems(2,4) by simp_all
  moreover have "?n * (4 * (h1 + ?n) + 5) \<le> mem_room (pend_pages tx1)" using m 1(4) le Cons.prems(3) by linarith
  ultimately obtain tx' h' pend' where t: "run_writes kv fuel ws tx1 = Some tx'" "tx_sees kv fuel tx' h' m pend'"
    "h' \<le> h1 + ?n" "tx_grows tx1 tx'" "overlay m pend' = fold apply_write ws (overlay m pend1)"
    "tx_reads tx' = tx_reads tx1 @ map (point_range \<circ> write_key) ws" "ws \<noteq> [] \<longrightarrow> updateAttempted tx'"
    "mem_room (pend_pages tx1) \<le> mem_room (pend_pages tx') + ?n * (4 * (h1 + ?n) + 5)" using Cons.IH [OF 1(2)] by blast
  have "updateAttempted tx'" using t(1,7) 1(7) by (cases ws) simp_all
  moreover have "mem_room (pend_pages tx) \<le> mem_room (pend_pages tx') + length (w # ws) * (4 * (h + length (w # ws)) + 5)"
    using 1(4) t(8) m le by linarith
  moreover have "tx_grows tx tx'" by (rule tx_grows_trans [OF 1(5) t(4)])
  moreover have "h' \<le> h + length (w # ws)" using t(3) 1(3) by simp
  ultimately show ?case using 1(1,6,8) t(1,2,5,6) by (intro exI [of _ tx'] exI [of _ h'] exI [of _ pend']) simp
qed

text \<open>Going back to a saved state.\<close>

lemma tx_Revert_ok:
  assumes s: "tx_sees kv fuel tx h m pend" and g: "tx_grows tx tx'" "length (pend_pages tx') < 2 ^ 64"
  shows "tx_sees kv fuel (tx_Revert tx' (tx_Save tx)) h m pend" "tx_reads (tx_Revert tx' (tx_Save tx)) = tx_reads tx"
proof -
  have "tree_holds (mem_view (pend_pages tx')) (pend_root tx) h pend"
  proof (rule tree_holds_cong)
    show "tree_holds (mem_view (pend_pages tx)) (pend_root tx) h pend" using s by (simp add: tx_sees_def pend_holds_def)
    have "prefix (pend_pages tx) (pend_pages tx')" using g(1) by (simp add: tx_grows_def)
    then show "mem_view (pend_pages tx') p = Some b" if "mem_view (pend_pages tx) p = Some b" for p b
      using mem_view_prefix that by blast
  qed
  then show "tx_sees kv fuel (tx_Revert tx' (tx_Save tx)) h m pend"
    using s g by (simp add: tx_sees_def pend_holds_def tx_Revert_def tx_Save_def snap_reads_def snapshot_Get_def tx_grows_def)
  show "tx_reads (tx_Revert tx' (tx_Save tx)) = tx_reads tx" by (simp add: tx_Revert_def tx_Save_def)
qed

end
