(* ===== verification/TxCommit.thy ===== *)
theory TxCommit
  imports TxOps
begin

text \<open>
  A whole transaction against the store: what \<^const>\<open>kv_Commit\<close> does with the pending changes is
  what \<^const>\<open>update_store\<close> does with a batch of insertions, so that the guarantees of the store
  (atomic, durable, undone when they fail) become guarantees of transactions.
\<close>

section \<open>The root pointer of the store\<close>

text \<open>The tree's methods get the root as an argument; the field of the store plays no part in them.\<close>

abbreviation with_root :: "nat \<Rightarrow> KV \<Rightarrow> KV" where
  "with_root r kv \<equiv> kv\<lparr>kv_root := r\<rparr>"

lemma with_root_out:
  "(with_root r s)\<lparr>page_updates := u\<rparr> = with_root r (s\<lparr>page_updates := u\<rparr>)"
  "(with_root r s)\<lparr>page_nappend := n\<rparr> = with_root r (s\<lparr>page_nappend := n\<rparr>)"
  "(with_root r s)\<lparr>kv_free := fl\<rparr> = with_root r (s\<lparr>kv_free := fl\<rparr>)"
  by simp_all

lemma bind_if_push: "(if b then x else (y :: 'a option)) \<bind> h = (if b then x \<bind> h else y \<bind> h)"
  by simp

lemmas root_simps = push_map case_prod_unfold with_root_out bind_if_push

lemma page_callbacks_root:
  "pageRead (with_root r s) p = pageRead s p"
  "pageAppend (with_root r s) b = map_option (map_prod id (with_root r)) (pageAppend s b)"
  "pageWrite (with_root r s) p f = map_option (with_root r) (pageWrite s p f)"
  by (simp_all add: pageRead_def pageAppend_def pageWrite_def root_simps Let_def cong: option.case_cong)

lemma fl_callbacks_root:
  "fl_get kv_fl_callbacks (with_root r s) p = fl_get kv_fl_callbacks s p"
  "fl_new kv_fl_callbacks (with_root r s) b = map_option (map_prod id (with_root r)) (fl_new kv_fl_callbacks s b)"
  "fl_set kv_fl_callbacks (with_root r s) p f = map_option (with_root r) (fl_set kv_fl_callbacks s p f)"
  by (simp_all add: kv_fl_callbacks_def page_callbacks_root)

lemma flPop_root: "flPop kv_fl_callbacks fl (with_root r s) = flPop kv_fl_callbacks fl s"
  by (simp add: flPop_def fl_callbacks_root)

lemma PushTail_root:
  "PushTail kv_fl_callbacks fl (with_root r s) p = map_option (map_prod id (with_root r)) (PushTail kv_fl_callbacks fl s p)"
  by (simp add: PushTail_def fl_callbacks_root flPop_root root_simps Let_def cong: if_cong)

lemma PopHead_root:
  "PopHead kv_fl_callbacks fl (with_root r s) = map_option (map_prod id (map_prod id (with_root r))) (PopHead kv_fl_callbacks fl s)"
  by (simp add: PopHead_def PushTail_root flPop_root root_simps Let_def cong: if_cong)

interpretation kvm: page_morph kv_callbacks "with_root r" for r
proof unfold_locales
  fix s p b
  show "tree_get kv_callbacks (with_root r s) p = tree_get kv_callbacks s p"
    by (simp add: kv_callbacks_def page_callbacks_root)
  show "tree_del kv_callbacks (with_root r s) p = map_option (with_root r) (tree_del kv_callbacks s p)"
    by (simp add: kv_callbacks_def kv_PushTail_def PushTail_root root_simps)
  show "tree_new kv_callbacks (with_root r s) b = map_option (map_prod id (with_root r)) (tree_new kv_callbacks s b)"
    by (simp add: kv_callbacks_def pageAlloc_def kv_PopHead_def PopHead_root page_callbacks_root root_simps cong: if_cong)
qed

text \<open>A root that \<^const>\<open>btree_Update\<close> has changed is a page it has just stored.\<close>

lemma updated_root_is_new:
  assumes "btree_Update cb fuel req root s = Some (Inr True, req', root', s')"
  shows "\<exists>s1 b. tree_new cb s1 b = Some (root', s')"
  using assms by (auto simp: btree_Update_def bind_eq_Some_conv Let_def split: option.split_asm if_split_asm)

lemma new_page_dirty: "tree_new kv_callbacks s b = Some (p, s') \<Longrightarrow> p \<in> dirty s'"
  by (auto simp: kv_callbacks_def pageAlloc_def pageAppend_def dirty_def bind_eq_Some_conv Let_def split: if_split_asm)

section \<open>Carrying the pending pairs over\<close>

definition unflag :: "kv list \<Rightarrow> kv list" where
  "unflag pend = map (\<lambda>(k, v). (k, drop 1 v)) pend"

text \<open>Pending pairs that set small values.\<close>

definition all_sets :: "kv list \<Rightarrow> bool" where
  "all_sets pend \<longleftrightarrow> (\<forall>(k, v) \<in> set pend. \<exists>w. v = FLAG_UPDATED # w \<and> small_op (k, w))"

lemma same_base_os: "kv_ok r K base db \<Longrightarrow> kv_os db = kv_os base"
  by (auto simp: kv_ok_def page_inv_def dest: same_baseD(1))

lemma transferOne_set:
  assumes ok: "kv_ok r K base db" "tree_holds (kv_view db) root h kvs" "h < fuel" "4 * h + 5 \<le> kv_room db" "small_kvs kvs"
    and k: "small_op (k, w)" "snapshot_Get db fuel tx k = Some (map_of kvs k)"
  obtains root' h' db' req' where
    "transferOne fuel tx (with_root root db) k (FLAG_UPDATED # w) = Some (Inr (map_of kvs k \<noteq> Some w), map_of kvs k \<noteq> Some w, with_root root' db')"
    "btree_Upsert kv_callbacks fuel k w root db = Some (Inr (map_of kvs k \<noteq> Some w), req', root', db')"
    "kv_ok r K base db'" "kv_room db \<le> kv_room db' + 4 * h + 5" "h' \<le> Suc h" "tree_holds (kv_view db') root' h' (ins_kv k w kvs)"
    "map_of kvs k = Some w \<Longrightarrow> root' = root \<and> db' = db" "map_of kvs k \<noteq> Some w \<Longrightarrow> root' \<in> dirty db'"
proof -
  let ?m = "map_of kvs k \<noteq> Some w"
  obtain req' root' h' db' where u: "btree_Update kv_callbacks fuel (mk_update k w MODE_UPSERT) root db = Some (Inr ?m, req', root', db')"
    "kv_ok r K base db'" "kv_room db \<le> kv_room db' + 4 * h + 5" "h' \<le> Suc h" "tree_holds (kv_view db') root' h' (ins_kv k w kvs)"
    "map_of kvs k = Some w \<Longrightarrow> root' = root \<and> db' = db"
    by (rule kvp.upsert_result [OF ok(1-4) k(1) ok(5)]) blast
  have sn: "snapshot_Get (with_root root db) fuel tx k = Some (map_of kvs k)" using k(2) by (simp add: snapshot_Get_def)
  have "btree_Update kv_callbacks fuel (mk_update k w MODE_UPSERT) root (with_root root db) = Some (Inr ?m, req', root', with_root root db')"
    using kvm.btree_Update_g [of fuel "mk_update k w MODE_UPSERT" root root db] u(1) by simp
  moreover have "(case map_of kvs k of None \<Rightarrow> True | Some v \<Rightarrow> v \<noteq> w) = ?m" by (auto split: option.split)
  ultimately have t: "transferOne fuel tx (with_root root db) k (FLAG_UPDATED # w) = Some (Inr ?m, ?m, with_root root' db')"
    using sn by (simp add: transferOne_def cong: option.case_cong)
  have d: "root' \<in> dirty db'" if ?m
  proof -
    have "\<exists>s1 b. tree_new kv_callbacks s1 b = Some (root', db')" by (rule updated_root_is_new) (use u(1) that in simp)
    then show ?thesis using new_page_dirty by blast
  qed
  have "btree_Upsert kv_callbacks fuel k w root db = Some (Inr ?m, req', root', db')" using u(1) by (simp only: btree_Upsert_def)
  from that [OF t this u(2-6) d] show ?thesis .
qed

text \<open>The loop over a pending tree of at most two levels does what a sequence of insertions does.\<close>

definition modified_by :: "(bytes \<Rightarrow> bytes option) \<Rightarrow> kv list \<Rightarrow> bytes list" where
  "modified_by m ops = map fst (filter (\<lambda>(k, w). m k \<noteq> Some w) ops)"

lemma transferLoop_ok:
  assumes "collect mem_callbacks (pend_pages tx) steps it = Some rest" "all_sets rest" "distinct (map fst rest)"
    and "kv_ok r K base db" "tree_holds (kv_view db) root h kvs" "h + length rest < fuel" "small_kvs kvs"
    and "length rest * (4 * (h + length rest) + 5) \<le> kv_room db"
    and "\<forall>k \<in> fst ` set rest. snapshot_Get base fuel tx k = Some (map_of kvs k)"
  shows "\<exists>root' db' h' kv'. upserts kv_callbacks fuel (unflag rest) root db = Some (root', db')
    \<and> kv' = with_root root' db' \<and> kv_ok r K base db'
    \<and> transferLoop steps fuel tx (with_root root db) ws it = Some (Inr (ws @ (if length (kv_ongoing db) > 1
          then map point_range (modified_by (map_of kvs) (unflag rest)) else [])), kv')
    \<and> (if modified_by (map_of kvs) (unflag rest) = [] then root' = root \<and> db' = db else root' \<in> dirty db')"
  using assms
proof (induction rest arbitrary: steps it db root h kvs ws)
  case Nil
  then obtain n where n: "steps = Suc n" by (cases steps) auto
  then have "iterValid it = Some False" using Nil.prems(1) by (auto simp: bind_eq_Some_conv split: if_split_asm)
  then show ?case using n Nil.prems(4) by (simp add: unflag_def modified_by_def)
next
  case (Cons kv rest)
  obtain k v where kv: "kv = (k, v)" by (cases kv)
  obtain n where n: "steps = Suc n" using Cons.prems(1) by (cases steps) auto
  obtain it' where it: "iterValid it = Some True" "iterDeref it = Some (k, v)" "iter_Next mem_callbacks (pend_pages tx) it = Some it'"
    "collect mem_callbacks (pend_pages tx) n it' = Some rest"
    using Cons.prems(1) n kv by (auto simp: bind_eq_Some_conv split: if_split_asm)
  obtain w where w: "v = FLAG_UPDATED # w" "small_op (k, w)" using Cons.prems(2) kv by (auto simp: all_sets_def)
  let ?n = "length rest"
  have le: "4 * h + 5 + ?n * (4 * (Suc h + ?n) + 5) \<le> length (kv # rest) * (4 * (h + length (kv # rest)) + 5)" by (simp add: algebra_simps)
  have r: "h < fuel" "4 * h + 5 \<le> kv_room db" using Cons.prems(6,8) le by auto
  have sn: "snapshot_Get db fuel tx k = Some (map_of kvs k)"
    using Cons.prems(9) kv same_base_os [OF Cons.prems(4)] by (simp add: snapshot_Get_def)
  obtain root1 h1 db1 req1 where 1: "transferOne fuel tx (with_root root db) k v = Some (Inr (map_of kvs k \<noteq> Some w), map_of kvs k \<noteq> Some w, with_root root1 db1)"
    "btree_Upsert kv_callbacks fuel k w root db = Some (Inr (map_of kvs k \<noteq> Some w), req1, root1, db1)"
    "kv_ok r K base db1" "kv_room db \<le> kv_room db1 + 4 * h + 5" "h1 \<le> Suc h" "tree_holds (kv_view db1) root1 h1 (ins_kv k w kvs)"
    "map_of kvs k = Some w \<Longrightarrow> root1 = root \<and> db1 = db" "map_of kvs k \<noteq> Some w \<Longrightarrow> root1 \<in> dirty db1"
    using transferOne_set [OF Cons.prems(4,5) r Cons.prems(7) w(2) sn] w(1) by metis
  have on: "kv_ongoing db1 = kv_ongoing db" using Cons.prems(4) 1(3) same_baseD(7) by (metis kv_ok_def page_inv_def)
  have srt: "sorted_kvs kvs" by (rule tree_holds_sorted(1) [OF Cons.prems(5)])
  have mo: "map_of (ins_kv k w kvs) k' = map_of kvs k'" if "k' \<in> fst ` set rest" for k'
    using that Cons.prems(3) kv map_of_ins_kv [OF srt, of k w] by auto
  have mb: "modified_by (map_of (ins_kv k w kvs)) (unflag rest) = modified_by (map_of kvs) (unflag rest)"
    using mo by (force simp: modified_by_def unflag_def intro!: arg_cong [of _ _ "map fst"] filter_cong)
  let ?ws = "if map_of kvs k \<noteq> Some w \<and> length (kv_ongoing db) > 1 then ws @ [point_range k] else ws"
  have m: "?n * (4 * (h1 + ?n) + 5) \<le> ?n * (4 * (Suc h + ?n) + 5)" using 1(5) by (intro mult_le_mono) simp_all
  have room: "?n * (4 * (h1 + ?n) + 5) \<le> kv_room db1" using m 1(4) le Cons.prems(8) by linarith
  have sk: "small_kvs (ins_kv k w kvs)" using small_ins_kv [OF Cons.prems(7)] w(2) by (simp add: small_op_def)
  have "h1 + ?n < fuel" "all_sets rest" "distinct (map fst rest)" using 1(5) Cons.prems(2,3,6) by (auto simp: all_sets_def)
  moreover have "\<forall>k' \<in> fst ` set rest. snapshot_Get base fuel tx k' = Some (map_of (ins_kv k w kvs) k')"
    using Cons.prems(9) mo by (metis image_insert insertCI list.set(2))
  ultimately obtain root' db' h' kv' where 2: "upserts kv_callbacks fuel (unflag rest) root1 db1 = Some (root', db')"
    "kv' = with_root root' db'" "kv_ok r K base db'"
    "transferLoop n fuel tx (with_root root1 db1) ?ws it' = Some (Inr (?ws @ (if length (kv_ongoing db1) > 1
          then map point_range (modified_by (map_of kvs) (unflag rest)) else [])), kv')"
    "if modified_by (map_of kvs) (unflag rest) = [] then root' = root1 \<and> db' = db1 else root' \<in> dirty db'"
    using Cons.IH [OF it(4) _ _ 1(3,6) _ sk room, of ?ws] unfolding mb by blast
  have "transferLoop steps fuel tx (with_root root db) ws it = transferLoop n fuel tx (with_root root1 db1) ?ws it'"
    using n it(1-3) 1(1) on by (simp add: point_range_def cong: if_cong)
  moreover have "upserts kv_callbacks fuel (unflag (kv # rest)) root db = Some (root', db')"
    using 1(2) 2(1) kv w(1) by (simp add: unflag_def)
  moreover have "modified_by (map_of kvs) (unflag (kv # rest)) = (if map_of kvs k \<noteq> Some w then [k] else []) @ modified_by (map_of kvs) (unflag rest)"
    using kv w(1) by (simp add: modified_by_def unflag_def)
  ultimately show ?case using 2 1(7,8) on by (auto split: if_split_asm)
qed

section \<open>A commit is a store update\<close>

text \<open>What \<^const>\<open>txFinalize\<close> and the history change of a store.\<close>

definition rebooked :: "KV \<Rightarrow> nat \<Rightarrow> nat list \<Rightarrow> CommittedTX list \<Rightarrow> KV" where
  "rebooked db mv on hs = db\<lparr>kv_free := SetMaxVer (kv_free db) mv, kv_ongoing := on, kv_history := hs\<rparr>"

lemma rebooked_pages [simp]:
  "same_pages (rebooked db mv on hs) db" "kv_os (rebooked db mv on hs) = kv_os db" "kv_root (rebooked db mv on hs) = kv_root db"
  "kv_version (rebooked db mv on hs) = kv_version db" "page_updates (rebooked db mv on hs) = page_updates db"
  "kv_failed (rebooked db mv on hs) = kv_failed db" "kv_ongoing (rebooked db mv on hs) = on"
  by (simp_all add: rebooked_def same_pages_def)

lemma rebooked_list:
  assumes "kv_list db ps q" "dirty db = {}"
  shows "kv_list (rebooked db mv on hs) ps q"
  using assms same_pages [OF rebooked_pages(1) [of db mv on hs]]
  by (auto simp: kv_list_def fl_rep_def clean_def rebooked_def SetMaxVer_def)

lemma rebooked_holds:
  assumes holds: "store_holds db h kvs" and mv: "mv \<le> kv_version db"
  shows "store_holds (rebooked db mv on hs) h kvs"
proof -
  let ?d = "rebooked db mv on hs"
  have st: "settled db" and t: "tree_holds (kv_view db) (kv_root db) h kvs" using holds by (simp_all add: store_holds_def)
  obtain ps q where l: "kv_list db ps q" using st by (auto simp: settled_def)
  have "dirty db = {}" using st by (simp add: settled_def dirty_def)
  note l' = rebooked_list [OF l this, of mv on hs]
  have "owned ?d = owned db" using owned_eq [OF l'] owned_eq [OF l] by simp
  then have "kv_view ?d = kv_view db" using same_pages(3) [OF rebooked_pages(1) [of db mv on hs]] by (simp add: kv_view_def fun_eq_iff)
  moreover have "settled ?d"
    using st l' mv by (auto simp: settled_def rebooked_def fresh_def openable_def map_ok_def meta_fits_def meta72_def SetMaxVer_def)
  ultimately show ?thesis using t by (simp add: store_holds_def)
qed

text \<open>A lookup depends only on what the pages hold.\<close>

lemma nodeGetKey_cong:
  assumes "\<And>p. tree_get cb s' p = tree_get cb s p"
  shows "nodeGetKey cb fuel node key s' = nodeGetKey cb fuel node key s"
proof (induction fuel arbitrary: node)
  case (Suc fuel)
  show ?case by (simp only: nodeGetKey.simps assms Suc.IH)
qed simp

lemma btree_Get_cong:
  assumes "\<And>p. tree_get cb s' p = tree_get cb s p"
  shows "btree_Get cb fuel key root s' = btree_Get cb fuel key root s"
  by (simp only: btree_Get_def assms nodeGetKey_cong [of cb s' s, OF assms])

lemma rebooked_reads [simp]: "reads_as fuel (rebooked db mv on hs) kvs = reads_as fuel db kvs"
proof -
  have "tree_get kv_callbacks (rebooked db mv on hs) p = tree_get kv_callbacks db p" for p
    by (simp add: kv_callbacks_def pageRead_def rebooked_def cong: option.case_cong)
  from btree_Get_cong [OF this] show ?thesis by (simp add: reads_as_def)
qed

lemma sorted_kvs_distinct: "sorted_kvs kvs \<Longrightarrow> distinct (map fst kvs)"
  by (induction kvs) auto

text \<open>
  What a commit needs of the transaction: it is running; its pending tree has at most two levels,
  is not empty and only sets small values; there are steps and fuel, and free pages for the changes;
  and at the keys it has set, its snapshot agrees with the current contents (another transaction that
  committed in between has not touched them).
\<close>

definition commit_fits :: "nat \<Rightarrow> nat \<Rightarrow> KV \<Rightarrow> nat \<Rightarrow> kv list \<Rightarrow> KVTX \<Rightarrow> kv list \<Rightarrow> bool" where
  "commit_fits steps fuel base h kvs tx pend \<longleftrightarrow>
     (\<exists>hp \<le> 1. hp < fuel \<and> pend_holds tx hp pend) \<and> all_sets pend \<and> length pend < steps
   \<and> fits fuel (unflag pend) base h kvs
   \<and> (\<forall>k \<in> fst ` set pend. snapshot_Get base fuel tx k = Some (map_of kvs k))
   \<and> \<not> tx_done tx \<and> tx_version tx \<in> set (kv_ongoing base)"

lemma commit_transfer:
  assumes holds: "store_holds base h kvs" and cf: "commit_fits steps fuel base h kvs tx pend"
  obtains it root db where
    "btree_Seek mem_callbacks (pend_pages tx) fuel (pend_root tx) [] CMP_GT = Some it"
    "upserts kv_callbacks fuel (unflag pend) (kv_root base) (begin_update base) = Some (root, db)"
    "transferLoop steps fuel tx (begin_update base) [] it = Some (Inr (if length (kv_ongoing base) > 1
          then map point_range (modified_by (map_of kvs) (unflag pend)) else []), with_root root db)"
    "if modified_by (map_of kvs) (unflag pend) = [] then root = kv_root base \<and> db = begin_update base else root \<noteq> kv_root base"
    "same_base (begin_update base) db"
proof -
  obtain hp where hp: "hp \<le> 1" "hp < fuel" "pend_holds tx hp pend" using cf by (auto simp: commit_fits_def)
  note c = cf [unfolded commit_fits_def]
  have f: "fits fuel (unflag pend) base h kvs" using c by blast
  then have ne: "pend \<noteq> []" and sm: "small_kvs kvs" "h + length pend < fuel"
      "length pend * (4 * (h + length pend) + 5) \<le> kv_room base"
    by (auto simp: fits_def unflag_def)
  have ph: "length (pend_pages tx) < 2 ^ 64" "tree_holds (mem_view (pend_pages tx)) (pend_root tx) hp pend"
    using hp(3) by (simp_all add: pend_holds_def)
  have "length pend < steps" using c by blast
  then obtain it where it: "btree_Seek mem_callbacks (pend_pages tx) fuel (pend_root tx) [] CMP_GT = Some it"
      "collect mem_callbacks (pend_pages tx) steps it = Some pend"
    using pending_scan [OF ph ne hp(1,2)] by blast
  have st: "settled base" and tr: "tree_holds (kv_view base) (kv_root base) h kvs" using holds by (auto simp: store_holds_def)
  obtain ps0 q0 where l0: "kv_list base ps0 q0" and ver: "kv_version base + 1 < 2 ^ 64" using st by (auto simp: settled_def)
  have tr': "tree_holds (kv_view (begin_update base)) (kv_root base) h kvs" using tr begin_view [OF l0 ver] by simp
  have d: "distinct (map fst pend)" using tree_holds_sorted(1) [OF ph(2)] by (rule sorted_kvs_distinct)
  have os: "\<forall>k \<in> fst ` set pend. snapshot_Get (begin_update base) fuel tx k = Some (map_of kvs k)"
    using c by (simp add: snapshot_Get_def begin_update_def)
  have room: "length pend * (4 * (h + length pend) + 5) \<le> kv_room (begin_update base)" using sm(3) by simp
  have "all_sets pend" using c by blast
  from transferLoop_ok [OF it(2) this d begin_ok [OF st] tr' sm(2,1) room os, of "[]"] c
  obtain root db where t: "upserts kv_callbacks fuel (unflag pend) (kv_root base) (begin_update base) = Some (root, db)"
    "kv_ok (kv_version base) (snapshot_pages base) (begin_update base) db"
    "transferLoop steps fuel tx (with_root (kv_root base) (begin_update base)) [] it = Some (Inr (if length (kv_ongoing (begin_update base)) > 1
          then map point_range (modified_by (map_of kvs) (unflag pend)) else []), with_root root db)"
    "if modified_by (map_of kvs) (unflag pend) = [] then root = kv_root base \<and> db = begin_update base else root \<in> dirty db"
    by auto
  have "root \<noteq> kv_root base" if "root \<in> dirty db"
  proof (cases "kv_root base = 0")
    case True
    have "pages_ok db" using t(2) by (auto simp: kv_ok_def page_inv_def)
    then have "0 \<notin> dirty db" by (rule dirty_no_meta)
    then show ?thesis using that True by (cases "root = 0") auto
  next
    case False
    then have "kv_root base \<in> snapshot_pages base" using tr by (auto elim: tree_holdsE)
    then show ?thesis using that kv_ok_protects [OF t(2)] by blast
  qed
  then have "if modified_by (map_of kvs) (unflag pend) = [] then root = kv_root base \<and> db = begin_update base else root \<noteq> kv_root base"
    using t(4) by (simp split: if_split_asm)
  moreover have "same_base (begin_update base) db" using t(2) by (auto simp: kv_ok_def page_inv_def)
  moreover have e: "with_root (kv_root base) (begin_update base) = begin_update base" "kv_ongoing (begin_update base) = kv_ongoing base"
    by (simp_all add: begin_update_def)
  ultimately show ?thesis using that [OF it(1) t(1) t(3) [unfolded e]] by blast
qed

lemma updateOrRevert_books:
  assumes "updateOrRevert db meta ord = Some (err, db')" "saveMeta kv = Some meta" "kv_version kv < 2 ^ 64"
  shows "kv_ongoing db' = kv_ongoing db" "kv_history db' = kv_history db"
  using updateOrRevert_versions [OF assms] by simp_all

text \<open>The loop does not look at the flag or the reads.\<close>

lemma transferOne_done [simp]: "transferOne fuel (x\<lparr>tx_done := d\<rparr>) kv key val = transferOne fuel x kv key val"
  by (simp add: transferOne_def snapshot_Get_def)

lemma transferLoop_done [simp]: "transferLoop n fuel (x\<lparr>tx_done := d\<rparr>) = transferLoop n fuel x"
proof (induction n)
  case (Suc n)
  show ?case by (intro ext) (simp add: Suc.IH Let_def cong: if_cong sum.case_cong)
qed (simp add: fun_eq_iff)

lemma transferLoop_reads [simp]: "transferLoop n fuel (x\<lparr>tx_reads := r\<rparr>) = transferLoop n fuel x"
proof (induction n)
  case (Suc n)
  show ?case by (intro ext) (simp add: Suc.IH Let_def cong: if_cong sum.case_cong)
qed (simp add: fun_eq_iff)

lemma commit_is_update:
  assumes holds: "store_holds base h kvs" and cf: "commit_fits steps fuel base h kvs tx pend" and nc: "\<not> conflicting base tx"
    and mb: "modified_by (map_of kvs) (unflag pend) \<noteq> []" and up: "update_store mo fuel (unflag pend) base = Some (err, db)"
  obtains mv ongo hs tx' where "kv_Commit mo steps fuel base tx = Some (map_option FileError err, rebooked db mv ongo hs, tx')"
    "mv \<le> kv_version db" "ongo = remove1 (tx_version tx) (kv_ongoing base)" "\<forall>v \<in> set ongo. mv \<le> v"
proof -
  let ?ws = "if length (kv_ongoing base) > 1 then map point_range (modified_by (map_of kvs) (unflag pend)) else []"
  let ?T = "tx\<lparr>tx_done := True\<rparr>"
  have st: "settled base" using holds by (simp add: store_holds_def)
  then have v: "kv_version base + 1 < 2 ^ 64" by (simp add: settled_def)
  have nd: "\<not> tx_done tx" and ver: "tx_version tx \<in> set (kv_ongoing base)" using cf by (auto simp: commit_fits_def)
  obtain it root k where t: "btree_Seek mem_callbacks (pend_pages tx) fuel (pend_root tx) [] CMP_GT = Some it"
    "upserts kv_callbacks fuel (unflag pend) (kv_root base) (begin_update base) = Some (root, k)"
    "transferLoop steps fuel tx (begin_update base) [] it = Some (Inr ?ws, with_root root k)"
    "root \<noteq> kv_root base" "same_base (begin_update base) k"
    by (rule commit_transfer [OF holds cf]) (use mb in simp)
  let ?d = "k\<lparr>kv_root := root, kv_version := kv_version base + 1\<rparr>"
  obtain meta where m: "saveMeta base = Some meta" using up by (auto simp: update_store_def bind_eq_Some_conv)
  have u: "updateOrRevert ?d meta (mo (page_updates k)) = Some (err, db)" using up t(2) m by (simp add: update_store_def)
  note b = updateOrRevert_books [OF u m]
  have kb: "kv_version k = kv_version base" "kv_ongoing k = kv_ongoing base" "kv_history k = kv_history base"
    using same_baseD [OF t(5)] by (simp_all add: begin_update_def)
  have on: "kv_ongoing db = kv_ongoing base" "kv_history db = kv_history base" using b v kb by simp_all
  let ?h = "if err = None \<and> length ?ws > 0 then kv_history db @ [\<lparr>ctx_version = kv_version db, ctx_writes = sortRanges ?ws\<rparr>] else kv_history db"
  let ?k1 = "db\<lparr>kv_history := ?h\<rparr>"
  let ?t = "if updateAttempted tx then ?T\<lparr>tx_reads := sortRanges (tx_reads tx)\<rparr> else ?T"
  have d: "(if updateAttempted ?T then detectConflicts base ?T else (False, ?T)) = (False, ?t)"
    using nc by (simp add: conflicting_def detectConflicts_def Let_def)
  have t': "tx_version ?t = tx_version tx" "pend_pages ?t = pend_pages tx" "pend_root ?t = pend_root tx" by simp_all
  have tl: "transferLoop steps fuel ?t (begin_update base) [] it = Some (Inr ?ws, with_root root k)"
    using t(3) by (cases "updateAttempted tx") simp_all
  have curv: "base\<lparr>kv_free := (kv_free base)\<lparr>curVer := u64 (kv_version base + 1)\<rparr>\<rparr> = begin_update base"
    using v by (simp add: begin_update_def)
  have upd: "(with_root root k)\<lparr>kv_version := u64 (kv_version (with_root root k) + 1)\<rparr> = ?d" using v kb by simp
  have body: "commitBody mo steps fuel base ?T = Some (map_option FileError err, ?k1, ?t)"
    unfolding commitBody_def d using m t(1,4) tl t' u curv upd by (cases err) (simp_all add: Let_def)
  obtain kv' where f: "txFinalize ?k1 ?t = Some kv'" using ver t'(1) on by (simp add: txFinalize_def Let_def)
  let ?on = "remove1 (tx_version tx) (kv_ongoing base)"
  let ?mv = "minLoop (kv_version db) ?on"
  have kv': "kv' = rebooked db ?mv ?on (kv_history kv')"
    by (rule KV.equality) (use f t'(1) on in \<open>auto simp: txFinalize_def Let_def rebooked_def bind_eq_Some_conv\<close>)
  have "kv_Commit mo steps fuel base tx = Some (map_option FileError err, kv', ?t)"
    using body f nd by (simp add: kv_Commit_def)
  then show ?thesis using kv' that [of ?mv ?on "kv_history kv'" ?t] minLoop_start minLoop_le by auto
qed

text \<open>A transaction whose sets all repeat what is stored commits without an update of the file.\<close>

lemma ins_same: "map_of kvs k = Some w \<Longrightarrow> sorted_kvs kvs \<Longrightarrow> ins_kv k w kvs = kvs"
proof (induction kvs)
  case (Cons kv kvs)
  obtain a b where kv: "kv = (a, b)" by (cases kv)
  have "\<not> k < a" if "k \<noteq> a"
  proof -
    have "(k, w) \<in> set kvs" using Cons.prems(1) kv that map_of_SomeD by fastforce
    then show ?thesis using Cons.prems(2) kv by (auto dest!: bspec)
  qed
  then show ?case using Cons kv by (cases "k = a") auto
qed simp

lemma nothing_modified: "modified_by (map_of kvs) ops = [] \<Longrightarrow> sorted_kvs kvs \<Longrightarrow> ins_all ops kvs = kvs"
  by (induction ops) (auto simp: modified_by_def ins_same split: if_split_asm)

lemma begin_holds: "store_holds base h kvs \<Longrightarrow> store_holds (begin_update base) h kvs"
proof -
  assume holds: "store_holds base h kvs"
  then have st: "settled base" and t: "tree_holds (kv_view base) (kv_root base) h kvs" by (simp_all add: store_holds_def)
  obtain ps q where l: "kv_list base ps q" and v: "kv_version base + 1 < 2 ^ 64" using st by (auto simp: settled_def)
  have "settled (begin_update base)"
    using st begin_list [OF l v]
    by (auto simp: settled_def begin_update_def fresh_def openable_def map_ok_def meta_fits_def meta72_def)
  then show ?thesis using t begin_view [OF l v] by (simp add: store_holds_def)
qed

lemma commit_unchanged:
  assumes holds: "store_holds base h kvs" and cf: "commit_fits steps fuel base h kvs tx pend" and nc: "\<not> conflicting base tx"
    and mb: "modified_by (map_of kvs) (unflag pend) = []"
  obtains mv ongo hs tx' where "kv_Commit mo steps fuel base tx = Some (None, rebooked (begin_update base) mv ongo hs, tx')"
    "mv \<le> kv_version base" "ongo = remove1 (tx_version tx) (kv_ongoing base)" "\<forall>v \<in> set ongo. mv \<le> v"
proof -
  let ?T = "tx\<lparr>tx_done := True\<rparr>" and ?k = "begin_update base"
  have v: "kv_version base + 1 < 2 ^ 64" using holds by (simp add: store_holds_def settled_def)
  have nd: "\<not> tx_done tx" and ver: "tx_version tx \<in> set (kv_ongoing base)" using cf by (auto simp: commit_fits_def)
  obtain it where t: "btree_Seek mem_callbacks (pend_pages tx) fuel (pend_root tx) [] CMP_GT = Some it"
    "transferLoop steps fuel tx ?k [] it = Some (Inr [], with_root (kv_root base) ?k)"
    by (rule commit_transfer [OF holds cf]) (use mb in \<open>simp cong: if_cong\<close>)
  obtain meta where m: "saveMeta base = Some meta" by (simp add: saveMeta_eq)
  let ?t = "if updateAttempted tx then ?T\<lparr>tx_reads := sortRanges (tx_reads tx)\<rparr> else ?T"
  have d: "(if updateAttempted ?T then detectConflicts base ?T else (False, ?T)) = (False, ?t)"
    using nc by (simp add: conflicting_def detectConflicts_def Let_def)
  have t': "tx_version ?t = tx_version tx" "pend_pages ?t = pend_pages tx" "pend_root ?t = pend_root tx" by simp_all
  have wr: "with_root (kv_root base) ?k = ?k" by (simp add: begin_update_def)
  have tl: "transferLoop steps fuel ?t ?k [] it = Some (Inr [], ?k)"
    using t(2) unfolding wr by (cases "updateAttempted tx") simp_all
  have curv: "base\<lparr>kv_free := (kv_free base)\<lparr>curVer := u64 (kv_version base + 1)\<rparr>\<rparr> = ?k" using v by (simp add: begin_update_def)
  have body: "commitBody mo steps fuel base ?T = Some (None, ?k, ?t)"
    unfolding commitBody_def d using m t(1) tl t' curv by (simp add: Let_def)
  have on: "kv_ongoing ?k = kv_ongoing base" "kv_version ?k = kv_version base" by (simp_all add: begin_update_def)
  obtain kv' where f: "txFinalize ?k ?t = Some kv'" using ver t'(1) on(1) by (simp add: txFinalize_def Let_def)
  let ?on = "remove1 (tx_version tx) (kv_ongoing base)"
  let ?mv = "minLoop (kv_version base) ?on"
  have kv': "kv' = rebooked ?k ?mv ?on (kv_history kv')"
    by (rule KV.equality) (use f t'(1) on in \<open>auto simp: txFinalize_def Let_def rebooked_def bind_eq_Some_conv\<close>)
  have "kv_Commit mo steps fuel base tx = Some (None, kv', ?t)" using body f nd by (simp add: kv_Commit_def)
  then show ?thesis using kv' that [of ?mv ?on "kv_history kv'" ?t] minLoop_start minLoop_le by auto
qed

end
