(* ===== verification/TxProps.thy ===== *)
theory TxProps
  imports TxCommit
begin

text \<open>
  What transactions promise: reads see the transaction's own writes over a fixed snapshot,
  statements can be rolled back, a commit is atomic and durable, and of two overlapping
  transactions the second to commit is refused.
\<close>

section \<open>A transaction on a consistent store\<close>

lemma ongoing_holds:
  assumes "store_holds db h kvs"
  shows "store_holds (db\<lparr>kv_ongoing := ongo\<rparr>) h kvs"
proof -
  let ?d = "db\<lparr>kv_ongoing := ongo\<rparr>"
  have sp: "same_pages ?d db" by (simp add: same_pages_def)
  have kl: "kv_list ?d = kv_list db" by (rule same_pages(7) [OF sp]) simp
  have "owned ?d = owned db" by (simp add: owned_def kl)
  then have "kv_view ?d = kv_view db" using same_pages(3) [OF sp] by (simp add: kv_view_def fun_eq_iff)
  then show ?thesis
    using assms kl by (auto simp: store_holds_def settled_def fresh_def openable_def map_ok_def meta_fits_def meta72_def)
qed

interpretation snp: pager "snap_callbacks chunks" "\<lambda>f. True" "\<lambda>f p. mmapRead f p chunks" "\<lambda>f. 0" for chunks
  by unfold_locales (simp_all add: snap_callbacks_def)

lemma snapshot_tree:
  assumes "store_holds db h kvs"
  shows "tree_holds (\<lambda>p. mmapRead (os_file (kv_os db)) p (mmap_chunks db)) (kv_root db) h kvs"
proof -
  have st: "settled db" and t: "tree_holds (kv_view db) (kv_root db) h kvs" using assms by (simp_all add: store_holds_def)
  show ?thesis
  proof (cases "kv_root db = 0")
    case True
    then show ?thesis using t by simp
  next
    case False
    then have nf: "2 < page_flushed db" "page_updates db = Map.empty" using st by (auto simp: settled_def fresh_def)
    show ?thesis
    proof (rule tree_holds_cong [OF t])
      show "mmapRead (os_file (kv_os db)) p (mmap_chunks db) = Some b" if "kv_view db p = Some b" for p b
        using that nf by (auto simp: kv_view_def pview_def file_page_def split: if_split_asm)
    qed
  qed
qed

lemma begin_sees:
  assumes holds: "store_holds kv h kvs" and b: "kv_Begin kv new_tx = (kv', tx)" and "h < fuel"
  shows "store_holds kv' h kvs" "tx_sees kv' fuel tx 0 (map_of kvs) []" "tx_version tx \<in> set (kv_ongoing kv')" "\<not> tx_done tx"
    "pend_pages tx = []" "tx_reads tx = []" "tx_version tx = kv_version kv'"
proof -
  have kv': "kv' = kv\<lparr>kv_ongoing := kv_ongoing kv @ [kv_version kv]\<rparr>"
    and tx: "snap_root tx = kv_root kv" "snap_chunks tx = mmap_chunks kv" "pend_root tx = 0" "pend_pages tx = []" "tx_reads tx = []"
      "tx_version tx = kv_version kv" "\<not> tx_done tx"
    using b by (auto simp: kv_Begin_def new_tx_def Let_def)
  show "store_holds kv' h kvs" using ongoing_holds [OF holds] kv' by simp
  have "snap_reads kv' fuel tx (map_of kvs)"
    using snp.btree_Get_ok [OF _ snapshot_tree [OF holds] assms(3)] kv' tx by (simp add: snap_reads_def snapshot_Get_def)
  then show "tx_sees kv' fuel tx 0 (map_of kvs) []" using tx by (simp add: tx_sees_def pend_holds_def flagged_def small_kvs_def)
  show "tx_version tx \<in> set (kv_ongoing kv')" "\<not> tx_done tx" "pend_pages tx = []" "tx_reads tx = []" "tx_version tx = kv_version kv'"
    using kv' tx by simp_all
qed

text \<open>The fuel and the page numbers a list of writes needs.\<close>

definition writes_fit :: "nat \<Rightarrow> nat \<Rightarrow> tx_write list \<Rightarrow> bool" where
  "writes_fit fuel h ws \<longleftrightarrow> (\<forall>w \<in> set ws. small_write w) \<and> h < fuel \<and> length ws < fuel \<and> length ws * (4 * length ws + 5) < 2 ^ 63"

text \<open>C4: reading your own writes. In a transaction on a consistent store, any sequence of sets and
  deletes of small pairs goes through without a panic, and every later read sees the snapshot
  with exactly these writes applied; the store itself does not change.\<close>

theorem transaction_is_map:
  assumes "store_holds kv h kvs" "kv_Begin kv new_tx = (kv', tx)" "writes_fit fuel h ws"
  shows "\<exists>tx'. run_writes kv' fuel ws tx = Some tx' \<and> tx_reads tx' = map (point_range \<circ> write_key) ws
    \<and> (\<forall>key. key \<noteq> [] \<longrightarrow> tx_Get kv' fuel tx' key = Some (fold apply_write ws (map_of kvs) key, add_read key key tx'))"
proof -
  have f: "h < fuel" "0 + length ws < fuel" "length ws * (4 * (0 + length ws) + 5) \<le> mem_room (pend_pages tx)" "\<forall>w \<in> set ws. small_write w"
    using assms(3) begin_sees(5) [OF assms(1,2)] by (auto simp: writes_fit_def mem_room_def)
  note b = begin_sees [OF assms(1,2) f(1)]
  obtain tx' h' pend' where t: "run_writes kv' fuel ws tx = Some tx'" "tx_sees kv' fuel tx' h' (map_of kvs) pend'" "h' \<le> 0 + length ws"
      "overlay (map_of kvs) pend' = fold apply_write ws (overlay (map_of kvs) [])" "tx_reads tx' = tx_reads tx @ map (point_range \<circ> write_key) ws"
    using run_writes_ok [OF b(2) f(2-4)] by blast
  have "overlay (map_of kvs) [] = map_of kvs" by (simp add: overlay_def fun_eq_iff)
  moreover have "tx_Get kv' fuel tx' key = Some (overlay (map_of kvs) pend' key, add_read key key tx')" if "key \<noteq> []" for key
    using tx_Get_ok [OF t(2) _ that] t(3) f(2) by simp
  ultimately show ?thesis using t(1,4,5) b(6) by simp
qed

theorem transaction_is_map_witness:
  "\<exists>kv kv' tx tx' t. kv_Begin kv new_tx = (kv', tx) \<and> run_writes kv' 3 [SetOp [2] [20], DelOp [1]] tx = Some tx'
     \<and> tx_Get kv' 3 tx' [1] = Some (None, add_read [1] [1] tx') \<and> tx_Get kv' 3 tx' [2] = Some (Some [20], t)"
proof -
  obtain db h where db: "store_holds db h [([1], [10])]" "fits 3 [([1], [10])] db h [([1], [10])]" by (rule one_pair) blast
  obtain kv' tx where b: "kv_Begin db new_tx = (kv', tx)" by fastforce
  have "h < 3" using db(2) by (simp add: fits_def)
  then have "writes_fit 3 h [SetOp [2] [20], DelOp [1]]" by (simp add: writes_fit_def)
  from transaction_is_map [OF db(1) b this] obtain tx' where t: "run_writes kv' 3 [SetOp [2] [20], DelOp [1]] tx = Some tx'"
      "\<forall>key. key \<noteq> [] \<longrightarrow> tx_Get kv' 3 tx' key = Some (fold apply_write [SetOp [2] [20], DelOp [1]] (map_of [([1], [10])]) key, add_read key key tx')"
    by blast
  have "tx_Get kv' 3 tx' [1] = Some (None, add_read [1] [1] tx')" "tx_Get kv' 3 tx' [2] = Some (Some [20], add_read [2] [2] tx')"
    using t(2) [rule_format, of "[1]"] t(2) [rule_format, of "[2]"] by simp_all
  then show ?thesis using b t(1) by blast
qed

text \<open>C33: statement rollback. Whatever writes follow a save, reverting to the saved state brings back
  what the transaction saw then, and the ranges it had read.\<close>

theorem statement_rollback:
  assumes "store_holds kv h kvs" "kv_Begin kv new_tx = (kv', tx)" "writes_fit fuel h (ws1 @ ws2)"
  shows "\<exists>tx1 tx2. run_writes kv' fuel ws1 tx = Some tx1 \<and> run_writes kv' fuel ws2 tx1 = Some tx2
    \<and> (let tx3 = tx_Revert tx2 (tx_Save tx1) in tx_reads tx3 = tx_reads tx1
        \<and> (\<forall>key. key \<noteq> [] \<longrightarrow> tx_Get kv' fuel tx3 key = Some (fold apply_write ws1 (map_of kvs) key, add_read key key tx3)))"
proof -
  let ?n = "length ws1" and ?m = "length ws2"
  have f: "h < fuel" "?n + ?m < fuel" "(?n + ?m) * (4 * (?n + ?m) + 5) < 2 ^ 63" "\<forall>w \<in> set ws1. small_write w" "\<forall>w \<in> set ws2. small_write w"
    using assms(3) by (auto simp: writes_fit_def)
  note b = begin_sees [OF assms(1,2) f(1)]
  have split: "?n * (4 * (0 + ?n) + 5) + ?m * (4 * (?n + ?m) + 5) \<le> (?n + ?m) * (4 * (?n + ?m) + 5)" by (simp add: algebra_simps)
  have room: "?n * (4 * (0 + ?n) + 5) \<le> mem_room (pend_pages tx)" using split f(3) b(5) by (simp add: mem_room_def)
  obtain tx1 h1 p1 where t1: "run_writes kv' fuel ws1 tx = Some tx1" "tx_sees kv' fuel tx1 h1 (map_of kvs) p1" "h1 \<le> 0 + ?n"
      "overlay (map_of kvs) p1 = fold apply_write ws1 (overlay (map_of kvs) [])"
      "mem_room (pend_pages tx) \<le> mem_room (pend_pages tx1) + ?n * (4 * (0 + ?n) + 5)"
    using run_writes_ok [OF b(2) _ room f(4)] f(2) by auto
  have le: "?m * (4 * (h1 + ?m) + 5) \<le> ?m * (4 * (?n + ?m) + 5)" using t1(3) by (intro mult_le_mono) simp_all
  have "mem_room (pend_pages tx) = 18446744073709551615" "(2::nat) ^ 63 = 9223372036854775808" using b(5) by (simp_all add: mem_room_def)
  then have "?m * (4 * (h1 + ?m) + 5) \<le> mem_room (pend_pages tx1)" using t1(5) le split f(3) by linarith
  then obtain tx2 h2 p2 where t2: "run_writes kv' fuel ws2 tx1 = Some tx2" "tx_sees kv' fuel tx2 h2 (map_of kvs) p2" "tx_grows tx1 tx2"
    using run_writes_ok [OF t1(2) _ _ f(5)] t1(3) f(2) by (metis add_le_cancel_right add_0 order_le_less_trans)
  have "length (pend_pages tx2) < 2 ^ 64" using t2(2) by (simp add: tx_sees_def pend_holds_def)
  note r = tx_Revert_ok [OF t1(2) t2(3) this]
  have "overlay (map_of kvs) [] = map_of kvs" by (simp add: overlay_def fun_eq_iff)
  then show ?thesis
    using t1(1,3,4) t2(1) r(2) tx_Get_ok [OF r(1)] f(2) by (auto simp: Let_def)
qed

theorem statement_rollback_witness:
  "\<exists>kv' tx1 tx2 t. run_writes kv' 3 [DelOp [1]] tx1 = Some tx2 \<and> tx_Get kv' 3 (tx_Revert tx2 (tx_Save tx1)) [1] = Some (Some [20], t)"
proof -
  obtain db h where db: "store_holds db h [([1], [10])]" "fits 3 [([1], [10])] db h [([1], [10])]" by (rule one_pair) blast
  obtain kv' tx where b: "kv_Begin db new_tx = (kv', tx)" by fastforce
  have "h < 3" using db(2) by (simp add: fits_def)
  then have "writes_fit 3 h ([SetOp [1] [20]] @ [DelOp [1]])" by (simp add: writes_fit_def)
  from statement_rollback [OF db(1) b this] obtain tx1 tx2 where t: "run_writes kv' 3 [DelOp [1]] tx1 = Some tx2"
      "\<forall>key. key \<noteq> [] \<longrightarrow> tx_Get kv' 3 (tx_Revert tx2 (tx_Save tx1)) key =
         Some (fold apply_write [SetOp [1] [20]] (map_of [([1], [10])]) key, add_read key key (tx_Revert tx2 (tx_Save tx1)))"
    unfolding Let_def by blast
  show ?thesis using t(1) t(2) [rule_format, of "[1]"] by auto
qed

section \<open>Commits\<close>

lemma map_of_rev_distinct: "distinct (map fst xs) \<Longrightarrow> map_of (rev xs) = map_of xs"
proof (induction xs)
  case (Cons x xs)
  then have "map_of xs (fst x) = None" by (simp add: map_of_eq_None_iff)
  then show ?case using Cons by (auto simp: fun_eq_iff map_add_def split: option.split)
qed simp

lemma all_sets_overlay:
  assumes "sorted_kvs pend" "all_sets pend" "sorted_kvs kvs"
  shows "map_of (ins_all (unflag pend) kvs) = overlay (map_of kvs) pend"
proof
  fix k
  have d: "distinct (map fst (unflag pend))" using sorted_kvs_distinct [OF assms(1)] by (simp add: unflag_def comp_def split_beta)
  have m: "map_of (unflag pend) k = map_option (drop 1) (map_of pend k)"
    by (induction pend) (auto simp: unflag_def)
  have "v \<noteq> [FLAG_DELETED]" if "map_of pend k = Some v" for v
    using assms(2) map_of_SomeD [OF that] by (auto simp: all_sets_def)
  then show "map_of (ins_all (unflag pend) kvs) k = overlay (map_of kvs) pend k"
    using map_of_ins_all [OF assms(3), of "unflag pend"] m map_of_rev_distinct [OF d]
    by (auto simp: overlay_def map_add_def split: option.split)
qed

lemma commit_fits_all_sets: "commit_fits steps fuel base h kvs tx pend \<Longrightarrow> fits fuel (unflag pend) base h kvs \<and> all_sets pend \<and> sorted_kvs pend"
  using tree_holds_sorted(1) by (auto simp: commit_fits_def pend_holds_def)

text \<open>Two transactions on a one-pair store that have both set another value under its key.\<close>

lemma set_first:
  assumes sees: "tx_sees kv 3 tx 0 (map_of [([1], [10])]) []" and pages: "pend_pages tx = []" and x: "x \<noteq> 10"
  obtains tx' h' req' where "tx_Update kv 3 tx (mk_update [1] [x] MODE_UPSERT) = Some (Inr True, req', tx')"
    "tx_sees kv 3 tx' h' (map_of [([1], [10])]) [([1], [FLAG_UPDATED, x])]" "h' \<le> 1" "tx_grows tx tx'" "updateAttempted tx'"
    "tx_reads tx' = tx_reads tx @ [point_range [1]]"
proof -
  have sm: "small_write (SetOp (Key (mk_update [1] [x] MODE_UPSERT)) (Val (mk_update [1] [x] MODE_UPSERT)))" by (simp add: mk_update_def)
  have room: "4 * 0 + 5 \<le> mem_room (pend_pages tx)" using pages by (simp add: mem_room_def)
  have "0 < (3::nat)" by simp
  obtain tx' h' pend' res req' where
    u: "tx_Update kv 3 tx (mk_update [1] [x] MODE_UPSERT) = Some (res, req', tx')" "tx_sees kv 3 tx' h' (map_of [([1], [10])]) pend'" "h' \<le> Suc 0"
      "tx_grows tx tx'" "updateAttempted tx'" "tx_reads tx' = tx_reads tx @ [point_range (Key (mk_update [1] [x] MODE_UPSERT))]"
      "res = Inr True \<and> pend' = [([1], [FLAG_UPDATED, x])]"
    by (rule tx_Update_ok [OF sees \<open>0 < 3\<close> room sm], rule that, assumption+)
       (use x in \<open>simp add: mk_update_def MODE_UPSERT_def MODE_INSERT_ONLY_def MODE_UPDATE_ONLY_def overlay_def\<close>)
  then show ?thesis by (intro that) (simp_all add: mk_update_def)
qed

lemma two_sets:
  obtains kv kv1 kv2 a b req1 req2 a' b' h where "idle kv" "kv_Begin kv new_tx = (kv1, a)" "kv_Begin kv1 new_tx = (kv2, b)"
    "tx_Update kv2 3 a (mk_update [1] [30] MODE_UPSERT) = Some (Inr True, req1, a')"
    "tx_Update kv2 3 b (mk_update [1] [20] MODE_UPSERT) = Some (Inr True, req2, b')"
    "updateAttempted a'" "point_range [1] \<in> set (tx_reads a')" "tx_version a' = 1"
    "store_holds kv2 h [([1], [10])]" "commit_fits 2 3 kv2 h [([1], [10])] b' [([1], [FLAG_UPDATED, 20])]" "\<not> conflicting kv2 b'"
    "os_outcomes (kv_os kv2) = []" "kv_version kv2 = 1" "kv_root kv2 \<noteq> 0" "length (kv_ongoing kv2) = 2"
proof -
  obtain db h where db: "store_holds db h [([1], [10])]" "kv_root db \<noteq> 0" "fits 3 [([1], [10])] db h [([1], [10])]" "kv_version db = 1"
      "os_outcomes (kv_os db) = []" by (rule one_pair) blast
  let ?kv = "rebooked db 1 [] []"
  obtain kv1 a where b1: "kv_Begin ?kv new_tx = (kv1, a)" by fastforce
  obtain kv2 b where b2: "kv_Begin kv1 new_tx = (kv2, b)" by fastforce
  have k1: "kv1 = ?kv\<lparr>kv_ongoing := [1]\<rparr>" using b1 db(4) by (auto simp: kv_Begin_def rebooked_def Let_def)
  have k2: "kv2 = ?kv\<lparr>kv_ongoing := [1, 1]\<rparr>" using b2 k1 db(4) by (auto simp: kv_Begin_def rebooked_def Let_def)
  have h: "h < 3" using db(3) by (simp add: fits_def)
  have r: "store_holds ?kv h [([1], [10])]" by (rule rebooked_holds [OF db(1)]) (use db(4) in simp)
  note s1 = begin_sees [OF r b1 h]
  note s2 = begin_sees [OF s1(1) b2 h]
  have x: "(30 :: byte) \<noteq> 10" "(20 :: byte) \<noteq> 10" by simp_all
  have sa: "tx_sees kv2 3 a 0 (map_of [([1], [10])]) []" using s1(2) k1 k2 by (simp add: tx_sees_def snap_reads_def snapshot_Get_def)
  obtain a' h1 req1 where
    ua: "tx_Update kv2 3 a (mk_update [1] [30] MODE_UPSERT) = Some (Inr True, req1, a')" "tx_sees kv2 3 a' h1 (map_of [([1], [10])]) [([1], [FLAG_UPDATED, 30])]"
      "h1 \<le> 1" "tx_grows a a'" "updateAttempted a'" "tx_reads a' = tx_reads a @ [point_range [1]]"
    by (rule set_first [OF sa s1(5) x(1)])
  note ua = ua(1,4,5,6)
  obtain b' h2 req2 where
    ub: "tx_Update kv2 3 b (mk_update [1] [20] MODE_UPSERT) = Some (Inr True, req2, b')"
      "tx_sees kv2 3 b' h2 (map_of [([1], [10])]) [([1], [FLAG_UPDATED, 20])]" "h2 \<le> 1" "tx_grows b b'"
    by (rule set_first [OF s2(2,5) x(2)])
  have sn: "snapshot_Get kv2 3 b' [1] = Some (Some [10])" using ub(2) by (simp add: tx_sees_def snap_reads_def)
  have "fits 3 [([1], [20])] kv2 h [([1], [10])]"
    using db(3) by (simp add: fits_def k2 small_op_def kv_room_def proom_def page_end_def rebooked_def SetMaxVer_def)
  then have cf: "commit_fits 2 3 kv2 h [([1], [10])] b' [([1], [FLAG_UPDATED, 20])]"
    using ub(2-4) sn s2(3,4) unfolding commit_fits_def
    by (auto simp: tx_sees_def unflag_def all_sets_def small_op_def modified_by_def tx_grows_def intro!: exI [of _ h2])
  have nc: "\<not> conflicting kv2 b'" by (simp add: conflicting_def k2 rebooked_def)
  have id: "idle ?kv" using db(4) by (simp add: idle_def rebooked_def SetMaxVer_def)
  have v: "tx_version a' = 1" using ua(2) s1(7) k1 db(4) by (simp add: tx_grows_def rebooked_def)
  show ?thesis
    by (rule that [OF id b1 b2 ua(1) ub(1) ua(3) _ v s2(1) cf nc]) (use db k2 ua(4) in \<open>simp_all add: rebooked_def\<close>)
qed

text \<open>C1: commit is atomic. Take a store at rest (open, consistent, its last update not failed) that holds
  small pairs and has been committed to before, and a running transaction without a conflict whose pending
  tree has at most two levels and only sets small values, at least one, at keys where its snapshot agrees with the
  current contents; page numbers and fuel suffice.
  Whatever system calls fail, and whatever part of its bytes a failing write leaves behind,
  \<^const>\<open>kv_Commit\<close> returns. Then whichever of the unsynced writes a crash loses, the file opens again and
  reads as the new contents or, only when the commit reported an error, as the old ones. There are two
  exceptions, both after a failed commit: a write of a page that stored a part of it can leave a
  file whose length is no multiple of the page size, which \<^const>\<open>kv_Open\<close> refuses; and a write that stored
  some but not all of the 72 bytes of the meta page leaves these bytes in a file that otherwise reads as
  the old contents. When the commit fails, the store in memory is back at the old contents, root and
  version.\<close>

theorem transaction_atomic:
  assumes "store_holds base h kvs" "kv_root base \<noteq> 0" "commit_fits steps fuel base h kvs tx pend" "\<not> conflicting base tx" "map_order mo"
  shows "\<exists>err kv' tx'. kv_Commit mo steps fuel base tx = Some (err, kv', tx')
    \<and> (\<forall>f \<in> crash_files (kv_os kv'). recovers fuel f (ins_all (unflag pend) kvs)
         \<or> err \<noteq> None \<and> (recovers fuel f kvs \<or> \<not> untorn (os_outcomes (kv_os base)) \<and> torn_file f
              \<or> \<not> meta_whole (os_outcomes (kv_os base)) \<and> torn_meta fuel kvs f))
    \<and> (err \<noteq> None \<longrightarrow> reads_as fuel kv' kvs \<and> kv_root kv' = kv_root base \<and> kv_version kv' = kv_version base \<and> page_updates kv' = Map.empty)"
proof (cases "modified_by (map_of kvs) (unflag pend) = []")
  case True
  have "sorted_kvs kvs" using tree_holds_sorted(1) assms(1) by (auto simp: store_holds_def)
  with nothing_modified [OF True] have same: "ins_all (unflag pend) kvs = kvs" .
  obtain mv ongo hs tx' where c: "kv_Commit mo steps fuel base tx = Some (None, rebooked (begin_update base) mv ongo hs, tx')"
    by (rule commit_unchanged [OF assms(1,3,4) True])
  have "h < fuel" using assms(3) by (simp add: commit_fits_def fits_def)
  then have "\<forall>f \<in> crash_files (kv_os base). recovers fuel f kvs"
    using rest_survives [OF assms(1,2)] by (fastforce simp: recovers_def)
  then show ?thesis using c same by (simp add: begin_update_def)
next
  case False
  note f = commit_fits_all_sets [OF assms(3)]
  obtain err db where u: "update_store mo fuel (unflag pend) base = Some (err, db)"
      "\<forall>f \<in> crash_files (kv_os db). recovers fuel f (ins_all (unflag pend) kvs)
         \<or> err \<noteq> None \<and> (recovers fuel f kvs \<or> \<not> untorn (os_outcomes (kv_os base)) \<and> torn_file f
              \<or> \<not> meta_whole (os_outcomes (kv_os base)) \<and> torn_meta fuel kvs f)"
    using commit_crash [OF assms(1,2) conjunct1 [OF f] assms(5)] by (elim exE conjE) (rule that)
  obtain mv ongo hs tx' where c: "kv_Commit mo steps fuel base tx = Some (map_option FileError err, rebooked db mv ongo hs, tx')"
    by (rule commit_is_update [OF assms(1,3,4) False u(1)])
  have "reads_as fuel db kvs \<and> kv_root db = kv_root base \<and> kv_version db = kv_version base \<and> page_updates db = Map.empty" if "err = Some e" for e
    using commit_reverts [OF assms(1,2) conjunct1 [OF f] assms(5)] u(1) that by blast
  then show ?thesis using c u(2) by (intro exI [of _ "map_option FileError err"] exI [of _ "rebooked db mv ongo hs"] exI [of _ tx']) auto
qed

theorem transaction_atomic_witness:
  "\<exists>kv tx err kv' tx'. kv_Commit ascending 2 3 kv tx = Some (err, kv', tx')
     \<and> (\<forall>f \<in> crash_files (kv_os kv'). recovers 3 f [([1], [20])] \<or> recovers 3 f [([1], [10])])"
proof -
  obtain kv2 b' h where t: "store_holds kv2 h [([1], [10])]" "commit_fits 2 3 kv2 h [([1], [10])] b' [([1], [FLAG_UPDATED, 20])]"
      "\<not> conflicting kv2 b'" "kv_root kv2 \<noteq> 0" "os_outcomes (kv_os kv2) = []" by (rule two_sets) blast
  have u: "untorn (os_outcomes (kv_os kv2))" using t(5) by (simp add: untorn_def)
  have "ins_all (unflag [([1], [FLAG_UPDATED, 20])]) [([1], [10])] = [([1], [20])]" by (simp add: unflag_def)
  then show ?thesis using transaction_atomic [OF t(1,4,2,3) ascending_order] u untorn_meta [OF u] by metis
qed

lemma transaction_commits:
  assumes "store_holds base h kvs" "commit_fits steps fuel base h kvs tx pend" "\<not> conflicting base tx" "map_order mo"
    and "os_outcomes (kv_os base) = []" "kv_version base + 2 < 2 ^ 64"
  shows "\<exists>kv' tx' h'. kv_Commit mo steps fuel base tx = Some (None, kv', tx') \<and> store_holds kv' h' (ins_all (unflag pend) kvs)
    \<and> kv_version kv' = kv_version base + (if modified_by (map_of kvs) (unflag pend) = [] then 0 else 1)
    \<and> kv_ongoing kv' = remove1 (tx_version tx) (kv_ongoing base) \<and> kv_root kv' \<noteq> 0 \<and> h' < fuel"
proof (cases "modified_by (map_of kvs) (unflag pend) = []")
  case True
  have tr: "tree_holds (kv_view base) (kv_root base) h kvs" using assms(1) by (simp add: store_holds_def)
  have same: "ins_all (unflag pend) kvs = kvs" by (rule nothing_modified [OF True tree_holds_sorted(1) [OF tr]])
  obtain mv ongo hs tx' where c: "kv_Commit mo steps fuel base tx = Some (None, rebooked (begin_update base) mv ongo hs, tx')"
    "mv \<le> kv_version base" "ongo = remove1 (tx_version tx) (kv_ongoing base)"
    by (rule commit_unchanged [OF assms(1-3) True])
  have fu: "h < fuel" "unflag pend \<noteq> []" using assms(2) by (simp_all add: commit_fits_def fits_def)
  then have "kvs \<noteq> []" using True by (cases "unflag pend") (auto simp: modified_by_def)
  then have "kv_root base \<noteq> 0" using tr by (metis tree_holds_empty)
  moreover have v: "kv_version (begin_update base) = kv_version base" by (simp add: begin_update_def)
  then have "store_holds (rebooked (begin_update base) mv ongo hs) h kvs"
    using rebooked_holds [OF begin_holds [OF assms(1)]] c(2) by simp
  ultimately show ?thesis using c same True fu(1) v
    by (intro exI [of _ "rebooked (begin_update base) mv ongo hs"] exI [of _ tx'] exI [of _ h]) simp
next
  case False
  note f = commit_fits_all_sets [OF assms(2)]
  obtain db h' where u: "update_store mo fuel (unflag pend) base = Some (None, db)" "store_holds db h' (ins_all (unflag pend) kvs)"
      "kv_version db = kv_version base + 1" "kv_root db \<noteq> 0" "h' \<le> h + length (unflag pend)"
    using commit_done [OF assms(1) conjunct1 [OF f] assms(4,5,6)] by blast
  obtain mv ongo hs tx' where c: "kv_Commit mo steps fuel base tx = Some (map_option FileError None, rebooked db mv ongo hs, tx')"
      "mv \<le> kv_version db" "ongo = remove1 (tx_version tx) (kv_ongoing base)"
    by (rule commit_is_update [OF assms(1-3) False u(1)])
  have "h' < fuel" using u(5) f by (simp add: fits_def)
  then show ?thesis using c u(3,4) rebooked_holds [OF u(2) c(2)] False
    by (intro exI [of _ "rebooked db mv ongo hs"] exI [of _ tx'] exI [of _ h']) simp
qed

text \<open>C3: commit is durable. Take a store at rest (open, consistent, its last update not failed) that holds
  small pairs, and a running transaction without a conflict whose pending tree has at most two levels and
  only sets small values, at least one, at keys where its snapshot agrees with the current contents; page
  numbers, version numbers and fuel suffice. With working system calls it
  commits: the version goes up by one when some set changes the stored value and stays when none does,
  the transaction is no longer ongoing, the store is at rest again, and lookups answer with the pending
  changes laid over the old contents. A crash then loses nothing: the file opens at that version
  and answers every lookup in the same way.\<close>

theorem transaction_durable:
  assumes "store_holds base h kvs" "commit_fits steps fuel base h kvs tx pend" "\<not> conflicting base tx" "map_order mo"
    and "os_outcomes (kv_os base) = []" "kv_version base + 2 < 2 ^ 64"
  shows "\<exists>kv' tx' h'. kv_Commit mo steps fuel base tx = Some (None, kv', tx') \<and> store_holds kv' h' (ins_all (unflag pend) kvs)
    \<and> kv_version kv' = kv_version base + (if modified_by (map_of kvs) (unflag pend) = [] then 0 else 1)
    \<and> kv_ongoing kv' = remove1 (tx_version tx) (kv_ongoing base)
    \<and> (\<forall>key. key \<noteq> [] \<longrightarrow> btree_Get kv_callbacks fuel key (kv_root kv') kv' = Some (overlay (map_of kvs) pend key))
    \<and> (\<forall>f \<in> crash_files (kv_os kv'). \<exists>db. kv_Open (new_kv (os_on f)) = Some (None, db) \<and> kv_version db = kv_version kv'
         \<and> (\<forall>key. key \<noteq> [] \<longrightarrow> btree_Get kv_callbacks fuel key (kv_root db) db = Some (overlay (map_of kvs) pend key)))"
proof -
  obtain kv' tx' h' where c: "kv_Commit mo steps fuel base tx = Some (None, kv', tx')" "store_holds kv' h' (ins_all (unflag pend) kvs)"
    "kv_version kv' = kv_version base + (if modified_by (map_of kvs) (unflag pend) = [] then 0 else 1)"
    "kv_ongoing kv' = remove1 (tx_version tx) (kv_ongoing base)" "kv_root kv' \<noteq> 0" "h' < fuel"
    using transaction_commits [OF assms] by blast
  have "sorted_kvs kvs" using tree_holds_sorted(1) assms(1) by (auto simp: store_holds_def)
  then have m: "map_of (ins_all (unflag pend) kvs) = overlay (map_of kvs) pend"
    using all_sets_overlay commit_fits_all_sets [OF assms(2)] by blast
  show ?thesis
    using c(1-4) rest_reads [OF c(2,5,6)] rest_survives [OF c(2,5,6)] unfolding reads_as_def m by blast
qed

theorem transaction_durable_witness:
  "\<exists>kv tx kv' tx'. kv_Commit ascending 2 3 kv tx = Some (None, kv', tx') \<and> kv_version kv = 1 \<and> kv_version kv' = 2
     \<and> btree_Get kv_callbacks 3 [1] (kv_root kv') kv' = Some (Some [20])"
proof -
  obtain kv2 b' h where t: "store_holds kv2 h [([1], [10])]" "commit_fits 2 3 kv2 h [([1], [10])] b' [([1], [FLAG_UPDATED, 20])]"
      "\<not> conflicting kv2 b'" "os_outcomes (kv_os kv2) = []" "kv_version kv2 = 1" by (rule two_sets) blast
  have "kv_version kv2 + 2 < 2 ^ 64" using t(5) by simp
  from transaction_durable [OF t(1-3) ascending_order t(4) this] obtain kv' tx' where
    c: "kv_Commit ascending 2 3 kv2 b' = Some (None, kv', tx')"
      "kv_version kv' = kv_version kv2 + (if modified_by (map_of [([1], [10])]) (unflag [([1], [FLAG_UPDATED, 20])]) = [] then 0 else 1)"
      "\<forall>key. key \<noteq> [] \<longrightarrow> btree_Get kv_callbacks 3 key (kv_root kv') kv' = Some (overlay (map_of [([1], [10])]) [([1], [FLAG_UPDATED, 20])] key)"
    by blast
  have "btree_Get kv_callbacks 3 [1] (kv_root kv') kv' = Some (Some [20])" using c(3) [rule_format, of "[1]"] by (simp add: overlay_def)
  moreover have "kv_version kv' = 2" using c(2) t(5) by (simp add: modified_by_def unflag_def)
  ultimately show ?thesis using c(1) t(5) by blast
qed

section \<open>Conflicts\<close>

text \<open>The overlap test. The two-finger walk over two lists of ranges sorted by their starts finds
  out whether some range of the one meets some range of the other, whatever the ranges are.\<close>

lemma overlap_test: "sortedRangesOverlap (sortRanges rs) (sortRanges ws) \<longleftrightarrow>
    (\<exists>r \<in> set rs. \<exists>w \<in> set ws. kr_start r \<le> kr_stop w \<and> kr_start w \<le> kr_stop r)"
  by (simp add: sortedRangesOverlap_def overlapLoop_iff overlap_def)

text \<open>A newer commit has changed a key the transaction depends on.\<close>

definition stale :: "Sys \<Rightarrow> KVTX \<Rightarrow> bool" where
  "stale s tx \<longleftrightarrow> (\<exists>(v, ks) \<in> set (clog s). tx_version tx < v
     \<and> (\<exists>k \<in> set ks. \<exists>r \<in> set (tx_reads tx). kr_start r \<le> k \<and> k \<le> kr_stop r))"

lemma conflict_commit:
  assumes "conflicting kv tx" "\<not> tx_done tx" "tx_version tx \<in> set (kv_ongoing kv)"
  obtains kv' tx' where "kv_Commit mo steps fuel kv tx = Some (Some ErrorConflict, kv', tx')" "kv_root kv' = kv_root kv"
    "kv_os kv' = kv_os kv" "page_updates kv' = page_updates kv" "kv_version kv' = kv_version kv"
proof -
  let ?T = "tx\<lparr>tx_done := True, tx_reads := sortRanges (tx_reads tx)\<rparr>"
  have "commitBody mo steps fuel kv (tx\<lparr>tx_done := True\<rparr>) = Some (Some ErrorConflict, kv, ?T)"
    using assms(1) by (simp add: commitBody_def conflicting_def detectConflicts_def Let_def)
  moreover obtain kv' where f: "txFinalize kv ?T = Some kv'" using assms(3) by (simp add: txFinalize_def Let_def)
  ultimately have "kv_Commit mo steps fuel kv tx = Some (Some ErrorConflict, kv', ?T)" using assms(2) by (simp add: kv_Commit_def)
  then show ?thesis using that f by (auto simp: txFinalize_def Let_def bind_eq_Some_conv)
qed

text \<open>The two transactions of \<open>two_sets\<close> as a run of the state machine, up to the second one's commit.\<close>

lemma conflict_run:
  obtains s tx where "sys_reach s" "txns s 0 = Some tx" "updateAttempted tx" "stale s tx" "kv_version (skv s) = 2"
proof -
  obtain kv kv1 kv2 a b req1 req2 a' b' h where t: "idle kv" "kv_Begin kv new_tx = (kv1, a)" "kv_Begin kv1 new_tx = (kv2, b)"
    "tx_Update kv2 3 a (mk_update [1] [30] MODE_UPSERT) = Some (Inr True, req1, a')"
    "tx_Update kv2 3 b (mk_update [1] [20] MODE_UPSERT) = Some (Inr True, req2, b')"
    "updateAttempted a'" "point_range [1] \<in> set (tx_reads a')" "tx_version a' = 1"
    "store_holds kv2 h [([1], [10])]" "commit_fits 2 3 kv2 h [([1], [10])] b' [([1], [FLAG_UPDATED, 20])]" "\<not> conflicting kv2 b'"
    "os_outcomes (kv_os kv2) = []" "kv_version kv2 = 1" "kv_root kv2 \<noteq> 0" "length (kv_ongoing kv2) = 2" by (rule two_sets)
  let ?s = "\<lambda>kv m. \<lparr>skv = kv, txns = m, clog = []\<rparr>"
  have 0: "sys_reach (?s kv Map.empty)" by (rule reach_open [OF t(1)])
  have 1: "sys_reach (?s kv1 [0 \<mapsto> a])" using reach_step [OF 0 step_begin [of "?s kv Map.empty" 0 kv1 a]] t(2) by simp
  have 2: "sys_reach (?s kv2 [0 \<mapsto> a, 1 \<mapsto> b])" using reach_step [OF 1 step_begin [of "?s kv1 [0 \<mapsto> a]" 1 kv2 b]] t(3) by simp
  have 3: "sys_reach (?s kv2 [0 \<mapsto> a', 1 \<mapsto> b])"
    using reach_step [OF 2 step_op [of "?s kv2 [0 \<mapsto> a, 1 \<mapsto> b]" 0 a a']] op_update [OF t(4)] by (simp add: fun_upd_twist)
  have 4: "sys_reach (?s kv2 [0 \<mapsto> a', 1 \<mapsto> b'])"
    using reach_step [OF 3 step_op [of "?s kv2 [0 \<mapsto> a', 1 \<mapsto> b]" 1 b b']] op_update [OF t(5)] by simp
  have v: "kv_version kv2 + 1 < 2 ^ 64" "kv_version kv2 + 2 < 2 ^ 64" using t(13) by simp_all
  have one: "modified_by (map_of [([1], [10])]) (unflag [([1], [FLAG_UPDATED, 20])]) = [[1 :: byte]]" by (simp add: modified_by_def unflag_def)
  obtain kv3 tx3 where c: "kv_Commit ascending 2 3 kv2 b' = Some (None, kv3, tx3)" "kv_version kv3 = 2"
    using transaction_commits [OF t(9-11) ascending_order t(12) v(2)] t(13) one by auto
  obtain ks where ks: "committedKeys 2 3 kv2 b' = Some ks" "[1] \<in> set ks"
  proof -
    obtain it root k where l: "btree_Seek mem_callbacks (pend_pages b') 3 (pend_root b') [] CMP_GT = Some it"
      "transferLoop 2 3 b' (begin_update kv2) [] it = Some (Inr (map point_range (modified_by (map_of [([1], [10])]) (unflag [([1], [FLAG_UPDATED, 20])]))), with_root root k)"
      by (rule commit_transfer [OF t(9,10)]) (use t(15) in simp)
    have "kv_ongoing (begin_update kv2) = kv_ongoing kv2" by (simp add: begin_update_def)
    then obtain ks where m: "modifiedKeys 2 3 b' (begin_update kv2) it = Some ks" "map point_range [[1]] = map point_range ks"
      using transferLoop_writes [OF l(2)] t(15) by (auto simp: modified_by_def unflag_def)
    have "begin_update kv2 = kv2\<lparr>kv_free := (kv_free kv2)\<lparr>curVer := u64 (kv_version kv2 + 1)\<rparr>\<rparr>" using v(1) by (simp add: begin_update_def)
    then have "committedKeys 2 3 kv2 b' = Some ks" using l(1) m(1) by (simp add: committedKeys_def)
    moreover have "[1] \<in> set ks" using m(2) by (auto simp: point_range_def)
    ultimately show ?thesis by (rule that)
  qed
  let ?e = "\<lparr>skv = kv3, txns = [0 \<mapsto> a'], clog = [(2, ks)]\<rparr>"
  have "([0 \<mapsto> a', 1 \<mapsto> b'])(1 := None) = [0 :: nat \<mapsto> a']" by (auto simp: fun_eq_iff)
  then have "sys_reach ?e"
    using reach_step [OF 4 step_commit [of "?s kv2 [0 \<mapsto> a', 1 \<mapsto> b']" 1 b' ascending 2 3 kv3 tx3 ks]] v(1) c ks(1) by simp
  moreover have "stale ?e a'"
    using t(7,8) ks(2) by (auto simp: stale_def point_range_def intro!: bexI [of _ "[1]"] bexI [of _ "\<lparr>kr_start = [1], kr_stop = [1]\<rparr>"])
  ultimately show ?thesis using t(6) c(2) by (intro that [of ?e a']) simp_all
qed

text \<open>C2: first committer wins. However transactions have been interleaved before, a transaction that
  attempted an update is refused exactly when some newer successful commit changed a key in
  one of the ranges it read: then the commit ends with the conflict error and leaves contents
  and file alone, and otherwise it does not report a conflict. So no update is ever lost, even
  though the store forgets most of its history and does not record every commit.\<close>

theorem conflict_detection:
  assumes "sys_reach s" "txns s i = Some tx" "kv_version (skv s) + 1 < 2 ^ 64"
  shows "if updateAttempted tx \<and> stale s tx
    then \<exists>kv' tx'. kv_Commit mo steps fuel (skv s) tx = Some (Some ErrorConflict, kv', tx')
       \<and> kv_root kv' = kv_root (skv s) \<and> kv_os kv' = kv_os (skv s) \<and> page_updates kv' = page_updates (skv s)
    else \<forall>kv' tx'. kv_Commit mo steps fuel (skv s) tx \<noteq> Some (Some ErrorConflict, kv', tx')"
proof -
  have inv: "sys_inv s" by (rule sys_reach_inv [OF assms(1)])
  note D = sys_invD [OF inv]
  have iff: "conflicting (skv s) tx \<longleftrightarrow> updateAttempted tx \<and> stale s tx"
    using conflicting_iff [OF inv assms(2)] by (simp add: stale_def)
  have "tx_version tx \<in># mset (kv_ongoing (skv s))" using active_version_in [OF D(1) assms(2)] D(2) by simp
  then have on: "tx_version tx \<in> set (kv_ongoing (skv s))" by simp
  show ?thesis
  proof (cases "conflicting (skv s) tx")
    case True
    obtain kv' tx' where "kv_Commit mo steps fuel (skv s) tx = Some (Some ErrorConflict, kv', tx')" "kv_root kv' = kv_root (skv s)"
        "kv_os kv' = kv_os (skv s)" "page_updates kv' = page_updates (skv s)"
      by (rule conflict_commit [OF True _ on]) (use D(3) [OF assms(2)] in simp)
    then show ?thesis using True iff by auto
  next
    case False
    have "kv_Commit mo steps fuel (skv s) tx \<noteq> Some (Some ErrorConflict, kv', tx')" for kv' tx'
    proof
      assume ev: "kv_Commit mo steps fuel (skv s) tx = Some (Some ErrorConflict, kv', tx')"
      obtain k1 where "commit_books steps fuel (skv s) tx (Some ErrorConflict) k1" by (rule kv_Commit_books [OF ev assms(3)])
      then show False using False by (simp add: commit_books_def)
    qed
    then show ?thesis using False iff by simp
  qed
qed

theorem conflict_detection_witness:
  "\<exists>s tx kv' tx'. sys_reach s \<and> txns s 0 = Some tx \<and> kv_Commit ascending 2 3 (skv s) tx = Some (Some ErrorConflict, kv', tx')"
proof -
  obtain s tx where r: "sys_reach s" "txns s 0 = Some tx" "updateAttempted tx" "stale s tx" "kv_version (skv s) = 2" by (rule conflict_run)
  have "kv_version (skv s) + 1 < 2 ^ 64" using r(5) by simp
  from conflict_detection [OF r(1,2) this, of ascending 2 3] show ?thesis using r by auto
qed

text \<open>C6: the bookkeeping of transactions. However transactions are interleaved, the store's list of
  ongoing versions is exactly the versions of the running transactions. The version up to which the
  free list may give out pages is exactly that of the oldest snapshot in use (the current one when
  nothing is running), so it never reaches a page that a running transaction may still read, and
  never lags behind. The history is sorted by version and trimmed: every commit in it is newer than the
  snapshot of some running transaction, which could therefore conflict with it.\<close>

theorem transaction_books:
  assumes "sys_reach s"
  shows "mset (kv_ongoing (skv s)) = active_versions (txns s)
    \<and> maxVer (kv_free (skv s)) = oldest s
    \<and> (\<forall>i tx. txns s i = Some tx \<longrightarrow> maxVer (kv_free (skv s)) \<le> tx_version tx \<and> tx_version tx \<le> kv_version (skv s))
    \<and> sorted_history (kv_history (skv s))
    \<and> (\<forall>c \<in> set (kv_history (skv s)). ctx_version c \<le> kv_version (skv s) \<and> (\<exists>i tx. txns s i = Some tx \<and> tx_version tx < ctx_version c))"
proof -
  note inv = sys_reach_inv [OF assms]
  note D = sys_invD [OF inv]
  show ?thesis using D(2,3,5) max_is_oldest [OF inv] history_needed [OF inv] history_versions [OF inv] by blast
qed

theorem transaction_books_witness:
  "\<exists>s tx. sys_reach s \<and> txns s 0 = Some tx \<and> clog s \<noteq> [] \<and> mset (kv_ongoing (skv s)) = active_versions (txns s)
     \<and> maxVer (kv_free (skv s)) = oldest s"
proof -
  obtain s tx where r: "sys_reach s" "txns s 0 = Some tx" "stale s tx" by (rule conflict_run)
  then have "clog s \<noteq> []" by (auto simp: stale_def)
  then show ?thesis using transaction_books [OF r(1)] r by blast
qed

text \<open>C34: a rollback always succeeds. A running transaction can be aborted at any time: \<^const>\<open>kv_Abort\<close>
  does not panic, takes it off the list of ongoing ones and changes neither contents nor file.\<close>

theorem abort_succeeds:
  assumes "sys_reach s" "txns s i = Some tx"
  shows "\<exists>kv' tx'. kv_Abort (skv s) tx = Some (kv', tx') \<and> tx_done tx' \<and> mset (kv_ongoing kv') = active_versions ((txns s)(i := None))
    \<and> kv_root kv' = kv_root (skv s) \<and> kv_os kv' = kv_os (skv s) \<and> page_updates kv' = page_updates (skv s)"
proof -
  note D = sys_invD [OF sys_reach_inv [OF assms(1)]]
  have r: "mset (kv_ongoing (skv s)) = add_mset (tx_version tx) (active_versions ((txns s)(i := None)))"
    using active_versions_remove [OF D(1) assms(2)] D(2) by simp
  then have on: "tx_version tx \<in> set (kv_ongoing (skv s))" by (metis set_mset_mset union_single_eq_member)
  let ?t = "tx\<lparr>tx_done := True\<rparr>"
  obtain kv' where f: "txFinalize (skv s) ?t = Some kv'" using on by (simp add: txFinalize_def Let_def)
  have "kv_Abort (skv s) tx = Some (kv', ?t)" using f D(3) [OF assms(2)] by (simp add: kv_Abort_def Let_def)
  moreover have "mset (kv_ongoing kv') = active_versions ((txns s)(i := None))" using txFinalize_books(1) [OF f] r by simp
  moreover have "kv_root kv' = kv_root (skv s)" "kv_os kv' = kv_os (skv s)" "page_updates kv' = page_updates (skv s)"
    using f by (auto simp: txFinalize_def Let_def bind_eq_Some_conv)
  ultimately show ?thesis by auto
qed

theorem abort_succeeds_witness:
  "\<exists>s tx kv' tx'. sys_reach s \<and> txns s 0 = Some tx \<and> stale s tx \<and> kv_Abort (skv s) tx = Some (kv', tx')"
proof -
  obtain s tx where r: "sys_reach s" "txns s 0 = Some tx" "stale s tx" by (rule conflict_run)
  then show ?thesis using abort_succeeds [OF r(1,2)] by blast
qed

text \<open>C35: a failed commit that is not undone. When an earlier update has failed, \<^const>\<open>updateOrRevert\<close> first
  rewrites the meta page; if that write fails too, the error is reported but the new root, the
  new version and the pending pages of the failed transaction all stay in the store, and the
  file still has none of them.\<close>

theorem rewrite_failure_keeps_update:
  assumes "kv_failed db" "os_outcomes (kv_os db) = SysErr e 0 # rest"
  shows "\<exists>db'. updateOrRevert db meta ord = Some (Some (''rewrite meta page: '' @ e), db') \<and> kv_root db' = kv_root db
    \<and> kv_version db' = kv_version db \<and> page_updates db' = page_updates db \<and> os_file (kv_os db') = os_file (kv_os db)"
  using assms by (simp add: updateOrRevert_def rewriteMeta_def sys_pwrite_def next_outcome_def Let_def)

theorem rewrite_failure_keeps_update_witness:
  "\<exists>db'. updateOrRevert ((new_kv \<lparr>os_file = [], os_synced = [], os_unsynced = [], os_outcomes = [SysErr ''EIO'' 0]\<rparr>)
       \<lparr>kv_failed := True, kv_root := 7, kv_version := 3, page_updates := [7 \<mapsto> [1]]\<rparr>) [] [7]
     = Some (Some ''rewrite meta page: EIO'', db') \<and> kv_root db' = 7 \<and> page_updates db' = [7 \<mapsto> [1]]"
  using rewrite_failure_keeps_update [of "(new_kv \<lparr>os_file = [], os_synced = [], os_unsynced = [], os_outcomes = [SysErr ''EIO'' 0]\<rparr>)
       \<lparr>kv_failed := True, kv_root := 7, kv_version := 3, page_updates := [7 \<mapsto> [1]]\<rparr>" "''EIO''" "[]" "[]" "[7]"]
  by (simp add: new_kv_def) blast

end
