(* ===== verification/TxScan.thy ===== *)
theory TxScan
  imports TxProps
begin

text \<open>
  Range reads of a transaction: the merge of its pending changes with its snapshot. The rest of a
  walk along a tree is a list of pairs (\<open>walks\<close>), in either direction; the merging iterator then
  walks along the merge of two such lists, and the range read of \<^verbatim>\<open>KVTX.Seek\<close> yields exactly the pairs
  between its two keys.
\<close>

section \<open>The rest of a walk\<close>

inductive walks :: "'s callbacks \<Rightarrow> 's \<Rightarrow> int \<Rightarrow> BIter \<Rightarrow> kv list \<Rightarrow> bool" for cb s dir where
  at_end: "iterValid it = Some False \<Longrightarrow> walks cb s dir it []"
| at_pair: "iterValid it = Some True \<Longrightarrow> iterDeref it = Some kv \<Longrightarrow> moveIter cb s dir it = Some it' \<Longrightarrow>
     walks cb s dir it' rest \<Longrightarrow> walks cb s dir it (kv # rest)"

inductive_cases walks_Nil: "walks cb s dir it []"
inductive_cases walks_Cons: "walks cb s dir it (kv # rest)"

lemma walks_valid: "walks cb s dir it rest \<Longrightarrow> iterValid it = Some (rest \<noteq> [])"
  by (cases rule: walks.cases) auto

lemma filter_suffix:
  "(\<And>j. j < length xs \<Longrightarrow> P (xs ! j) \<longleftrightarrow> m \<le> j) \<Longrightarrow> filter P xs = drop m xs"
proof (induction xs arbitrary: m)
  case (Cons x xs)
  show ?case
  proof (cases m)
    case 0
    then have "\<forall>y \<in> set (x # xs). P y" using Cons.prems by (metis in_set_conv_nth le0)
    then show ?thesis using 0 by (simp add: filter_id_conv)
  next
    case (Suc m')
    have "P (xs ! j) \<longleftrightarrow> m' \<le> j" if "j < length xs" for j using Cons.prems [of "Suc j"] that Suc by simp
    then show ?thesis using Cons.IH [of m'] Cons.prems [of 0] Suc by simp
  qed
qed simp

lemma filter_prefix:
  "(\<And>j. j < length xs \<Longrightarrow> P (xs ! j) \<longleftrightarrow> j < m) \<Longrightarrow> filter P xs = take m xs"
proof (induction xs arbitrary: m)
  case (Cons x xs)
  show ?case
  proof (cases m)
    case 0
    then have "\<forall>y \<in> set (x # xs). \<not> P y" using Cons.prems by (metis in_set_conv_nth not_less0)
    then show ?thesis using 0 by simp
  next
    case (Suc m')
    have "P (xs ! j) \<longleftrightarrow> j < m'" if "j < length xs" for j using Cons.prems [of "Suc j"] that Suc by simp
    then show ?thesis using Cons.IH [of m'] Cons.prems [of 0] Suc by simp
  qed
qed simp

text \<open>The pairs on the side of the key that a seek looks at are those from its target on.\<close>

lemma target_range:
  assumes pos: "at_pos (map fst K) r key" and srt: "sorted_kvs K" and cmp: "valid_cmp cmp"
    and K: "K = ([], []) # kvs" "key \<noteq> []" and j: "j < length K"
  shows "cmp_holds cmp (fst (K ! j)) key \<longleftrightarrow> (if cmp > 0 then target K r key cmp \<le> j else j \<le> target K r key cmp)"
proof -
  have r: "r < length K" "fst (K ! r) \<le> key" and above: "r < i \<Longrightarrow> i < length K \<Longrightarrow> key < fst (K ! i)" for i
    using pos by (auto simp: at_pos_def)
  have below: "i < r \<Longrightarrow> fst (K ! i) < fst (K ! r)" for i using sorted_wrt_nth_less [OF srt, of i r] r(1) by simp
  have r0: "fst (K ! r) = key \<Longrightarrow> r \<noteq> 0" using K by (cases r) auto
  have le: "fst (K ! j) \<le> key \<longleftrightarrow> j \<le> r" "fst (K ! j) < key \<longleftrightarrow> j < r \<or> j = r \<and> fst (K ! r) \<noteq> key"
    using below [of j] above [of j] r(2) j by (cases j r rule: linorder_cases; force)+
  consider "cmp = CMP_LE" | "cmp = CMP_LT" | "cmp = CMP_GE" | "cmp = CMP_GT"
    using cmp by (auto simp: valid_cmp_def)
  then show ?thesis
    using le r0 not_less [of "fst (K ! j)" key] not_le [of "fst (K ! j)" key]
    by cases (auto simp: target_def cmp_holds_def CMP_GE_def CMP_GT_def CMP_LT_def CMP_LE_def)
qed

text \<open>The pairs a seek leaves ahead, in the direction of its comparison.\<close>

definition seek_list :: "int \<Rightarrow> bytes \<Rightarrow> kv list \<Rightarrow> kv list" where
  "seek_list cmp key kvs = (let hits = filter (\<lambda>kv. cmp_holds cmp (fst kv) key) kvs in if cmp > 0 then hits else rev hits)"

context pager
begin

lemma walks_up:
  assumes inv: "inv s" and t: "sound (view s) h t" "h \<le> 1" "2 \<le> length (kvs_of t)" and dir: "dir > 0"
  shows "iter_on h t it i \<Longrightarrow> 0 < i \<Longrightarrow> walks cb s dir it (drop i (kvs_of t))"
proof (induction "length (kvs_of t) - i" arbitrary: it i)
  case 0
  then show ?case using iter_on_valid(1) [OF t(1) 0(2) t(3)] by (auto intro: at_end)
next
  case (Suc k)
  then have i: "i < length (kvs_of t)" by simp
  have at: "iter_at h t it i" using Suc.prems(1) i by (simp add: iter_on_def)
  obtain it' where it': "iter_Next cb s it = Some it'" "iter_on h t it' (i + 1)"
    using iter_on_Next [OF inv t(1) at] t(2) by auto
  have "walks cb s dir it' (drop (i + 1) (kvs_of t))" using Suc.hyps Suc.prems it'(2) by (intro Suc.hyps(1)) auto
  then have "walks cb s dir it (kvs_of t ! i # drop (i + 1) (kvs_of t))"
    using iter_on_valid [OF t(1) Suc.prems(1) t(3)] i Suc.prems(2) it'(1) dir by (intro at_pair) (auto simp: moveIter_def)
  then show ?case using i by (simp add: Cons_nth_drop_Suc)
qed

lemma walks_down:
  assumes inv: "inv s" and t: "sound (view s) h t" and dir: "\<not> dir > 0"
  shows "iter_at h t it i \<Longrightarrow> walks cb s dir it (rev (take i (drop 1 (kvs_of t))))"
proof (induction i arbitrary: it)
  case 0
  then show ?case using iter_at_facts [OF 0 t] by (auto intro: at_end)
next
  case (Suc i)
  note f = iter_at_facts [OF Suc.prems t]
  obtain it' where it': "iter_Prev cb s it = Some it'" "iter_at h t it' i"
    using iter_Prev_ok [OF inv t Suc.prems] by auto
  have "walks cb s dir it (kvs_of t ! Suc i # rev (take i (drop 1 (kvs_of t))))"
    using f it' Suc.IH dir by (intro at_pair) (auto simp: moveIter_def)
  moreover have "take (Suc i) (drop 1 (kvs_of t)) = take i (drop 1 (kvs_of t)) @ [kvs_of t ! Suc i]"
    using f(1) by (subst take_Suc_conv_app_nth) simp_all
  ultimately show ?case by simp
qed

lemma Seek_walks:
  assumes inv: "inv s" and t: "tree_holds (view s) root h kvs" "h \<le> 1" "kvs \<noteq> [] \<or> root = 0" and f: "h < fuel"
    and cmp: "valid_cmp cmp" "key \<noteq> []"
  shows "\<exists>it. btree_Seek cb s fuel root key cmp = Some it \<and> walks cb s cmp it (seek_list cmp key kvs)"
proof (cases "root = 0")
  case True
  then have e: "kvs = []" using t(1) by simp
  have "seekLoop cb s fuel key 0 \<lparr>path = [], pos = []\<rparr> = Some \<lparr>path = [], pos = []\<rparr>" by (subst seekLoop.simps) simp
  moreover have "cmpOK [] cmp key = Some (cmp_holds cmp [] key)" by (rule cmpOK_holds [OF cmp(1)])
  ultimately have "btree_Seek cb s fuel root key cmp = Some \<lparr>path = [], pos = []\<rparr>"
    using True by (simp add: btree_Seek_def SeekLE_def iterIsFirst_def iterIsEnd_def iterValid_def iter_Next_def iter_Prev_def)
  moreover have "walks cb s cmp \<lparr>path = [], pos = []\<rparr> []"
    by (rule at_end) (simp add: iterValid_def iterIsFirst_def)
  ultimately show ?thesis using e by (simp add: seek_list_def)
next
  case False
  then obtain b t where bt: "view s root = Some b" "node_tree (view s) h b t" "kvs_of t = ([], []) # kvs" "kvs \<noteq> []"
    using t by (auto elim: tree_holdsE)
  let ?K = "kvs_of t"
  have snd: "sound (view s) h t" "sorted_kvs ?K" using bt(2) by (simp_all add: sound_def node_tree_def repr_def)
  have two: "2 \<le> length ?K" using bt(3,4) by (cases kvs) auto
  obtain it r where it: "btree_Seek cb s fuel root key cmp = Some it" "at_pos (map fst ?K) r key"
      "iter_on h t it (target ?K r key cmp)"
    using Seek_ok [OF inv bt(2,1) False bt(3,4) f cmp(1)] t(2) by blast
  let ?i = "target ?K r key cmp"
  note range = target_range [OF it(2) snd(2) cmp(1) bt(3) cmp(2)]
  have hit: "cmp_holds cmp (fst (kvs ! j)) key \<longleftrightarrow> (if cmp > 0 then ?i \<le> Suc j else Suc j \<le> ?i)" if "j < length kvs" for j
    using range [of "Suc j"] that bt(3) by simp
  show ?thesis
  proof (cases "cmp > 0")
    case True
    have "?i \<noteq> 0" using range [of 0] cmp True bt(3)
      by (auto simp: cmp_holds_def valid_cmp_def CMP_GE_def CMP_GT_def CMP_LT_def CMP_LE_def)
    moreover have "filter (\<lambda>kv. cmp_holds cmp (fst kv) key) kvs = drop (?i - 1) kvs"
      by (rule filter_suffix) (use hit True in auto)
    ultimately have "drop ?i ?K = seek_list cmp key kvs" using True bt(3) by (cases ?i) (simp_all add: seek_list_def)
    then show ?thesis using it(1) walks_up [OF inv snd(1) t(2) two True it(3)] \<open>?i \<noteq> 0\<close> by auto
  next
    case False
    have "?i < length ?K" using it(2) cmp(1) False
      by (auto simp: at_pos_def target_def valid_cmp_def CMP_GE_def CMP_GT_def CMP_LT_def CMP_LE_def)
    then have "iter_at h t it ?i" using it(3) by (simp add: iter_on_def)
    moreover have "filter (\<lambda>kv. cmp_holds cmp (fst kv) key) kvs = take ?i kvs"
      by (rule filter_prefix) (use hit False in auto)
    ultimately show ?thesis using it(1) walks_down [OF inv snd(1) False, of it ?i] bt(3) False by (auto simp: seek_list_def)
  qed
qed

end

lemma walks_dir: "walks cb s d it rest \<Longrightarrow> (d > 0 \<longleftrightarrow> d' > 0) \<Longrightarrow> walks cb s d' it rest"
  by (induction rule: walks.induct) (auto intro: walks.intros simp: moveIter_def)

section \<open>Merging\<close>

text \<open>The merge of the pending pairs, without their flags, and the pairs of the snapshot, in a direction.\<close>

definition strip_flag :: "kv \<Rightarrow> kv" where
  "strip_flag kv = (fst kv, drop 1 (snd kv))"

fun merged :: "int \<Rightarrow> kv list \<Rightarrow> kv list \<Rightarrow> kv list" where
  "merged dir [] bs = bs"
| "merged dir (a # as) [] = strip_flag a # merged dir as []"
| "merged dir (a # as) (b # bs) =
     (if bytesCompare (fst a) (fst b) = dir then b # merged dir (a # as) bs
      else if bytesCompare (fst a) (fst b) = - dir then strip_flag a # merged dir as (b # bs)
      else strip_flag a # merged dir as bs)"

text \<open>A client of the merging iterator.\<close>

fun collectScan :: "nat \<Rightarrow> KV \<Rightarrow> KVTX \<Rightarrow> CombinedIter \<Rightarrow> kv list option" where
  "collectScan 0 kv tx it = None"
| "collectScan (Suc n) kv tx it = do {
     valid \<leftarrow> ci_Valid it;
     (if \<not> valid then Some []
      else do {
        pair \<leftarrow> ci_Deref it;
        it \<leftarrow> ci_Next kv tx it;
        rest \<leftarrow> collectScan n kv tx it;
        Some (pair # rest)
      })
   }"

definition ci_at :: "KV \<Rightarrow> KVTX \<Rightarrow> CombinedIter \<Rightarrow> kv list \<Rightarrow> kv list \<Rightarrow> bool" where
  "ci_at kv tx it as bs \<longleftrightarrow> ci_direction it \<in> {1, - 1} \<and> (\<forall>a \<in> set as. snd a \<noteq> [])
     \<and> walks mem_callbacks (pend_pages tx) (ci_direction it) (ci_top it) as
     \<and> walks (snap_callbacks (snap_chunks tx)) (os_file (kv_os kv)) (ci_direction it) (ci_bottom it) bs"

lemma walks_head: "walks cb s dir it (kv # rest) \<Longrightarrow> iterValid it = Some True \<and> iterDeref it = Some kv
    \<and> (\<exists>it'. moveIter cb s dir it = Some it' \<and> walks cb s dir it' rest)"
  by (auto elim: walks_Cons)

lemma ci_at_step:
  assumes at: "ci_at kv tx it as bs" and ne: "as \<noteq> [] \<or> bs \<noteq> []"
  shows "ci_Deref it = Some (hd (merged (ci_direction it) as bs)) \<and>
    (\<exists>it' as' bs'. ci_Next kv tx it = Some it' \<and> ci_at kv tx it' as' bs' \<and> ci_direction it' = ci_direction it
      \<and> ci_endKey it' = ci_endKey it \<and> ci_endCmp it' = ci_endCmp it
      \<and> merged (ci_direction it) as' bs' = tl (merged (ci_direction it) as bs) \<and> length as' + length bs' < length as + length bs)"
proof -
  let ?d = "ci_direction it" and ?top = "walks mem_callbacks (pend_pages tx) (ci_direction it)"
    and ?bot = "walks (snap_callbacks (snap_chunks tx)) (os_file (kv_os kv)) (ci_direction it)"
  have d: "?d \<in> {1, - 1}" "?d \<noteq> - ?d" and flags: "\<forall>a \<in> set as. snd a \<noteq> []" and top: "?top (ci_top it) as" and bot: "?bot (ci_bottom it) bs"
    using at by (auto simp: ci_at_def)
  have at': "ci_at kv tx (it\<lparr>ci_top := t, ci_bottom := b\<rparr>) as' bs'"
    if "?top t as'" "?bot b bs'" "set as' \<subseteq> set as" for t b as' bs'
    using that d(1) flags by (auto simp: ci_at_def)
  show ?thesis
  proof (cases as)
    case Nil
    then obtain b bs' where bs: "bs = b # bs'" using ne by (cases bs) auto
    obtain bi where b: "iterValid (ci_bottom it) = Some True" "iterDeref (ci_bottom it) = Some b"
      "moveIter (snap_callbacks (snap_chunks tx)) (os_file (kv_os kv)) ?d (ci_bottom it) = Some bi" "?bot bi bs'"
      using walks_head [OF bot [unfolded bs]] by blast
    have t: "iterValid (ci_top it) = Some False" using walks_valid [OF top] Nil by simp
    show ?thesis using b t Nil bs at' [OF top b(4)]
      by (intro conjI exI [of _ "it\<lparr>ci_top := ci_top it, ci_bottom := bi\<rparr>"] exI [of _ as] exI [of _ bs'])
         (auto simp: ci_Deref_def ci_Next_def split_beta)
  next
    case (Cons a as')
    obtain ti where t: "iterValid (ci_top it) = Some True" "iterDeref (ci_top it) = Some a"
      "moveIter mem_callbacks (pend_pages tx) ?d (ci_top it) = Some ti" "?top ti as'"
      using walks_head [OF top [unfolded Cons]] by blast
    have fl: "1 \<le> length (snd a)" using flags Cons by (cases "snd a") auto
    show ?thesis
    proof (cases bs)
      case Nil
      then have "iterValid (ci_bottom it) = Some False" using walks_valid [OF bot] by simp
      then show ?thesis using t fl Nil Cons at' [OF t(4) bot]
        by (intro conjI exI [of _ "it\<lparr>ci_top := ti, ci_bottom := ci_bottom it\<rparr>"] exI [of _ as'] exI [of _ bs])
           (auto simp: ci_Deref_def ci_Next_def strip_flag_def split_beta)
    next
      case bs: (Cons b bs')
      obtain bi where b: "iterValid (ci_bottom it) = Some True" "iterDeref (ci_bottom it) = Some b"
        "moveIter (snap_callbacks (snap_chunks tx)) (os_file (kv_os kv)) ?d (ci_bottom it) = Some bi" "?bot bi bs'"
        using walks_head [OF bot [unfolded bs]] by blast
      consider "bytesCompare (fst a) (fst b) = ?d" | "bytesCompare (fst a) (fst b) = - ?d"
        | "bytesCompare (fst a) (fst b) \<noteq> ?d" "bytesCompare (fst a) (fst b) \<noteq> - ?d" by blast
      then show ?thesis
      proof cases
        case 1
        then show ?thesis using t b fl d Cons bs at' [OF top b(4)]
          by (intro conjI exI [of _ "it\<lparr>ci_top := ci_top it, ci_bottom := bi\<rparr>"] exI [of _ as] exI [of _ bs'])
             (auto simp: ci_Deref_def ci_Next_def split_beta)
      next
        case 2
        then show ?thesis using t b fl d Cons bs at' [OF t(4) bot]
          by (intro conjI exI [of _ "it\<lparr>ci_top := ti, ci_bottom := ci_bottom it\<rparr>"] exI [of _ as'] exI [of _ bs])
             (auto simp: ci_Deref_def ci_Next_def strip_flag_def split_beta)
      next
        case 3
        then show ?thesis using t b fl d Cons bs at' [OF t(4) b(4)]
          by (intro conjI exI [of _ "it\<lparr>ci_top := ti, ci_bottom := bi\<rparr>"] exI [of _ as'] exI [of _ bs'])
             (auto simp: ci_Deref_def ci_Next_def strip_flag_def split_beta)
      qed
    qed
  qed
qed

lemma merged_Nil: "merged dir as bs = [] \<longleftrightarrow> as = [] \<and> bs = []"
  by (induction dir as bs rule: merged.induct) auto

lemma collectScan_merged:
  assumes "ci_at kv tx it as bs" "valid_cmp (ci_endCmp it)" "length as + length bs < n"
  shows "collectScan n kv tx it =
    Some (takeWhile (\<lambda>kv. cmp_holds (ci_endCmp it) (fst kv) (ci_endKey it)) (merged (ci_direction it) as bs))"
  using assms
proof (induction n arbitrary: it as bs)
  case (Suc n)
  have valid: "iterValid (ci_top it) = Some (as \<noteq> [])" "iterValid (ci_bottom it) = Some (bs \<noteq> [])"
    using Suc.prems(1) walks_valid by (auto simp: ci_at_def)
  show ?case
  proof (cases "as = [] \<and> bs = []")
    case True
    then show ?thesis using valid by (simp add: ci_Valid_def)
  next
    case False
    then obtain it' as' bs' where d: "ci_Deref it = Some (hd (merged (ci_direction it) as bs))"
      "ci_Next kv tx it = Some it'" "ci_at kv tx it' as' bs'" "ci_direction it' = ci_direction it"
      "ci_endKey it' = ci_endKey it" "ci_endCmp it' = ci_endCmp it"
      "merged (ci_direction it) as' bs' = tl (merged (ci_direction it) as bs)" "length as' + length bs' < length as + length bs"
      using ci_at_step [OF Suc.prems(1)] by blast
    obtain x xs where m: "merged (ci_direction it) as bs = x # xs" using False merged_Nil by (metis list.exhaust)
    have rest: "collectScan n kv tx it' = Some (takeWhile (\<lambda>kv. cmp_holds (ci_endCmp it) (fst kv) (ci_endKey it)) xs)"
      using Suc.IH [OF d(3)] Suc.prems(2,3) d(4-8) m by simp
    have "ci_Valid it = Some (cmp_holds (ci_endCmp it) (fst x) (ci_endKey it))"
      using valid False d(1) m cmpOK_holds [OF Suc.prems(2)] by (cases as) (simp_all add: ci_Valid_def split_beta)
    then show ?thesis using d(1,2) rest m by simp
  qed
qed simp

text \<open>The order of a direction.\<close>

definition ahead :: "int \<Rightarrow> bytes \<Rightarrow> bytes \<Rightarrow> bool" where
  "ahead dir a b \<longleftrightarrow> (if dir > 0 then a < b else b < a)"

abbreviation "runs dir kvs \<equiv> sorted_wrt (ahead dir) (map fst kvs)"

lemma compare_dir:
  assumes "dir \<in> {1, - 1}"
  shows "bytesCompare a b = dir \<longleftrightarrow> ahead dir b a" "bytesCompare a b = - dir \<longleftrightarrow> ahead dir a b"
  using assms by (auto simp: bytesCompare_eq ahead_def)

lemma merged_keys: "fst ` set (merged dir as bs) \<subseteq> fst ` set as \<union> fst ` set bs"
proof -
  have "x \<in> set (merged dir as bs) \<Longrightarrow> fst x \<in> fst ` set as \<union> fst ` set bs" for x
    by (induction dir as bs rule: merged.induct) (auto simp: strip_flag_def split: if_split_asm)
  then show ?thesis by blast
qed

lemma ahead_trans: "ahead dir a b \<Longrightarrow> ahead dir b c \<Longrightarrow> ahead dir a c"
  by (auto simp: ahead_def split: if_splits)

lemma ahead_all: "ahead dir a b \<Longrightarrow> \<forall>y \<in> set ys. ahead dir b (fst y) \<Longrightarrow> \<forall>y \<in> set ys. ahead dir a (fst y)"
  using ahead_trans by blast

lemma merged_runs:
  "dir \<in> {1, - 1} \<Longrightarrow> runs dir as \<Longrightarrow> runs dir bs \<Longrightarrow> runs dir (merged dir as bs)"
proof (induction dir as bs rule: merged.induct)
  case (2 dir a as)
  then show ?case using merged_keys [of dir as "[]"] by (fastforce simp: strip_flag_def)
next
  case (3 dir a as b bs)
  note c = compare_dir [OF 3(4), of "fst a" "fst b"]
  have a: "\<forall>y \<in> set as. ahead dir (fst a) (fst y)" and b: "\<forall>y \<in> set bs. ahead dir (fst b) (fst y)"
    using 3(5,6) by auto
  consider "ahead dir (fst b) (fst a)" | "\<not> ahead dir (fst b) (fst a)" "ahead dir (fst a) (fst b)" | "fst a = fst b"
    by (cases "fst a" "fst b" rule: linorder_cases; cases "dir > 0") (auto simp: ahead_def)
  then show ?case
  proof cases
    case 1
    have "\<forall>k \<in> fst ` set (a # as) \<union> fst ` set bs. ahead dir (fst b) k" using 1 b ahead_all [OF 1 a] by auto
    then have "\<forall>k \<in> fst ` set (merged dir (a # as) bs). ahead dir (fst b) k" using merged_keys [of dir "a # as" bs] by blast
    then show ?thesis using 1 c 3 by simp
  next
    case 2
    have "\<forall>k \<in> fst ` set as \<union> fst ` set (b # bs). ahead dir (fst a) k" using 2 a ahead_all [OF 2(2) b] by auto
    then have "\<forall>k \<in> fst ` set (merged dir as (b # bs)). ahead dir (fst a) k" using merged_keys [of dir as "b # bs"] by blast
    then show ?thesis using 2 c 3 by (simp add: strip_flag_def)
  next
    case eq: 3
    have "\<forall>k \<in> fst ` set as \<union> fst ` set bs. ahead dir (fst a) k" using a b eq by auto
    then have "\<forall>k \<in> fst ` set (merged dir as bs). ahead dir (fst a) k" using merged_keys [of dir as bs] by blast
    moreover have "\<not> ahead dir (fst a) (fst b)" "\<not> ahead dir (fst b) (fst a)" using eq by (simp_all add: ahead_def)
    ultimately show ?thesis using c 3 by (simp add: strip_flag_def)
  qed
qed simp

text \<open>What the merge presents: the pending change of a key, or its value in the snapshot.\<close>

definition presented :: "(bytes \<Rightarrow> bytes option) \<Rightarrow> kv list \<Rightarrow> bytes \<Rightarrow> bytes option" where
  "presented m pend k = (case map_of pend k of None \<Rightarrow> m k | Some v \<Rightarrow> Some (drop 1 v))"

lemma presented_overlay: "all_sets pend \<Longrightarrow> presented m pend = overlay m pend"
proof -
  assume a: "all_sets pend"
  have "v \<noteq> [FLAG_DELETED]" if "map_of pend k = Some v" for k v
    using map_of_SomeD [OF that] a by (auto simp: all_sets_def)
  then show ?thesis by (auto simp: presented_def overlay_def fun_eq_iff split: option.split)
qed

lemma map_of_runs: "runs dir kvs \<Longrightarrow> \<not> (\<exists>y \<in> set kvs. fst y = k) \<Longrightarrow> map_of kvs k = None"
  by (auto simp: map_of_eq_None_iff)

lemma merged_map:
  "dir \<in> {1, - 1} \<Longrightarrow> runs dir as \<Longrightarrow> runs dir bs \<Longrightarrow> map_of (merged dir as bs) = presented (map_of bs) as"
proof (induction dir as bs rule: merged.induct)
  case (1 dir bs)
  then show ?case by (simp add: presented_def fun_eq_iff)
next
  case (2 dir a as)
  then show ?case by (auto simp: presented_def strip_flag_def fun_eq_iff)
next
  case (3 dir a as b bs)
  note c = compare_dir [OF 3(4), of "fst a" "fst b"]
  have a: "\<forall>y \<in> set as. ahead dir (fst a) (fst y)" and b: "\<forall>y \<in> set bs. ahead dir (fst b) (fst y)"
    using 3(5,6) by auto
  consider "ahead dir (fst b) (fst a)" | "\<not> ahead dir (fst b) (fst a)" "ahead dir (fst a) (fst b)" | "fst a = fst b"
    by (cases "fst a" "fst b" rule: linorder_cases; cases "dir > 0") (auto simp: ahead_def)
  then show ?case
  proof cases
    case 1
    have "\<not> ahead dir (fst b) (fst b)" by (simp add: ahead_def)
    then have "map_of (a # as) (fst b) = None" using 1 a ahead_all [OF 1 a] by (auto simp: map_of_eq_None_iff)
    then show ?thesis using 1 c 3 by (auto simp: presented_def fun_eq_iff split: option.split)
  next
    case 2
    then show ?thesis using c 3 by (auto simp: presented_def strip_flag_def fun_eq_iff split: option.split)
  next
    case eq: 3
    moreover have "\<not> ahead dir (fst a) (fst b)" "\<not> ahead dir (fst b) (fst a)" using eq by (simp_all add: ahead_def)
    ultimately show ?thesis using c 3 by (auto simp: presented_def strip_flag_def fun_eq_iff split: option.split)
  qed
qed

lemma takeWhile_runs:
  assumes "runs dir xs" "\<And>a b. ahead dir a b \<Longrightarrow> P b \<Longrightarrow> P a"
  shows "takeWhile (\<lambda>kv. P (fst kv)) xs = filter (\<lambda>kv. P (fst kv)) xs"
  using assms(1)
proof (induction xs)
  case (Cons x xs)
  show ?case
  proof (cases "P (fst x)")
    case False
    then have "\<forall>y \<in> set xs. \<not> P (fst y)" using Cons.prems assms(2) by auto
    then show ?thesis using False by (auto simp: filter_empty_conv)
  qed (use Cons in simp)
qed simp

lemma map_of_filter_keys: "map_of (filter (\<lambda>kv. P (fst kv)) xs) k = (if P k then map_of xs k else None)"
  by (induction xs) auto

lemma runs_filter: "runs dir xs \<Longrightarrow> runs dir (filter P xs)"
  by (induction xs) auto

lemma seek_list_runs:
  assumes "sorted_kvs kvs" "dir \<in> {1, - 1}" "dir > 0 \<longleftrightarrow> cmp > 0"
  shows "runs dir (seek_list cmp key kvs)"
proof -
  have "sorted_wrt (<) (map fst (filter P kvs))" for P using assms(1) by (induction kvs) auto
  then show ?thesis using assms(2,3)
    by (auto simp: seek_list_def Let_def ahead_def [abs_def] sorted_wrt_rev rev_map [symmetric])
qed

lemma seek_list_map:
  "sorted_kvs kvs \<Longrightarrow> map_of (seek_list cmp key kvs) k = (if cmp_holds cmp k key then map_of kvs k else None)"
proof -
  assume s: "sorted_kvs kvs"
  have d: "distinct (map fst (filter (\<lambda>kv. cmp_holds cmp (fst kv) key) kvs))"
    using sorted_kvs_distinct [OF s] by (simp add: distinct_map_filter)
  show ?thesis
    using map_of_rev_distinct [OF d] map_of_filter_keys [of "\<lambda>k. cmp_holds cmp k key" kvs k] by (simp add: seek_list_def Let_def)
qed

section \<open>Range reads\<close>

text \<open>
  The trees behind a range read: the pending pairs and those of the snapshot, in trees of at most
  two levels, which have a root only when they have pairs.
\<close>

definition scan_trees :: "KV \<Rightarrow> KVTX \<Rightarrow> kv list \<Rightarrow> kv list \<Rightarrow> bool" where
  "scan_trees kv tx pend kvs \<longleftrightarrow> flagged pend
     \<and> (\<exists>h \<le> 1. pend_holds tx h pend) \<and> (pend \<noteq> [] \<or> pend_root tx = 0)
     \<and> (\<exists>h \<le> 1. tree_holds (\<lambda>p. mmapRead (os_file (kv_os kv)) p (snap_chunks tx)) (snap_root tx) h kvs)
     \<and> (kvs \<noteq> [] \<or> snap_root tx = 0)"

lemma scan_trees_sorted: "scan_trees kv tx pend kvs \<Longrightarrow> sorted_kvs pend \<and> sorted_kvs kvs"
  using tree_holds_sorted(1) by (fastforce simp: scan_trees_def pend_holds_def)

lemma tx_Seek_at:
  assumes t: "scan_trees kv tx pend kvs" and f: "1 < fuel" and cmp: "valid_cmp cmp1" "valid_cmp cmp2" "cmp1 > 0 \<longleftrightarrow> \<not> cmp2 > 0"
    and key: "key1 \<noteq> []"
  shows "\<exists>it. tx_Seek kv fuel tx key1 cmp1 key2 cmp2 =
      Some (it, add_read (if cmp1 > 0 then key1 else key2) (if cmp1 > 0 then key2 else key1) tx)
    \<and> ci_at kv tx it (seek_list cmp1 key1 pend) (seek_list cmp1 key1 kvs)
    \<and> ci_direction it = (if cmp1 > 0 then 1 else - 1) \<and> ci_endKey it = key2 \<and> ci_endCmp it = cmp2"
proof -
  obtain h h' where h: "h \<le> 1" "length (pend_pages tx) < 2 ^ 64" "tree_holds (mem_view (pend_pages tx)) (pend_root tx) h pend"
    "h' \<le> 1" "tree_holds (\<lambda>p. mmapRead (os_file (kv_os kv)) p (snap_chunks tx)) (snap_root tx) h' kvs"
    using t by (auto simp: scan_trees_def pend_holds_def)
  obtain top where top: "btree_Seek mem_callbacks (pend_pages tx) fuel (pend_root tx) key1 cmp1 = Some top"
    "walks mem_callbacks (pend_pages tx) cmp1 top (seek_list cmp1 key1 pend)"
    using mem.Seek_walks [OF h(2,3,1) _ _ cmp(1) key, of fuel] t h(1) f by (auto simp: scan_trees_def)
  obtain bot where bot: "btree_Seek (snap_callbacks (snap_chunks tx)) (os_file (kv_os kv)) fuel (snap_root tx) key1 cmp1 = Some bot"
    "walks (snap_callbacks (snap_chunks tx)) (os_file (kv_os kv)) cmp1 bot (seek_list cmp1 key1 kvs)"
    using snp.Seek_walks [OF _ h(5,4) _ _ cmp(1) key, of fuel] t h(4) f by (auto simp: scan_trees_def)
  let ?d = "if cmp1 > 0 then 1 else - 1 :: int"
  have d: "cmp2dir cmp1 = Some ?d" "cmp2dir cmp2 = Some (- ?d)"
    using cmp by (auto simp: cmp2dir_def valid_cmp_def CMP_GE_def CMP_GT_def CMP_LT_def CMP_LE_def)
  have "set (seek_list cmp1 key1 pend) \<subseteq> set pend" by (auto simp: seek_list_def Let_def)
  moreover have "flagged pend" using t by (simp add: scan_trees_def)
  ultimately have "\<forall>a \<in> set (seek_list cmp1 key1 pend). snd a \<noteq> []" by (auto simp: flagged_def dest!: bspec subsetD)
  moreover have "walks mem_callbacks (pend_pages tx) ?d top (seek_list cmp1 key1 pend)"
    "walks (snap_callbacks (snap_chunks tx)) (os_file (kv_os kv)) ?d bot (seek_list cmp1 key1 kvs)"
    using walks_dir [OF top(2), of ?d] walks_dir [OF bot(2), of ?d] by simp_all
  moreover define it where "it = \<lparr>ci_top = top, ci_bottom = bot, ci_direction = ?d, ci_endKey = key2, ci_endCmp = cmp2\<rparr>"
  ultimately have at: "ci_at kv tx it (seek_list cmp1 key1 pend) (seek_list cmp1 key1 kvs)" by (simp add: ci_at_def)
  have ne: "?d \<noteq> - ?d" "(?d < 0) = (\<not> cmp1 > 0)" by simp_all
  have "tx_Seek kv fuel tx key1 cmp1 key2 cmp2 =
      Some (it, add_read (if cmp1 > 0 then key1 else key2) (if cmp1 > 0 then key2 else key1) tx)"
    unfolding tx_Seek_def d Option.bind.simps Let_def ne by (cases "cmp1 > 0") (simp_all add: top(1) bot(1) it_def add_read_def)
  then show ?thesis using at by (intro exI [of _ it]) (simp add: it_def)
qed

lemma cmp_away:
  "valid_cmp cmp2 \<Longrightarrow> cmp1 > 0 \<longleftrightarrow> \<not> cmp2 > 0 \<Longrightarrow> ahead cmp1 a b \<Longrightarrow> cmp_holds cmp2 b key \<Longrightarrow> cmp_holds cmp2 a key"
  by (auto simp: ahead_def cmp_holds_def valid_cmp_def CMP_GE_def CMP_GT_def CMP_LT_def CMP_LE_def split: if_splits)

lemma ahead_sign: "(d > 0 \<longleftrightarrow> d' > 0) \<Longrightarrow> ahead d = ahead d'"
  by (simp add: ahead_def fun_eq_iff)

text \<open>The pairs a range read yields.\<close>

definition range_pairs :: "int \<Rightarrow> bytes \<Rightarrow> int \<Rightarrow> bytes \<Rightarrow> kv list \<Rightarrow> kv list \<Rightarrow> kv list" where
  "range_pairs cmp1 key1 cmp2 key2 pend kvs = takeWhile (\<lambda>kv. cmp_holds cmp2 (fst kv) key2)
     (merged (if cmp1 > 0 then 1 else - 1) (seek_list cmp1 key1 pend) (seek_list cmp1 key1 kvs))"

lemma range_pairs_spec:
  assumes s: "sorted_kvs pend" "sorted_kvs kvs" and cmp: "valid_cmp cmp2" "cmp1 > 0 \<longleftrightarrow> \<not> cmp2 > 0"
  shows "runs cmp1 (range_pairs cmp1 key1 cmp2 key2 pend kvs)"
    "map_of (range_pairs cmp1 key1 cmp2 key2 pend kvs) =
      (\<lambda>k. if cmp_holds cmp1 k key1 \<and> cmp_holds cmp2 k key2 then presented (map_of kvs) pend k else None)"
proof -
  let ?d = "if cmp1 > 0 then 1 else - 1 :: int"
  let ?m = "merged ?d (seek_list cmp1 key1 pend) (seek_list cmp1 key1 kvs)"
  have d: "?d \<in> {1, - 1}" "?d > 0 \<longleftrightarrow> cmp1 > 0" by simp_all
  have a: "ahead ?d = ahead cmp1" by (rule ahead_sign) simp
  note l = seek_list_runs [OF s(1) d, of key1] seek_list_runs [OF s(2) d, of key1]
  have r: "runs cmp1 ?m" using merged_runs [OF d(1) l] unfolding a .
  have f: "range_pairs cmp1 key1 cmp2 key2 pend kvs = filter (\<lambda>kv. cmp_holds cmp2 (fst kv) key2) ?m"
    unfolding range_pairs_def by (rule takeWhile_runs [OF r cmp_away [OF cmp]])
  show "runs cmp1 (range_pairs cmp1 key1 cmp2 key2 pend kvs)" unfolding f by (rule runs_filter [OF r])
  show "map_of (range_pairs cmp1 key1 cmp2 key2 pend kvs) =
      (\<lambda>k. if cmp_holds cmp1 k key1 \<and> cmp_holds cmp2 k key2 then presented (map_of kvs) pend k else None)"
  proof
    fix k
    have "map_of (filter (\<lambda>kv. cmp_holds cmp2 (fst kv) key2) ?m) k =
        (if cmp_holds cmp2 k key2 then presented (map_of (seek_list cmp1 key1 kvs)) (seek_list cmp1 key1 pend) k else None)"
      using map_of_filter_keys [of "\<lambda>k. cmp_holds cmp2 k key2" ?m k] merged_map [OF d(1) l] by simp
    then show "map_of (range_pairs cmp1 key1 cmp2 key2 pend kvs) k =
        (if cmp_holds cmp1 k key1 \<and> cmp_holds cmp2 k key2 then presented (map_of kvs) pend k else None)"
      unfolding f presented_def seek_list_map [OF s(1)] seek_list_map [OF s(2)] by simp
  qed
qed

text \<open>
  C5: Range reads. Over trees of at most two levels, \<^const>\<open>tx_Seek\<close> and the loop over its iterator, in
  either direction, do not panic and end; they yield the pairs between the two keys in the order of
  the direction, each key once: those of the snapshot, with the transaction's own changes in place
  of older values. A key the transaction has deleted is not left out, it comes with an empty value.
  The range between the keys is recorded as read.
\<close>

theorem range_scan:
  assumes "scan_trees kv tx pend kvs" "1 < fuel" "valid_cmp cmp1" "valid_cmp cmp2" "cmp1 > 0 \<longleftrightarrow> \<not> cmp2 > 0" "key1 \<noteq> []"
    and "length pend + length kvs < n"
  shows "\<exists>it tx' pairs. tx_Seek kv fuel tx key1 cmp1 key2 cmp2 = Some (it, tx')
    \<and> tx_reads tx' = tx_reads tx @ [\<lparr>kr_start = if cmp1 > 0 then key1 else key2, kr_stop = if cmp1 > 0 then key2 else key1\<rparr>]
    \<and> collectScan n kv tx' it = Some pairs
    \<and> sorted_wrt (ahead cmp1) (map fst pairs)
    \<and> map_of pairs = (\<lambda>k. if cmp_holds cmp1 k key1 \<and> cmp_holds cmp2 k key2 then presented (map_of kvs) pend k else None)"
proof -
  obtain it where it: "tx_Seek kv fuel tx key1 cmp1 key2 cmp2 =
      Some (it, add_read (if cmp1 > 0 then key1 else key2) (if cmp1 > 0 then key2 else key1) tx)"
    "ci_at kv tx it (seek_list cmp1 key1 pend) (seek_list cmp1 key1 kvs)"
    "ci_direction it = (if cmp1 > 0 then 1 else - 1)" "ci_endKey it = key2" "ci_endCmp it = cmp2"
    using tx_Seek_at [OF assms(1-6)] by blast
  let ?tx = "add_read (if cmp1 > 0 then key1 else key2) (if cmp1 > 0 then key2 else key1) tx"
  have at: "ci_at kv ?tx it (seek_list cmp1 key1 pend) (seek_list cmp1 key1 kvs)"
    using it(2) by (simp add: ci_at_def add_read_def)
  have "length (seek_list cmp1 key1 xs) \<le> length xs" for xs by (simp add: seek_list_def Let_def)
  then have "length (seek_list cmp1 key1 pend) + length (seek_list cmp1 key1 kvs) < n"
    using assms(7) by (meson add_mono le_less_trans)
  then have "collectScan n kv ?tx it = Some (range_pairs cmp1 key1 cmp2 key2 pend kvs)"
    using collectScan_merged [OF at] assms(4) it(3-5) by (simp add: range_pairs_def)
  then show ?thesis
    using it(1) range_pairs_spec [OF _ _ assms(4,5), of pend kvs key1 key2] scan_trees_sorted [OF assms(1)]
    by (auto simp: add_read_def)
qed

text \<open>A store with one pair and a transaction on it that has set another.\<close>

lemma one_and_one:
  obtains kv tx where "scan_trees kv tx [([2], [FLAG_UPDATED, 20])] [([1], [10])]"
proof -
  obtain db h where db: "store_holds db h [([1], [10])]" "fits 3 [([1], [10])] db h [([1], [10])]" "kv_root db \<noteq> 0"
    by (rule one_pair) blast
  have h: "h \<le> 1" using db(2) by (simp add: fits_def)
  obtain root h' pages where t: "upserts mem_callbacks 3 [([2], [FLAG_UPDATED, 20])] 0 [] = Some (root, pages)" "length pages < 2 ^ 64"
      "h' \<le> 1" "tree_holds (mem_view pages) root h' [([2], [FLAG_UPDATED, 20])]"
    using mem.upserts_ok [of "[]" 0 0 "[]" "[([2], [FLAG_UPDATED, 20])]" 3] by (auto simp: mem_room_def small_kvs_def small_op_def)
  let ?tx = "(snd (kv_Begin db new_tx))\<lparr>pend_root := root, pend_pages := pages\<rparr>"
  have "scan_trees db ?tx [([2], [FLAG_UPDATED, 20])] [([1], [10])]"
    using t h snapshot_tree [OF db(1)] by (auto simp: scan_trees_def flagged_def pend_holds_def kv_Begin_def new_tx_def Let_def)
  then show ?thesis by (rule that)
qed

theorem range_scan_witness:
  "\<exists>kv tx it tx' pairs. tx_Seek kv 2 tx [1] CMP_GE [2] CMP_LE = Some (it, tx') \<and> collectScan 3 kv tx' it = Some pairs
     \<and> map_of pairs [1] = Some [10] \<and> map_of pairs [2] = Some [20]"
proof -
  obtain kv tx where t: "scan_trees kv tx [([2], [FLAG_UPDATED, 20])] [([1], [10])]" by (rule one_and_one)
  obtain it tx' pairs where r: "tx_Seek kv 2 tx [1] CMP_GE [2] CMP_LE = Some (it, tx')" "collectScan 3 kv tx' it = Some pairs"
    "map_of pairs = (\<lambda>k. if cmp_holds CMP_GE k [1] \<and> cmp_holds CMP_LE k [2]
      then presented (map_of [([1], [10])]) [([2], [FLAG_UPDATED, 20])] k else None)"
    using range_scan [OF t, of 2 CMP_GE CMP_LE "[1]" 3 "[2]"] by (auto simp: valid_cmp_def CMP_GE_def CMP_LE_def)
  have "map_of pairs [1] = Some [10]" "map_of pairs [2] = Some [20]"
    unfolding r(3) by (simp_all add: presented_def cmp_holds_def CMP_GE_def CMP_GT_def CMP_LT_def CMP_LE_def)
  then show ?thesis using r(1,2) by blast
qed

end
