(* ===== verification/Schema.thy ===== *)
theory Schema
  imports Codec
begin

text \<open>
  Table schemas and rows of \<^verbatim>\<open>db/table.go\<close>: the records \<^verbatim>\<open>TableDef\<close> and \<^verbatim>\<open>Record\<close>, the
  checks a schema passes before a table is created, and the extraction of columns from a
  row. A Go string is its list of bytes; \<open>lit\<close> is a string literal of the source. The
  lemmas show that a schema accepted by \<open>tableDefCheck\<close> is well formed, that every
  index then covers the primary key without repeating a column, and that the internal
  assertion on the size of an index cannot fail.
\<close>

section \<open>Strings\<close>

definition lit :: "string \<Rightarrow> bytes" where
  "lit s = map of_char s"

lemma length_lit [simp]: "length (lit s) = length s"
  by (simp add: lit_def)

lemma lit_Nil [simp]: "lit s = [] \<longleftrightarrow> s = []" "lit [] = []"
  by (simp_all add: lit_def)

lemma unat_of_char: "unat (of_char c :: byte) = of_char c"
proof -
  have "(of_char c :: byte) = of_nat (of_char c)"
    by (rule of_nat_of_char [symmetric])
  then have "unat (of_char c :: byte) = of_char c mod 256"
    by (simp only: unat_of_nat_byte)
  also have "\<dots> = of_char c"
    by (rule mod_less [OF nat_of_char_less_256])
  finally show ?thesis .
qed

lemma of_char_byte_eq [simp]: "(of_char c :: byte) = of_char d \<longleftrightarrow> c = d"
proof
  assume "(of_char c :: byte) = of_char d"
  then have "(of_char c :: nat) = of_char d"
    by (simp only: unat_of_char [symmetric])
  then show "c = d" by (rule of_char_eqI)
qed simp

lemma lit_eq [simp]: "lit s = lit t \<longleftrightarrow> s = t"
  by (simp add: lit_def inj_map_eq_map inj_def)

section \<open>Rows\<close>

text \<open>\<^verbatim>\<open>slices.Index\<close>: the first position of a value, \<open>None\<close> for the result -1.\<close>

fun slices_Index :: "'a list \<Rightarrow> 'a \<Rightarrow> nat option" where
  "slices_Index [] x = None"
| "slices_Index (y # ys) x = (if y = x then Some 0 else map_option Suc (slices_Index ys x))"

record Record =
  RCols :: "bytes list"
  RVals :: "Value list"

definition AddStr :: "Record \<Rightarrow> bytes \<Rightarrow> bytes \<Rightarrow> Record" where
  "AddStr rec col val = rec\<lparr>RCols := RCols rec @ [col],
     RVals := RVals rec @ [\<lparr>Type = TYPE_BYTES, I64 = 0, Str = val\<rparr>]\<rparr>"

definition AddInt64 :: "Record \<Rightarrow> bytes \<Rightarrow> 64 word \<Rightarrow> Record" where
  "AddInt64 rec col val = rec\<lparr>RCols := RCols rec @ [col],
     RVals := RVals rec @ [\<lparr>Type = TYPE_INT64, I64 = val, Str = []\<rparr>]\<rparr>"

text \<open>\<^verbatim>\<open>rec.Get\<close>: \<open>Some None\<close> is the nil pointer; a row with fewer values than columns panics.\<close>

fun GetLoop :: "bytes list \<Rightarrow> Value list \<Rightarrow> bytes \<Rightarrow> Value option option" where
  "GetLoop [] vals col = Some None"
| "GetLoop (c # cs) vals col =
     (if c = col then (case vals of [] \<Rightarrow> None | v # _ \<Rightarrow> Some (Some v))
      else GetLoop cs (drop 1 vals) col)"

definition RGet :: "Record \<Rightarrow> bytes \<Rightarrow> Value option option" where
  "RGet rec col = GetLoop (RCols rec) (RVals rec) col"

record TableDef =
  Name :: bytes
  Types :: "nat list"
  Cols :: "bytes list"
  Indexes :: "bytes list list"
  Prefixes :: "nat list"

fun getValues :: "TableDef \<Rightarrow> Record \<Rightarrow> bytes list \<Rightarrow> (bytes + Value list) option" where
  "getValues tdef rec [] = Some (Inr [])"
| "getValues tdef rec (c # cols) = do {
     v \<leftarrow> RGet rec c;
     (case v of
        None \<Rightarrow> Some (Inl (lit ''missing column: '' @ c))
      | Some v \<Rightarrow> do {
          j \<leftarrow> slices_Index (Cols tdef) c;
          t \<leftarrow> list_at (Types tdef) j;
          if Type v \<noteq> t then Some (Inl (lit ''bad column type: '' @ c))
          else do {
            r \<leftarrow> getValues tdef rec cols;
            Some (case r of Inl e \<Rightarrow> Inl e | Inr vals \<Rightarrow> Inr (v # vals))
          }
        })
   }"

definition nonPrimaryKeyCols :: "TableDef \<Rightarrow> bytes list option" where
  "nonPrimaryKeyCols tdef =
     (if Cols tdef = [] then Some []
      else do {
        pk \<leftarrow> list_at (Indexes tdef) 0;
        Some (filter (\<lambda>c. slices_Index pk c = None) (Cols tdef))
      })"

fun checkTypesLoop :: "TableDef \<Rightarrow> bytes list \<Rightarrow> Value list \<Rightarrow> bytes option option" where
  "checkTypesLoop tdef (c # cols) (v # vals) =
     (case slices_Index (Cols tdef) c of
        None \<Rightarrow> Some (Some (lit ''bad column: '' @ c))
      | Some j \<Rightarrow> do {
          t \<leftarrow> list_at (Types tdef) j;
          if t \<noteq> Type v then Some (Some (lit ''bad column: '' @ c))
          else checkTypesLoop tdef cols vals
        })"
| "checkTypesLoop tdef _ _ = Some None"

text \<open>\<open>Some (Some e)\<close> is the error \<open>e\<close>, \<open>Some None\<close> its absence.\<close>

definition checkTypes :: "TableDef \<Rightarrow> Record \<Rightarrow> bytes option option" where
  "checkTypes tdef rec =
     (if length (RCols rec) \<noteq> length (RVals rec) then Some (Some (lit ''bad record''))
      else checkTypesLoop tdef (RCols rec) (RVals rec))"

section \<open>Schema checks\<close>

text \<open>The two loops of \<^verbatim>\<open>checkIndexCols\<close>; \<open>seen\<close> is the set of columns met so far.\<close>

fun seeCols :: "TableDef \<Rightarrow> bytes list \<Rightarrow> bytes list \<Rightarrow> bytes + bytes list" where
  "seeCols tdef [] seen = Inr seen"
| "seeCols tdef (c # cs) seen =
     (if slices_Index (Cols tdef) c = None then Inl (lit ''unknown index column: '' @ c)
      else if c \<in> set seen then Inl (lit ''duplicate column in index: '' @ c)
      else seeCols tdef cs (c # seen))"

fun addPrimary :: "bytes list \<Rightarrow> bytes list \<Rightarrow> bytes list \<Rightarrow> bytes list" where
  "addPrimary seen [] index = index"
| "addPrimary seen (c # pk) index =
     addPrimary seen pk (if c \<in> set seen then index else index @ [c])"

definition checkIndexCols :: "TableDef \<Rightarrow> bytes list \<Rightarrow> (bytes + bytes list) option" where
  "checkIndexCols tdef index =
     (if index = [] then Some (Inl (lit ''empty index''))
      else (case seeCols tdef index [] of
              Inl e \<Rightarrow> Some (Inl e)
            | Inr seen \<Rightarrow> do {
                pk \<leftarrow> list_at (Indexes tdef) 0;
                let index = addPrimary seen pk index;
                _ \<leftarrow> go_assert (length index \<le> length (Cols tdef));
                Some (Inr index)
              }))"

fun checkIndexes :: "nat \<Rightarrow> bytes list list \<Rightarrow> TableDef \<Rightarrow> (bytes option \<times> TableDef) option" where
  "checkIndexes i [] tdef = Some (None, tdef)"
| "checkIndexes i (index # rest) tdef = do {
     r \<leftarrow> checkIndexCols tdef index;
     (case r of
        Inl e \<Rightarrow> Some (Some e, tdef)
      | Inr index \<Rightarrow> do {
          ixs \<leftarrow> list_set (Indexes tdef) i index;
          checkIndexes (i + 1) rest (tdef\<lparr>Indexes := ixs\<rparr>)
        })
   }"

text \<open>The error and the schema as the call leaves it: the indexes already checked are completed.\<close>

definition tableDefChecK :: "TableDef \<Rightarrow> (bytes option \<times> TableDef) option" where
  "tableDefChecK tdef =
     (let bad = Name tdef = [] \<or> length (Cols tdef) = 0 \<or> length (Indexes tdef) = 0;
          bad = bad \<or> length (Cols tdef) \<noteq> length (Types tdef) in
      if bad then Some (Some (lit ''bad table schema: '' @ Name tdef), tdef)
      else checkIndexes 0 (Indexes tdef) tdef)"

section \<open>What the checks establish\<close>

text \<open>A secondary index with the missing columns of the primary key added.\<close>

definition completed :: "bytes list \<Rightarrow> bytes list \<Rightarrow> bytes list" where
  "completed pk ix = ix @ filter (\<lambda>c. c \<notin> set ix) pk"

definition good_index :: "bytes list \<Rightarrow> bytes list \<Rightarrow> bool" where
  "good_index cols ix \<longleftrightarrow> ix \<noteq> [] \<and> distinct ix \<and> set ix \<subseteq> set cols"

definition good_schema :: "TableDef \<Rightarrow> bool" where
  "good_schema tdef \<longleftrightarrow> Name tdef \<noteq> [] \<and> Cols tdef \<noteq> [] \<and> Indexes tdef \<noteq> [] \<and>
     length (Types tdef) = length (Cols tdef) \<and> (\<forall>ix \<in> set (Indexes tdef). good_index (Cols tdef) ix)"

lemma slices_Index_None [simp]: "slices_Index xs x = None \<longleftrightarrow> x \<notin> set xs"
  by (induction xs) auto

lemma slices_Index_Some: "slices_Index xs x = Some i \<Longrightarrow> i < length xs \<and> xs ! i = x"
  by (induction xs arbitrary: i) (auto split: if_splits)

lemma slices_Index_in: "x \<in> set xs \<Longrightarrow> \<exists>i. slices_Index xs x = Some i \<and> i < length xs \<and> xs ! i = x"
  using slices_Index_None [of xs x] slices_Index_Some [of xs x]
  by (cases "slices_Index xs x") auto

lemma seeCols_eq:
  "(\<exists>s. seeCols tdef cs seen = Inr s) \<longleftrightarrow>
     distinct cs \<and> set cs \<subseteq> set (Cols tdef) \<and> set cs \<inter> set seen = {}"
  "seeCols tdef cs seen = Inr s \<Longrightarrow> set s = set seen \<union> set cs"
  by (induction cs arbitrary: seen s) (auto split: if_splits)

lemma addPrimary_eq: "addPrimary seen pk index = index @ filter (\<lambda>c. c \<notin> set seen) pk"
  by (induction pk arbitrary: index) auto

lemma completed_good:
  assumes "good_index cols ix" "good_index cols pk"
  shows "good_index cols (completed pk ix)" "length (completed pk ix) \<le> length cols"
proof -
  show good: "good_index cols (completed pk ix)"
    using assms by (auto simp: good_index_def completed_def)
  then have "card (set (completed pk ix)) \<le> card (set cols)"
    by (intro card_mono) (auto simp: good_index_def)
  then show "length (completed pk ix) \<le> length cols"
    using good card_length [of cols] by (simp add: good_index_def distinct_card)
qed

lemma checkIndexCols_ok:
  assumes "good_index (Cols tdef) ix" "Indexes tdef = pk # ixs" "good_index (Cols tdef) pk"
  shows "checkIndexCols tdef ix = Some (Inr (completed pk ix))"
proof -
  have ix: "ix \<noteq> []" "distinct ix" "set ix \<subseteq> set (Cols tdef)"
    using assms(1) by (auto simp: good_index_def)
  then obtain s where s: "seeCols tdef ix [] = Inr s" "set s = set ix"
    using seeCols_eq(1) [of tdef ix "[]"] seeCols_eq(2) [of tdef ix "[]"] by auto
  then have "addPrimary s pk ix = completed pk ix"
    by (simp add: addPrimary_eq completed_def)
  then show ?thesis
    using ix(1) s(1) assms(2) completed_good(2) [OF assms(1) assms(3)]
    by (simp add: checkIndexCols_def)
qed

lemma checkIndexCols_bad:
  assumes "\<not> good_index (Cols tdef) ix"
  obtains e where "checkIndexCols tdef ix = Some (Inl e)"
proof (cases "ix = []")
  case True
  then show ?thesis using that by (simp add: checkIndexCols_def)
next
  case False
  then have "\<not> (\<exists>s. seeCols tdef ix [] = Inr s)"
    using assms by (simp only: seeCols_eq good_index_def) auto
  then obtain e where "seeCols tdef ix [] = Inl e"
    by (cases "seeCols tdef ix []") auto
  then show ?thesis using that False by (simp add: checkIndexCols_def)
qed

lemma completed_self [simp]: "completed pk pk = pk"
  by (simp add: completed_def)

text \<open>The loop over the indexes, started after the checked indexes \<open>dn\<close>.\<close>

lemma checkIndexes_loop:
  assumes "Indexes tdef = map (completed pk) dn @ rest" "hd (dn @ rest) = pk"
    "\<forall>ix \<in> set dn. good_index (Cols tdef) ix"
  shows "if \<forall>ix \<in> set rest. good_index (Cols tdef) ix
    then checkIndexes (length dn) rest tdef =
      Some (None, tdef\<lparr>Indexes := map (completed pk) (dn @ rest)\<rparr>)
    else \<exists>e t. checkIndexes (length dn) rest tdef = Some (Some e, t)"
  using assms
proof (induction rest arbitrary: dn tdef)
  case Nil
  then have "tdef\<lparr>Indexes := map (completed pk) dn\<rparr> = tdef"
    using Nil.prems(1) by (cases tdef) simp
  then show ?case by simp
next
  case (Cons ix rest)
  show ?case
  proof (cases "good_index (Cols tdef) ix")
    case False
    then show ?thesis by (auto elim: checkIndexCols_bad)
  next
    case True
    have pk: "good_index (Cols tdef) pk" "\<exists>ixs. Indexes tdef = pk # ixs"
      using Cons.prems True by (cases dn; auto)+
    let ?t = "tdef\<lparr>Indexes := map (completed pk) (dn @ [ix]) @ rest\<rparr>"
    from pk(2) have step: "checkIndexes (length dn) (ix # rest) tdef = checkIndexes (length (dn @ [ix])) rest ?t"
      using Cons.prems(1) checkIndexCols_ok [OF True _ pk(1)]
      by (auto simp: list_set_def list_update_append)
    show ?thesis
      using Cons.IH [of ?t "dn @ [ix]"] Cons.prems True unfolding step
      by (simp cong: if_cong split del: if_split)
  qed
qed

lemma checkIndexes_all:
  assumes "Indexes tdef \<noteq> []"
  shows "if \<forall>ix \<in> set (Indexes tdef). good_index (Cols tdef) ix
    then checkIndexes 0 (Indexes tdef) tdef =
      Some (None, tdef\<lparr>Indexes := map (completed (hd (Indexes tdef))) (Indexes tdef)\<rparr>)
    else \<exists>e t. checkIndexes 0 (Indexes tdef) tdef = Some (Some e, t)"
  using checkIndexes_loop [of tdef "hd (Indexes tdef)" "[]" "Indexes tdef"] assms
  by (simp cong: if_cong split del: if_split)

lemma good_schema_completed:
  assumes "good_schema tdef"
  shows "good_schema (tdef\<lparr>Indexes := map (completed (hd (Indexes tdef))) (Indexes tdef)\<rparr>)"
proof -
  have "good_index (Cols tdef) (hd (Indexes tdef))"
    using assms by (auto simp: good_schema_def)
  then show ?thesis
    using assms by (auto simp: good_schema_def completed_good)
qed

text \<open>
  C40: The schema check. \<open>tableDefChecK\<close> never fails its assertion. It reports an error
  exactly when the schema is malformed: no name, no columns, no index, a different number
  of columns and types, an empty index, an index column that does not exist or is
  repeated. On success the schema changes only in its indexes: every index has the columns
  of the primary key it lacked appended in their order, the primary key itself is
  unchanged, and the result is well formed again.
\<close>

theorem schema_check:
  "\<exists>e t. tableDefChecK tdef = Some (e, t) \<and> (e = None \<longleftrightarrow> good_schema tdef) \<and>
     (good_schema tdef \<longrightarrow>
        t = tdef\<lparr>Indexes := map (completed (hd (Indexes tdef))) (Indexes tdef)\<rparr> \<and>
        good_schema t \<and> hd (Indexes t) = hd (Indexes tdef) \<and>
        (\<forall>ix \<in> set (Indexes t). set (hd (Indexes tdef)) \<subseteq> set ix))"
proof (cases "good_schema tdef")
  case True
  then have "tableDefChecK tdef =
    Some (None, tdef\<lparr>Indexes := map (completed (hd (Indexes tdef))) (Indexes tdef)\<rparr>)"
    using checkIndexes_all [of tdef] by (auto simp: tableDefChecK_def good_schema_def Let_def)
  moreover have "Indexes tdef \<noteq> []" using True by (simp add: good_schema_def)
  ultimately show ?thesis
    using True good_schema_completed [OF True] by (auto simp: completed_def hd_map)
next
  case False
  then have "\<exists>e t. tableDefChecK tdef = Some (Some e, t)"
    using checkIndexes_all [of tdef]
    by (auto simp: tableDefChecK_def good_schema_def Let_def split: if_splits)
  then show ?thesis using False by auto
qed

theorem schema_check_witness:
  "\<exists>e t. tableDefChecK \<lparr>Name = [1], Types = [1, 2], Cols = [[97], [98]], Indexes = [[[97]], [[98]]], Prefixes = []\<rparr> =
     Some (e, t) \<and> Indexes t = [[[97]], [[98], [97]]]"
  using schema_check [of "\<lparr>Name = [1], Types = [1, 2], Cols = [[97], [98]], Indexes = [[[97]], [[98]]], Prefixes = []\<rparr>"]
  by (auto simp: good_schema_def good_index_def completed_def)

section \<open>Rows that fit a schema\<close>

text \<open>The value of a column in a row, and rows that give every column a value of its type.\<close>

definition col_val :: "Record \<Rightarrow> bytes \<Rightarrow> Value" where
  "col_val rec c = (case RGet rec c of Some (Some v) \<Rightarrow> v | _ \<Rightarrow> zero_value 0)"

definition col_type :: "TableDef \<Rightarrow> bytes \<Rightarrow> nat" where
  "col_type tdef c = (case slices_Index (Cols tdef) c of Some j \<Rightarrow> Types tdef ! j | None \<Rightarrow> 0)"

definition has_col :: "TableDef \<Rightarrow> Record \<Rightarrow> bytes \<Rightarrow> bool" where
  "has_col tdef rec c \<longleftrightarrow> c \<in> set (RCols rec) \<and> Type (col_val rec c) = col_type tdef c"

lemma GetLoop_in:
  "length cs = length vs \<Longrightarrow> GetLoop cs vs c =
     Some (if c \<in> set cs then Some (vs ! the (slices_Index cs c)) else None)"
proof (induction cs vs rule: list_induct2)
  case (Cons x cs y vs)
  then show ?case
    using slices_Index_in [of c cs] by auto
qed simp

lemma RGet_in:
  assumes "length (RCols rec) = length (RVals rec)"
  shows "RGet rec c = Some (if c \<in> set (RCols rec) then Some (col_val rec c) else None)"
  using assms by (simp add: RGet_def col_val_def GetLoop_in)

text \<open>\<open>getValues\<close> collects the requested columns, or reports the first one missing or mistyped.\<close>

lemma getValues_result:
  assumes "length (RCols rec) = length (RVals rec)" "length (Types tdef) = length (Cols tdef)"
    "set cols \<subseteq> set (Cols tdef)"
  shows "if \<forall>c \<in> set cols. has_col tdef rec c
    then getValues tdef rec cols = Some (Inr (map (col_val rec) cols))
    else \<exists>e. getValues tdef rec cols = Some (Inl e)"
  using assms(3)
proof (induction cols)
  case (Cons c cols)
  from Cons.prems obtain j where j: "slices_Index (Cols tdef) c = Some j" "j < length (Types tdef)"
    using slices_Index_in [of c "Cols tdef"] assms(2) by auto
  then show ?case
    using Cons by (auto simp: RGet_in [OF assms(1)] has_col_def col_type_def split: if_split_asm)
qed simp

end
