(* ===== verification/QLParse.thy ===== *)
theory QLParse
  imports Schema BTree
begin

text \<open>
  The query language parser \<^verbatim>\<open>db/ql_parse.go\<close>: expression nodes and their display, the
  statements, the hand-written recursive descent parser and the scanner that cuts the input
  into statements.

  The parser's methods take the parser by reference; here they take and return the record
  \<open>Parser\<close>. A method that fills a node takes and returns the node. The first error stays in
  \<open>p_err\<close> while parsing goes on, as in the code. Every read of an input byte goes through
  \<^const>\<open>list_at\<close> and every slice through \<^const>\<open>slice_at\<close>, so that an index outside the input
  is the result \<open>None\<close>, a panic, and the guards of the code are what avoids it. The recursion
  through parenthesised expressions and the loops over lists take fuel: there \<open>None\<close> is also a
  call that has not returned when the fuel is used up; theory \<open>QLParseProps\<close> shows that neither happens.

  \<^verbatim>\<open>unicode.IsSpace\<close>, \<^verbatim>\<open>IsLetter\<close> and \<^verbatim>\<open>IsNumber\<close> are applied to single bytes by the code, so
  they are the Latin-1 part of the Unicode classes. \<^verbatim>\<open>strings.EqualFold\<close> is applied to
  windows of the same length as an ASCII token, and \<^verbatim>\<open>strings.ToLower\<close> is compared with ASCII
  words; a rune outside ASCII takes at least two bytes, so both are the ASCII case folding.
\<close>

section \<open>Expressions\<close>

named_theorems ql_consts \<open>tags of expression nodes\<close>

definition QL_STR :: nat where [ql_consts]: "QL_STR = TYPE_BYTES"
definition QL_I64 :: nat where [ql_consts]: "QL_I64 = TYPE_INT64"
definition QL_CMP_GE :: nat where [ql_consts]: "QL_CMP_GE = 10"
definition QL_CMP_GT :: nat where [ql_consts]: "QL_CMP_GT = 11"
definition QL_CMP_LT :: nat where [ql_consts]: "QL_CMP_LT = 12"
definition QL_CMP_LE :: nat where [ql_consts]: "QL_CMP_LE = 13"
definition QL_CMP_EQ :: nat where [ql_consts]: "QL_CMP_EQ = 14"
definition QL_CMP_NE :: nat where [ql_consts]: "QL_CMP_NE = 15"
definition QL_ADD :: nat where [ql_consts]: "QL_ADD = 20"
definition QL_SUB :: nat where [ql_consts]: "QL_SUB = 21"
definition QL_MUL :: nat where [ql_consts]: "QL_MUL = 22"
definition QL_DIV :: nat where [ql_consts]: "QL_DIV = 23"
definition QL_MOD :: nat where [ql_consts]: "QL_MOD = 24"
definition QL_AND :: nat where [ql_consts]: "QL_AND = 30"
definition QL_OR :: nat where [ql_consts]: "QL_OR = 31"
definition QL_NOT :: nat where [ql_consts]: "QL_NOT = 50"
definition QL_NEG :: nat where [ql_consts]: "QL_NEG = 51"
definition QL_SYM :: nat where [ql_consts]: "QL_SYM = 100"
definition QL_TUP :: nat where [ql_consts]: "QL_TUP = 101"
definition QL_STAR :: nat where [ql_consts]: "QL_STAR = 102"
definition QL_ERR :: nat where [ql_consts]: "QL_ERR = 200"

datatype QLNode = QLNode (NType: nat) (NI64: "64 word") (NStr: bytes) (Kids: "QLNode list")

text \<open>The zero value \<^verbatim>\<open>QLNode{}\<close>, and a node with a type and operands.\<close>

definition zero_node :: QLNode where
  "zero_node = QLNode 0 0 [] []"

definition op_node :: "nat \<Rightarrow> QLNode list \<Rightarrow> QLNode" where
  "op_node t kids = QLNode t 0 [] kids"

section \<open>Display\<close>

text \<open>\<^verbatim>\<open>strconv.FormatInt(i, 10)\<close>.\<close>

fun formatNat :: "nat \<Rightarrow> bytes" where
  "formatNat n = (if n < 10 then [of_nat (48 + n)] else formatNat (n div 10) @ [of_nat (48 + n mod 10)])"

declare formatNat.simps [simp del]

definition formatInt :: "64 word \<Rightarrow> bytes" where
  "formatInt w = (let i = sint w in
     if i < 0 then lit ''-'' @ formatNat (nat (- i)) else formatNat (nat i))"

text \<open>\<^verbatim>\<open>strings.Join\<close>\<close>

fun join :: "bytes \<Rightarrow> bytes list \<Rightarrow> bytes" where
  "join sep [] = []"
| "join sep [x] = x"
| "join sep (x # y # xs) = x @ sep @ join sep (y # xs)"

text \<open>The operator text of \<^verbatim>\<open>Display\<close>'s binary cases.\<close>

definition binOps :: "(nat \<times> bytes) list" where
  "binOps = [(QL_CMP_GE, lit ''>=''), (QL_CMP_GT, lit ''>''), (QL_CMP_LT, lit ''<''),
     (QL_CMP_LE, lit ''<=''), (QL_CMP_EQ, lit ''=''), (QL_CMP_NE, lit ''!=''),
     (QL_ADD, lit ''+''), (QL_SUB, lit ''-''), (QL_MUL, lit ''*''), (QL_DIV, lit ''/''),
     (QL_MOD, lit ''%''), (QL_AND, lit ''AND''), (QL_OR, lit ''OR'')]"

text \<open>
  \<open>displayNode\<close> is one case of the switch, over the displays of the operands: \<open>None\<close> for the
  panics (an unknown type, a missing operand).
\<close>

definition displayNode :: "nat \<Rightarrow> 64 word \<Rightarrow> bytes \<Rightarrow> bytes option list \<Rightarrow> bytes option" where
  "displayNode t i s kids =
     (if t = QL_SYM then Some s
      else if t = QL_TUP then do {
        kidStrList \<leftarrow> those kids;
        Some (lit ''('' @ join (lit '', '') kidStrList @ lit '')'')
      }
      else if t = QL_STR then Some (lit [CHR 34] @ s @ lit [CHR 34])
      else if t = QL_I64 then Some (formatInt i)
      else (case map_of binOps t of
          Some opStr \<Rightarrow> do {
            k0 \<leftarrow> list_at kids 0; a \<leftarrow> k0;
            k1 \<leftarrow> list_at kids 1; b \<leftarrow> k1;
            Some (a @ lit '' '' @ opStr @ lit '' '' @ b)
          }
        | None \<Rightarrow>
            if t = QL_NOT then do { k \<leftarrow> list_at kids 0; a \<leftarrow> k; Some (lit ''NOT '' @ a) }
            else if t = QL_NEG then do { k \<leftarrow> list_at kids 0; a \<leftarrow> k; Some (lit ''-'' @ a) }
            else None))"

fun Display :: "QLNode \<Rightarrow> bytes option" where
  "Display (QLNode t i s kids) = displayNode t i s (map Display kids)"

section \<open>Statements\<close>

record QLScan =
  STable :: bytes
  Key1 :: QLNode
  Key2 :: QLNode
  Filter :: QLNode
  Offset :: "64 word"
  Limit :: "64 word"

record QLSelect = QLScan +
  SNames :: "bytes list"
  Output :: "QLNode list"

record QLUpdate = QLScan +
  UNames :: "bytes list"
  UValues :: "QLNode list"

record QLInsert =
  ITable :: bytes
  IMode :: nat
  INames :: "bytes list"
  IValues :: "QLNode list list"

datatype Stmt =
    QLBegin | QLCommit | QLRollback
  | StmtCreateTable TableDef
  | StmtSelect QLSelect
  | StmtInsert QLInsert
  | StmtDelete QLScan
  | StmtUpdate QLUpdate

section \<open>Character classes\<close>

definition isSpace :: "byte \<Rightarrow> bool" where
  "isSpace ch = (let c = unat ch in 9 \<le> c \<and> c \<le> 13 \<or> c = 32 \<or> c = 0x85 \<or> c = 0xA0)"

definition isLetter :: "byte \<Rightarrow> bool" where
  "isLetter ch = (let c = unat ch in
     65 \<le> c \<and> c \<le> 90 \<or> 97 \<le> c \<and> c \<le> 122 \<or> c = 0xAA \<or> c = 0xB5 \<or> c = 0xBA \<or>
     0xC0 \<le> c \<and> c \<noteq> 0xD7 \<and> c \<noteq> 0xF7)"

definition isNumber :: "byte \<Rightarrow> bool" where
  "isNumber ch = (let c = unat ch in
     48 \<le> c \<and> c \<le> 57 \<or> c = 0xB2 \<or> c = 0xB3 \<or> c = 0xB9 \<or> 0xBC \<le> c \<and> c \<le> 0xBE)"

definition isSym :: "byte \<Rightarrow> bool" where
  "isSym ch = (isLetter ch \<or> isNumber ch \<or> ch = 95)"

definition isSymStart :: "byte \<Rightarrow> bool" where
  "isSymStart ch = (isLetter ch \<or> ch = 95)"

definition lowerByte :: "byte \<Rightarrow> byte" where
  "lowerByte ch = (if 65 \<le> unat ch \<and> unat ch \<le> 90 then ch + 32 else ch)"

definition toLower :: "bytes \<Rightarrow> bytes" where
  "toLower s = map lowerByte s"

definition equalFold :: "bytes \<Rightarrow> bytes \<Rightarrow> bool" where
  "equalFold s t = (toLower s = toLower t)"

definition keywordList :: "bytes list" where
  "keywordList = map lit [''create'', ''table'', ''primary'', ''key'', ''insert'', ''replace'',
     ''upsert'', ''into'', ''values'', ''update'', ''set'', ''delete'', ''select'', ''as'',
     ''from'', ''index'', ''by'', ''filter'', ''limit'', ''begin'', ''commit'', ''rollback'']"

definition keywordSet :: "bytes \<Rightarrow> bool" where
  "keywordSet w = (w \<in> set keywordList)"

section \<open>The parser\<close>

record Parser =
  p_input :: bytes
  p_idx :: nat
  p_err :: "bytes option"

definition NewParser :: "bytes \<Rightarrow> Parser" where
  "NewParser inp = \<lparr>p_input = inp, p_idx = 0, p_err = None\<rparr>"

text \<open>The loops \<^verbatim>\<open>for i < len(input) && P(input[i]) { i++ }\<close>.\<close>

function scanWhile :: "(byte \<Rightarrow> bool) \<Rightarrow> bytes \<Rightarrow> nat \<Rightarrow> nat option" where
  "scanWhile P inp i =
     (if i < length inp then do {
        ch \<leftarrow> list_at inp i;
        if P ch then scanWhile P inp (i + 1) else Some i
      } else Some i)"
  by pat_completeness auto
termination by (relation "measure (\<lambda>(P, inp, i). length inp - i)") auto

declare scanWhile.simps [simp del]

definition skipSpaces :: "Parser \<Rightarrow> Parser option" where
  "skipSpaces p = do {
     i \<leftarrow> scanWhile isSpace (p_input p) (p_idx p);
     Some (p\<lparr>p_idx := i\<rparr>)
   }"

fun matchLoop :: "nat \<Rightarrow> bytes list \<Rightarrow> Parser \<Rightarrow> (bool \<times> Parser) option" where
  "matchLoop start [] p = Some (True, p)"
| "matchLoop start (tok # toks) p = do {
     p \<leftarrow> skipSpaces p;
     let stop = p_idx p + length tok;
     if stop > length (p_input p) then Some (False, p\<lparr>p_idx := start\<rparr>)
     else do {
       w \<leftarrow> slice_at (p_input p) (p_idx p) (length tok);
       let m = equalFold w tok;
       m \<leftarrow> (if m \<and> keywordSet tok \<and> stop < length (p_input p)
            then do { ch \<leftarrow> list_at (p_input p) stop; Some (\<not> isSym ch) } else Some m);
       if \<not> m then Some (False, p\<lparr>p_idx := start\<rparr>)
       else matchLoop start toks (p\<lparr>p_idx := p_idx p + length tok\<rparr>)
     }
   }"

definition match :: "string list \<Rightarrow> Parser \<Rightarrow> (bool \<times> Parser) option" where
  "match tokens p = matchLoop (p_idx p) (map lit tokens) p"

definition pErr :: "bytes \<Rightarrow> Parser \<Rightarrow> Parser" where
  "pErr msg p = (if p_err p = None then p\<lparr>p_err := Some msg\<rparr> else p)"

definition quoted :: "string \<Rightarrow> string" where
  "quoted s = [CHR 39] @ s @ [CHR 39]"

definition consume :: "string \<Rightarrow> string \<Rightarrow> Parser \<Rightarrow> Parser option" where
  "consume tok msg p = do {
     (ok, p) \<leftarrow> match [tok] p;
     Some (if \<not> ok then pErr (lit msg) p else p)
   }"

section \<open>Symbols, numbers, strings\<close>

definition trySym :: "QLNode \<Rightarrow> Parser \<Rightarrow> (bool \<times> QLNode \<times> Parser) option" where
  "trySym node p = do {
     p \<leftarrow> skipSpaces p;
     let curr = p_idx p;
     start \<leftarrow> (if curr < length (p_input p) then map_option isSymStart (list_at (p_input p) curr) else Some False);
     if \<not> start then Some (False, node, p)
     else do {
       curr \<leftarrow> scanWhile isSym (p_input p) (curr + 1);
       nameBytes \<leftarrow> slice_at (p_input p) (p_idx p) (curr - p_idx p);
       if keywordSet (toLower nameBytes) then Some (False, node, p)
       else Some (True, QLNode QL_SYM (NI64 node) nameBytes (Kids node), p\<lparr>p_idx := curr\<rparr>)
     }
   }"

definition pSym :: "Parser \<Rightarrow> (bytes \<times> Parser) option" where
  "pSym p = do {
     (ok, name, p) \<leftarrow> trySym zero_node p;
     Some (if \<not> ok then ([], pErr (lit ''expect name'') p) else (NStr name, p))
   }"

text \<open>
  \<^verbatim>\<open>strconv.ParseInt(s, 10, 64)\<close> on a string without a sign: an error, here \<open>None\<close>, on a byte
  that is not a decimal digit, on the empty string and on a value above the largest \<^verbatim>\<open>int64\<close>.
\<close>

definition isDigit :: "byte \<Rightarrow> bool" where
  "isDigit ch = (48 \<le> unat ch \<and> unat ch \<le> 57)"

definition decimal :: "bytes \<Rightarrow> int" where
  "decimal s = foldl (\<lambda>n ch. 10 * n + (uint ch - 48)) 0 s"

definition parseInt :: "bytes \<Rightarrow> 64 word option" where
  "parseInt s = (if s \<noteq> [] \<and> list_all isDigit s \<and> decimal s < 2 ^ 63
     then Some (of_int (decimal s)) else None)"

definition tryNum :: "QLNode \<Rightarrow> Parser \<Rightarrow> (bool \<times> QLNode \<times> Parser) option" where
  "tryNum node p = do {
     p \<leftarrow> skipSpaces p;
     curr \<leftarrow> scanWhile isNumber (p_input p) (p_idx p);
     if curr = p_idx p then Some (False, node, p)
     else do {
       sym \<leftarrow> (if curr < length (p_input p) then map_option isSym (list_at (p_input p) curr) else Some False);
       if sym then Some (False, node, p)
       else do {
         digits \<leftarrow> slice_at (p_input p) (p_idx p) (curr - p_idx p);
         Some (case parseInt digits of
             None \<Rightarrow> (False, node, p)
           | Some i64 \<Rightarrow> (True, QLNode TYPE_INT64 i64 (NStr node) (Kids node), p\<lparr>p_idx := curr\<rparr>))
       }
     }
   }"

text \<open>
  The loop of \<^verbatim>\<open>tryStr\<close> over the characters between the quotes: the position it stops at and
  the text, or the message of the error it returns on.
\<close>

function strLoop :: "byte \<Rightarrow> bytes \<Rightarrow> nat \<Rightarrow> bytes \<Rightarrow> (bytes + nat \<times> bytes) option" where
  "strLoop quote inp i s =
     (if i < length inp then do {
        ch \<leftarrow> list_at inp i;
        if ch = quote then Some (Inr (i, s))
        else if ch = 92 then
          (let i = i + 1 in
           if i = length inp then Some (Inl (lit ''string not terminated''))
           else do {
             ch \<leftarrow> list_at inp i;
             if ch \<in> {34, 39, 92} then strLoop quote inp (i + 1) (s @ [ch])
             else Some (Inl (lit ''unknown escape''))
           })
        else strLoop quote inp (i + 1) (s @ [ch])
      } else Some (Inr (i, s)))"
  by pat_completeness auto
termination by (relation "measure (\<lambda>(quote, inp, i, s). length inp - i)") auto

declare strLoop.simps [simp del]

definition tryStr :: "QLNode \<Rightarrow> Parser \<Rightarrow> (bool \<times> QLNode \<times> Parser) option" where
  "tryStr node p = do {
     p \<leftarrow> skipSpaces p;
     let curr = p_idx p;
     opens \<leftarrow> (if curr < length (p_input p)
       then map_option (\<lambda>ch. ch = 34 \<or> ch = 39) (list_at (p_input p) curr) else Some False);
     if \<not> opens then Some (False, node, p)
     else do {
       quote \<leftarrow> list_at (p_input p) curr;
       r \<leftarrow> strLoop quote (p_input p) (curr + 1) [];
       case r of
         Inl msg \<Rightarrow> Some (False, node, pErr msg p)
       | Inr (curr, s) \<Rightarrow> do {
           closes \<leftarrow> (if curr < length (p_input p)
             then map_option (\<lambda>ch. ch = quote) (list_at (p_input p) curr) else Some False);
           Some (if \<not> closes then (False, node, pErr (lit ''string not terminated'') p)
             else (True, QLNode QL_STR (NI64 node) s (Kids node), p\<lparr>p_idx := curr + 1\<rparr>))
         }
     }
   }"

section \<open>Lists\<close>

text \<open>
  A closure \<^verbatim>\<open>pItem\<close> parses an item and updates a captured variable of type \<open>'s\<close>. The fuel
  bounds the number of items.
\<close>

type_synonym 's action = "'s \<Rightarrow> Parser \<Rightarrow> ('s \<times> Parser) option"

text \<open>\<^verbatim>\<open>for p.match(",") { pItem() }\<close>\<close>

fun commaLoop :: "nat \<Rightarrow> 's action \<Rightarrow> 's action" where
  "commaLoop 0 pItem s p = None"
| "commaLoop (Suc n) pItem s p =
     do {
       (ok, p) \<leftarrow> match ['',''] p;
       if ok then do { (s, p) \<leftarrow> pItem s p; commaLoop n pItem s p } else Some (s, p)
     }"

definition pCommaList :: "nat \<Rightarrow> 's action \<Rightarrow> 's action" where
  "pCommaList n pItem s p = do { (s, p) \<leftarrow> pItem s p; commaLoop n pItem s p }"

fun groupLoop :: "nat \<Rightarrow> bool \<Rightarrow> 's action \<Rightarrow> 's action" where
  "groupLoop 0 needComma pItem s p = None"
| "groupLoop (Suc n) needComma pItem s p =
     (if p_err p \<noteq> None then Some (s, p)
      else do {
        (ok, p) \<leftarrow> match ['')''] p;
        if ok then Some (s, p)
        else do {
          p \<leftarrow> (if needComma then consume '','' (''expect '' @ quoted '','') p else Some p);
          (s, p) \<leftarrow> pItem s p;
          groupLoop n True pItem s p
        }
      })"

definition pGroupedCommaList :: "nat \<Rightarrow> 's action \<Rightarrow> 's action" where
  "pGroupedCommaList n pItem s p = groupLoop n False pItem s p"

section \<open>Expressions by precedence\<close>

text \<open>
  The scan over the operator tokens of a level: the type of the first one that matches. A
  level is the zipped lists \<^verbatim>\<open>ops\<close> and \<^verbatim>\<open>types\<close> of the call.
\<close>

fun matchOp :: "(string \<times> nat) list \<Rightarrow> Parser \<Rightarrow> (nat option \<times> Parser) option" where
  "matchOp [] p = Some (None, p)"
| "matchOp ((tok, t) # ops) p = do {
     (ok, p) \<leftarrow> match [tok] p;
     if ok then Some (Some t, p) else matchOp ops p
   }"

fun binLoop :: "nat \<Rightarrow> (string \<times> nat) list \<Rightarrow> QLNode action \<Rightarrow> QLNode action" where
  "binLoop 0 ops next left p = None"
| "binLoop (Suc n) ops next left p =
     do {
       (t, p) \<leftarrow> matchOp ops p;
       case t of
         None \<Rightarrow> Some (left, p)
       | Some t \<Rightarrow> do {
           (right, p) \<leftarrow> next zero_node p;
           binLoop n ops next (op_node t [left, right]) p
         }
     }"

definition pExprBinOp :: "nat \<Rightarrow> (string \<times> nat) list \<Rightarrow> QLNode action \<Rightarrow> QLNode action" where
  "pExprBinOp n ops next node p = do {
     (left, p) \<leftarrow> next zero_node p;
     binLoop n ops next left p
   }"

definition pExprUnOp :: "string \<Rightarrow> nat \<Rightarrow> QLNode action \<Rightarrow> QLNode action" where
  "pExprUnOp op t next node p = do {
     (ok, p) \<leftarrow> match [op] p;
     if ok then do {
       (kid, p) \<leftarrow> next zero_node p;
       Some (QLNode t (NI64 node) (NStr node) [kid], p)
     } else next node p
   }"

definition orOps :: "(string \<times> nat) list" where
  "orOps = [(''or'', QL_OR)]"

definition andOps :: "(string \<times> nat) list" where
  "andOps = [(''and'', QL_AND)]"

definition cmpOps :: "(string \<times> nat) list" where
  "cmpOps = [(''='', QL_CMP_EQ), (''!='', QL_CMP_NE), (''>='', QL_CMP_GE), (''<='', QL_CMP_LE),
     (''>'', QL_CMP_GT), (''<'', QL_CMP_LT)]"

definition addOps :: "(string \<times> nat) list" where
  "addOps = [(''+'', QL_ADD), (''-'', QL_SUB)]"

definition mulOps :: "(string \<times> nat) list" where
  "mulOps = [(''*'', QL_MUL), (''/'', QL_DIV), (''%'', QL_MOD)]"

text \<open>\<^verbatim>\<open>pExprTuple\<close> over the parser of its items, and \<^verbatim>\<open>pExprAtom\<close> over the parser of tuples.\<close>

definition tupleOf :: "nat \<Rightarrow> QLNode action \<Rightarrow> QLNode action" where
  "tupleOf n pExpr node p = do {
     (kids, p) \<leftarrow> pGroupedCommaList n (\<lambda>kids p. do {
         (kid, p) \<leftarrow> pExpr zero_node p;
         Some (kids @ [kid], p)
       }) [] p;
     if length kids = 1 then do { kid \<leftarrow> list_at kids 0; Some (kid, p) }
     else Some (QLNode QL_TUP (NI64 node) (NStr node) kids, p)
   }"

definition atomOf :: "QLNode action \<Rightarrow> QLNode action" where
  "atomOf pTuple node p = do {
     (ok, p) \<leftarrow> match [''(''] p;
     if ok then pTuple node p else do {
     (ok, node, p) \<leftarrow> trySym node p;
     if ok then Some (node, p) else do {
     (ok, node, p) \<leftarrow> tryNum node p;
     if ok then Some (node, p) else do {
     (ok, node, p) \<leftarrow> tryStr node p;
     Some (if ok then (node, p) else (node, pErr (lit ''expect symbol/number/string/tuple'') p))
   }}}}"

fun pExprOr :: "nat \<Rightarrow> QLNode action"
  and pExprAnd :: "nat \<Rightarrow> QLNode action"
  and pExprNot :: "nat \<Rightarrow> QLNode action"
  and pExprCmp :: "nat \<Rightarrow> QLNode action"
  and pExprAdd :: "nat \<Rightarrow> QLNode action"
  and pExprMul :: "nat \<Rightarrow> QLNode action"
  and pExprNeg :: "nat \<Rightarrow> QLNode action"
  and pExprAtom :: "nat \<Rightarrow> QLNode action"
  and pExprTuple :: "nat \<Rightarrow> QLNode action" where
  "pExprOr 0 = (\<lambda>node p. None)"
| "pExprOr (Suc n) = pExprBinOp n orOps (pExprAnd n)"
| "pExprAnd 0 = (\<lambda>node p. None)"
| "pExprAnd (Suc n) = pExprBinOp n andOps (pExprNot n)"
| "pExprNot 0 = (\<lambda>node p. None)"
| "pExprNot (Suc n) = pExprUnOp ''not'' QL_NOT (pExprCmp n)"
| "pExprCmp 0 = (\<lambda>node p. None)"
| "pExprCmp (Suc n) = pExprBinOp n cmpOps (pExprAdd n)"
| "pExprAdd 0 = (\<lambda>node p. None)"
| "pExprAdd (Suc n) = pExprBinOp n addOps (pExprMul n)"
| "pExprMul 0 = (\<lambda>node p. None)"
| "pExprMul (Suc n) = pExprBinOp n mulOps (pExprNeg n)"
| "pExprNeg 0 = (\<lambda>node p. None)"
| "pExprNeg (Suc n) = pExprUnOp ''-'' QL_NEG (pExprAtom n)"
| "pExprAtom 0 = (\<lambda>node p. None)"
| "pExprAtom (Suc n) = atomOf (pExprTuple n)"
| "pExprTuple 0 = (\<lambda>node p. None)"
| "pExprTuple (Suc n) = tupleOf n (pExprOr n)"

section \<open>INDEX BY, FILTER, LIMIT\<close>

definition MaxInt64 :: "64 word" where
  "MaxInt64 = 2 ^ 63 - 1"

text \<open>\<^verbatim>\<open>verifyScanKey\<close>: the node with both sides as tuples, \<open>None\<close> if an operand is missing.\<close>

definition verifyScanKey :: "QLNode \<Rightarrow> Parser \<Rightarrow> (QLNode \<times> Parser) option" where
  "verifyScanKey node p =
     (if NType node \<in> {QL_CMP_EQ, QL_CMP_GE, QL_CMP_GT, QL_CMP_LT, QL_CMP_LE} then do {
        left \<leftarrow> list_at (Kids node) 0;
        right \<leftarrow> list_at (Kids node) 1;
        let (left, right) = (if NType left \<noteq> QL_TUP \<and> NType right \<noteq> QL_TUP
          then (op_node QL_TUP [left], op_node QL_TUP [right]) else (left, right));
        if NType left \<noteq> QL_TUP \<or> NType right \<noteq> QL_TUP then
          Some (node, pErr (lit (''bad '' @ quoted ''INDEX BY'' @ '': compare tuple and single value'')) p)
        else if length (Kids left) \<noteq> length (Kids right) then
          Some (node, pErr (lit (''bad '' @ quoted ''INDEX BY'' @ '': columns count not match values count'')) p)
        else if \<exists>name \<in> set (Kids left). NType name \<noteq> QL_SYM then
          Some (node, pErr (lit (''bad '' @ quoted ''INDEX BY'' @
            '': left side of comparison must be column name(s)'')) p)
        else do {
          kids \<leftarrow> list_set (Kids node) 0 left;
          kids \<leftarrow> list_set kids 1 right;
          Some (QLNode (NType node) (NI64 node) (NStr node) kids, p)
        }
      }
      else if NType node = QL_CMP_NE then
        Some (node, pErr (lit (''bad '' @ quoted ''INDEX BY'' @ '': '' @ quoted ''!='' @ '' not allowed'')) p)
      else
        Some (node, pErr (lit (''bad '' @ quoted ''INDEX BY'' @ '': expect comparison'')) p))"

definition pIndexBy :: "nat \<Rightarrow> 'a QLScan_scheme action" where
  "pIndexBy n node p = do {
     (index, p) \<leftarrow> pExprAnd n zero_node p;
     node \<leftarrow> (if NType index = QL_AND then do {
         k0 \<leftarrow> list_at (Kids index) 0;
         k1 \<leftarrow> list_at (Kids index) 1;
         Some (node\<lparr>Key1 := k0, Key2 := k1\<rparr>)
       } else Some (node\<lparr>Key1 := index\<rparr>));
     if NType (Key1 node) = QL_CMP_EQ \<and> NType (Key2 node) \<noteq> 0 then
       Some (node, pErr (lit (''bad '' @ quoted ''INDEX BY'' @ '': expect only 1 '' @ quoted ''='')) p)
     else do {
       (k1, p) \<leftarrow> verifyScanKey (Key1 node) p;
       let node = node\<lparr>Key1 := k1\<rparr>;
       if NType (Key2 node) \<noteq> 0 then do {
         (k2, p) \<leftarrow> verifyScanKey (Key2 node) p;
         Some (node\<lparr>Key2 := k2\<rparr>, p)
       } else Some (node, p)
     }
   }"

definition pLimit :: "'a QLScan_scheme action" where
  "pLimit node p = do {
     let offset = zero_node;
     (ok, count, p) \<leftarrow> tryNum zero_node p;
     (comma, p) \<leftarrow> match ['',''] p;
     (offset, ok, count, p) \<leftarrow>
       (if comma then
          (if ok then do { (ok', count', p) \<leftarrow> tryNum count p; Some (count, ok', count', p) }
           else Some (count, False, count, p))
        else Some (offset, ok, count, p));
     if \<not> ok then Some (node, pErr (lit (''bad '' @ quoted ''limit'')) p)
     else do {
       let node = node\<lparr>Offset := NI64 offset\<rparr>;
       Some (if NType count \<noteq> 0 then node\<lparr>Limit := NI64 count\<rparr> else node, p)
     }
   }"

definition pScan :: "nat \<Rightarrow> 'a QLScan_scheme action" where
  "pScan n node p = do {
     (ok, p) \<leftarrow> match [''index'', ''by''] p;
     (node, p) \<leftarrow> (if ok then pIndexBy n node p else Some (node, p));
     (ok, p) \<leftarrow> match [''filter''] p;
     (node, p) \<leftarrow> (if ok then do {
         (f, p) \<leftarrow> pExprOr n (Filter node) p;
         Some (node\<lparr>Filter := f\<rparr>, p)
       } else Some (node, p));
     let node = node\<lparr>Offset := 0, Limit := MaxInt64\<rparr>;
     (ok, p) \<leftarrow> match [''limit''] p;
     if ok then pLimit node p else Some (node, p)
   }"

section \<open>Statements\<close>

definition pNameList :: "nat \<Rightarrow> Parser \<Rightarrow> (bytes list \<times> Parser) option" where
  "pNameList n p = do {
     p \<leftarrow> consume ''('' (''expect '' @ quoted ''('' @ '' before names list'') p;
     pGroupedCommaList n (\<lambda>names p. do { (name, p) \<leftarrow> pSym p; Some (names @ [name], p) }) [] p
   }"

definition pColType :: "Parser \<Rightarrow> (nat \<times> Parser) option" where
  "pColType p = do {
     (t, p) \<leftarrow> pSym p;
     Some (if toLower t \<in> {lit ''string'', lit ''bytes''} then (TYPE_BYTES, p)
       else if toLower t \<in> {lit ''int'', lit ''int64''} then (TYPE_INT64, p)
       else (0, pErr (lit ''bad column type: '' @ t) p))
   }"

definition createItem :: "nat \<Rightarrow> TableDef action" where
  "createItem n tdef p = do {
     (ok, p) \<leftarrow> match [''index''] p;
     if ok then do {
       (names, p) \<leftarrow> pNameList n p;
       Some (tdef\<lparr>Indexes := Indexes tdef @ [names]\<rparr>, p)
     } else do {
       (ok, p) \<leftarrow> match [''primary'', ''key''] p;
       if ok then do {
         pk \<leftarrow> list_at (Indexes tdef) 0;
         if pk \<noteq> [] then Some (tdef, pErr (lit ''duplicate primary key'') p)
         else do {
           (names, p) \<leftarrow> pNameList n p;
           ixs \<leftarrow> list_set (Indexes tdef) 0 names;
           Some (tdef\<lparr>Indexes := ixs\<rparr>, p)
         }
       } else do {
         (c, p) \<leftarrow> pSym p;
         let tdef = tdef\<lparr>Cols := Cols tdef @ [c]\<rparr>;
         (t, p) \<leftarrow> pColType p;
         Some (tdef\<lparr>Types := Types tdef @ [t]\<rparr>, p)
       }
     }
   }"

definition pCreateTable :: "nat \<Rightarrow> Parser \<Rightarrow> (TableDef \<times> Parser) option" where
  "pCreateTable n p = do {
     (name, p) \<leftarrow> pSym p;
     p \<leftarrow> consume ''('' (''expect '' @ quoted ''('' @ '' after '' @ quoted ''create table <name>'') p;
     pGroupedCommaList n (createItem n)
       \<lparr>Name = name, Types = [], Cols = [], Indexes = [[]], Prefixes = []\<rparr> p
   }"

definition pSelectExpr :: "nat \<Rightarrow> QLSelect action" where
  "pSelectExpr n stmt p = do {
     (ok, p) \<leftarrow> match [''*''] p;
     if ok then Some (stmt\<lparr>SNames := SNames stmt @ [lit ''*''],
                            Output := Output stmt @ [op_node QL_STAR []]\<rparr>, p)
     else do {
       (expr, p) \<leftarrow> pExprOr n zero_node p;
       let stmt = stmt\<lparr>Output := Output stmt @ [expr]\<rparr>;
       (ok, p) \<leftarrow> match [''as''] p;
       (name, p) \<leftarrow> (if ok then pSym p else Some ([], p));
       Some (stmt\<lparr>SNames := SNames stmt @ [name]\<rparr>, p)
     }
   }"

definition zero_scan :: QLScan where
  "zero_scan = \<lparr>STable = [], Key1 = zero_node, Key2 = zero_node, Filter = zero_node,
     Offset = 0, Limit = 0\<rparr>"

definition pSelect :: "nat \<Rightarrow> Parser \<Rightarrow> (QLSelect \<times> Parser) option" where
  "pSelect n p = do {
     (stmt, p) \<leftarrow> pCommaList n (pSelectExpr n) (QLScan.extend zero_scan \<lparr>SNames = [], Output = []\<rparr>) p;
     p \<leftarrow> consume ''from'' (''expect '' @ quoted ''from'' @ '' after '' @ quoted ''select ...'') p;
     (name, p) \<leftarrow> pSym p;
     pScan n (stmt\<lparr>STable := name\<rparr>) p
   }"

definition pValueList :: "nat \<Rightarrow> Parser \<Rightarrow> (QLNode list \<times> Parser) option" where
  "pValueList n p = do {
     p \<leftarrow> consume ''('' (''expect '' @ quoted ''('' @ '' before values list'') p;
     pGroupedCommaList n (\<lambda>vals p. do {
         (val, p) \<leftarrow> pExprOr n zero_node p;
         Some (vals @ [val], p)
       }) [] p
   }"

text \<open>\<open>None\<close> in the first component is the nil statement returned on a row of the wrong length.\<close>

definition pInsert :: "nat \<Rightarrow> nat \<Rightarrow> Parser \<Rightarrow> (QLInsert option \<times> Parser) option" where
  "pInsert n mode p = do {
     (name, p) \<leftarrow> pSym p;
     (names, p) \<leftarrow> pNameList n p;
     p \<leftarrow> consume ''values'' (''expect '' @ quoted ''values'' @ '' after '' @
       quoted ''insert into <table> ...'') p;
     (vals, p) \<leftarrow> pCommaList n (\<lambda>vals p. do {
         (row, p) \<leftarrow> pValueList n p;
         Some (vals @ [row], p)
       }) [] p;
     if \<exists>row \<in> set vals. length row \<noteq> length names
     then Some (None, pErr (lit ''values length not match columns length'') p)
     else Some (Some \<lparr>ITable = name, IMode = mode, INames = names, IValues = vals\<rparr>, p)
   }"

definition pAssign :: "nat \<Rightarrow> QLUpdate action" where
  "pAssign n stmt p = do {
     (name, p) \<leftarrow> pSym p;
     let stmt = stmt\<lparr>UNames := UNames stmt @ [name]\<rparr>;
     p \<leftarrow> consume ''='' (''expect '' @ quoted ''='' @ '' in '' @ quoted ''set ... col = expr ...'') p;
     (val, p) \<leftarrow> pExprOr n zero_node p;
     Some (stmt\<lparr>UValues := UValues stmt @ [val]\<rparr>, p)
   }"

definition pUpdate :: "nat \<Rightarrow> Parser \<Rightarrow> (QLUpdate \<times> Parser) option" where
  "pUpdate n p = do {
     (name, p) \<leftarrow> pSym p;
     let stmt = (QLScan.extend zero_scan \<lparr>UNames = [], UValues = []\<rparr>)\<lparr>STable := name\<rparr>;
     p \<leftarrow> consume ''set'' (''expect '' @ quoted ''set'' @ '' after '' @ quoted ''update <table>'') p;
     (stmt, p) \<leftarrow> pCommaList n (pAssign n) stmt p;
     pScan n stmt p
   }"

definition pDelete :: "nat \<Rightarrow> Parser \<Rightarrow> (QLScan \<times> Parser) option" where
  "pDelete n p = do { (name, p) \<leftarrow> pSym p; pScan n (zero_scan\<lparr>STable := name\<rparr>) p }"

text \<open>The switch of \<^verbatim>\<open>pStmt\<close>; \<open>None\<close> in the first component is a nil statement.\<close>

definition stmtCases :: "nat \<Rightarrow> Parser \<Rightarrow> (Stmt option \<times> Parser) option" where
  "stmtCases n p = do {
     (ok, p) \<leftarrow> match [''begin''] p;
     if ok then Some (Some QLBegin, p) else do {
     (ok, p) \<leftarrow> match [''commit''] p;
     if ok then Some (Some QLCommit, p) else do {
     (ok, p) \<leftarrow> match [''rollback''] p;
     if ok then Some (Some QLRollback, p) else do {
     (ok, p) \<leftarrow> match [''create'', ''table''] p;
     if ok then map_option (apfst (\<lambda>s. Some (StmtCreateTable s))) (pCreateTable n p) else do {
     (ok, p) \<leftarrow> match [''select''] p;
     if ok then map_option (apfst (\<lambda>s. Some (StmtSelect s))) (pSelect n p) else do {
     (ok, p) \<leftarrow> match [''insert'', ''into''] p;
     if ok then map_option (apfst (map_option StmtInsert)) (pInsert n MODE_INSERT_ONLY p) else do {
     (ok, p) \<leftarrow> match [''replace'', ''into''] p;
     if ok then map_option (apfst (map_option StmtInsert)) (pInsert n MODE_UPDATE_ONLY p) else do {
     (ok, p) \<leftarrow> match [''upsert'', ''into''] p;
     if ok then map_option (apfst (map_option StmtInsert)) (pInsert n MODE_UPSERT p) else do {
     (ok, p) \<leftarrow> match [''delete'', ''from''] p;
     if ok then map_option (apfst (\<lambda>s. Some (StmtDelete s))) (pDelete n p) else do {
     (ok, p) \<leftarrow> match [''update''] p;
     if ok then map_option (apfst (\<lambda>s. Some (StmtUpdate s))) (pUpdate n p) else
     Some (None, pErr (lit ''unknown stmt'') p)
   }}}}}}}}}}"

text \<open>The result is an error or the statement.\<close>

definition pStmt :: "nat \<Rightarrow> Parser \<Rightarrow> ((bytes + Stmt option) \<times> Parser) option" where
  "pStmt n p = do {
     (stmt, p) \<leftarrow> stmtCases n p;
     p \<leftarrow> consume '';'' (''expect '' @ quoted '';'' @ '' after statement'') p;
     Some (case p_err p of Some e \<Rightarrow> Inl e | None \<Rightarrow> Inr stmt, p)
   }"

definition Parse :: "nat \<Rightarrow> bytes \<Rightarrow> (bytes + Stmt option) option" where
  "Parse n inp = map_option fst (pStmt n (NewParser inp))"

end
