(* ===== verification/QLScanner.thy ===== *)
theory QLScanner
  imports QLParse
begin

text \<open>
  The statement scanner at the end of \<^verbatim>\<open>db/ql_parse.go\<close>, and the reading loop of the command line
  \<^verbatim>\<open>cmd/ql.go\<close> that collects the statements of the input typed so far. The lemmas compare the
  index-based scanner with a reference that cuts a list of bytes at its first semicolon outside
  quotes, and decide when the reading loop ends.
\<close>

section \<open>The scanner\<close>

record StmtScanner =
  s_input :: bytes
  s_idx :: nat

datatype scan_error = ErrStmtEmpty | ErrStmtIncomplete

definition NewStmtScanner :: StmtScanner where
  "NewStmtScanner = \<lparr>s_input = [], s_idx = 0\<rparr>"

definition sSkipSpaces :: "StmtScanner \<Rightarrow> StmtScanner option" where
  "sSkipSpaces s = do {
     i \<leftarrow> scanWhile isSpace (s_input s) (s_idx s);
     Some (s\<lparr>s_idx := i\<rparr>)
   }"

definition sAppend :: "StmtScanner \<Rightarrow> bytes \<Rightarrow> StmtScanner" where
  "sAppend s extra = s\<lparr>s_input := s_input s @ extra\<rparr>"

definition sReset :: "StmtScanner \<Rightarrow> StmtScanner" where
  "sReset s = s\<lparr>s_input := take 0 (s_input s), s_idx := 0\<rparr>"

text \<open>
  The loop of \<^verbatim>\<open>NextStmtStr\<close>: where it stops, and the quote it is inside of (0 for none). As in
  the parser, \<open>None\<close> is the panic of an index outside the input.
\<close>

function scanStmt :: "bytes \<Rightarrow> nat \<Rightarrow> byte \<Rightarrow> (nat \<times> byte) option" where
  "scanStmt inp stop quote =
     (if stop < length inp then do {
        ch \<leftarrow> list_at inp stop;
        if quote \<noteq> 0 then
          (if ch = quote then scanStmt inp (stop + 1) 0 else scanStmt inp (stop + 1) quote)
        else if ch = 39 \<or> ch = 34 then scanStmt inp (stop + 1) ch
        else if ch = 59 then Some (stop, quote)
        else scanStmt inp (stop + 1) quote
      } else Some (stop, quote))"
  by pat_completeness auto
termination by (relation "measure (\<lambda>(inp, i, q). length inp - i)") auto

declare scanStmt.simps [simp del]

text \<open>\<^verbatim>\<open>Inr None\<close> is the result \<^verbatim>\<open>nil, nil\<close>.\<close>

definition NextStmtStr :: "StmtScanner \<Rightarrow> ((scan_error + bytes option) \<times> StmtScanner) option" where
  "NextStmtStr s = do {
     s \<leftarrow> sSkipSpaces s;
     if s_idx s = length (s_input s) then Some (Inr None, s)
     else do {
       (stop, quote) \<leftarrow> scanStmt (s_input s) (s_idx s) 0;
       if quote \<noteq> 0 then Some (Inl ErrStmtIncomplete, s)
       else if stop = s_idx s then Some (Inl ErrStmtEmpty, s)
       else if stop = length (s_input s) then Some (Inl ErrStmtIncomplete, s)
       else do {
         stmtStr \<leftarrow> slice_at (s_input s) (s_idx s) (stop + 1 - s_idx s);
         Some (Inr (Some stmtStr), s\<lparr>s_idx := stop + 1\<rparr>)
       }
     }
   }"

section \<open>The reading loop of the command line\<close>

text \<open>
  The inner loop of \<^verbatim>\<open>repl\<close> over the input appended so far: the value of \<^verbatim>\<open>stmtIncomplete\<close> it
  leaves, the statements buffered, and the scanner. The fuel bounds the iterations: \<open>None\<close> is a
  loop that has not ended when it is used up, and \<open>Some None\<close> a panic of the scanner.
\<close>

fun replScan :: "nat \<Rightarrow> bytes list \<Rightarrow> StmtScanner \<Rightarrow> (bool \<times> bytes list \<times> StmtScanner) option option" where
  "replScan 0 buf s = None"
| "replScan (Suc n) buf s =
     (case NextStmtStr s of
        None \<Rightarrow> Some None
      | Some (Inl ErrStmtIncomplete, s) \<Rightarrow> Some (Some (True, buf, s))
      | Some (Inl ErrStmtEmpty, s) \<Rightarrow> replScan n buf s
      | Some (Inr None, s) \<Rightarrow> Some (Some (False, buf, s))
      | Some (Inr (Some stmtStr), s) \<Rightarrow> replScan n (buf @ [stmtStr]) s)"

text \<open>One line read by \<^verbatim>\<open>repl\<close>.\<close>

definition replLine :: "nat \<Rightarrow> bytes \<Rightarrow> bytes list \<Rightarrow> StmtScanner \<Rightarrow> (bool \<times> bytes list \<times> StmtScanner) option option" where
  "replLine n line buf s = replScan n buf (sAppend s line)"

section \<open>The reference\<close>

definition quoteStep :: "byte \<Rightarrow> byte \<Rightarrow> byte" where
  "quoteStep q c = (if q \<noteq> 0 then (if c = q then 0 else q) else if c = 39 \<or> c = 34 then c else 0)"

text \<open>Cut at the first semicolon outside quotes; the quote left open at the cut.\<close>

fun cut :: "byte \<Rightarrow> bytes \<Rightarrow> bytes \<times> byte \<times> bytes" where
  "cut q [] = ([], q, [])"
| "cut q (c # cs) =
     (if q = 0 \<and> c = 59 then ([], 0, c # cs)
      else let (body, q', rest) = cut (quoteStep q c) cs in (c # body, q', rest))"

datatype ending = Finished | Unfinished | Stuck

lemma cut_append: "cut q w = (body, q', rest) \<Longrightarrow> w = body @ rest"
  by (induction q w arbitrary: body rule: cut.induct) (auto split: if_splits prod.splits)

text \<open>The statements of a text, why the cutting stops, and what is left of the text.\<close>

function statements :: "bytes \<Rightarrow> bytes list \<times> ending \<times> bytes" where
  "statements w =
     (let w = dropWhile isSpace w in
      if w = [] then ([], Finished, w)
      else case cut 0 w of
        (body, q, rest) \<Rightarrow>
          if q \<noteq> 0 then ([], Unfinished, w)
          else if body = [] then ([], Stuck, w)
          else if rest = [] then ([], Unfinished, w)
          else let (stmts, e, left) = statements (tl rest) in ((body @ [59]) # stmts, e, left))"
  by pat_completeness auto

termination
proof (relation "measure length")
  fix w x xa y xb ya
  assume x: "x = dropWhile isSpace w" "(xa, y) = cut 0 x" "(xb, ya) = y" "ya \<noteq> []"
  then have "x = xa @ ya" using cut_append [of 0 x xa xb ya] by simp
  then have "length (tl ya) < length x" using x(4) by (cases ya) auto
  then show "(tl ya, w) \<in> measure length"
    using length_dropWhile_le [of isSpace w] x(1) by simp
qed simp

declare statements.simps [simp del]

lemma cut_rest: "cut q w = (body, q', rest) \<Longrightarrow> rest = [] \<or> q' = 0 \<and> hd rest = 59"
  by (induction q w arbitrary: body rule: cut.induct) (auto split: if_splits prod.splits)

lemma scanWhile_drop:
  "i \<le> length inp \<Longrightarrow> \<exists>j. scanWhile P inp i = Some j \<and> i \<le> j \<and> j \<le> length inp \<and> drop j inp = dropWhile P (drop i inp)"
proof (induction P inp i rule: scanWhile.induct)
  case (1 P inp i)
  show ?case
  proof (cases "i < length inp")
    case True
    then have d: "drop i inp = inp ! i # drop (Suc i) inp" by (rule Cons_nth_drop_Suc [symmetric])
    show ?thesis
    proof (cases "P (inp ! i)")
      case P: True
      have "scanWhile P inp i = scanWhile P inp (i + 1)" using True P by (subst scanWhile.simps) simp
      then show ?thesis using 1(1) [of "inp ! i"] True P d by auto
    next
      case False
      then show ?thesis using True d by (subst scanWhile.simps) simp
    qed
  next
    case False
    then show ?thesis using 1 by (subst scanWhile.simps) simp
  qed
qed

lemma scanStmt_cut:
  "i \<le> length inp \<Longrightarrow> cut q (drop i inp) = (body, q', rest) \<Longrightarrow> scanStmt inp i q = Some (i + length body, q')"
proof (induction inp i q arbitrary: body rule: scanStmt.induct)
  case (1 inp i q)
  show ?case
  proof (cases "i < length inp")
    case True
    then have d: "drop i inp = inp ! i # drop (Suc i) inp" by (rule Cons_nth_drop_Suc [symmetric])
    show ?thesis
      using 1 True by (subst scanStmt.simps) (auto simp: d quoteStep_def split: if_splits prod.splits)
  next
    case False
    then show ?thesis using 1 by (subst scanStmt.simps) simp
  qed
qed

definition left_of :: "StmtScanner \<Rightarrow> bytes" where
  "left_of s = drop (s_idx s) (s_input s)"

text \<open>The scanner moved so that \<open>w\<close> is left.\<close>

definition at :: "StmtScanner \<Rightarrow> bytes \<Rightarrow> StmtScanner" where
  "at s w = s\<lparr>s_idx := length (s_input s) - length w\<rparr>"

lemma left_of_at: "s_idx s \<le> length (s_input s) \<Longrightarrow> suffix w (left_of s) \<Longrightarrow>
    left_of (at s w) = w \<and> s_idx (at s w) \<le> length (s_input (at s w)) \<and> at (at s w) v = at s v"
proof -
  assume "s_idx s \<le> length (s_input s)" "suffix w (left_of s)"
  then obtain u where u: "drop (s_idx s) (s_input s) = u @ w" by (auto simp: suffix_def left_of_def)
  then have "s_input s = (take (s_idx s) (s_input s) @ u) @ w"
    by (metis append.assoc append_take_drop_id)
  then have "drop (length (s_input s) - length w) (s_input s) = w"
    by (metis append_eq_conv_conj diff_add_inverse2 length_append)
  then show ?thesis by (simp add: at_def left_of_def)
qed

text \<open>One call of the scanner in terms of the text that is left.\<close>

lemma NextStmtStr_cut:
  assumes "s_idx s \<le> length (s_input s)" "w = dropWhile isSpace (left_of s)" "cut 0 w = (body, q, rest)"
  shows "NextStmtStr s = Some
    (if w = [] then (Inr None, at s w)
     else if q \<noteq> 0 then (Inl ErrStmtIncomplete, at s w)
     else if body = [] then (Inl ErrStmtEmpty, at s w)
     else if rest = [] then (Inl ErrStmtIncomplete, at s w)
     else (Inr (Some (body @ [59])), at s (tl rest)))"
proof -
  obtain i where sc: "scanWhile isSpace (s_input s) (s_idx s) = Some i"
    and i: "i \<le> length (s_input s)" "drop i (s_input s) = w"
    using scanWhile_drop [OF assms(1), of isSpace] assms(2) by (auto simp: left_of_def)
  have len: "length w = length (s_input s) - i" using i by auto
  have sk: "sSkipSpaces s = Some (at s w)"
    using len i(1) sc by (simp add: sSkipSpaces_def at_def)
  have idx: "s_idx (at s w) = i" "s_input (at s w) = s_input s" using len i(1) by (simp_all add: at_def)
  have stop: "scanStmt (s_input s) i 0 = Some (i + length body, q)"
    using scanStmt_cut [OF i(1)] assms(3) i(2) by simp
  have w: "w = body @ rest" using cut_append [OF assms(3)] .
  have take: "slice_at (s_input s) i (i + length body + 1 - i) = Some (body @ [59])" if "rest \<noteq> []"
    using that cut_rest [OF assms(3)] i w len by (cases rest) (auto simp: slice_at_def sub_def)
  have nxt: "(at s w)\<lparr>s_idx := i + length body + 1\<rparr> = at s (tl rest)" if "rest \<noteq> []"
    using that len w i(1) by (cases rest) (auto simp: at_def)
  have "i + length body = length (s_input s) \<longleftrightarrow> rest = []"
    using len w i(1) by (cases rest) auto
  moreover have "i = length (s_input s) \<longleftrightarrow> w = []" using len i(1) by auto
  ultimately show ?thesis
    using stop take nxt by (simp add: NextStmtStr_def sk idx Let_def)
qed

lemma suffix_cut: "cut q w = (body, q', rest) \<Longrightarrow> rest \<noteq> [] \<Longrightarrow> suffix (tl rest) w"
  using cut_append [of q w body q' rest] by (cases rest) (auto simp: suffix_def)

lemma suffix_spaces: "suffix (dropWhile isSpace w) w"
  by (metis suffix_dropWhile)

lemma statements_unfold:
  assumes "w = dropWhile isSpace v" "cut 0 w = (body, q, rest)"
  shows "statements v =
     (if w = [] then ([], Finished, w)
      else if q \<noteq> 0 then ([], Unfinished, w)
      else if body = [] then ([], Stuck, w)
      else if rest = [] then ([], Unfinished, w)
      else let (stmts, e, left) = statements (tl rest) in ((body @ [59]) # stmts, e, left))"
  using assms by (subst statements.simps) (simp add: Let_def)

lemma replScan_statements:
  assumes "s_idx s \<le> length (s_input s)" "statements (left_of s) = (stmts, e, left)"
  shows "if e = Stuck then replScan n buf s = None
    else length (left_of s) < n \<longrightarrow> replScan n buf s = Some (Some (e = Unfinished, buf @ stmts, at s left))"
  using assms
proof (induction n arbitrary: s buf stmts)
  case 0
  then show ?case by simp
next
  case (Suc n)
  define w where "w = dropWhile isSpace (left_of s)"
  obtain body q rest where c: "cut 0 w = (body, q, rest)" by (cases "cut 0 w") auto
  note next_eq = NextStmtStr_cut [OF Suc.prems(1) w_def c]
  note stmts_eq = statements_unfold [OF w_def c]
  have sufw: "suffix w (left_of s)" unfolding w_def by (rule suffix_spaces)
  show ?case
  proof (cases "w \<noteq> [] \<and> q = 0 \<and> body \<noteq> [] \<and> rest \<noteq> []")
    case True
    have suf: "suffix (tl rest) (left_of s)"
      using suffix_cut [OF c] True sufw by (metis suffix_order.trans)
    note at = left_of_at [OF Suc.prems(1) suf]
    obtain stmts' where st: "statements (tl rest) = (stmts', e, left)" "stmts = (body @ [59]) # stmts'"
      using Suc.prems(2) stmts_eq True by (auto split: prod.splits)
    have "length (tl rest) < length (left_of s)"
      using cut_append [OF c] True sufw by (cases rest) (auto simp: suffix_def)
    then show ?thesis
      using Suc.IH [of "at s (tl rest)" stmts' "buf @ [body @ [59]]"] at st next_eq True
      by (auto split: if_splits)
  next
    case False
    show ?thesis
    proof (cases "w \<noteq> [] \<and> q = 0 \<and> body = []")
      case stuck: True
      then have e: "e = Stuck" using Suc.prems(2) stmts_eq by auto
      have r: "replScan (Suc n) buf s = replScan n buf (at s w)" using next_eq stuck by simp
      have "dropWhile isSpace w = w" unfolding w_def by simp
      then have "statements w = ([], Stuck, w)"
        using statements_unfold [of w w] c stuck by simp
      then show ?thesis
        using Suc.IH [of "at s w"] left_of_at [OF Suc.prems(1) sufw] e r Suc.prems(2) stuck stmts_eq by auto
    next
      case notstuck: False
      then show ?thesis
        using False next_eq stmts_eq Suc.prems(2) by (auto split: if_splits)
    qed
  qed
qed

section \<open>Input that arrives in pieces\<close>

lemma cut_more: "cut q w = (body, q', rest) \<Longrightarrow> rest \<noteq> [] \<Longrightarrow> cut q (w @ x) = (body, q', rest @ x)"
  by (induction q w arbitrary: body rule: cut.induct) (auto split: if_splits prod.splits)

lemma statements_spaces: "statements (dropWhile isSpace w @ x) = statements (w @ x)"
proof -
  have "dropWhile isSpace (dropWhile isSpace w @ x) = dropWhile isSpace (w @ x)"
    by (induction w) auto
  then show ?thesis by (simp add: statements.simps [of "w @ x"] statements.simps [of "dropWhile isSpace w @ x"])
qed

lemma statements_append:
  "statements w = (stmts, e, left) \<Longrightarrow> e \<noteq> Stuck \<Longrightarrow>
    statements (w @ x) = (let (stmts', e', left') = statements (left @ x) in (stmts @ stmts', e', left'))"
proof (induction w arbitrary: stmts rule: statements.induct)
  case (1 v)
  define w where "w = dropWhile isSpace v"
  obtain body q rest where c: "cut 0 w = (body, q, rest)" by (cases "cut 0 w") auto
  note eq = statements_unfold [OF w_def c]
  show ?case
  proof (cases "w \<noteq> [] \<and> q = 0 \<and> body \<noteq> [] \<and> rest \<noteq> []")
    case False
    then have "stmts = [] \<and> left = w" using 1(2,3) eq by (auto split: if_splits)
    then show ?thesis using statements_spaces [of v x] by (simp add: w_def split: prod.split)
  next
    case True
    obtain stmts' where st: "statements (tl rest) = (stmts', e, left)" "stmts = (body @ [59]) # stmts'"
      using 1(2) eq True by (auto split: prod.splits)
    have IH: "statements (tl rest @ x) =
        (let (stmts'', e', left') = statements (left @ x) in (stmts' @ stmts'', e', left'))"
      using 1(1) [OF w_def _ c [symmetric] refl _ _ _ st(1) 1(3)] True by auto
    have wx: "w @ x = dropWhile isSpace (v @ x)"
      using True unfolding w_def by (metis dropWhile_append3 dropWhile_eq_Nil_conv dropWhile_append1)
    have cx: "cut 0 (w @ x) = (body, q, rest @ x)" using cut_more [OF c] True by simp
    have "statements (v @ x) = (let (stmts, e, left) = statements (tl (rest @ x)) in ((body @ [59]) # stmts, e, left))"
      using statements_unfold [OF wx cx] True by simp
    then show ?thesis using IH st(2) True by (auto split: prod.splits)
  qed
qed

lemma statements_suffix: "statements w = (stmts, e, left) \<Longrightarrow> suffix left w"
proof (induction w arbitrary: stmts rule: statements.induct)
  case (1 v)
  define w where "w = dropWhile isSpace v"
  obtain body q rest where c: "cut 0 w = (body, q, rest)" by (cases "cut 0 w") auto
  note eq = statements_unfold [OF w_def c]
  have sufw: "suffix w v" unfolding w_def by (rule suffix_spaces)
  show ?case
  proof (cases "w \<noteq> [] \<and> q = 0 \<and> body \<noteq> [] \<and> rest \<noteq> []")
    case False
    then show ?thesis using 1(2) eq sufw by (auto split: if_splits)
  next
    case True
    obtain stmts' where st: "statements (tl rest) = (stmts', e, left)"
      using 1(2) eq True by (auto split: prod.splits)
    have "suffix left (tl rest)" using 1(1) [OF w_def _ c [symmetric] refl _ _ _ st] True by auto
    then show ?thesis using suffix_cut [OF c] True sufw by (metis suffix_order.trans)
  qed
qed

text \<open>
  C38: The reading loop finds the statements, and when it ends. If no statement of the text typed so
  far is empty, the loop returns without a panic: it buffers exactly the statements of the reference, which
  cuts the text after each semicolon outside quotes, says whether the text ends inside a
  statement, and leaves the scanner at the rest. If the text contains an empty statement, a
  lone semicolon, the loop never returns, whatever the fuel: \<^verbatim>\<open>NextStmtStr\<close> reports
  \<^verbatim>\<open>ErrStmtEmpty\<close> without moving and the loop continues.
\<close>

theorem repl_scan_decided:
  assumes "s_idx s \<le> length (s_input s)" "statements (left_of s) = (stmts, e, left)"
  shows "if e = Stuck then \<forall>n. replScan n buf s = None
    else \<forall>n > length (left_of s). replScan n buf s = Some (Some (e = Unfinished, buf @ stmts, at s left))"
  using replScan_statements [OF assms] by (cases "e = Stuck") auto

theorem repl_scan_decided_witness:
  "replScan 30 [] (sAppend NewStmtScanner (lit ''a \";\";b'')) =
     Some (Some (True, [lit ''a \";\";''], sAppend NewStmtScanner (lit ''a \";\";b'')\<lparr>s_idx := 6\<rparr>)) \<and>
   (\<forall>n. replScan n [] (sAppend NewStmtScanner (lit ''a; ;'')) = None)"
proof -
  let ?s = "sAppend NewStmtScanner (lit ''a \";\";b'')" and ?t = "sAppend NewStmtScanner (lit ''a; ;'')"
  have "statements (left_of ?s) = ([lit ''a \";\";''], Unfinished, lit ''b'')" by code_simp
  moreover have "statements (left_of ?t) = ([lit ''a;''], Stuck, lit '';'')" by code_simp
  moreover have "length (left_of ?s) < 30" "at ?s (lit ''b'') = ?s\<lparr>s_idx := 6\<rparr>"
    by (simp_all add: left_of_def sAppend_def NewStmtScanner_def at_def)
  moreover have "s_idx ?s \<le> length (s_input ?s)" "s_idx ?t \<le> length (s_input ?t)"
    by (simp_all add: sAppend_def NewStmtScanner_def)
  ultimately show ?thesis
    using repl_scan_decided [of ?s _ _ _ "[]"] repl_scan_decided [of ?t _ _ _ "[]"] by fastforce
qed

text \<open>
  C39: Reading in pieces. When a line ends inside a statement, the statements found after the next
  line has been appended are those found by scanning both lines at once: the scanner keeps
  the rest, loses nothing and reports nothing twice.
\<close>

theorem repl_scan_pieces:
  assumes "s_idx s \<le> length (s_input s)" "replScan n buf s = Some (Some (True, buf', s'))"
    "length (left_of s) + length line < m"
  shows "replLine m line buf' s' = replLine m line buf s"
proof -
  obtain stmts e left where st: "statements (left_of s) = (stmts, e, left)"
    by (cases "statements (left_of s)") auto
  have fuel: "replScan n buf s \<noteq> None \<Longrightarrow> replScan (n + k) buf s = replScan n buf s" for n k buf s
    by (induction n buf s rule: replScan.induct)
       (auto split: prod.splits sum.splits scan_error.splits option.splits)
  have "e \<noteq> Stuck"
    using replScan_statements [OF assms(1) st, of n buf] assms(2) by (cases "e = Stuck") auto
  then have "replScan (n + Suc (length (left_of s))) buf s = Some (Some (e = Unfinished, buf @ stmts, at s left))"
    using replScan_statements [OF assms(1) st, of "n + Suc (length (left_of s))" buf] by auto
  then have e: "e = Unfinished" "buf' = buf @ stmts" "s' = at s left"
    using fuel [of n buf s "Suc (length (left_of s))"] assms(2)
    by (simp_all del: replScan.simps add_Suc_right)
  have suf: "suffix left (left_of s)" using statements_suffix [OF st] .
  note at = left_of_at [OF assms(1) suf]
  obtain stmts2 e2 left2 where st2: "statements (left @ line) = (stmts2, e2, left2)"
    by (cases "statements (left @ line)") auto
  have app: "left_of (sAppend t line) = left_of t @ line" "s_idx (sAppend t line) \<le> length (s_input (sAppend t line))"
    if "s_idx t \<le> length (s_input t)" for t
    using that by (simp_all add: left_of_def sAppend_def)
  have 1: "statements (left_of (sAppend s line)) = (stmts @ stmts2, e2, left2)"
    using statements_append [OF st, of line] e(1) st2 app [OF assms(1)] by simp
  have 2: "statements (left_of (sAppend s' line)) = (stmts2, e2, left2)"
    using st2 app [of s'] at e(3) by simp
  have same: "at (sAppend s line) w = at (sAppend s' line) w" for w
    by (simp add: at_def sAppend_def e(3))
  have "length left \<le> length (left_of s)" using suf by (auto simp: suffix_def)
  then have len: "length (left_of (sAppend s line)) < m" "length (left_of (sAppend s' line)) < m"
    using assms(3) app [of s'] at e(3) app [OF assms(1)] by auto
  show ?thesis
    using replScan_statements [OF app(2) [OF assms(1)] 1, of m buf] same len e(2)
      replScan_statements [OF _ 2, of m buf'] app(2) [of s'] at e(3)
    by (cases "e2 = Stuck") (simp_all add: replLine_def)
qed

theorem repl_scan_pieces_witness:
  "replLine 40 (lit ''c;'') [lit ''a;''] \<lparr>s_input = lit ''a;b'', s_idx = 2\<rparr> =
     replLine 40 (lit ''c;'') [] \<lparr>s_input = lit ''a;b'', s_idx = 0\<rparr>"
proof (rule repl_scan_pieces [where n = 9])
  show "replScan 9 [] \<lparr>s_input = lit ''a;b'', s_idx = 0\<rparr> =
      Some (Some (True, [lit ''a;''], \<lparr>s_input = lit ''a;b'', s_idx = 2\<rparr>))"
    by code_simp
qed (simp_all add: left_of_def)

text \<open>
  Two consequences of how the loop feeds the scanner. The lines come without their line ends, so
  a word at the end of a line and one at the start of the next are read as one word. The scanner
  does not know the escapes of the parser, so a string that the parser accepts can hide the end
  of its statement.
\<close>

lemma lines_are_glued:
  "(case replLine 30 (lit ''begin'') [] NewStmtScanner of
      Some (Some (_, buf, s)) \<Rightarrow> map_option (map_option (\<lambda>(i, b, _). (i, b))) (replLine 30 (lit ''work;'') buf s)) =
    Some (Some (False, [lit ''beginwork;'']))"
  by code_simp

lemma escape_hides_end:
  "map_option (map_option (\<lambda>(i, b, _). (i, b))) (replScan 30 [] (sAppend NewStmtScanner (lit [CHR 34, CHR 92, CHR 34, CHR 34, CHR 59]))) =
     Some (Some (True, []))"
  "tryStr zero_node (NewParser (lit [CHR 34, CHR 92, CHR 34, CHR 34, CHR 59])) =
     Some (True, QLNode QL_STR 0 (lit [CHR 34]) [], \<lparr>p_input = lit [CHR 34, CHR 92, CHR 34, CHR 34, CHR 59], p_idx = 4, p_err = None\<rparr>)"
  by code_simp+

end
