(* ===== verification/Table.thy ===== *)
theory Table
  imports Transaction Schema
begin

text \<open>
  The table layer of \<^verbatim>\<open>db/table.go\<close>: reads, writes, deletions and range queries of rows inside a
  transaction, secondary indexes, the cache of table schemas and the catalogue.

  A \<^verbatim>\<open>DBTX\<close> is a key-value transaction and a pointer to the database; here the two are passed
  side by side, and an operation returns the transaction (and the database where it can change
  the cache). \<open>fuel\<close> bounds the height of the trees as in theory \<open>Transaction\<close>. \<^verbatim>\<open>dbGet\<close> and
  \<^verbatim>\<open>Scanner.Deref\<close> call each other; their first argument bounds the depth of that recursion,
  which is two. \<^verbatim>\<open>encoding/json\<close> is a pair of functions \<open>json\<close>.
\<close>

section \<open>State and errors\<close>

record DB =
  db_path :: string
  db_kv :: KV
  db_tables :: "bytes \<rightharpoonup> TableDef"

datatype db_error = Msg bytes | UpdateError update_error | DeleteError limit_error

definition db_Begin :: "DB \<Rightarrow> KVTX \<Rightarrow> DB \<times> KVTX" where
  "db_Begin db tx = (let (kv, tx) = kv_Begin (db_kv db) tx in (db\<lparr>db_kv := kv\<rparr>, tx))"

definition db_Commit :: "((nat \<rightharpoonup> bytes) \<Rightarrow> nat list) \<Rightarrow> nat \<Rightarrow> nat \<Rightarrow> DB \<Rightarrow> KVTX \<Rightarrow> (commit_error option \<times> DB \<times> KVTX) option" where
  "db_Commit mo steps fuel db tx = do {
     (err, kv, tx) \<leftarrow> kv_Commit mo steps fuel (db_kv db) tx;
     Some (err, db\<lparr>db_kv := kv\<rparr>, tx)
   }"

definition db_Abort :: "DB \<Rightarrow> KVTX \<Rightarrow> (DB \<times> KVTX) option" where
  "db_Abort db tx = do {
     (kv, tx) \<leftarrow> kv_Abort (db_kv db) tx;
     Some (db\<lparr>db_kv := kv\<rparr>, tx)
   }"

definition db_Open :: "DB \<Rightarrow> (go_error option \<times> DB) option" where
  "db_Open db = do {
     let db = db\<lparr>db_tables := Map.empty\<rparr>;
     (err, kv) \<leftarrow> kv_Open (db_kv db);
     Some (err, db\<lparr>db_kv := kv\<rparr>)
   }"

definition db_Close :: "DB \<Rightarrow> DB option" where
  "db_Close db = do { kv \<leftarrow> kv_Close (db_kv db); Some (db\<lparr>db_kv := kv\<rparr>) }"

section \<open>Range queries\<close>

record Scanner =
  Cmp1 :: int
  Cmp2 :: int
  SKey1 :: Record
  SKey2 :: Record
  sc_tdef :: TableDef
  sc_index :: nat
  sc_iter :: "CombinedIter option"

text \<open>\<^verbatim>\<open>covered\<close>: the key's columns are the first columns of the index.\<close>

definition covered :: "bytes list \<Rightarrow> bytes list \<Rightarrow> bool" where
  "covered key index = (length index \<ge> length key \<and> take (length key) index = key)"

fun IndexFunc :: "('a \<Rightarrow> bool) \<Rightarrow> 'a list \<Rightarrow> nat option" where
  "IndexFunc P [] = None"
| "IndexFunc P (x # xs) = (if P x then Some 0 else map_option Suc (IndexFunc P xs))"

definition dbScan :: "KV \<Rightarrow> nat \<Rightarrow> KVTX \<Rightarrow> TableDef \<Rightarrow> Scanner \<Rightarrow> (db_error option \<times> Scanner \<times> KVTX) option" where
  "dbScan kv fuel tx tdef req =
     (if \<not> (Cmp1 req > 0 \<and> Cmp2 req < 0 \<or> Cmp2 req > 0 \<and> Cmp1 req < 0)
      then Some (Some (Msg (lit ''bad range'')), req, tx)
      else do {
        e1 \<leftarrow> checkTypes tdef (SKey1 req);
        (case e1 of Some e \<Rightarrow> Some (Some (Msg e), req, tx) | None \<Rightarrow> do {
          e2 \<leftarrow> checkTypes tdef (SKey2 req);
          (case e2 of Some e \<Rightarrow> Some (Some (Msg e), req, tx) | None \<Rightarrow>
            let req = req\<lparr>sc_tdef := tdef\<rparr> in
            (case IndexFunc (\<lambda>index. covered (RCols (SKey1 req)) index \<and> covered (RCols (SKey2 req)) index) (Indexes tdef) of
               None \<Rightarrow> Some (Some (Msg (lit ''no index'')), req, tx)
             | Some i \<Rightarrow> do {
                 prefx \<leftarrow> list_at (Prefixes tdef) i;
                 keyStart \<leftarrow> encodeKeyPartial [] prefx (RVals (SKey1 req)) (Cmp1 req);
                 keyEnd \<leftarrow> encodeKeyPartial [] prefx (RVals (SKey2 req)) (Cmp2 req);
                 (it, tx) \<leftarrow> tx_Seek kv fuel tx keyStart (Cmp1 req) keyEnd (Cmp2 req);
                 Some (None, req\<lparr>sc_index := i, sc_iter := Some it\<rparr>, tx)
               }))
        })
      })"

definition sc_Valid :: "Scanner \<Rightarrow> bool option" where
  "sc_Valid sc = do { it \<leftarrow> sc_iter sc; ci_Valid it }"

definition sc_Next :: "KV \<Rightarrow> KVTX \<Rightarrow> Scanner \<Rightarrow> Scanner option" where
  "sc_Next kv tx sc = do { it \<leftarrow> sc_iter sc; it \<leftarrow> ci_Next kv tx it; Some (sc\<lparr>sc_iter := Some it\<rparr>) }"

text \<open>Cells of the types of some columns; an unknown column panics.\<close>

definition typed_cells :: "TableDef \<Rightarrow> bytes list \<Rightarrow> Value list option" where
  "typed_cells tdef cols = those (map (\<lambda>c. do {
     j \<leftarrow> slices_Index (Cols tdef) c;
     t \<leftarrow> list_at (Types tdef) j;
     Some (zero_value t)
   }) cols)"

text \<open>\<^verbatim>\<open>*idxRec.Get(c)\<close> for several columns.\<close>

definition deref_cols :: "Record \<Rightarrow> bytes list \<Rightarrow> Value list option" where
  "deref_cols rec cols = those (map (\<lambda>c. do { v \<leftarrow> RGet rec c; v }) cols)"

fun dbGet :: "nat \<Rightarrow> KV \<Rightarrow> nat \<Rightarrow> KVTX \<Rightarrow> TableDef \<Rightarrow> Record \<Rightarrow> ((db_error + bool) \<times> Record \<times> KVTX) option"
  and sc_Deref :: "nat \<Rightarrow> KV \<Rightarrow> nat \<Rightarrow> KVTX \<Rightarrow> Scanner \<Rightarrow> Record \<Rightarrow> (Record \<times> KVTX) option" where
  "dbGet 0 kv fuel tx tdef rec = None"
| "dbGet (Suc d) kv fuel tx tdef rec = do {
     pk \<leftarrow> list_at (Indexes tdef) 0;
     r \<leftarrow> getValues tdef rec pk;
     (case r of
        Inl e \<Rightarrow> Some (Inl (Msg e), rec, tx)
      | Inr values \<Rightarrow> do {
          let keyRec = \<lparr>RCols = pk, RVals = values\<rparr>;
          (err, sc, tx) \<leftarrow> dbScan kv fuel tx tdef
            \<lparr>Cmp1 = CMP_GE, Cmp2 = CMP_LE, SKey1 = keyRec, SKey2 = keyRec,
             sc_tdef = tdef, sc_index = 0, sc_iter = None\<rparr>;
          (case err of
             Some e \<Rightarrow> Some (Inl e, rec, tx)
           | None \<Rightarrow> do {
               valid \<leftarrow> sc_Valid sc;
               (if \<not> valid then Some (Inr False, rec, tx)
                else do {
                  (rec, tx) \<leftarrow> sc_Deref d kv fuel tx sc rec;
                  Some (Inr True, rec, tx)
                })
             })
        })
   }"
| "sc_Deref d kv fuel tx sc rec = do {
     valid \<leftarrow> sc_Valid sc;
     _ \<leftarrow> go_assert valid;
     let tdef = sc_tdef sc;
     pk \<leftarrow> list_at (Indexes tdef) 0;
     rest \<leftarrow> nonPrimaryKeyCols tdef;
     let cols = pk @ rest;
     cells \<leftarrow> typed_cells tdef cols;
     it \<leftarrow> sc_iter sc;
     (key, val) \<leftarrow> ci_Deref it;
     let npk = length pk;
     (if sc_index sc = 0 then do {
        kvals \<leftarrow> decodeKey key (take npk cells);
        vvals \<leftarrow> decodeValues val (drop npk cells);
        Some (\<lparr>RCols = cols, RVals = kvals @ vvals\<rparr>, tx)
      }
      else do {
        _ \<leftarrow> go_assert (length val = 0);
        index \<leftarrow> list_at (Indexes tdef) (sc_index sc);
        icells \<leftarrow> typed_cells tdef index;
        ivals \<leftarrow> decodeKey key icells;
        pkvals \<leftarrow> deref_cols \<lparr>RCols = index, RVals = ivals\<rparr> pk;
        (case d of
           0 \<Rightarrow> None
         | Suc d' \<Rightarrow> do {
             (r, rec, tx) \<leftarrow> dbGet d' kv fuel tx tdef \<lparr>RCols = cols, RVals = pkvals @ drop npk cells\<rparr>;
             _ \<leftarrow> go_assert (r = Inr True);
             Some (rec, tx)
           })
      })
   }"

section \<open>Writes\<close>

definition INDEX_ADD :: nat where "INDEX_ADD = 1"
definition INDEX_DEL :: nat where "INDEX_DEL = 2"

text \<open>
  The loop of \<^verbatim>\<open>indexOp\<close> over the secondary indexes and their prefixes from position \<open>i\<close>: the
  keys of a row are added or removed. The result is the error, if any.
\<close>

fun indexLoop :: "KV \<Rightarrow> nat \<Rightarrow> KVTX \<Rightarrow> TableDef \<Rightarrow> nat \<Rightarrow> Record \<Rightarrow> nat \<Rightarrow> bytes list list \<Rightarrow> (db_error option \<times> KVTX) option" where
  "indexLoop kv fuel tx tdef op rec i [] = Some (None, tx)"
| "indexLoop kv fuel tx tdef op rec i (index # rest) = do {
     r \<leftarrow> getValues tdef rec index;
     (case r of Inl e \<Rightarrow> None | Inr values \<Rightarrow> do {
        prefx \<leftarrow> list_at (Prefixes tdef) i;
        key \<leftarrow> encodeKey [] prefx values;
        (err, tx) \<leftarrow>
          (if op = INDEX_ADD then do {
             (res, req, tx) \<leftarrow> tx_Update kv fuel tx (mk_update key [] MODE_UPSERT);
             (case res of
                Inl e \<Rightarrow> Some (Some (UpdateError e), tx)
              | Inr b \<Rightarrow> do { _ \<leftarrow> go_assert (Added req); Some (None, tx) })
           }
           else if op = INDEX_DEL then do {
             (res, req, tx) \<leftarrow> tx_Del kv fuel tx (mk_delete key);
             (case res of
                Inl e \<Rightarrow> Some (Some (DeleteError e), tx)
              | Inr deleted \<Rightarrow> do { _ \<leftarrow> go_assert deleted; Some (None, tx) })
           }
           else None);
        (case err of
           Some e \<Rightarrow> Some (Some e, tx)
         | None \<Rightarrow> indexLoop kv fuel tx tdef op rec (i + 1) rest)
     })
   }"

definition indexOp :: "KV \<Rightarrow> nat \<Rightarrow> KVTX \<Rightarrow> TableDef \<Rightarrow> nat \<Rightarrow> Record \<Rightarrow> (db_error option \<times> KVTX) option" where
  "indexOp kv fuel tx tdef op rec = indexLoop kv fuel tx tdef op rec 1 (drop 1 (Indexes tdef))"

record DBUpdateReq =
  d_Record :: Record
  d_Mode :: nat
  d_Updated :: bool
  d_Added :: bool

definition mk_dbreq :: "Record \<Rightarrow> nat \<Rightarrow> DBUpdateReq" where
  "mk_dbreq rec mode = \<lparr>d_Record = rec, d_Mode = mode, d_Updated = False, d_Added = False\<rparr>"

definition dbUpdate :: "KV \<Rightarrow> nat \<Rightarrow> KVTX \<Rightarrow> TableDef \<Rightarrow> DBUpdateReq \<Rightarrow> ((db_error + bool) \<times> DBUpdateReq \<times> KVTX) option" where
  "dbUpdate kv fuel tx tdef dbReq = do {
     pk \<leftarrow> list_at (Indexes tdef) 0;
     rest \<leftarrow> nonPrimaryKeyCols tdef;
     let cols = pk @ rest;
     r \<leftarrow> getValues tdef (d_Record dbReq) cols;
     (case r of
        Inl e \<Rightarrow> Some (Inl (Msg e), dbReq, tx)
      | Inr values \<Rightarrow> do {
          let npk = length pk;
          prefx \<leftarrow> list_at (Prefixes tdef) 0;
          key \<leftarrow> encodeKey [] prefx (take npk values);
          val \<leftarrow> encodeValues [] (drop npk values);
          (res, req, tx) \<leftarrow> tx_Update kv fuel tx (mk_update key val (d_Mode dbReq));
          (case res of
             Inl e \<Rightarrow> Some (Inl (UpdateError e), dbReq, tx)
           | Inr _ \<Rightarrow> do {
               let dbReq = dbReq\<lparr>d_Added := Added req, d_Updated := Updated req\<rparr>;
               (err, tx) \<leftarrow>
                 (if Updated req \<and> \<not> Added req then do {
                    old \<leftarrow> decodeValues (Old req) (drop npk values);
                    indexOp kv fuel tx tdef INDEX_DEL \<lparr>RCols = cols, RVals = take npk values @ old\<rparr>
                  } else Some (None, tx));
               (case err of
                  Some e \<Rightarrow> Some (Inl e, dbReq, tx)
                | None \<Rightarrow> do {
                    (err, tx) \<leftarrow>
                      (if Updated req then indexOp kv fuel tx tdef INDEX_ADD (d_Record dbReq) else Some (None, tx));
                    (case err of
                       Some e \<Rightarrow> Some (Inl e, dbReq, tx)
                     | None \<Rightarrow> Some (Inr (Updated req), dbReq, tx))
                  })
             })
        })
   }"

definition dbDelete :: "KV \<Rightarrow> nat \<Rightarrow> KVTX \<Rightarrow> TableDef \<Rightarrow> Record \<Rightarrow> ((db_error + bool) \<times> KVTX) option" where
  "dbDelete kv fuel tx tdef rec = do {
     pk \<leftarrow> list_at (Indexes tdef) 0;
     r \<leftarrow> getValues tdef rec pk;
     (case r of
        Inl e \<Rightarrow> Some (Inr False, tx)
      | Inr values \<Rightarrow> do {
          prefx \<leftarrow> list_at (Prefixes tdef) 0;
          key \<leftarrow> encodeKey [] prefx values;
          (res, req, tx) \<leftarrow> tx_Del kv fuel tx (mk_delete key);
          (case res of
             Inl e \<Rightarrow> Some (Inl (DeleteError e), tx)
           | Inr deleted \<Rightarrow>
               (if \<not> deleted then Some (Inr False, tx)
                else do {
                  rest \<leftarrow> nonPrimaryKeyCols tdef;
                  cells \<leftarrow> typed_cells tdef rest;
                  old \<leftarrow> decodeValues (DOld req) cells;
                  (err, tx) \<leftarrow> indexOp kv fuel tx tdef INDEX_DEL \<lparr>RCols = Cols tdef, RVals = values @ old\<rparr>;
                  (case err of
                     Some e \<Rightarrow> Some (Inl e, tx)
                   | None \<Rightarrow> Some (Inr True, tx))
                }))
        })
   }"

section \<open>The catalogue\<close>

definition TABLE_PREFIX_MIN :: nat where "TABLE_PREFIX_MIN = 100"

definition TDEF_META :: TableDef where
  "TDEF_META = \<lparr>Name = lit ''@meta'', Types = [TYPE_BYTES, TYPE_BYTES], Cols = [lit ''key'', lit ''val''],
     Indexes = [[lit ''key'']], Prefixes = [1]\<rparr>"

definition TDEF_TABLE :: TableDef where
  "TDEF_TABLE = \<lparr>Name = lit ''@table'', Types = [TYPE_BYTES, TYPE_BYTES], Cols = [lit ''name'', lit ''def''],
     Indexes = [[lit ''name'']], Prefixes = [2]\<rparr>"

definition INTERNAL_TABLES :: "bytes \<rightharpoonup> TableDef" where
  "INTERNAL_TABLES = map_of [(Name TDEF_META, TDEF_META), (Name TDEF_TABLE, TDEF_TABLE)]"

definition new_record :: Record where
  "new_record = \<lparr>RCols = [], RVals = []\<rparr>"

text \<open>The depth of the recursion between \<^verbatim>\<open>dbGet\<close> and \<^verbatim>\<open>Deref\<close> in a lookup by primary key.\<close>

abbreviation "get_depth \<equiv> Suc 0"

record json =
  json_Marshal :: "TableDef \<Rightarrow> bytes"
  json_Unmarshal :: "bytes \<Rightarrow> TableDef option"

definition getTableDefDB :: "json \<Rightarrow> KV \<Rightarrow> nat \<Rightarrow> KVTX \<Rightarrow> bytes \<Rightarrow> (TableDef option \<times> KVTX) option" where
  "getTableDefDB json kv fuel tx name = do {
     (r, rec, tx) \<leftarrow> dbGet get_depth kv fuel tx TDEF_TABLE (AddStr new_record (lit ''name'') name);
     (case r of
        Inl e \<Rightarrow> None
      | Inr ok \<Rightarrow>
          (if \<not> ok then Some (None, tx)
           else do {
             v \<leftarrow> RGet rec (lit ''def'');
             v \<leftarrow> v;
             tdef \<leftarrow> json_Unmarshal json (Str v);
             Some (Some tdef, tx)
           }))
   }"

definition getTableDef :: "json \<Rightarrow> nat \<Rightarrow> DB \<Rightarrow> KVTX \<Rightarrow> bytes \<Rightarrow> (TableDef option \<times> DB \<times> KVTX) option" where
  "getTableDef json fuel db tx name =
     (case INTERNAL_TABLES name of
        Some tdef \<Rightarrow> Some (Some tdef, db, tx)
      | None \<Rightarrow>
          (case db_tables db name of
             Some tdef \<Rightarrow> Some (Some tdef, db, tx)
           | None \<Rightarrow> do {
               (tdef, tx) \<leftarrow> getTableDefDB json (db_kv db) fuel tx name;
               (case tdef of
                  None \<Rightarrow> Some (None, db, tx)
                | Some tdef \<Rightarrow> Some (Some tdef, db\<lparr>db_tables := (db_tables db)(name \<mapsto> tdef)\<rparr>, tx))
             }))"

definition table_not_found :: "bytes \<Rightarrow> db_error" where
  "table_not_found table = Msg (lit ''table not found: '' @ table)"

text \<open>\<^verbatim>\<open>uint32\<close>\<close>

definition u32 :: "nat \<Rightarrow> nat" where
  "u32 n = n mod 2 ^ 32"

definition TableNew :: "json \<Rightarrow> nat \<Rightarrow> DB \<Rightarrow> KVTX \<Rightarrow> TableDef \<Rightarrow> (db_error option \<times> TableDef \<times> KVTX) option" where
  "TableNew json fuel db tx tdef = do {
     let kv = db_kv db;
     (err, tdef) \<leftarrow> tableDefChecK tdef;
     (case err of Some e \<Rightarrow> Some (Some (Msg e), tdef, tx) | None \<Rightarrow> do {
        let tableRec = AddStr new_record (lit ''name'') (Name tdef);
        (r, tableRec, tx) \<leftarrow> dbGet get_depth kv fuel tx TDEF_TABLE tableRec;
        (case r of Inl e \<Rightarrow> None | Inr ok \<Rightarrow>
          if ok then Some (Some (Msg (lit ''table exists: '' @ Name tdef)), tdef, tx)
          else do {
            (r, metaRec, tx) \<leftarrow> dbGet get_depth kv fuel tx TDEF_META (AddStr new_record (lit ''key'') (lit ''next_prefix''));
            (case r of Inl e \<Rightarrow> None | Inr ok \<Rightarrow> do {
              prefx \<leftarrow>
                (if ok then do {
                   v \<leftarrow> RGet metaRec (lit ''val'');
                   v \<leftarrow> v;
                   prefx \<leftarrow> get_le 4 (Str v) 0;
                   _ \<leftarrow> go_assert (prefx > TABLE_PREFIX_MIN);
                   Some prefx
                 } else Some TABLE_PREFIX_MIN);
              let metaRec = (if ok then metaRec else AddStr metaRec (lit ''val'') (replicate 4 0));
              _ \<leftarrow> go_assert (length (Prefixes tdef) = 0);
              let tdef = tdef\<lparr>Prefixes := map (\<lambda>i. u32 (prefx + i)) [0..<length (Indexes tdef)]\<rparr>;
              let nextPrefix = u32 (prefx + length (Indexes tdef));
              v \<leftarrow> RGet metaRec (lit ''val'');
              v \<leftarrow> v;
              buf \<leftarrow> put_le 4 (Str v) 0 nextPrefix;
              j \<leftarrow> slices_Index (RCols metaRec) (lit ''val'');
              vals \<leftarrow> list_set (RVals metaRec) j (v\<lparr>Str := buf\<rparr>);
              (r, dbReq, tx) \<leftarrow> dbUpdate kv fuel tx TDEF_META (mk_dbreq (metaRec\<lparr>RVals := vals\<rparr>) 0);
              (case r of Inl e \<Rightarrow> Some (Some e, tdef, tx) | Inr _ \<Rightarrow> do {
                 let tableRec = AddStr tableRec (lit ''def'') (json_Marshal json tdef);
                 (r, dbReq, tx) \<leftarrow> dbUpdate kv fuel tx TDEF_TABLE (mk_dbreq tableRec 0);
                 Some (case r of Inl e \<Rightarrow> Some e | Inr _ \<Rightarrow> None, tdef, tx)
              })
            })
          })
     })
   }"

section \<open>Operations by table name\<close>

definition tab_Get :: "json \<Rightarrow> nat \<Rightarrow> DB \<Rightarrow> KVTX \<Rightarrow> bytes \<Rightarrow> Record \<Rightarrow> ((db_error + bool) \<times> Record \<times> DB \<times> KVTX) option" where
  "tab_Get json fuel db tx table rec = do {
     (tdef, db, tx) \<leftarrow> getTableDef json fuel db tx table;
     (case tdef of
        None \<Rightarrow> Some (Inl (table_not_found table), rec, db, tx)
      | Some tdef \<Rightarrow> do {
          (r, rec, tx) \<leftarrow> dbGet get_depth (db_kv db) fuel tx tdef rec;
          Some (r, rec, db, tx)
        })
   }"

definition tab_Set :: "json \<Rightarrow> nat \<Rightarrow> DB \<Rightarrow> KVTX \<Rightarrow> bytes \<Rightarrow> DBUpdateReq \<Rightarrow> ((db_error + bool) \<times> DBUpdateReq \<times> DB \<times> KVTX) option" where
  "tab_Set json fuel db tx table dbReq = do {
     (tdef, db, tx) \<leftarrow> getTableDef json fuel db tx table;
     (case tdef of
        None \<Rightarrow> Some (Inl (table_not_found table), dbReq, db, tx)
      | Some tdef \<Rightarrow> do {
          (r, dbReq, tx) \<leftarrow> dbUpdate (db_kv db) fuel tx tdef dbReq;
          Some (r, dbReq, db, tx)
        })
   }"

definition tab_Insert :: "json \<Rightarrow> nat \<Rightarrow> DB \<Rightarrow> KVTX \<Rightarrow> bytes \<Rightarrow> Record \<Rightarrow> ((db_error + bool) \<times> DBUpdateReq \<times> DB \<times> KVTX) option" where
  "tab_Insert json fuel db tx table rec = tab_Set json fuel db tx table (mk_dbreq rec MODE_INSERT_ONLY)"

definition tab_Update :: "json \<Rightarrow> nat \<Rightarrow> DB \<Rightarrow> KVTX \<Rightarrow> bytes \<Rightarrow> Record \<Rightarrow> ((db_error + bool) \<times> DBUpdateReq \<times> DB \<times> KVTX) option" where
  "tab_Update json fuel db tx table rec = tab_Set json fuel db tx table (mk_dbreq rec MODE_UPDATE_ONLY)"

definition tab_Upsert :: "json \<Rightarrow> nat \<Rightarrow> DB \<Rightarrow> KVTX \<Rightarrow> bytes \<Rightarrow> Record \<Rightarrow> ((db_error + bool) \<times> DBUpdateReq \<times> DB \<times> KVTX) option" where
  "tab_Upsert json fuel db tx table rec = tab_Set json fuel db tx table (mk_dbreq rec MODE_UPSERT)"

definition tab_Delete :: "json \<Rightarrow> nat \<Rightarrow> DB \<Rightarrow> KVTX \<Rightarrow> bytes \<Rightarrow> Record \<Rightarrow> ((db_error + bool) \<times> DB \<times> KVTX) option" where
  "tab_Delete json fuel db tx table rec = do {
     (tdef, db, tx) \<leftarrow> getTableDef json fuel db tx table;
     (case tdef of
        None \<Rightarrow> Some (Inl (table_not_found table), db, tx)
      | Some tdef \<Rightarrow> do {
          (r, tx) \<leftarrow> dbDelete (db_kv db) fuel tx tdef rec;
          Some (r, db, tx)
        })
   }"

definition tab_Scan :: "json \<Rightarrow> nat \<Rightarrow> DB \<Rightarrow> KVTX \<Rightarrow> bytes \<Rightarrow> Scanner \<Rightarrow> (db_error option \<times> Scanner \<times> DB \<times> KVTX) option" where
  "tab_Scan json fuel db tx table req = do {
     (tdef, db, tx) \<leftarrow> getTableDef json fuel db tx table;
     (case tdef of
        None \<Rightarrow> Some (Some (table_not_found table), req, db, tx)
      | Some tdef \<Rightarrow> do {
          (err, req, tx) \<leftarrow> dbScan (db_kv db) fuel tx tdef req;
          Some (err, req, db, tx)
        })
   }"

end
