(* ===== verification/TableWrites.thy ===== *)
theory TableWrites
  imports Table TxOps
begin

text \<open>
  What the writes of the table layer do to the key-value map. A table is an abstract map from
  primary keys to the remaining columns; \<open>represents\<close> says that the keys of the table's prefixes
  hold exactly the rows and their index entries. The locale \<open>kv_contract\<close> is what the table
  layer relies on of a key-value transaction; inside it, inserting, updating and deleting a row
  are shown to keep rows and secondary indexes in step. It is interpreted on the model of
  \<^verbatim>\<open>KVTX\<close>.
\<close>

section \<open>Encoded rows\<close>

text \<open>A cell without the field its type does not use; expressions can leave something there.\<close>

definition norm :: "Value \<Rightarrow> Value" where
  "norm v = (if Type v = TYPE_INT64 then v\<lparr>Str := []\<rparr> else v\<lparr>I64 := 0\<rparr>)"

definition stored_type :: "Value \<Rightarrow> bool" where
  "stored_type v \<longleftrightarrow> Type v = TYPE_BYTES \<or> Type v = TYPE_INT64"

lemma norm_simps [simp]: "Type (norm v) = Type v" "enc (norm v) = enc v" "norm (norm v) = norm v"
  by (simp_all add: norm_def enc_def)

lemma norm_wf: "stored_type v \<Longrightarrow> wf_value (norm v)"
  by (auto simp: norm_def wf_value_def stored_type_def TYPE_INT64_def TYPE_BYTES_def)

lemma wf_stored: "wf_value v \<Longrightarrow> stored_type v"
  by (auto simp: wf_value_def stored_type_def)

lemma wf_norm: "wf_value v \<Longrightarrow> norm v = v"
  by (cases v) (auto simp: norm_def wf_value_def TYPE_INT64_def TYPE_BYTES_def)

lemma enc_all_norm: "enc_all (map norm vals) = enc_all vals"
  by (simp add: comp_def)

lemma encodeValues_stored: "list_all stored_type vals \<Longrightarrow> encodeValues out vals = Some (out @ enc_all vals)"
  by (induction vals arbitrary: out)
     (auto simp: stored_type_def enc_def Let_def TYPE_INT64_def TYPE_BYTES_def)

lemma encodeKey_stored: "list_all stored_type vals \<Longrightarrow> encodeKey [] p vals = Some (be_bytes 4 p @ enc_all vals)"
  by (simp add: encodeKey_def encodeValues_stored)

text \<open>Decoding into cells that already hold something.\<close>

lemma decode_one:
  assumes "wf_value v" "Type c = Type v"
  shows "\<exists>c'. norm c' = v \<and> decodeValues (enc v @ x) (c # cells) =
    do { vs \<leftarrow> decodeValues x cells; Some (c' # vs) }"
proof (cases "Type v = TYPE_INT64")
  case True
  then show ?thesis
    using assms by (intro exI [of _ "c\<lparr>I64 := I64 v\<rparr>"], cases v; cases c)
      (auto simp: enc_def slice_at_def sub_def be_val_word sign_bit_twice wf_value_def norm_def
        TYPE_INT64_def TYPE_BYTES_def)
next
  case False
  then show ?thesis
    using assms by (intro exI [of _ "c\<lparr>Str := Str v\<rparr>"], cases v; cases c)
      (auto simp: enc_def split_null_append escaped_no_null wf_value_def norm_def TYPE_INT64_def TYPE_BYTES_def)
qed

lemma decode_over:
  assumes "list_all2 (\<lambda>v c. wf_value v \<and> Type c = Type v) vals cells"
  shows "\<exists>vs. decodeValues (enc_all vals) cells = Some vs \<and> map norm vs = vals"
  using assms
proof (induction rule: list_all2_induct)
  case (Cons v vals c cells)
  then obtain vs where vs: "decodeValues (enc_all vals) cells = Some vs" "map norm vs = vals" by auto
  obtain c' where "norm c' = v" "decodeValues (enc v @ enc_all vals) (c # cells) =
      do { vs \<leftarrow> decodeValues (enc_all vals) cells; Some (c' # vs) }"
    using decode_one Cons(1) by blast
  then show ?case using vs by (intro exI [of _ "c' # vs"]) simp
qed simp

lemma cell_inj: "wf_value v \<Longrightarrow> wf_value w \<Longrightarrow> cell v = cell w \<Longrightarrow> v = w"
  by (cases v; cases w) (auto simp: wf_value_def cell_def TYPE_INT64_def TYPE_BYTES_def
    signed_word_eqI split: if_splits)

lemma enc_all_inj:
  assumes "list_all wf_value vs" "list_all wf_value ws"
  shows "enc_all vs = enc_all ws \<longleftrightarrow> vs = ws"
proof
  assume "enc_all vs = enc_all ws"
  then have "\<not> map cell vs < map cell ws" "\<not> map cell ws < map cell vs"
    using enc_all_less [OF assms] enc_all_less [OF assms(2,1)] by simp_all
  then have "map cell vs = map cell ws" by simp
  then have len: "length vs = length ws" and nth: "\<And>i. i < length vs \<Longrightarrow> cell (vs ! i) = cell (ws ! i)"
    by (metis length_map, metis length_map nth_map)
  show "vs = ws"
    by (rule nth_equalityI) (use len nth cell_inj assms in \<open>auto simp: list_all_length\<close>)
qed simp

text \<open>An encoded key, and the keys of a prefix.\<close>

definition ekey :: "nat \<Rightarrow> Value list \<Rightarrow> bytes" where
  "ekey p vals = be_bytes 4 p @ enc_all vals"

definition has_prefix :: "nat \<Rightarrow> bytes \<Rightarrow> bool" where
  "has_prefix p k \<longleftrightarrow> take 4 k = be_bytes 4 p"

lemma be_bytes_inj:
  assumes "p < 2 ^ 32" "q < 2 ^ 32" "be_bytes 4 p = be_bytes 4 q"
  shows "p = q"
proof -
  have "be_val (be_bytes 4 p) = p" "be_val (be_bytes 4 q) = q"
    using assms(1,2) by simp_all
  then show ?thesis using assms(3) by metis
qed

lemma ekey_prefix: "p < 2 ^ 32 \<Longrightarrow> q < 2 ^ 32 \<Longrightarrow> has_prefix q (ekey p vals) \<longleftrightarrow> p = q"
  using be_bytes_inj by (auto simp: has_prefix_def ekey_def)

lemma ekey_not_Nil [simp]: "ekey p vals \<noteq> []"
proof -
  have "length (be_bytes 4 p) = 4" by simp
  then show ?thesis unfolding ekey_def by (metis append_is_Nil_conv list.size(3) zero_neq_numeral)
qed

lemma ekey_norm: "ekey p (map norm vals) = ekey p vals"
  by (simp add: ekey_def comp_def)

lemma ekey_inj:
  "list_all wf_value vs \<Longrightarrow> list_all wf_value ws \<Longrightarrow> ekey p vs = ekey p ws \<longleftrightarrow> vs = ws"
  by (simp add: ekey_def enc_all_inj)

section \<open>The contract of the key-value transaction\<close>

text \<open>
  \<open>sees n M tx\<close>: the transaction presents the map \<open>M\<close> and has room for \<open>n\<close> more writes.
\<close>

locale kv_contract =
  fixes kv :: KV and fuel :: nat and sees :: "nat \<Rightarrow> (bytes \<Rightarrow> bytes option) \<Rightarrow> KVTX \<Rightarrow> bool"
  assumes weaken: "sees (Suc n) M tx \<Longrightarrow> sees n M tx"
    and update: "sees (Suc n) M tx \<Longrightarrow> small_write (SetOp (Key req) (Val req)) \<Longrightarrow>
      \<exists>res req' tx'. tx_Update kv fuel tx req = Some (res, req', tx') \<and>
        (if Mode req = MODE_INSERT_ONLY \<and> M (Key req) \<noteq> None then res = Inl DuplicateKey \<and> sees n M tx'
         else if Mode req = MODE_UPDATE_ONLY \<and> M (Key req) = None \<or> M (Key req) = Some (Val req)
         then res = Inr False \<and> req' = req \<and> sees n M tx'
         else res = Inr True \<and> Updated req' \<and> Added req' = (M (Key req) = None) \<and>
           (\<forall>v. M (Key req) = Some v \<longrightarrow> Old req' = v) \<and> sees n (M(Key req \<mapsto> Val req)) tx')"
    and delete: "sees (Suc n) M tx \<Longrightarrow> small_write (DelOp (DKey dreq)) \<Longrightarrow>
      \<exists>dreq' tx'. tx_Del kv fuel tx dreq = Some (Inr (M (DKey dreq) \<noteq> None), dreq', tx') \<and>
        (\<forall>v. M (DKey dreq) = Some v \<longrightarrow> DOld dreq' = v) \<and> sees n (M(DKey dreq := None)) tx'"
begin

lemma weaken_le: "sees m M tx \<Longrightarrow> n \<le> m \<Longrightarrow> sees n M tx"
  by (induction m) (auto simp: le_Suc_eq dest: weaken)

end

text \<open>The index keys of a row, from the index at position \<open>i\<close> on.\<close>

fun ikeys :: "TableDef \<Rightarrow> (bytes \<Rightarrow> Value) \<Rightarrow> nat \<Rightarrow> bytes list list \<Rightarrow> bytes list" where
  "ikeys tdef r i [] = []"
| "ikeys tdef r i (ix # ixs) = ekey (Prefixes tdef ! i) (map r ix) # ikeys tdef r (Suc i) ixs"

lemma ikeys_nth: "j < length ixs \<Longrightarrow> ikeys tdef r i ixs ! j = ekey (Prefixes tdef ! (i + j)) (map r (ixs ! j))"
  by (induction ixs arbitrary: i j) (auto simp: nth_Cons split: nat.split)

lemma length_ikeys [simp]: "length (ikeys tdef r i ixs) = length ixs"
  by (induction ixs arbitrary: i) auto

definition reads_cols :: "TableDef \<Rightarrow> Record \<Rightarrow> (bytes \<Rightarrow> Value) \<Rightarrow> bytes list \<Rightarrow> bool" where
  "reads_cols tdef rec r ix \<longleftrightarrow> getValues tdef rec ix = Some (Inr (map r ix)) \<and> list_all stored_type (map r ix)"

context kv_contract
begin

lemma index_add:
  assumes "sees (n + length ixs) M tx" "i + length ixs \<le> length (Prefixes tdef)"
    "\<forall>ix \<in> set ixs. reads_cols tdef rec r ix" "distinct (ikeys tdef r i ixs)"
    "\<forall>k \<in> set (ikeys tdef r i ixs). M k = None \<and> length k < 280"
  shows "\<exists>tx'. indexLoop kv fuel tx tdef INDEX_ADD rec i ixs = Some (None, tx') \<and>
    sees n (\<lambda>k. if k \<in> set (ikeys tdef r i ixs) then Some [] else M k) tx'"
  using assms
proof (induction ixs arbitrary: i M tx)
  case (Cons ix ixs)
  let ?k = "ekey (Prefixes tdef ! i) (map r ix)"
  let ?req = "mk_update ?k [] MODE_UPSERT"
  have g: "getValues tdef rec ix = Some (Inr (map r ix))" "encodeKey [] (Prefixes tdef ! i) (map r ix) = Some ?k"
    using Cons.prems(3) encodeKey_stored by (simp_all add: reads_cols_def ekey_def)
  have req: "Key ?req = ?k" "Val ?req = []" "Mode ?req = MODE_UPSERT" by (simp_all add: mk_update_def)
  have "sees (Suc (n + length ixs)) M tx" using Cons.prems(1) by simp
  moreover have "small_write (SetOp (Key ?req) (Val ?req))" using Cons.prems(5) req by simp
  ultimately obtain res req' tx1 where u: "tx_Update kv fuel tx ?req = Some (res, req', tx1)"
      "res = Inr True" "Added req'" "sees (n + length ixs) (M(?k \<mapsto> [])) tx1"
    using update [of "n + length ixs" M tx ?req] Cons.prems(5) unfolding req
    by (auto simp: MODE_UPSERT_def MODE_INSERT_ONLY_def MODE_UPDATE_ONLY_def)
  have "\<exists>tx'. indexLoop kv fuel tx1 tdef INDEX_ADD rec (Suc i) ixs = Some (None, tx') \<and>
    sees n (\<lambda>k. if k \<in> set (ikeys tdef r (Suc i) ixs) then Some [] else (M(?k \<mapsto> [])) k) tx'"
    by (rule Cons.IH [OF u(4)]) (use Cons.prems in auto)
  then obtain tx' where t: "indexLoop kv fuel tx1 tdef INDEX_ADD rec (Suc i) ixs = Some (None, tx')"
    "sees n (\<lambda>k. if k \<in> set (ikeys tdef r (Suc i) ixs) then Some [] else (M(?k \<mapsto> [])) k) tx'" by blast
  have same: "(\<lambda>k. if k \<in> set (ikeys tdef r (Suc i) ixs) then Some [] else (M(?k \<mapsto> [])) k) =
      (\<lambda>k. if k \<in> set (ikeys tdef r i (ix # ixs)) then Some [] else M k)" by (auto simp: fun_eq_iff)
  have "indexLoop kv fuel tx tdef INDEX_ADD rec i (ix # ixs) = Some (None, tx')"
    using g u t(1) Cons.prems(2) by (simp add: INDEX_ADD_def INDEX_DEL_def)
  then show ?case using t(2) unfolding same by blast
qed simp

lemma index_del:
  assumes "sees (n + length ixs) M tx" "i + length ixs \<le> length (Prefixes tdef)"
    "\<forall>ix \<in> set ixs. reads_cols tdef rec r ix" "distinct (ikeys tdef r i ixs)"
    "\<forall>k \<in> set (ikeys tdef r i ixs). M k \<noteq> None \<and> length k < 280"
  shows "\<exists>tx'. indexLoop kv fuel tx tdef INDEX_DEL rec i ixs = Some (None, tx') \<and>
    sees n (\<lambda>k. if k \<in> set (ikeys tdef r i ixs) then None else M k) tx'"
  using assms
proof (induction ixs arbitrary: i M tx)
  case (Cons ix ixs)
  let ?k = "ekey (Prefixes tdef ! i) (map r ix)"
  let ?req = "mk_delete ?k"
  have g: "getValues tdef rec ix = Some (Inr (map r ix))" "encodeKey [] (Prefixes tdef ! i) (map r ix) = Some ?k"
    using Cons.prems(3) encodeKey_stored by (simp_all add: reads_cols_def ekey_def)
  have req: "DKey ?req = ?k" by (simp add: mk_delete_def)
  have "sees (Suc (n + length ixs)) M tx" using Cons.prems(1) by simp
  moreover have "small_write (DelOp (DKey ?req))" using Cons.prems(5) req by simp
  ultimately obtain req' tx1 where u: "tx_Del kv fuel tx ?req = Some (Inr True, req', tx1)"
      "sees (n + length ixs) (M(?k := None)) tx1"
    using delete [of "n + length ixs" M tx ?req] Cons.prems(5) unfolding req by auto
  have "\<exists>tx'. indexLoop kv fuel tx1 tdef INDEX_DEL rec (Suc i) ixs = Some (None, tx') \<and>
    sees n (\<lambda>k. if k \<in> set (ikeys tdef r (Suc i) ixs) then None else (M(?k := None)) k) tx'"
    by (rule Cons.IH [OF u(2)]) (use Cons.prems in auto)
  then obtain tx' where t: "indexLoop kv fuel tx1 tdef INDEX_DEL rec (Suc i) ixs = Some (None, tx')"
    "sees n (\<lambda>k. if k \<in> set (ikeys tdef r (Suc i) ixs) then None else (M(?k := None)) k) tx'" by blast
  have same: "(\<lambda>k. if k \<in> set (ikeys tdef r (Suc i) ixs) then None else (M(?k := None)) k) =
      (\<lambda>k. if k \<in> set (ikeys tdef r i (ix # ixs)) then None else M k)" by (auto simp: fun_eq_iff)
  have "indexLoop kv fuel tx tdef INDEX_DEL rec i (ix # ixs) = Some (None, tx')"
    using g u t(1) Cons.prems(2) by (simp add: INDEX_ADD_def INDEX_DEL_def)
  then show ?case using t(2) unfolding same by blast
qed simp

end

section \<open>Tables as maps\<close>

definition pk_of :: "TableDef \<Rightarrow> bytes list" where
  "pk_of tdef = hd (Indexes tdef)"

definition rest_of :: "TableDef \<Rightarrow> bytes list" where
  "rest_of tdef = filter (\<lambda>c. c \<notin> set (pk_of tdef)) (Cols tdef)"

text \<open>A schema as the catalogue holds it: checked, with a prefix for every index.\<close>

definition table_schema :: "TableDef \<Rightarrow> bool" where
  "table_schema tdef \<longleftrightarrow> good_schema tdef \<and> distinct (Cols tdef) \<and>
     (\<forall>ix \<in> set (Indexes tdef). set (pk_of tdef) \<subseteq> set ix) \<and>
     set (Types tdef) \<subseteq> {TYPE_BYTES, TYPE_INT64} \<and>
     length (Prefixes tdef) = length (Indexes tdef) \<and> distinct (Prefixes tdef) \<and>
     (\<forall>p \<in> set (Prefixes tdef). p < 2 ^ 32)"

text \<open>Well-formed values of the types of some columns.\<close>

definition typed :: "TableDef \<Rightarrow> bytes list \<Rightarrow> Value list \<Rightarrow> bool" where
  "typed tdef cols vals \<longleftrightarrow> list_all2 (\<lambda>c v. wf_value v \<and> Type v = col_type tdef c) cols vals"

definition row_fun :: "TableDef \<Rightarrow> Value list \<Rightarrow> Value list \<Rightarrow> bytes \<Rightarrow> Value" where
  "row_fun tdef pkv rv c =
     (case map_of (zip (pk_of tdef @ rest_of tdef) (pkv @ rv)) c of Some v \<Rightarrow> v | None \<Rightarrow> zero_value 0)"

definition index_key :: "TableDef \<Rightarrow> nat \<Rightarrow> Value list \<Rightarrow> Value list \<Rightarrow> bytes" where
  "index_key tdef i pkv rv = ekey (Prefixes tdef ! i) (map (row_fun tdef pkv rv) (Indexes tdef ! i))"

definition small_row :: "TableDef \<Rightarrow> Value list \<Rightarrow> Value list \<Rightarrow> bool" where
  "small_row tdef pkv rv \<longleftrightarrow> length (ekey (Prefixes tdef ! 0) pkv) + length (enc_all rv) < 280 \<and>
     (\<forall>i \<in> {1..<length (Indexes tdef)}. length (index_key tdef i pkv rv) < 280)"

text \<open>The table as a map from primary keys to the other columns, and what the store holds for it.\<close>

type_synonym rows = "Value list \<Rightarrow> Value list option"

definition valid_rows :: "TableDef \<Rightarrow> rows \<Rightarrow> bool" where
  "valid_rows tdef T \<longleftrightarrow> (\<forall>pkv rv. T pkv = Some rv \<longrightarrow>
     typed tdef (pk_of tdef) pkv \<and> typed tdef (rest_of tdef) rv \<and> small_row tdef pkv rv)"

definition represents :: "(bytes \<Rightarrow> bytes option) \<Rightarrow> TableDef \<Rightarrow> rows \<Rightarrow> bool" where
  "represents M tdef T \<longleftrightarrow> valid_rows tdef T \<and>
     (\<forall>k v. has_prefix (Prefixes tdef ! 0) k \<longrightarrow>
        (M k = Some v \<longleftrightarrow> (\<exists>pkv rv. T pkv = Some rv \<and> k = ekey (Prefixes tdef ! 0) pkv \<and> v = enc_all rv))) \<and>
     (\<forall>i \<in> {1..<length (Indexes tdef)}. \<forall>k v. has_prefix (Prefixes tdef ! i) k \<longrightarrow>
        (M k = Some v \<longleftrightarrow> v = [] \<and> (\<exists>pkv rv. T pkv = Some rv \<and> k = index_key tdef i pkv rv)))"

text \<open>The keys that belong to the table.\<close>

definition owns :: "TableDef \<Rightarrow> bytes \<Rightarrow> bool" where
  "owns tdef k \<longleftrightarrow> (\<exists>p \<in> set (Prefixes tdef). has_prefix p k)"

abbreviation row_key :: "TableDef \<Rightarrow> Value list \<Rightarrow> bytes" where
  "row_key tdef pkv \<equiv> ekey (Prefixes tdef ! 0) pkv"

definition index_keys :: "TableDef \<Rightarrow> Value list \<Rightarrow> Value list \<Rightarrow> bytes set" where
  "index_keys tdef pkv rv = {index_key tdef i pkv rv | i. i \<in> {1..<length (Indexes tdef)}}"

section \<open>Facts about schemas\<close>

lemma schema_cases:
  assumes "table_schema tdef"
  obtains ixs where "Indexes tdef = pk_of tdef # ixs" "length (Prefixes tdef) = Suc (length ixs)"
  using assms by (cases "Indexes tdef") (auto simp: table_schema_def good_schema_def pk_of_def)

lemma nonPrimary_rest:
  assumes "table_schema tdef"
  shows "list_at (Indexes tdef) 0 = Some (pk_of tdef)" "nonPrimaryKeyCols tdef = Some (rest_of tdef)"
  by (rule schema_cases [OF assms], simp add: nonPrimaryKeyCols_def rest_of_def)+

lemma schema_sets:
  assumes "table_schema tdef"
  shows "distinct (pk_of tdef @ rest_of tdef)" "set (pk_of tdef @ rest_of tdef) = set (Cols tdef)"
    "\<And>ix. ix \<in> set (Indexes tdef) \<Longrightarrow> set ix \<subseteq> set (Cols tdef) \<and> set (pk_of tdef) \<subseteq> set ix"
    "\<And>i. i < length (Indexes tdef) \<Longrightarrow> Prefixes tdef ! i < 2 ^ 32"
proof -
  obtain ixs where ixs: "Indexes tdef = pk_of tdef # ixs" by (rule schema_cases [OF assms])
  have good: "good_index (Cols tdef) ix" if "ix \<in> set (Indexes tdef)" for ix
    using assms that by (simp add: table_schema_def good_schema_def)
  then have pk: "distinct (pk_of tdef)" "set (pk_of tdef) \<subseteq> set (Cols tdef)"
    using ixs by (simp_all add: good_index_def)
  show "distinct (pk_of tdef @ rest_of tdef)" "set (pk_of tdef @ rest_of tdef) = set (Cols tdef)"
    using pk assms by (auto simp: rest_of_def table_schema_def)
  show "set ix \<subseteq> set (Cols tdef) \<and> set (pk_of tdef) \<subseteq> set ix" if "ix \<in> set (Indexes tdef)" for ix
    using good [OF that] assms that by (simp add: good_index_def table_schema_def)
  show "Prefixes tdef ! i < 2 ^ 32" if "i < length (Indexes tdef)" for i
    using assms that by (simp add: table_schema_def)
qed

lemma prefix_eq:
  assumes "table_schema tdef" "i < length (Indexes tdef)" "j < length (Indexes tdef)"
  shows "has_prefix (Prefixes tdef ! i) (ekey (Prefixes tdef ! j) vs) \<longleftrightarrow> i = j"
  using assms schema_sets(4) [OF assms(1)] ekey_prefix
  by (auto simp: table_schema_def nth_eq_iff_index_eq)

lemma index_key_prefix:
  "table_schema tdef \<Longrightarrow> i < length (Indexes tdef) \<Longrightarrow> j < length (Indexes tdef) \<Longrightarrow>
     has_prefix (Prefixes tdef ! i) (index_key tdef j pkv rv) \<longleftrightarrow> i = j"
  unfolding index_key_def by (rule prefix_eq)

section \<open>Rows by column\<close>

lemma typed_wf: "typed tdef cs vs \<Longrightarrow> length vs = length cs \<and> list_all wf_value vs"
  by (auto simp: typed_def list_all2_conv_all_nth list_all_length)

lemma row_fun_cols:
  assumes "table_schema tdef" "typed tdef (pk_of tdef) pkv" "typed tdef (rest_of tdef) rv"
  shows "map (row_fun tdef pkv rv) (pk_of tdef) = pkv" "map (row_fun tdef pkv rv) (rest_of tdef) = rv"
    "c \<in> set (Cols tdef) \<Longrightarrow> wf_value (row_fun tdef pkv rv c) \<and> Type (row_fun tdef pkv rv c) = col_type tdef c"
proof -
  let ?cs = "pk_of tdef @ rest_of tdef" and ?vs = "pkv @ rv"
  have len: "length ?cs = length ?vs" "length (pk_of tdef) = length pkv"
    using assms(2,3) typed_wf by auto
  note d = schema_sets(1) [OF assms(1)]
  have nth: "row_fun tdef pkv rv (?cs ! i) = ?vs ! i" if "i < length ?cs" for i
    using map_of_zip_nth [OF len(1) d, of i] that len(1) by (simp only: row_fun_def option.case)
  have "map (row_fun tdef pkv rv) ?cs = ?vs"
    by (rule nth_equalityI) (use len(1) nth in \<open>simp_all del: map_append\<close>)
  then show "map (row_fun tdef pkv rv) (pk_of tdef) = pkv" "map (row_fun tdef pkv rv) (rest_of tdef) = rv"
    using len by (auto simp: append_eq_append_conv)
  have all: "list_all2 (\<lambda>c v. wf_value v \<and> Type v = col_type tdef c) ?cs ?vs"
    using assms(2,3) by (simp add: typed_def list_all2_appendI)
  assume "c \<in> set (Cols tdef)"
  then have "c \<in> set ?cs" using schema_sets(2) [OF assms(1)] by blast
  then obtain i where "i < length ?cs" "?cs ! i = c" by (auto simp: in_set_conv_nth simp del: set_append)
  then show "wf_value (row_fun tdef pkv rv c) \<and> Type (row_fun tdef pkv rv c) = col_type tdef c"
    using nth list_all2_nthD [OF all] by metis
qed

text \<open>An index key determines the primary key of its row.\<close>

lemma index_key_pk:
  assumes s: "table_schema tdef" and i: "i < length (Indexes tdef)"
    and r1: "typed tdef (pk_of tdef) pkv" "typed tdef (rest_of tdef) rv"
    and r2: "typed tdef (pk_of tdef) pkv'" "typed tdef (rest_of tdef) rv'"
    and eq: "index_key tdef i pkv rv = index_key tdef i pkv' rv'"
  shows "pkv = pkv'"
proof -
  let ?ix = "Indexes tdef ! i"
  have ix: "set ?ix \<subseteq> set (Cols tdef)" "set (pk_of tdef) \<subseteq> set ?ix"
    using schema_sets(3) [OF s nth_mem [OF i]] by simp_all
  then have wf: "list_all wf_value (map (row_fun tdef pkv rv) ?ix)" "list_all wf_value (map (row_fun tdef pkv' rv') ?ix)"
    using row_fun_cols(3) [OF s r1] row_fun_cols(3) [OF s r2] by (auto simp: list_all_iff)
  have "map (row_fun tdef pkv rv) ?ix = map (row_fun tdef pkv' rv') ?ix"
    using eq ekey_inj [OF wf] by (simp add: index_key_def)
  then have "map (row_fun tdef pkv rv) (pk_of tdef) = map (row_fun tdef pkv' rv') (pk_of tdef)"
    using ix(2) by auto
  then show ?thesis using row_fun_cols(1) [OF s r1] row_fun_cols(1) [OF s r2] by simp
qed

section \<open>Changing one row\<close>

lemma representsD:
  assumes "represents M tdef T"
  shows "T pkv = Some rv \<Longrightarrow> typed tdef (pk_of tdef) pkv \<and> typed tdef (rest_of tdef) rv \<and> small_row tdef pkv rv"
    and "has_prefix (Prefixes tdef ! 0) k \<Longrightarrow>
      M k = Some v \<longleftrightarrow> (\<exists>pkv rv. T pkv = Some rv \<and> k = row_key tdef pkv \<and> v = enc_all rv)"
    and "i \<in> {1..<length (Indexes tdef)} \<Longrightarrow> has_prefix (Prefixes tdef ! i) k \<Longrightarrow>
      M k = Some v \<longleftrightarrow> v = [] \<and> (\<exists>pkv rv. T pkv = Some rv \<and> k = index_key tdef i pkv rv)"
  using assms by (simp_all add: represents_def valid_rows_def)

lemma schema_nonempty: "table_schema tdef \<Longrightarrow> 0 < length (Indexes tdef)"
  by (simp add: table_schema_def good_schema_def)

lemma row_key_prefix:
  assumes "table_schema tdef" "i < length (Indexes tdef)"
  shows "has_prefix (Prefixes tdef ! i) (row_key tdef pkv) \<longleftrightarrow> i = 0"
  using prefix_eq [OF assms schema_nonempty [OF assms(1)]] .

lemma row_key_inj:
  "typed tdef cs vs \<Longrightarrow> typed tdef cs ws \<Longrightarrow> row_key tdef vs = row_key tdef ws \<longleftrightarrow> vs = ws"
  using typed_wf ekey_inj by metis

lemma represents_row:
  assumes "table_schema tdef" "represents M tdef T" "typed tdef (pk_of tdef) pkv"
  shows "M (row_key tdef pkv) = map_option enc_all (T pkv)"
proof -
  note D = representsD [OF assms(2)]
  have p: "has_prefix (Prefixes tdef ! 0) (row_key tdef pkv)"
    using row_key_prefix [OF assms(1) schema_nonempty [OF assms(1)]] by simp
  have same: "T pkv' = Some rv \<Longrightarrow> row_key tdef pkv = row_key tdef pkv' \<longleftrightarrow> pkv = pkv'" for pkv' rv
    using D(1) row_key_inj [OF assms(3)] by blast
  have "M (row_key tdef pkv) = Some v \<longleftrightarrow> (\<exists>rv. T pkv = Some rv \<and> v = enc_all rv)" for v
    unfolding D(2) [OF p] using same by blast
  then show ?thesis by (cases "T pkv"; cases "M (row_key tdef pkv)") auto
qed

lemma represents_index:
  assumes "table_schema tdef" "represents M tdef T" "i \<in> {1..<length (Indexes tdef)}"
    "typed tdef (pk_of tdef) pkv" "typed tdef (rest_of tdef) rv"
  shows "M (index_key tdef i pkv rv) =
    (case T pkv of Some rv' \<Rightarrow> if index_key tdef i pkv rv' = index_key tdef i pkv rv then Some [] else None | None \<Rightarrow> None)"
proof -
  let ?k = "index_key tdef i pkv rv"
  note D = representsD [OF assms(2)]
  have i: "i < length (Indexes tdef)" using assms(3) by simp
  have p: "has_prefix (Prefixes tdef ! i) ?k" using index_key_prefix [OF assms(1) i i] by blast
  have same: "T pkv' = Some rv' \<Longrightarrow> ?k = index_key tdef i pkv' rv' \<Longrightarrow> pkv = pkv'" for pkv' rv'
    using index_key_pk [OF assms(1) i assms(4,5)] D(1) by blast
  have only: "(\<exists>pkv' rv'. T pkv' = Some rv' \<and> ?k = index_key tdef i pkv' rv') \<longleftrightarrow>
      (\<exists>rv'. T pkv = Some rv' \<and> ?k = index_key tdef i pkv rv')"
    using same by metis
  have M: "M ?k = Some v \<longleftrightarrow> v = [] \<and> (\<exists>rv'. T pkv = Some rv' \<and> ?k = index_key tdef i pkv rv')" for v
    unfolding D(3) [OF assms(3) p] only ..
  show ?thesis
  proof (cases "\<exists>rv'. T pkv = Some rv' \<and> ?k = index_key tdef i pkv rv'")
    case True
    then show ?thesis using M [of "[]"] by auto
  next
    case False
    then have "\<And>v. M ?k \<noteq> Some v" unfolding M by blast
    then have "M ?k = None" by blast
    then show ?thesis using False by (cases "T pkv") auto
  qed
qed

text \<open>The map after a row has been put or removed.\<close>

definition old_keys :: "TableDef \<Rightarrow> rows \<Rightarrow> Value list \<Rightarrow> bytes set" where
  "old_keys tdef T pkv = (case T pkv of None \<Rightarrow> {} | Some rv \<Rightarrow> index_keys tdef pkv rv)"

definition put_row :: "TableDef \<Rightarrow> rows \<Rightarrow> Value list \<Rightarrow> Value list \<Rightarrow> (bytes \<Rightarrow> bytes option) \<Rightarrow> bytes \<Rightarrow> bytes option" where
  "put_row tdef T pkv rv M k =
     (if k \<in> index_keys tdef pkv rv then Some [] else if k \<in> old_keys tdef T pkv then None
      else if k = row_key tdef pkv then Some (enc_all rv) else M k)"

definition drop_row :: "TableDef \<Rightarrow> rows \<Rightarrow> Value list \<Rightarrow> (bytes \<Rightarrow> bytes option) \<Rightarrow> bytes \<Rightarrow> bytes option" where
  "drop_row tdef T pkv M k =
     (if k \<in> old_keys tdef T pkv then None else if k = row_key tdef pkv then None else M k)"

lemma index_keys_prefix:
  assumes "table_schema tdef" "i < length (Indexes tdef)" "has_prefix (Prefixes tdef ! i) k"
  shows "k \<in> index_keys tdef pkv rv \<longleftrightarrow> i \<noteq> 0 \<and> k = index_key tdef i pkv rv"
proof -
  have "j = i" if "j < length (Indexes tdef)" "k = index_key tdef j pkv rv" for j
    using index_key_prefix [OF assms(1,2) that(1)] assms(3) unfolding that(2) by simp
  then have "k \<in> index_keys tdef pkv rv \<longleftrightarrow> 0 < i \<and> k = index_key tdef i pkv rv"
    using assms(2) unfolding index_keys_def by fastforce
  then show ?thesis by simp
qed

lemma old_keys_prefix:
  assumes "table_schema tdef" "i < length (Indexes tdef)" "has_prefix (Prefixes tdef ! i) k"
  shows "k \<in> old_keys tdef T pkv \<longleftrightarrow> i \<noteq> 0 \<and> (\<exists>rv. T pkv = Some rv \<and> k = index_key tdef i pkv rv)"
  using index_keys_prefix [OF assms] by (cases "T pkv") (auto simp: old_keys_def)

text \<open>Both kinds of keys are families of pairs over the rows, in which a key determines its row.\<close>

lemma put_family:
  assumes M: "\<And>v. M = Some v \<longleftrightarrow> (\<exists>p r. T p = Some r \<and> k = f p r \<and> v = g r)"
    and inj: "\<And>p r p' r'. T p = Some r \<or> p = p0 \<and> r = r0 \<Longrightarrow> T p' = Some r' \<or> p' = p0 \<and> r' = r0 \<Longrightarrow> f p r = f p' r' \<Longrightarrow> p = p'"
    and U: "U = T(p0 \<mapsto> r0)"
  shows "(if k = f p0 r0 then Some (g r0) else if \<exists>r. T p0 = Some r \<and> k = f p0 r then None else M) = Some v \<longleftrightarrow>
    (\<exists>p r. U p = Some r \<and> k = f p r \<and> v = g r)"
proof -
  have U_cases: "U p = Some r \<longleftrightarrow> (if p = p0 then r = r0 else T p = Some r)" for p r using U by auto
  consider (new) "k = f p0 r0" | (old) r1 where "k \<noteq> f p0 r0" "T p0 = Some r1" "k = f p0 r1"
    | (other) "k \<noteq> f p0 r0" "\<not> (\<exists>r. T p0 = Some r \<and> k = f p0 r)" by blast
  then show ?thesis
  proof cases
    case new
    have "U p = Some r \<Longrightarrow> k = f p r \<Longrightarrow> p = p0 \<and> r = r0" for p r
      using inj [of p r p0 r0] new U_cases [of p r] by (metis (full_types))
    moreover have "U p0 = Some r0" by (simp add: U_cases)
    ultimately have "(\<exists>p r. U p = Some r \<and> k = f p r \<and> v = g r) \<longleftrightarrow> v = g r0" using new by metis
    then show ?thesis using new by auto
  next
    case old
    have "U p = Some r \<Longrightarrow> k \<noteq> f p r" for p r
      using inj [of p r p0 r1] old U_cases [of p r] by (metis (full_types))
    then have "\<not> (\<exists>p r. U p = Some r \<and> k = f p r \<and> v = g r)" by blast
    then show ?thesis using old by auto
  next
    case other
    have "U p = Some r \<and> k = f p r \<longleftrightarrow> T p = Some r \<and> k = f p r" for p r
      using other U_cases [of p r] by (metis (full_types))
    then have "(\<exists>p r. U p = Some r \<and> k = f p r \<and> v = g r) \<longleftrightarrow> (\<exists>p r. T p = Some r \<and> k = f p r \<and> v = g r)" by metis
    then show ?thesis unfolding if_not_P [OF other(1)] if_not_P [OF other(2)] M [of v] by simp
  qed
qed

lemma drop_family:
  assumes M: "\<And>v. M = Some v \<longleftrightarrow> (\<exists>p r. T p = Some r \<and> k = f p r \<and> v = g r)"
    and inj: "\<And>p r p' r'. T p = Some r \<Longrightarrow> T p' = Some r' \<Longrightarrow> f p r = f p' r' \<Longrightarrow> p = p'"
    and U: "U = T(p0 := None)"
  shows "(if \<exists>r. T p0 = Some r \<and> k = f p0 r then None else M) = Some v \<longleftrightarrow>
    (\<exists>p r. U p = Some r \<and> k = f p r \<and> v = g r)"
proof -
  have U_cases: "U p = Some r \<longleftrightarrow> p \<noteq> p0 \<and> T p = Some r" for p r using U by auto
  show ?thesis
  proof (cases "\<exists>r. T p0 = Some r \<and> k = f p0 r")
    case True
    then have "U p = Some r \<Longrightarrow> k \<noteq> f p r" for p r
      using inj [of p r p0] U_cases [of p r] by metis
    then have "\<not> (\<exists>p r. U p = Some r \<and> k = f p r \<and> v = g r)" by blast
    then show ?thesis using True by auto
  next
    case False
    then have "U p = Some r \<and> k = f p r \<longleftrightarrow> T p = Some r \<and> k = f p r" for p r
      using U_cases [of p r] by metis
    then have "(\<exists>p r. U p = Some r \<and> k = f p r \<and> v = g r) \<longleftrightarrow> (\<exists>p r. T p = Some r \<and> k = f p r \<and> v = g r)" by metis
    then show ?thesis unfolding if_not_P [OF False] M [of v] by simp
  qed
qed

lemma family_inj:
  assumes "table_schema tdef" "represents M tdef T"
    "typed tdef (pk_of tdef) pkv" "typed tdef (rest_of tdef) rv"
    "T p = Some r \<or> p = pkv \<and> r = rv" "T p' = Some r' \<or> p' = pkv \<and> r' = rv"
  shows "row_key tdef p = row_key tdef p' \<Longrightarrow> p = p'"
    and "i < length (Indexes tdef) \<Longrightarrow> index_key tdef i p r = index_key tdef i p' r' \<Longrightarrow> p = p'"
proof -
  have t: "typed tdef (pk_of tdef) p" "typed tdef (rest_of tdef) r" "typed tdef (pk_of tdef) p'" "typed tdef (rest_of tdef) r'"
    using representsD(1) [OF assms(2)] assms(3-) by auto
  show "row_key tdef p = row_key tdef p' \<Longrightarrow> p = p'"
    using row_key_inj [OF t(1,3)] by blast
  show "i < length (Indexes tdef) \<Longrightarrow> index_key tdef i p r = index_key tdef i p' r' \<Longrightarrow> p = p'"
    using index_key_pk [OF assms(1) _ t] by blast
qed

lemma representsI:
  assumes "valid_rows tdef T"
    "\<And>k v. has_prefix (Prefixes tdef ! 0) k \<Longrightarrow>
      M k = Some v \<longleftrightarrow> (\<exists>pkv rv. T pkv = Some rv \<and> k = row_key tdef pkv \<and> v = enc_all rv)"
    "\<And>i k v. 0 < i \<Longrightarrow> i < length (Indexes tdef) \<Longrightarrow> has_prefix (Prefixes tdef ! i) k \<Longrightarrow>
      M k = Some v \<longleftrightarrow> (\<exists>pkv rv. T pkv = Some rv \<and> k = index_key tdef i pkv rv \<and> v = [])"
  shows "represents M tdef T"
proof -
  have "M k = Some v \<longleftrightarrow> v = [] \<and> (\<exists>pkv rv. T pkv = Some rv \<and> k = index_key tdef i pkv rv)"
    if "i \<in> {1..<length (Indexes tdef)}" "has_prefix (Prefixes tdef ! i) k" for i k v
    using assms(3) [of i k v] that by auto
  then show ?thesis using assms(1,2) unfolding represents_def by blast
qed

lemma represents_put:
  assumes s: "table_schema tdef" and r: "represents M tdef T"
    and t: "typed tdef (pk_of tdef) pkv" "typed tdef (rest_of tdef) rv" "small_row tdef pkv rv"
  shows "represents (put_row tdef T pkv rv M) tdef (T(pkv \<mapsto> rv))"
proof (rule representsI)
  note D = representsD [OF r] and inj = family_inj [OF s r t(1,2)]
  show "valid_rows tdef (T(pkv \<mapsto> rv))" using D(1) t by (auto simp: valid_rows_def)
  fix k v
  show "put_row tdef T pkv rv M k = Some v \<longleftrightarrow>
      (\<exists>p r. (T(pkv \<mapsto> rv)) p = Some r \<and> k = row_key tdef p \<and> v = enc_all r)"
    if p: "has_prefix (Prefixes tdef ! 0) k"
  proof -
    have eq: "put_row tdef T pkv rv M k = (if k = row_key tdef pkv then Some (enc_all rv)
        else if \<exists>r. T pkv = Some r \<and> k = row_key tdef pkv then None else M k)"
      using index_keys_prefix [OF s schema_nonempty [OF s] p] old_keys_prefix [OF s schema_nonempty [OF s] p]
      by (simp add: put_row_def)
    show ?thesis
      unfolding eq by (rule put_family [where f = "\<lambda>p r. row_key tdef p" and g = enc_all, OF D(2) [OF p] inj(1) refl])
  qed
  show "put_row tdef T pkv rv M k = Some v \<longleftrightarrow>
      (\<exists>p r. (T(pkv \<mapsto> rv)) p = Some r \<and> k = index_key tdef i p r \<and> v = [])"
    if i: "0 < i" "i < length (Indexes tdef)" and p: "has_prefix (Prefixes tdef ! i) k" for i
  proof -
    have k: "k \<noteq> row_key tdef pkv" using row_key_prefix [OF s i(2)] p i(1) by auto
    have eq: "put_row tdef T pkv rv M k = (if k = index_key tdef i pkv rv then Some []
        else if \<exists>r. T pkv = Some r \<and> k = index_key tdef i pkv r then None else M k)"
      using index_keys_prefix [OF s i(2) p] old_keys_prefix [OF s i(2) p] i(1) k
      unfolding put_row_def by (simp cong: if_cong split del: if_split)
    have Mk: "M k = Some v \<longleftrightarrow> (\<exists>p r. T p = Some r \<and> k = index_key tdef i p r \<and> v = [])" for v
      using D(3) [OF _ p] i by auto
    show ?thesis
      unfolding eq by (rule put_family [where f = "index_key tdef i" and g = "\<lambda>r. []", OF Mk inj(2) refl]) (use i in simp_all)
  qed
qed

lemma represents_drop:
  assumes s: "table_schema tdef" and r: "represents M tdef T" and t: "typed tdef (pk_of tdef) pkv"
  shows "represents (drop_row tdef T pkv M) tdef (T(pkv := None))"
proof (rule representsI)
  note D = representsD [OF r]
  show "valid_rows tdef (T(pkv := None))" using D(1) by (auto simp: valid_rows_def)
  fix k v
  show "drop_row tdef T pkv M k = Some v \<longleftrightarrow>
      (\<exists>p r. (T(pkv := None)) p = Some r \<and> k = row_key tdef p \<and> v = enc_all r)"
    if p: "has_prefix (Prefixes tdef ! 0) k"
  proof -
    have "M (row_key tdef pkv) = None" if "T pkv = None"
      using represents_row [OF s r t] that by simp
    then have "drop_row tdef T pkv M k = (if \<exists>r. T pkv = Some r \<and> k = row_key tdef pkv then None else M k)"
      using old_keys_prefix [OF s schema_nonempty [OF s] p] by (auto simp: drop_row_def)
    moreover have "T p = Some r \<Longrightarrow> T p' = Some r' \<Longrightarrow> row_key tdef p = row_key tdef p' \<Longrightarrow> p = p'" for p r p' r'
      using D(1) row_key_inj by blast
    ultimately show ?thesis
      using drop_family [of "M k" T k "\<lambda>p r. row_key tdef p" enc_all "T(pkv := None)" pkv v, OF D(2) [OF p]]
      by (simp del: fun_upd_apply)
  qed
  show "drop_row tdef T pkv M k = Some v \<longleftrightarrow>
      (\<exists>p r. (T(pkv := None)) p = Some r \<and> k = index_key tdef i p r \<and> v = [])"
    if i: "0 < i" "i < length (Indexes tdef)" and p: "has_prefix (Prefixes tdef ! i) k" for i
  proof -
    have k: "k \<noteq> row_key tdef pkv" using row_key_prefix [OF s i(2)] p i(1) by auto
    then have "drop_row tdef T pkv M k = (if \<exists>r. T pkv = Some r \<and> k = index_key tdef i pkv r then None else M k)"
      using old_keys_prefix [OF s i(2) p] i(1) unfolding drop_row_def by auto
    moreover have "M k = Some v \<longleftrightarrow> (\<exists>p r. T p = Some r \<and> k = index_key tdef i p r \<and> v = [])" for v
      using D(3) [OF _ p] i by auto
    moreover have "T p = Some r \<Longrightarrow> T p' = Some r' \<Longrightarrow> index_key tdef i p r = index_key tdef i p' r' \<Longrightarrow> p = p'" for p r p' r'
      using D(1) index_key_pk [OF s i(2)] by blast
    ultimately show ?thesis
      using drop_family [of "M k" T k "\<lambda>p r. index_key tdef i p r" "\<lambda>r. []" "T(pkv := None)" pkv v]
      by (simp del: fun_upd_apply)
  qed
qed

lemma not_owned:
  assumes "table_schema tdef" "\<not> owns tdef k"
  shows "put_row tdef T pkv rv M k = M k" "drop_row tdef T pkv M k = M k"
proof -
  have none: "\<not> has_prefix (Prefixes tdef ! i) k" if "i < length (Indexes tdef)" for i
    using assms that by (auto simp: owns_def table_schema_def)
  have "k \<noteq> index_key tdef i pkv rv'" if "i < length (Indexes tdef)" for i rv'
    using none [OF that] index_key_prefix [OF assms(1) that that] by blast
  then have "k \<notin> index_keys tdef pkv rv'" for rv'
    unfolding index_keys_def by auto
  moreover have "k \<noteq> row_key tdef pkv"
    using none [OF schema_nonempty [OF assms(1)]] row_key_prefix [OF assms(1) schema_nonempty [OF assms(1)]] by auto
  ultimately show "put_row tdef T pkv rv M k = M k" "drop_row tdef T pkv M k = M k"
    by (simp_all add: put_row_def drop_row_def old_keys_def split: option.split)
qed

section \<open>Records that hold a row\<close>

definition full_row :: "TableDef \<Rightarrow> Record \<Rightarrow> bool" where
  "full_row tdef rec \<longleftrightarrow> length (RCols rec) = length (RVals rec) \<and> (\<forall>c \<in> set (Cols tdef). has_col tdef rec c)"

definition holds_row :: "TableDef \<Rightarrow> Record \<Rightarrow> Value list \<Rightarrow> Value list \<Rightarrow> bool" where
  "holds_row tdef rec pkv rv \<longleftrightarrow> full_row tdef rec \<and>
     typed tdef (pk_of tdef) pkv \<and> typed tdef (rest_of tdef) rv \<and>
     (\<forall>c \<in> set (Cols tdef). norm (col_val rec c) = row_fun tdef pkv rv c)"

lemma col_type_stored:
  assumes "table_schema tdef" "c \<in> set (Cols tdef)" "Type v = col_type tdef c"
  shows "stored_type v"
proof -
  obtain j where "slices_Index (Cols tdef) c = Some j" "j < length (Types tdef)"
    using slices_Index_in [OF assms(2)] assms(1) by (auto simp: table_schema_def good_schema_def)
  then have "Type v \<in> set (Types tdef)" using assms(3) by (simp add: col_type_def)
  then show ?thesis using assms(1) by (auto simp: table_schema_def stored_type_def)
qed

lemma full_reads:
  assumes s: "table_schema tdef" and f: "full_row tdef rec" and sub: "set cs \<subseteq> set (Cols tdef)"
  shows "reads_cols tdef rec (col_val rec) cs"
proof -
  have "\<forall>c \<in> set cs. has_col tdef rec c" using f sub by (auto simp: full_row_def)
  moreover have "length (Types tdef) = length (Cols tdef)" using s by (simp add: table_schema_def good_schema_def)
  ultimately have "getValues tdef rec cs = Some (Inr (map (col_val rec) cs))"
    using getValues_result [of rec tdef cs] f sub by (simp add: full_row_def)
  moreover have "stored_type (col_val rec c)" if "c \<in> set cs" for c
    using f sub that col_type_stored [OF s, of c] by (auto simp: full_row_def has_col_def)
  ultimately show ?thesis by (simp add: reads_cols_def list_all_iff)
qed

text \<open>A request holds the row of its values without leftovers.\<close>

lemma holds_own_row:
  assumes s: "table_schema tdef" and f: "full_row tdef rec"
  shows "holds_row tdef rec (map (norm \<circ> col_val rec) (pk_of tdef)) (map (norm \<circ> col_val rec) (rest_of tdef))"
proof -
  let ?n = "norm \<circ> col_val rec"
  have ok: "wf_value (?n c) \<and> Type (?n c) = col_type tdef c" if "c \<in> set (Cols tdef)" for c
    using that f norm_wf [OF col_type_stored [OF s that]] by (auto simp: full_row_def has_col_def)
  have sub: "set (pk_of tdef) \<subseteq> set (Cols tdef)" "set (rest_of tdef) \<subseteq> set (Cols tdef)"
    using schema_sets(2) [OF s] by auto
  have t: "typed tdef cs (map ?n cs)" if "set cs \<subseteq> set (Cols tdef)" for cs
    using that ok by (auto simp: typed_def list_all2_conv_all_nth subset_iff)
  note t = t [OF sub(1)] t [OF sub(2)]
  have "row_fun tdef (map ?n (pk_of tdef)) (map ?n (rest_of tdef)) c = ?n c" if "c \<in> set (Cols tdef)" for c
  proof -
    have "c \<in> set (pk_of tdef) \<or> c \<in> set (rest_of tdef)" using that schema_sets(2) [OF s] by auto
    then show ?thesis using row_fun_cols(1,2) [OF s t] by auto
  qed
  then show ?thesis using f t by (simp add: holds_row_def)
qed

text \<open>The record rebuilt from the stored row.\<close>

lemma slices_Index_nth: "distinct cs \<Longrightarrow> i < length cs \<Longrightarrow> slices_Index cs (cs ! i) = Some i"
  using slices_Index_in [of "cs ! i" cs] by (auto simp: nth_eq_iff_index_eq)

lemma col_val_nth:
  assumes "length cs = length vs" "distinct cs" "i < length cs"
  shows "col_val \<lparr>RCols = cs, RVals = vs\<rparr> (cs ! i) = vs ! i"
  using assms GetLoop_in [OF assms(1), of "cs ! i"] by (simp add: col_val_def RGet_def slices_Index_nth)

lemma holds_stored_row:
  assumes s: "table_schema tdef" and t: "typed tdef (pk_of tdef) pkv" "typed tdef (rest_of tdef) rv"
    and vs: "map norm vs = pkv @ rv"
  shows "holds_row tdef \<lparr>RCols = pk_of tdef @ rest_of tdef, RVals = vs\<rparr> pkv rv"
proof -
  let ?cs = "pk_of tdef @ rest_of tdef" and ?rec = "\<lparr>RCols = pk_of tdef @ rest_of tdef, RVals = vs\<rparr>"
  have "length (map norm vs) = length (pkv @ rv)" using vs by simp
  then have len: "length ?cs = length vs" using t typed_wf by simp
  have val: "norm (col_val ?rec c) = row_fun tdef pkv rv c \<and> Type (col_val ?rec c) = col_type tdef c"
    if c: "c \<in> set (Cols tdef)" for c
  proof -
    obtain i where i: "i < length ?cs" "?cs ! i = c"
      using c schema_sets(2) [OF s] by (metis in_set_conv_nth)
    have "map (row_fun tdef pkv rv) ?cs = map norm vs" using row_fun_cols(1,2) [OF s t] vs by simp
    then have "map (row_fun tdef pkv rv) ?cs ! i = map norm vs ! i" by simp
    then have "row_fun tdef pkv rv c = norm (vs ! i)" using i len by (simp del: map_append)
    moreover have "col_val ?rec c = vs ! i" using col_val_nth [OF len schema_sets(1) [OF s] i(1)] i(2) by simp
    ultimately show ?thesis using row_fun_cols(3) [OF s t c] by (metis norm_simps(1))
  qed
  have "set (Cols tdef) = set (pk_of tdef) \<union> set (rest_of tdef)" using schema_sets(2) [OF s] by simp
  then show ?thesis using val t len by (simp add: holds_row_def full_row_def has_col_def)
qed

text \<open>The keys that \<^const>\<open>indexOp\<close> computes.\<close>

lemma index_loop_keys:
  assumes s: "table_schema tdef" and h: "holds_row tdef rec pkv rv" and sm: "small_row tdef pkv rv"
  defines "ixs \<equiv> drop 1 (Indexes tdef)"
  shows "set (ikeys tdef (col_val rec) 1 ixs) = index_keys tdef pkv rv" "distinct (ikeys tdef (col_val rec) 1 ixs)"
    "\<forall>ix \<in> set ixs. reads_cols tdef rec (col_val rec) ix" "1 + length ixs \<le> length (Prefixes tdef)"
    "\<forall>k \<in> index_keys tdef pkv rv. length k < 280"
proof -
  obtain jxs where jxs: "Indexes tdef = pk_of tdef # jxs" "length (Prefixes tdef) = Suc (length jxs)"
    by (rule schema_cases [OF s])
  then have ixs: "ixs = jxs" by (simp add: ixs_def)
  have key: "ikeys tdef (col_val rec) 1 ixs ! j = index_key tdef (Suc j) pkv rv" if j: "j < length jxs" for j
  proof -
    have "Indexes tdef ! Suc j \<in> set (Indexes tdef)" using j jxs by (intro nth_mem) simp
    then have sub: "set (jxs ! j) \<subseteq> set (Cols tdef)" using schema_sets(3) [OF s] jxs by auto
    have "map norm (map (col_val rec) (jxs ! j)) = map (row_fun tdef pkv rv) (jxs ! j)"
      using h sub by (auto simp: holds_row_def)
    then have "ekey p (map (col_val rec) (jxs ! j)) = ekey p (map (row_fun tdef pkv rv) (jxs ! j))" for p
      using ekey_norm [of p "map (col_val rec) (jxs ! j)"] by metis
    then show ?thesis using ikeys_nth [of j ixs tdef "col_val rec" 1] j jxs by (simp add: ixs index_key_def)
  qed
  have keys: "ikeys tdef (col_val rec) 1 ixs = map (\<lambda>j. index_key tdef (Suc j) pkv rv) [0..<length jxs]"
    by (rule nth_equalityI) (use key ixs in simp_all)
  have "k \<in> index_keys tdef pkv rv \<longleftrightarrow> (\<exists>j < length jxs. k = index_key tdef (Suc j) pkv rv)" for k
    unfolding index_keys_def jxs(1) by (auto intro: exI [of _ "_ - 1"] simp: Suc_le_eq gr0_conv_Suc)
  then show "set (ikeys tdef (col_val rec) 1 ixs) = index_keys tdef pkv rv" unfolding keys by auto
  have "i = j" if "i < length jxs" "j < length jxs" "index_key tdef (Suc i) pkv rv = index_key tdef (Suc j) pkv rv" for i j
    using index_key_prefix [OF s, of "Suc i" "Suc i" pkv rv] index_key_prefix [OF s, of "Suc i" "Suc j" pkv rv] that jxs(1) by simp
  then show "distinct (ikeys tdef (col_val rec) 1 ixs)"
    unfolding keys distinct_map by (auto simp: inj_on_def)
  show "\<forall>ix \<in> set ixs. reads_cols tdef rec (col_val rec) ix"
    using full_reads [OF s, of rec] h schema_sets(3) [OF s] jxs(1) by (auto simp: ixs holds_row_def)
  show "1 + length ixs \<le> length (Prefixes tdef)" using jxs by (simp add: ixs)
  show "\<forall>k \<in> index_keys tdef pkv rv. length k < 280" using sm by (auto simp: index_keys_def small_row_def)
qed

context kv_contract
begin

lemma indexOp_add:
  assumes "table_schema tdef" "holds_row tdef rec pkv rv" "small_row tdef pkv rv"
    "sees (n + (length (Indexes tdef) - 1)) M tx" "\<forall>k \<in> index_keys tdef pkv rv. M k = None"
  shows "\<exists>tx'. indexOp kv fuel tx tdef INDEX_ADD rec = Some (None, tx') \<and>
    sees n (\<lambda>k. if k \<in> index_keys tdef pkv rv then Some [] else M k) tx'"
proof -
  note K = index_loop_keys [OF assms(1-3)]
  have "sees (n + length (drop 1 (Indexes tdef))) M tx" by (rule weaken_le [OF assms(4)]) simp
  from index_add [OF this K(4,3,2)] show ?thesis
    using assms(5) K(5) unfolding K(1) indexOp_def by simp
qed

lemma indexOp_del:
  assumes "table_schema tdef" "holds_row tdef rec pkv rv" "small_row tdef pkv rv"
    "sees (n + (length (Indexes tdef) - 1)) M tx" "\<forall>k \<in> index_keys tdef pkv rv. M k \<noteq> None"
  shows "\<exists>tx'. indexOp kv fuel tx tdef INDEX_DEL rec = Some (None, tx') \<and>
    sees n (\<lambda>k. if k \<in> index_keys tdef pkv rv then None else M k) tx'"
proof -
  note K = index_loop_keys [OF assms(1-3)]
  have "sees (n + length (drop 1 (Indexes tdef))) M tx" by (rule weaken_le [OF assms(4)]) simp
  from index_del [OF this K(4,3,2)] show ?thesis
    using assms(5) K(5) unfolding K(1) indexOp_def by simp
qed

end

lemma index_keys_of:
  assumes "table_schema tdef" "represents M tdef T" "T pkv = Some rv"
  shows "\<forall>k \<in> index_keys tdef pkv rv. M k \<noteq> None" "row_key tdef pkv \<notin> index_keys tdef pkv' rv'"
proof -
  have t: "typed tdef (pk_of tdef) pkv" "typed tdef (rest_of tdef) rv" using representsD(1) [OF assms(2,3)] by simp_all
  show "\<forall>k \<in> index_keys tdef pkv rv. M k \<noteq> None"
    using represents_index [OF assms(1,2) _ t] assms(3) by (auto simp: index_keys_def)
  show "row_key tdef pkv \<notin> index_keys tdef pkv' rv'"
    using index_keys_prefix [OF assms(1) schema_nonempty [OF assms(1)]]
      row_key_prefix [OF assms(1) schema_nonempty [OF assms(1)]] by blast
qed

lemma row_key_not_index:
  "table_schema tdef \<Longrightarrow> row_key tdef pkv \<notin> index_keys tdef pkv' rv'"
  using index_keys_prefix [OF _ schema_nonempty] row_key_prefix [OF _ schema_nonempty] by blast

text \<open>The index keys of a new row are free once the old row's are removed.\<close>

lemma new_keys_free:
  assumes "table_schema tdef" "represents M tdef T" "typed tdef (pk_of tdef) pkv" "typed tdef (rest_of tdef) rv"
    "k \<in> index_keys tdef pkv rv" "k \<notin> old_keys tdef T pkv"
  shows "M k = None"
proof -
  obtain i where i: "i \<in> {1..<length (Indexes tdef)}" "k = index_key tdef i pkv rv"
    using assms(5) unfolding index_keys_def by blast
  have "index_key tdef i pkv rv \<noteq> index_key tdef i pkv r" if "T pkv = Some r" for r
    using assms(6) that i unfolding old_keys_def index_keys_def by auto
  then show ?thesis
    using represents_index [OF assms(1,2) i(1) assms(3,4)] i(2) by (auto split: option.split)
qed

lemma row_stored: "holds_row tdef rec pkv rv \<Longrightarrow> table_schema tdef \<Longrightarrow>
    map (norm \<circ> col_val rec) (pk_of tdef) = pkv \<and> map (norm \<circ> col_val rec) (rest_of tdef) = rv"
proof -
  assume h: "holds_row tdef rec pkv rv" and s: "table_schema tdef"
  then have t: "typed tdef (pk_of tdef) pkv" "typed tdef (rest_of tdef) rv" by (simp_all add: holds_row_def)
  have "norm (col_val rec c) = row_fun tdef pkv rv c" if "c \<in> set (pk_of tdef) \<union> set (rest_of tdef)" for c
    using h that schema_sets(2) [OF s] by (auto simp: holds_row_def)
  then have "map (norm \<circ> col_val rec) (pk_of tdef) = map (row_fun tdef pkv rv) (pk_of tdef)"
    "map (norm \<circ> col_val rec) (rest_of tdef) = map (row_fun tdef pkv rv) (rest_of tdef)" by simp_all
  then show ?thesis using row_fun_cols(1,2) [OF s t] by simp
qed

text \<open>The key and the value that \<^const>\<open>dbUpdate\<close> computes.\<close>

lemma update_parts:
  assumes s: "table_schema tdef" and h: "holds_row tdef rec pkv rv"
  obtains vals where "getValues tdef rec (pk_of tdef @ rest_of tdef) = Some (Inr vals)"
    "encodeKey [] (Prefixes tdef ! 0) (take (length (pk_of tdef)) vals) = Some (row_key tdef pkv)"
    "encodeValues [] (drop (length (pk_of tdef)) vals) = Some (enc_all rv)"
    "map norm (take (length (pk_of tdef)) vals) = pkv" "map norm (drop (length (pk_of tdef)) vals) = rv"
proof -
  let ?v = "col_val rec"
  have f: "full_row tdef rec" using h by (simp add: holds_row_def)
  have sub: "set (pk_of tdef @ rest_of tdef) \<subseteq> set (Cols tdef)" using schema_sets(2) [OF s] by simp
  have r: "getValues tdef rec (pk_of tdef @ rest_of tdef) = Some (Inr (map ?v (pk_of tdef) @ map ?v (rest_of tdef)))"
    and st: "list_all stored_type (map ?v (pk_of tdef))" "list_all stored_type (map ?v (rest_of tdef))"
    using full_reads [OF s f sub] by (simp_all add: reads_cols_def)
  note m = row_stored [OF h s]
  have m: "map norm (map ?v (pk_of tdef)) = pkv" "map norm (map ?v (rest_of tdef)) = rv"
    using row_stored [OF h s] by simp_all
  have "ekey p (map ?v (pk_of tdef)) = ekey p pkv" for p using ekey_norm [of p "map ?v (pk_of tdef)"] m(1) by metis
  then have k: "encodeKey [] (Prefixes tdef ! 0) (map ?v (pk_of tdef)) = Some (row_key tdef pkv)"
    using encodeKey_stored [OF st(1)] by (simp add: ekey_def)
  have "enc_all (map ?v (rest_of tdef)) = enc_all rv" using enc_all_norm [of "map ?v (rest_of tdef)"] m(2) by metis
  then have e: "encodeValues [] (map ?v (rest_of tdef)) = Some (enc_all rv)"
    using encodeValues_stored [OF st(2), of "[]"] by simp
  show ?thesis by (rule that [OF r]) (use k e m in simp_all)
qed

text \<open>The old row decoded over the new values.\<close>

lemma decode_old:
  assumes "table_schema tdef" "holds_row tdef rec pkv rv" "typed tdef (rest_of tdef) old" "map norm vals = rv"
  obtains vs where "decodeValues (enc_all old) vals = Some vs" "map norm vs = old"
proof -
  have rv: "typed tdef (rest_of tdef) rv" using assms(2) by (simp add: holds_row_def)
  have "length (map norm vals) = length rv" using assms(4) by simp
  then have len: "length old = length vals" using typed_wf [OF rv] typed_wf [OF assms(3)] by simp
  have "wf_value (old ! i) \<and> Type (vals ! i) = Type (old ! i)" if i: "i < length old" for i
  proof -
    have "Type (norm (vals ! i)) = Type (rv ! i)" using assms(4) i len by auto
    moreover have "length old = length (rest_of tdef)" using typed_wf [OF assms(3)] by simp
    ultimately show ?thesis using assms(3) rv i by (auto simp: typed_def list_all2_conv_all_nth)
  qed
  then have "list_all2 (\<lambda>v c. wf_value v \<and> Type c = Type v) old vals"
    using len by (simp add: list_all2_conv_all_nth)
  from decode_over [OF this] show ?thesis using that by blast
qed

context kv_contract
begin

lemma dbUpdate_ok:
  assumes s: "table_schema tdef" and r: "represents M tdef T"
    and h: "holds_row tdef (d_Record req) pkv rv" and sm: "small_row tdef pkv rv"
    and room: "sees (n + 2 * length (Indexes tdef)) M tx"
  shows "\<exists>res req' tx'. dbUpdate kv fuel tx tdef req = Some (res, req', tx') \<and>
    (if d_Mode req = MODE_INSERT_ONLY \<and> T pkv \<noteq> None then res = Inl (UpdateError DuplicateKey) \<and> sees n M tx'
     else if d_Mode req = MODE_UPDATE_ONLY \<and> T pkv = None \<or> T pkv = Some rv
     then res = Inr False \<and> \<not> d_Updated req' \<and> \<not> d_Added req' \<and> sees n M tx'
     else res = Inr True \<and> d_Updated req' \<and> d_Added req' = (T pkv = None) \<and> sees n (put_row tdef T pkv rv M) tx')"
proof -
  let ?npk = "length (pk_of tdef)" and ?key = "row_key tdef pkv" and ?val = "enc_all rv"
  let ?ureq = "mk_update ?key ?val (d_Mode req)" and ?len = "length (Indexes tdef)"
  have len: "0 < ?len" by (rule schema_nonempty [OF s])
  have t: "typed tdef (pk_of tdef) pkv" "typed tdef (rest_of tdef) rv" using h by (simp_all add: holds_row_def)
  obtain vals where v: "getValues tdef (d_Record req) (pk_of tdef @ rest_of tdef) = Some (Inr vals)"
    "encodeKey [] (Prefixes tdef ! 0) (take ?npk vals) = Some ?key" "encodeValues [] (drop ?npk vals) = Some ?val"
    "map norm (take ?npk vals) = pkv" "map norm (drop ?npk vals) = rv"
    by (rule update_parts [OF s h])
  have p0: "list_at (Prefixes tdef) 0 = Some (Prefixes tdef ! 0)"
    using schema_nonempty [OF s] s by (auto simp: table_schema_def)
  have req: "Key ?ureq = ?key" "Val ?ureq = ?val" "Mode ?ureq = d_Mode req" "\<not> Updated ?ureq" "\<not> Added ?ureq"
    by (simp_all add: mk_update_def)
  have sees1: "sees (Suc (n + ?len + ?len - 1)) M tx"
    by (rule weaken_le [OF room]) (use len in linarith)
  have "small_write (SetOp (Key ?ureq) (Val ?ureq))" using sm req by (simp add: small_row_def)
  from update [OF sees1 this] obtain res ureq tx1 where u: "tx_Update kv fuel tx ?ureq = Some (res, ureq, tx1)"
    "if d_Mode req = MODE_INSERT_ONLY \<and> M ?key \<noteq> None then res = Inl DuplicateKey \<and> sees (n + ?len + ?len - 1) M tx1
     else if d_Mode req = MODE_UPDATE_ONLY \<and> M ?key = None \<or> M ?key = Some ?val
     then res = Inr False \<and> ureq = ?ureq \<and> sees (n + ?len + ?len - 1) M tx1
     else res = Inr True \<and> Updated ureq \<and> Added ureq = (M ?key = None) \<and>
       (\<forall>v. M ?key = Some v \<longrightarrow> Old ureq = v) \<and> sees (n + ?len + ?len - 1) (M(?key \<mapsto> ?val)) tx1"
    unfolding req by blast
  have T1: "M ?key = map_option enc_all (T pkv)" by (rule represents_row [OF s r t(1)])
  have "T pkv = Some old \<Longrightarrow> list_all wf_value old \<and> list_all wf_value rv" for old
    using representsD(1) [OF r] typed_wf t(2) by blast
  then have T2: "M ?key = Some ?val \<longleftrightarrow> T pkv = Some rv" "M ?key = None \<longleftrightarrow> T pkv = None"
    using T1 enc_all_inj by (cases "T pkv"; auto)+
  note start = nonPrimary_rest [OF s] v(1-3) p0
  consider (dup) "d_Mode req = MODE_INSERT_ONLY" "T pkv \<noteq> None"
    | (same) "\<not> (d_Mode req = MODE_INSERT_ONLY \<and> T pkv \<noteq> None)" "d_Mode req = MODE_UPDATE_ONLY \<and> T pkv = None \<or> T pkv = Some rv"
    | (put) "\<not> (d_Mode req = MODE_INSERT_ONLY \<and> T pkv \<noteq> None)" "\<not> (d_Mode req = MODE_UPDATE_ONLY \<and> T pkv = None \<or> T pkv = Some rv)"
    by blast
  then show ?thesis
  proof cases
    case dup
    then have "res = Inl DuplicateKey" "sees (n + ?len + ?len - 1) M tx1" using u(2) T2 by simp_all
    moreover have "sees n M tx1" by (rule weaken_le [OF calculation(2)]) (use len in linarith)
    ultimately show ?thesis using start u(1) dup by (simp add: dbUpdate_def Let_def)
  next
    case same
    then have "res = Inr False" "ureq = ?ureq" "sees (n + ?len + ?len - 1) M tx1" using u(2) T2 by (simp_all split: if_splits)
    moreover have "sees n M tx1" by (rule weaken_le [OF calculation(3)]) (use len in linarith)
    ultimately show ?thesis using start u(1) same req(4,5)
      by (simp add: dbUpdate_def Let_def cong: if_cong split del: if_split) auto
  next
    case put
    let ?M1 = "M(?key \<mapsto> ?val)"
    have res: "res = Inr True" "Updated ureq" "Added ureq = (T pkv = None)" "\<And>v. M ?key = Some v \<Longrightarrow> Old ureq = v"
        "sees (n + ?len + ?len - 1) ?M1 tx1"
      using u(2) put T2 by (simp_all split: if_splits)
    let ?M2 = "\<lambda>k. if k \<in> old_keys tdef T pkv then None else ?M1 k"
    let ?del = "if Updated ureq \<and> \<not> Added ureq then do {
        old \<leftarrow> decodeValues (Old ureq) (drop ?npk vals);
        indexOp kv fuel tx1 tdef INDEX_DEL \<lparr>RCols = pk_of tdef @ rest_of tdef, RVals = take ?npk vals @ old\<rparr>
      } else Some (None, tx1)"
    obtain tx2 where d: "?del = Some (None, tx2)" "sees (n + ?len) ?M2 tx2"
    proof (cases "T pkv")
      case None
      then have "?del = Some (None, tx1)" "?M2 = ?M1" using res by (simp_all add: old_keys_def fun_eq_iff)
      moreover have "sees (n + ?len) ?M1 tx1" by (rule weaken_le [OF res(5)]) (use len in linarith)
      ultimately show ?thesis using that by simp
    next
      case (Some old)
      note ot = representsD(1) [OF r Some]
      obtain vs where vs: "decodeValues (enc_all old) (drop ?npk vals) = Some vs" "map norm vs = old"
        by (rule decode_old [OF s h conjunct1 [OF conjunct2 [OF ot]] v(5)])
      have "map norm (take ?npk vals @ vs) = pkv @ old" using vs(2) v(4) by simp
      from holds_stored_row [OF s t(1) conjunct1 [OF conjunct2 [OF ot]] this]
      have hr: "holds_row tdef \<lparr>RCols = pk_of tdef @ rest_of tdef, RVals = take ?npk vals @ vs\<rparr> pkv old" .
      have "\<forall>k \<in> index_keys tdef pkv old. ?M1 k \<noteq> None" using index_keys_of(1) [OF s r Some] by simp
      moreover have "sees (n + ?len + (?len - 1)) ?M1 tx1" by (rule weaken_le [OF res(5)]) (use len in linarith)
      ultimately have "\<exists>tx'. indexOp kv fuel tx1 tdef INDEX_DEL \<lparr>RCols = pk_of tdef @ rest_of tdef, RVals = take ?npk vals @ vs\<rparr> = Some (None, tx') \<and>
          sees (n + ?len) (\<lambda>k. if k \<in> index_keys tdef pkv old then None else ?M1 k) tx'"
        using indexOp_del [OF s hr, of "n + ?len" ?M1 tx1] ot by simp
      moreover have "Old ureq = enc_all old" using res(4) T1 Some by simp
      ultimately show ?thesis using that vs(1) res(2,3) Some by (auto simp: old_keys_def)
    qed
    have "\<forall>k \<in> index_keys tdef pkv rv. ?M2 k = None"
      using new_keys_free [OF s r t] row_key_not_index [OF s, of pkv pkv rv] by auto
    moreover have "sees (n + (?len - 1)) ?M2 tx2" by (rule weaken_le [OF d(2)]) simp
    ultimately obtain tx3 where a: "indexOp kv fuel tx2 tdef INDEX_ADD (d_Record req) = Some (None, tx3)"
      "sees n (\<lambda>k. if k \<in> index_keys tdef pkv rv then Some [] else ?M2 k) tx3"
      using indexOp_add [OF s h sm] by blast
    have "(\<lambda>k. if k \<in> index_keys tdef pkv rv then Some [] else ?M2 k) = put_row tdef T pkv rv M"
      by (simp add: fun_eq_iff put_row_def)
    then have "sees n (put_row tdef T pkv rv M) tx3" using a(2) by simp
    moreover have "dbUpdate kv fuel tx tdef req = Some (Inr True, req\<lparr>d_Added := (T pkv = None), d_Updated := True\<rparr>, tx3)"
      using start u(1) res(1-3) d(1) a(1) unfolding dbUpdate_def Let_def
      by (simp cong: if_cong split del: if_split)
    ultimately show ?thesis using put by simp
  qed
qed

end

text \<open>
  \<^const>\<open>dbDelete\<close> rebuilds the old row with the columns in the order of the definition, but its
  values start with the primary key: with secondary indexes it needs schemas whose primary key
  comes first.
\<close>

definition key_first :: "TableDef \<Rightarrow> bool" where
  "key_first tdef \<longleftrightarrow> length (Indexes tdef) = 1 \<or> Cols tdef = pk_of tdef @ rest_of tdef"

definition holds_key :: "TableDef \<Rightarrow> Record \<Rightarrow> Value list \<Rightarrow> bool" where
  "holds_key tdef rec pkv \<longleftrightarrow> length (RCols rec) = length (RVals rec) \<and>
     (\<forall>c \<in> set (pk_of tdef). has_col tdef rec c) \<and> map (norm \<circ> col_val rec) (pk_of tdef) = pkv"

lemma typed_cells_rest:
  assumes "table_schema tdef" "set cs \<subseteq> set (Cols tdef)"
  shows "typed_cells tdef cs = Some (map (\<lambda>c. zero_value (col_type tdef c)) cs)"
  using assms(2)
proof (induction cs)
  case (Cons c cs)
  then obtain j where "slices_Index (Cols tdef) c = Some j" "j < length (Types tdef)"
    using slices_Index_in [of c "Cols tdef"] assms(1) by (auto simp: table_schema_def good_schema_def)
  then show ?case using Cons by (simp add: typed_cells_def col_type_def)
qed (simp add: typed_cells_def)

lemma delete_parts:
  assumes s: "table_schema tdef" and h: "holds_key tdef rec pkv"
  obtains vals where "getValues tdef rec (pk_of tdef) = Some (Inr vals)"
    "encodeKey [] (Prefixes tdef ! 0) vals = Some (row_key tdef pkv)" "map norm vals = pkv"
    "typed tdef (pk_of tdef) pkv" "length vals = length (pk_of tdef)"
proof -
  let ?v = "map (col_val rec) (pk_of tdef)"
  have sub: "set (pk_of tdef) \<subseteq> set (Cols tdef)" using schema_sets(2) [OF s] by auto
  have lt: "length (Types tdef) = length (Cols tdef)" using s by (simp add: table_schema_def good_schema_def)
  have cols: "\<forall>c \<in> set (pk_of tdef). has_col tdef rec c" using h by (simp add: holds_key_def)
  then have g: "getValues tdef rec (pk_of tdef) = Some (Inr ?v)"
    using getValues_result [of rec tdef "pk_of tdef"] h lt sub by (simp add: holds_key_def)
  have st: "stored_type (col_val rec c)" if "c \<in> set (pk_of tdef)" for c
    using col_type_stored [OF s, of c] cols sub that by (auto simp: has_col_def)
  then have "encodeKey [] (Prefixes tdef ! 0) ?v = Some (ekey (Prefixes tdef ! 0) ?v)"
    using encodeKey_stored [of ?v] by (simp add: ekey_def list_all_iff)
  moreover have m: "map norm ?v = pkv" using h by (simp add: holds_key_def)
  then have "ekey p ?v = ekey p pkv" for p using ekey_norm [of p ?v] by metis
  moreover have "typed tdef (pk_of tdef) pkv"
    using m cols st norm_wf unfolding typed_def has_col_def by (auto simp: list_all2_conv_all_nth)
  ultimately show ?thesis using that [OF g] m by simp
qed

context kv_contract
begin

lemma dbDelete_ok:
  assumes s: "table_schema tdef" and r: "represents M tdef T" and kf: "key_first tdef"
    and h: "holds_key tdef rec pkv" and sm: "length (row_key tdef pkv) < 280"
    and room: "sees (n + length (Indexes tdef)) M tx"
  shows "\<exists>tx'. dbDelete kv fuel tx tdef rec = Some (Inr (T pkv \<noteq> None), tx') \<and> sees n (drop_row tdef T pkv M) tx'"
proof -
  let ?key = "row_key tdef pkv" and ?len = "length (Indexes tdef)"
  have len: "0 < ?len" by (rule schema_nonempty [OF s])
  obtain vals where v: "getValues tdef rec (pk_of tdef) = Some (Inr vals)"
    "encodeKey [] (Prefixes tdef ! 0) vals = Some ?key" "map norm vals = pkv" "typed tdef (pk_of tdef) pkv"
    by (rule delete_parts [OF s h])
  have p0: "list_at (Prefixes tdef) 0 = Some (Prefixes tdef ! 0)" using len s by (auto simp: table_schema_def)
  have req: "DKey (mk_delete ?key) = ?key" by (simp add: mk_delete_def)
  have "sees (Suc (n + (?len - 1))) M tx" by (rule weaken_le [OF room]) (use len in linarith)
  moreover have "small_write (DelOp (DKey (mk_delete ?key)))" using sm req by simp
  ultimately obtain dreq tx1 where d: "tx_Del kv fuel tx (mk_delete ?key) = Some (Inr (M ?key \<noteq> None), dreq, tx1)"
    "\<And>v. M ?key = Some v \<Longrightarrow> DOld dreq = v" "sees (n + (?len - 1)) (M(?key := None)) tx1"
    using delete [of "n + (?len - 1)" M tx "mk_delete ?key"] unfolding req by blast
  have T1: "M ?key = map_option enc_all (T pkv)" by (rule represents_row [OF s r v(4)])
  note start = nonPrimary_rest [OF s] v(1,2) p0
  show ?thesis
  proof (cases "T pkv")
    case None
    then have "drop_row tdef T pkv M = M(?key := None)" by (simp add: drop_row_def old_keys_def fun_eq_iff)
    moreover have "sees n (M(?key := None)) tx1" by (rule weaken_le [OF d(3)]) simp
    ultimately show ?thesis using start d(1) T1 None by (simp add: dbDelete_def)
  next
    case (Some old)
    note ot = representsD(1) [OF r Some]
    have ty: "typed tdef (rest_of tdef) old" "small_row tdef pkv old" using ot by simp_all
    let ?cells = "map (\<lambda>c. zero_value (col_type tdef c)) (rest_of tdef)"
    have "set (rest_of tdef) \<subseteq> set (Cols tdef)" using schema_sets(2) [OF s] by auto
    from typed_cells_rest [OF s this] have cells: "typed_cells tdef (rest_of tdef) = Some ?cells" .
    have "list_all2 (\<lambda>v c. wf_value v \<and> Type c = Type v) old ?cells"
      using ty(1) by (auto simp: typed_def list_all2_conv_all_nth zero_value_def)
    from decode_over [OF this] obtain vs where vs: "decodeValues (enc_all old) ?cells = Some vs" "map norm vs = old" by blast
    have "DOld dreq = enc_all old" using d(2) T1 Some by simp
    then have run: "dbDelete kv fuel tx tdef rec = do {
        (err, tx) \<leftarrow> indexOp kv fuel tx1 tdef INDEX_DEL \<lparr>RCols = Cols tdef, RVals = vals @ vs\<rparr>;
        (case err of Some e \<Rightarrow> Some (Inl e, tx) | None \<Rightarrow> Some (Inr True, tx))
      }"
      using start d(1) T1 Some vs(1) cells by (simp add: dbDelete_def)
    have gone: "(\<lambda>k. if k \<in> index_keys tdef pkv old then None else (M(?key := None)) k) = drop_row tdef T pkv M"
      using Some by (auto simp: drop_row_def old_keys_def fun_eq_iff)
    show ?thesis
    proof (cases "?len = 1")
      case True
      then have "index_keys tdef pkv old = {}" by (auto simp: index_keys_def)
      then have "drop_row tdef T pkv M = M(?key := None)" using gone by (simp add: fun_eq_iff)
      moreover have "indexOp kv fuel tx1 tdef INDEX_DEL \<lparr>RCols = Cols tdef, RVals = vals @ vs\<rparr> = Some (None, tx1)"
        using True by (simp add: indexOp_def)
      ultimately show ?thesis using run d(3) Some True by simp
    next
      case False
      have "map norm (vals @ vs) = pkv @ old" using v(3) vs(2) by simp
      from holds_stored_row [OF s v(4) ty(1) this]
      have hr: "holds_row tdef \<lparr>RCols = Cols tdef, RVals = vals @ vs\<rparr> pkv old"
        using kf False by (simp add: key_first_def)
      have "\<forall>k \<in> index_keys tdef pkv old. (M(?key := None)) k \<noteq> None"
        using index_keys_of(1) [OF s r Some] row_key_not_index [OF s] by (metis fun_upd_other)
      from indexOp_del [OF s hr ty(2) d(3) this] show ?thesis using run Some gone by auto
    qed
  qed
qed

end

end
