(* ===== verification/TableProps.thy ===== *)
theory TableProps
  imports TableWrites TxProps
begin

text \<open>
  What the table layer promises of its writes, on the transactions of the store: the contract
  \<open>kv_contract\<close> is discharged by \<^verbatim>\<open>KVTX\<close>, so putting and deleting rows in a transaction changes
  the abstract table and keeps every secondary index in step with it.
\<close>

section \<open>Transactions meet the contract\<close>

text \<open>\<open>tx_room kv fuel n M tx\<close>: the transaction presents \<open>M\<close> and has pages and fuel for \<open>n\<close> writes.\<close>

definition tx_room :: "KV \<Rightarrow> nat \<Rightarrow> nat \<Rightarrow> (bytes \<Rightarrow> bytes option) \<Rightarrow> KVTX \<Rightarrow> bool" where
  "tx_room kv fuel n M tx \<longleftrightarrow> (\<exists>h m pend. tx_sees kv fuel tx h m pend \<and> overlay m pend = M \<and>
     h + n < fuel \<and> n * (4 * (h + n) + 5) \<le> mem_room (pend_pages tx))"

lemma tx_roomE:
  assumes "tx_room kv fuel (Suc n) M tx"
  obtains h m pend where "tx_sees kv fuel tx h m pend" "overlay m pend = M" "h < fuel" "4 * h + 5 \<le> mem_room (pend_pages tx)"
    "\<forall>h' tx' pend' M'. tx_sees kv fuel tx' h' m pend' \<longrightarrow> overlay m pend' = M' \<longrightarrow> h' \<le> Suc h \<longrightarrow>
      mem_room (pend_pages tx) \<le> mem_room (pend_pages tx') + 4 * h + 5 \<longrightarrow> tx_room kv fuel n M' tx'"
proof -
  obtain h m pend where s: "tx_sees kv fuel tx h m pend" "overlay m pend = M" "h + Suc n < fuel"
    "Suc n * (4 * (h + Suc n) + 5) \<le> mem_room (pend_pages tx)"
    using assms unfolding tx_room_def by blast
  have le: "4 * h + 5 + n * (4 * (Suc h + n) + 5) \<le> Suc n * (4 * (h + Suc n) + 5)" by (simp add: algebra_simps)
  have step: "tx_room kv fuel n M' tx'"
    if t: "tx_sees kv fuel tx' h' m pend'" "overlay m pend' = M'" "h' \<le> Suc h"
      "mem_room (pend_pages tx) \<le> mem_room (pend_pages tx') + 4 * h + 5" for h' tx' pend' M'
  proof -
    have "n * (4 * (h' + n) + 5) \<le> n * (4 * (Suc h + n) + 5)" using t(3) by (intro mult_le_mono) simp_all
    then have "n * (4 * (h' + n) + 5) \<le> mem_room (pend_pages tx')" using le s(4) t(4) by linarith
    moreover have "h' + n < fuel" using t(3) s(3) by simp
    ultimately show ?thesis using t(1,2) unfolding tx_room_def by blast
  qed
  show ?thesis by (rule that [OF s(1,2)]) (use s(3,4) le step in auto)
qed

interpretation kvc: kv_contract kv fuel "tx_room kv fuel" for kv fuel
proof
  fix n M tx
  assume room: "tx_room kv fuel (Suc n) M tx"
  obtain h m pend where s: "tx_sees kv fuel tx h m pend" "overlay m pend = M" "h < fuel" "4 * h + 5 \<le> mem_room (pend_pages tx)"
    "\<forall>h' tx' pend' M'. tx_sees kv fuel tx' h' m pend' \<longrightarrow> overlay m pend' = M' \<longrightarrow> h' \<le> Suc h \<longrightarrow>
      mem_room (pend_pages tx) \<le> mem_room (pend_pages tx') + 4 * h + 5 \<longrightarrow> tx_room kv fuel n M' tx'"
    by (rule tx_roomE [OF room])
  show "tx_room kv fuel n M tx" using s(5) s(1,2) by (metis le_add1 add.assoc lessI less_imp_le)
next
  fix n M tx and req :: UpdateReq
  assume room: "tx_room kv fuel (Suc n) M tx" and small: "small_write (SetOp (Key req) (Val req))"
  obtain h m pend where s: "tx_sees kv fuel tx h m pend" "overlay m pend = M" "h < fuel" "4 * h + 5 \<le> mem_room (pend_pages tx)"
    "\<forall>h' tx' pend' M'. tx_sees kv fuel tx' h' m pend' \<longrightarrow> overlay m pend' = M' \<longrightarrow> h' \<le> Suc h \<longrightarrow>
      mem_room (pend_pages tx) \<le> mem_room (pend_pages tx') + 4 * h + 5 \<longrightarrow> tx_room kv fuel n M' tx'"
    by (rule tx_roomE [OF room])
  obtain tx' h' pend' res req' where
    u: "tx_Update kv fuel tx req = Some (res, req', tx')" "tx_sees kv fuel tx' h' m pend'" "h' \<le> Suc h"
    "mem_room (pend_pages tx) \<le> mem_room (pend_pages tx') + 4 * h + 5"
    "if Mode req = MODE_INSERT_ONLY \<and> overlay m pend (Key req) \<noteq> None then res = Inl DuplicateKey \<and> req' = req \<and> pend' = pend
     else if (Mode req = MODE_UPDATE_ONLY \<and> overlay m pend (Key req) = None) \<or> overlay m pend (Key req) = Some (Val req)
       then res = Inr False \<and> req' = req \<and> pend' = pend
     else res = Inr True \<and> overlay m pend' = (overlay m pend)(Key req \<mapsto> Val req)
       \<and> Updated req' \<and> Added req' = (overlay m pend (Key req) = None)
       \<and> (\<forall>v. overlay m pend (Key req) = Some v \<longrightarrow> Old req' = v)"
    by (rule tx_Update_ok [OF s(1,3,4) small], rule that, assumption+) (auto split: if_splits)
  note next_room = s(5) [rule_format, OF u(2) refl u(3,4)]
  show "\<exists>res req' tx'. tx_Update kv fuel tx req = Some (res, req', tx') \<and>
        (if Mode req = MODE_INSERT_ONLY \<and> M (Key req) \<noteq> None then res = Inl DuplicateKey \<and> tx_room kv fuel n M tx'
         else if Mode req = MODE_UPDATE_ONLY \<and> M (Key req) = None \<or> M (Key req) = Some (Val req)
         then res = Inr False \<and> req' = req \<and> tx_room kv fuel n M tx'
         else res = Inr True \<and> Updated req' \<and> Added req' = (M (Key req) = None) \<and>
           (\<forall>v. M (Key req) = Some v \<longrightarrow> Old req' = v) \<and> tx_room kv fuel n (M(Key req \<mapsto> Val req)) tx')"
    by (rule exI [of _ res], rule exI [of _ req'], rule exI [of _ tx'])
      (use u(1,5) next_room s(2) in \<open>auto split: if_splits\<close>)
next
  fix n M tx and dreq :: DeleteReq
  assume room: "tx_room kv fuel (Suc n) M tx" and small: "small_write (DelOp (DKey dreq))"
  obtain h m pend where s: "tx_sees kv fuel tx h m pend" "overlay m pend = M" "h < fuel" "4 * h + 5 \<le> mem_room (pend_pages tx)"
    "\<forall>h' tx' pend' M'. tx_sees kv fuel tx' h' m pend' \<longrightarrow> overlay m pend' = M' \<longrightarrow> h' \<le> Suc h \<longrightarrow>
      mem_room (pend_pages tx) \<le> mem_room (pend_pages tx') + 4 * h + 5 \<longrightarrow> tx_room kv fuel n M' tx'"
    by (rule tx_roomE [OF room])
  obtain tx' h' pend' res req' where
    u: "tx_Del kv fuel tx dreq = Some (res, req', tx')" "tx_sees kv fuel tx' h' m pend'" "h' \<le> Suc h"
    "mem_room (pend_pages tx) \<le> mem_room (pend_pages tx') + 4 * h + 5"
    "overlay m pend' = (overlay m pend)(DKey dreq := None)" "res = Inr (overlay m pend (DKey dreq) \<noteq> None)"
    "\<forall>v. overlay m pend (DKey dreq) = Some v \<longrightarrow> DOld req' = v"
    by (rule tx_Del_ok [OF s(1,3,4) small], rule that, assumption+)
  have "tx_room kv fuel n (M(DKey dreq := None)) tx'" by (rule s(5) [rule_format, OF u(2) _ u(3,4)]) (simp add: u(5) s(2))
  then show "\<exists>dreq' tx'. tx_Del kv fuel tx dreq = Some (Inr (M (DKey dreq) \<noteq> None), dreq', tx') \<and>
        (\<forall>v. M (DKey dreq) = Some v \<longrightarrow> DOld dreq' = v) \<and> tx_room kv fuel n (M(DKey dreq := None)) tx'"
    using u(1,6,7) s(2) by blast
qed

lemma begin_room:
  assumes "store_holds kv h kvs" "kv_Begin kv new_tx = (kv', tx)" "h < fuel" "n < fuel" "n * (4 * n + 5) < 2 ^ 63"
  shows "tx_room kv' fuel n (map_of kvs) tx"
proof -
  note b = begin_sees [OF assms(1-3)]
  have "overlay (map_of kvs) [] = map_of kvs" by (simp add: overlay_def fun_eq_iff)
  moreover have "n * (4 * (0 + n) + 5) \<le> mem_room (pend_pages tx)" using assms(5) b(5) by (simp add: mem_room_def)
  ultimately show ?thesis using b(2) assms(4) unfolding tx_room_def by (metis add_0)
qed

section \<open>Writes of rows\<close>


section \<open>An example table\<close>

definition example_table :: TableDef where
  "example_table = \<lparr>Name = lit ''t'', Types = [TYPE_INT64, TYPE_BYTES], Cols = [lit ''a'', lit ''b''],
     Indexes = [[lit ''a''], [lit ''b'', lit ''a'']], Prefixes = [100, 101]\<rparr>"

definition example_row :: Record where
  "example_row = AddStr (AddInt64 new_record (lit ''a'') 7) (lit ''b'') (lit ''x'')"

abbreviation "example_key \<equiv> [\<lparr>Type = TYPE_INT64, I64 = 7, Str = []\<rparr>]"
abbreviation "example_rest \<equiv> [\<lparr>Type = TYPE_BYTES, I64 = 0, Str = lit ''x''\<rparr>]"

lemma example_schema: "table_schema example_table" "pk_of example_table = [lit ''a'']" "rest_of example_table = [lit ''b'']"
  "key_first example_table" "length (Indexes example_table) = 2"
  by (auto simp: table_schema_def good_schema_def good_index_def example_table_def pk_of_def rest_of_def key_first_def)

lemma example_record:
  "full_row example_table example_row"
  "map (norm \<circ> col_val example_row) [lit ''a''] = example_key" "map (norm \<circ> col_val example_row) [lit ''b''] = example_rest"
  by (auto simp: full_row_def has_col_def example_table_def example_row_def AddInt64_def AddStr_def new_record_def
      col_val_def RGet_def col_type_def norm_def TYPE_INT64_def TYPE_BYTES_def)

lemma example_small: "small_row example_table example_key example_rest"
proof -
  have "i = 1" if "i \<in> {1..<length (Indexes example_table)}" for i
    using that by (auto simp: example_table_def)
  moreover have "length (index_key example_table 1 example_key example_rest) < 280"
    unfolding index_key_def row_fun_def example_schema(2,3)
    by (simp add: example_table_def ekey_def enc_def TYPE_INT64_def TYPE_BYTES_def lit_def esc_def)
  moreover have "length (row_key example_table example_key) + length (enc_all example_rest) < 280"
    by (simp add: ekey_def enc_def TYPE_INT64_def TYPE_BYTES_def lit_def esc_def)
  ultimately show ?thesis unfolding small_row_def by blast
qed

lemma example_empty: "represents (map_of [([1], [10])]) example_table Map.empty"
proof -
  have "\<not> has_prefix p [1]" for p
  proof -
    have "length [1 :: byte] \<noteq> length (be_bytes 4 p)" by simp
    then have "[1] \<noteq> be_bytes 4 p" by metis
    then show ?thesis by (simp add: has_prefix_def)
  qed
  then have "has_prefix p k \<Longrightarrow> map_of [([1], [10 :: byte])] k = None" for p k by auto
  then show ?thesis by (simp add: represents_def valid_rows_def)
qed

text \<open>A transaction with room for \<open>n\<close> writes over a store without rows.\<close>

lemma example_start:
  assumes "n < 20"
  obtains kv tx where "tx_room kv 20 n (map_of [([1], [10])]) tx"
proof -
  obtain db h where db: "store_holds db h [([1], [10])]" "fits 3 [([1], [10])] db h [([1], [10])]" by (rule one_pair) blast
  obtain kv' tx where b: "kv_Begin db new_tx = (kv', tx)" by fastforce
  have "h < 20" using db(2) by (simp add: fits_def)
  moreover have "n * (4 * n + 5) \<le> 20 * (4 * 20 + 5)" using assms by (intro mult_le_mono) simp_all
  ultimately show ?thesis using that [OF begin_room [OF db(1) b, of 20 n]] assms by simp
qed



text \<open>A transaction that holds the example row.\<close>

lemma example_present:
  obtains kv tx M where "tx_room kv 20 2 M tx" "represents M example_table [example_key \<mapsto> example_rest]"
proof -
  obtain kv tx where room: "tx_room kv 20 (2 + 2 * length (Indexes example_table)) (map_of [([1], [10])]) tx"
    by (rule example_start [of "2 + 2 * length (Indexes example_table)"]) (simp_all add: example_schema)
  have rec: "d_Record (mk_dbreq example_row 0) = example_row" "d_Mode (mk_dbreq example_row 0) = 0"
    by (simp_all add: mk_dbreq_def)
  have h: "holds_row example_table example_row example_key example_rest"
    using holds_own_row [OF example_schema(1) example_record(1)] example_record(2,3) unfolding example_schema(2,3) by simp
  then have t: "typed example_table (pk_of example_table) example_key" "typed example_table (rest_of example_table) example_rest"
    by (simp_all add: holds_row_def)
  obtain tx' where "tx_room kv 20 2 (put_row example_table Map.empty example_key example_rest (map_of [([1], [10])])) tx'"
    using kvc.dbUpdate_ok [OF example_schema(1) example_empty, where req = "mk_dbreq example_row 0" and pkv = example_key and rv = example_rest
        and n = 2 and kv = kv and fuel = 20 and tx = tx]
      h example_small room unfolding rec by (auto simp: MODE_INSERT_ONLY_def MODE_UPDATE_ONLY_def)
  then show ?thesis using that represents_put [OF example_schema(1) example_empty t example_small] by simp
qed


end
