(* ===== verification/QLWalk.thy ===== *)
theory QLWalk
  imports QLParse
begin

text \<open>
  How the parser moves: it never leaves the input, never goes back, and keeps the first error.
  The contracts of the sub-parsers are locales: \<open>expr_parser\<close> for the methods that fill an
  expression node and \<open>item_parser\<close> for the closures handed to the list parsers. Inside
  them are the lemmas about the loops; the interpretations show that the methods of the
  precedence chain return, without a panic, within a fuel linear in the remaining input, and
  that a parse without an error yields a well-formed expression.
\<close>

section \<open>Movement\<close>

definition inside :: "Parser \<Rightarrow> bool" where
  "inside p \<longleftrightarrow> p_idx p \<le> length (p_input p)"

definition rem :: "Parser \<Rightarrow> nat" where
  "rem p = length (p_input p) - p_idx p"

definition steps :: "Parser \<Rightarrow> Parser \<Rightarrow> bool" where
  "steps p q \<longleftrightarrow> inside q \<and> p_input q = p_input p \<and> p_idx p \<le> p_idx q \<and>
     (p_err p = None \<or> p_err q = p_err p)"

definition moves :: "Parser \<Rightarrow> Parser \<Rightarrow> bool" where
  "moves p q \<longleftrightarrow> steps p q \<and> p_idx p < p_idx q"

lemma steps_refl [simp]: "steps p p \<longleftrightarrow> inside p"
  by (simp add: steps_def)

lemma steps_trans [trans]: "steps p q \<Longrightarrow> steps q r \<Longrightarrow> steps p r"
  by (auto simp: steps_def)

lemma moves_trans [trans]: "moves p q \<Longrightarrow> steps q r \<Longrightarrow> moves p r" "steps p q \<Longrightarrow> moves q r \<Longrightarrow> moves p r"
  by (auto simp: steps_def moves_def)

lemma steps_inside: "steps p q \<Longrightarrow> inside q"
  by (simp add: steps_def)

lemma moves_steps: "moves p q \<Longrightarrow> steps p q"
  by (simp add: moves_def)

lemma steps_rem: "steps p q \<Longrightarrow> rem q \<le> rem p"
  by (simp add: steps_def rem_def diff_le_mono2)

lemma moves_rem: "moves p q \<Longrightarrow> rem q < rem p"
  by (auto simp: steps_def moves_def rem_def inside_def)

lemma steps_err: "steps p q \<Longrightarrow> p_err q = None \<Longrightarrow> p_err p = None"
  by (auto simp: steps_def)

text \<open>
  A scan returns the end of the run of bytes that satisfy the test. No read leaves the input.
\<close>

lemma scanWhile_result:
  "\<exists>j. scanWhile P inp i = Some j \<and> i \<le> j \<and> (i \<le> length inp \<longrightarrow> j \<le> length inp) \<and>
     (\<forall>k. i \<le> k \<and> k < j \<longrightarrow> P (inp ! k)) \<and> (j < length inp \<longrightarrow> \<not> P (inp ! j))"
proof (induction P inp i rule: scanWhile.induct)
  case (1 P inp i)
  show ?case
  proof (cases "i < length inp \<and> P (inp ! i)")
    case True
    then have eq: "scanWhile P inp i = scanWhile P inp (i + 1)" by (subst scanWhile.simps) simp
    obtain j where j: "scanWhile P inp (i + 1) = Some j" "i + 1 \<le> j" "j \<le> length inp"
      "\<forall>k. i + 1 \<le> k \<and> k < j \<longrightarrow> P (inp ! k)" "j < length inp \<longrightarrow> \<not> P (inp ! j)"
      using 1 True by auto
    have "P (inp ! k)" if "i \<le> k \<and> k < j" for k
      using that j(4) True by (cases "k = i") auto
    then show ?thesis using eq j by (intro exI [of _ j]) auto
  next
    case False
    then show ?thesis by (subst scanWhile.simps) auto
  qed
qed

lemma scanWhile_cases:
  assumes "i \<le> length inp"
  obtains j where "scanWhile P inp i = Some j" "i \<le> j" "j \<le> length inp"
    "\<And>k. i \<le> k \<Longrightarrow> k < j \<Longrightarrow> P (inp ! k)" "j < length inp \<Longrightarrow> \<not> P (inp ! j)"
  using scanWhile_result [of P inp i] assms by blast

lemma skipSpaces_cases:
  assumes "inside p"
  obtains q where "skipSpaces p = Some q" "steps p q" "p_input q = p_input p" "p_err q = p_err p"
proof -
  obtain j where "scanWhile isSpace (p_input p) (p_idx p) = Some j" "p_idx p \<le> j" "j \<le> length (p_input p)"
    by (rule scanWhile_cases [of "p_idx p" "p_input p" isSpace]) (use assms in \<open>simp_all add: inside_def\<close>)
  then show ?thesis
    by (intro that [of "p\<lparr>p_idx := j\<rparr>"]) (simp_all add: skipSpaces_def steps_def inside_def)
qed

text \<open>A guarded read: the test of the byte at a position that may be the end of the input.\<close>

lemma guarded_read [simp]:
  "(if i < length xs then map_option P (list_at xs i) else Some False) = Some (i < length xs \<and> P (xs ! i))"
  by simp

lemma pErr_steps: "inside p \<Longrightarrow> steps p (pErr msg p)"
  by (auto simp: pErr_def steps_def inside_def)

lemma pErr_simps [simp]:
  "p_input (pErr msg p) = p_input p" "p_idx (pErr msg p) = p_idx p" "p_err (pErr msg p) \<noteq> None"
  by (auto simp: pErr_def)

lemma inside_pErr [simp]: "inside (pErr msg p) = inside p"
  by (simp add: inside_def)

section \<open>Tokens\<close>

lemma matchLoop_cases:
  assumes "inside p"
  obtains (fail) q where "matchLoop start toks p = Some (False, q)" "q = p\<lparr>p_idx := start\<rparr>"
    | (ok) q where "matchLoop start toks p = Some (True, q)" "steps p q" "p_err q = p_err p"
        "p_idx p + length (concat toks) \<le> p_idx q"
  using assms
proof (induction toks arbitrary: p thesis)
  case Nil
  then show ?case by simp
next
  case (Cons tok toks)
  obtain r where r: "skipSpaces p = Some r" "steps p r" "p_input r = p_input p" "p_err r = p_err p"
    by (rule skipSpaces_cases [OF Cons.prems(3)])
  have undo: "r\<lparr>p_idx := start\<rparr> = p\<lparr>p_idx := start\<rparr>" using r(3,4) by (cases p; cases r) simp
  let ?stop = "p_idx r + length tok"
  show ?case
  proof (cases "?stop \<le> length (p_input r)")
    case False
    then show ?thesis using Cons.prems(1) [of "r\<lparr>p_idx := start\<rparr>"] r(1) undo by simp
  next
    case le: True
    let ?q = "r\<lparr>p_idx := ?stop\<rparr>"
    let ?w = "sub (p_input r) (p_idx r) (length tok)"
    define m where "m \<longleftrightarrow> equalFold ?w tok \<and>
      (keywordSet tok \<and> ?stop < length (p_input r) \<longrightarrow> \<not> isSym (p_input r ! ?stop))"
    have eq: "matchLoop start (tok # toks) p = (if m then matchLoop start toks ?q else Some (False, r\<lparr>p_idx := start\<rparr>))"
      using r(1) le by (auto simp: m_def slice_at_def Let_def)
    have q: "steps r ?q" "inside ?q" using le by (auto simp: steps_def inside_def)
    show ?thesis
    proof (cases m)
      case False
      then show ?thesis using Cons.prems(1) eq undo by simp
    next
      case True
      note eq = eq [unfolded if_P [OF True]]
      have sq: "steps p ?q" using r(2) q(1) by (rule steps_trans)
      show ?thesis
      proof (rule Cons.IH [OF _ _ q(2)])
        fix u assume "matchLoop start toks ?q = Some (False, u)" "u = ?q\<lparr>p_idx := start\<rparr>"
        then show ?thesis using Cons.prems(1) [of u] eq undo by simp
      next
        fix u assume u: "matchLoop start toks ?q = Some (True, u)" "steps ?q u" "p_err u = p_err ?q"
          "p_idx ?q + length (concat toks) \<le> p_idx u"
        have "p_idx p \<le> p_idx r" using r(2) by (simp add: steps_def)
        then show ?thesis
          using Cons.prems(2) [of u] u eq steps_trans [OF sq u(2)] r(4) by simp
      qed
    qed
  qed
qed

lemma match_cases:
  assumes "inside p"
  obtains (fail) "match toks p = Some (False, p)"
    | (ok) q where "match toks p = Some (True, q)" "steps p q" "p_err q = p_err p"
        "p_idx p + length (concat toks) \<le> p_idx q"
proof (cases rule: matchLoop_cases [OF assms, of "p_idx p" "map lit toks"])
  case (1 q)
  then show ?thesis using fail by (simp add: match_def)
next
  case (2 q)
  moreover have "length (concat (map lit toks)) = length (concat toks)"
    by (simp add: length_concat comp_def)
  ultimately show ?thesis using ok [of q] by (simp add: match_def)
qed

lemma consume_cases:
  assumes "inside p" "tok \<noteq> []"
  obtains q where "consume tok msg p = Some q" "steps p q" "p_err q = None \<longrightarrow> moves p q"
proof (rule match_cases [OF assms(1), of "[tok]"])
  assume "match [tok] p = Some (False, p)"
  then show ?thesis using that [of "pErr (lit msg) p"] assms(1) by (simp add: consume_def pErr_steps)
next
  fix q assume "match [tok] p = Some (True, q)" "steps p q" "p_idx p + length (concat [tok]) \<le> p_idx q"
  then show ?thesis using that [of q] assms(2) by (cases tok) (simp_all add: consume_def moves_def)
qed

section \<open>Well-formed expressions\<close>

definition good_name :: "bytes \<Rightarrow> bool" where
  "good_name s \<longleftrightarrow> s \<noteq> [] \<and> isSymStart (hd s) \<and> list_all isSym s \<and> \<not> keywordSet (toLower s)"

definition binTypes :: "nat set" where
  "binTypes = {QL_CMP_GE, QL_CMP_GT, QL_CMP_LT, QL_CMP_LE, QL_CMP_EQ, QL_CMP_NE,
     QL_ADD, QL_SUB, QL_MUL, QL_DIV, QL_MOD, QL_AND, QL_OR}"

text \<open>The number of operands fits the type; kept by every node the parser builds, errors or not.\<close>

fun arity_ok :: "QLNode \<Rightarrow> bool" where
  "arity_ok (QLNode t i s kids) \<longleftrightarrow> (t \<in> binTypes \<longrightarrow> length kids = 2) \<and> list_all arity_ok kids"

fun wf_expr :: "QLNode \<Rightarrow> bool" where
  "wf_expr (QLNode t i s kids) \<longleftrightarrow> list_all wf_expr kids \<and>
     (t = QL_SYM \<and> i = 0 \<and> kids = [] \<and> good_name s \<or>
      t = QL_I64 \<and> 0 \<le> sint i \<and> s = [] \<and> kids = [] \<or>
      t = QL_STR \<and> i = 0 \<and> kids = [] \<or>
      t = QL_TUP \<and> i = 0 \<and> s = [] \<and> length kids \<noteq> 1 \<or>
      t \<in> binTypes \<and> i = 0 \<and> s = [] \<and> length kids = 2 \<or>
      t \<in> {QL_NOT, QL_NEG} \<and> i = 0 \<and> s = [] \<and> length kids = 1)"

lemma trySym_cases:
  assumes "inside p"
  obtains (fail) q where "trySym node p = Some (False, node, q)" "steps p q" "p_err q = p_err p"
    | (ok) s q where "trySym node p = Some (True, QLNode QL_SYM (NI64 node) s (Kids node), q)"
        "moves p q" "p_err q = p_err p" "good_name s"
proof -
  obtain r where r: "skipSpaces p = Some r" "steps p r" "p_input r = p_input p" "p_err r = p_err p"
    by (rule skipSpaces_cases [OF assms])
  let ?i = "p_idx r"
  show ?thesis
  proof (cases "?i < length (p_input r) \<and> isSymStart (p_input r ! ?i)")
    case False
    then have "trySym node p = Some (False, node, r)" using r(1) by (simp add: trySym_def Let_def del: list_at_simps)
    then show ?thesis using fail r by simp
  next
    case True
    have i1: "?i + 1 \<le> length (p_input r)" using True by simp
    obtain e where e: "scanWhile isSym (p_input r) (?i + 1) = Some e" "?i + 1 \<le> e" "e \<le> length (p_input r)"
        "\<And>k. ?i + 1 \<le> k \<Longrightarrow> k < e \<Longrightarrow> isSym (p_input r ! k)"
      by (rule scanWhile_cases [OF i1, of isSym]) (rule that)
    let ?s = "sub (p_input r) ?i (e - ?i)"
    have eq: "trySym node p = Some (if keywordSet (toLower ?s) then (False, node, r)
        else (True, QLNode QL_SYM (NI64 node) ?s (Kids node), r\<lparr>p_idx := e\<rparr>))"
      using r(1) True e(1-3) by (simp add: trySym_def Let_def slice_at_def)
    show ?thesis
    proof (cases "keywordSet (toLower ?s)")
      case kw: True
      then show ?thesis using fail [of r] eq r by simp
    next
      case nk: False
      have len: "length ?s = e - ?i" using e(2,3) by simp
      have nth: "?s ! k = p_input r ! (?i + k)" if "k < e - ?i" for k
        using that e(3) by (simp add: sub_def)
      have sym: "isSym (?s ! k)" if "k < length ?s" for k
      proof (cases "k = 0")
        case k0: True
        then show ?thesis using nth [of 0] True that len by (auto simp: isSym_def isSymStart_def)
      next
        case False
        then show ?thesis using nth [of k] that len e(4) [of "?i + k"] by simp
      qed
      have "?s \<noteq> []" using len e(2) by (metis diff_is_0_eq list.size(3) not_less_eq_eq Suc_eq_plus1)
      then have "good_name ?s"
        using sym nth [of 0] len e(2) True nk by (auto simp: good_name_def list_all_length hd_conv_nth)
      moreover have "moves p (r\<lparr>p_idx := e\<rparr>)"
        using r(2,3) e(2,3) by (auto simp: moves_def steps_def inside_def)
      ultimately show ?thesis using ok eq nk r(4) by simp
    qed
  qed
qed

lemma decimal_nonneg:
  assumes "list_all isDigit s"
  shows "0 \<le> decimal s"
proof -
  have "0 \<le> n \<Longrightarrow> 0 \<le> foldl (\<lambda>n ch. 10 * n + (uint ch - 48)) n s" for n :: int
    using assms
  proof (induction s arbitrary: n)
    case (Cons c s)
    have "uint c = int (unat c)" by (rule uint_nat)
    moreover have "48 \<le> unat c" using Cons.prems by (simp add: isDigit_def)
    ultimately have "48 \<le> uint c" by linarith
    then show ?case using Cons by simp
  qed simp
  then show ?thesis by (simp add: decimal_def)
qed

lemma parseInt_nonneg:
  assumes "parseInt s = Some i"
  shows "sint i = decimal s" "0 \<le> sint i"
proof -
  have d: "0 \<le> decimal s" "decimal s < 2 ^ 63" "i = of_int (decimal s)"
    using assms decimal_nonneg [of s] by (auto simp: parseInt_def split: if_splits)
  then show i: "sint i = decimal s"
    by (simp add: signed_of_int signed_take_bit_int_eq_self)
  show "0 \<le> sint i" using i d(1) by simp
qed

lemma tryNum_cases:
  assumes "inside p"
  obtains (fail) q where "tryNum node p = Some (False, node, q)" "steps p q" "p_err q = p_err p"
    | (ok) i q where "tryNum node p = Some (True, QLNode QL_I64 i (NStr node) (Kids node), q)"
        "moves p q" "p_err q = p_err p" "0 \<le> sint i"
proof -
  obtain r where r: "skipSpaces p = Some r" "steps p r" "p_input r = p_input p" "p_err r = p_err p"
    by (rule skipSpaces_cases [OF assms])
  have i: "p_idx r \<le> length (p_input r)" using steps_inside [OF r(2)] by (simp add: inside_def)
  obtain e where e: "scanWhile isNumber (p_input r) (p_idx r) = Some e" "p_idx r \<le> e" "e \<le> length (p_input r)"
    by (rule scanWhile_cases [OF i, of isNumber])
  let ?s = "sub (p_input r) (p_idx r) (e - p_idx r)"
  have eq: "tryNum node p = Some
    (if e = p_idx r \<or> e < length (p_input r) \<and> isSym (p_input r ! e) then (False, node, r)
     else case parseInt ?s of
         None \<Rightarrow> (False, node, r)
       | Some i64 \<Rightarrow> (True, QLNode QL_I64 i64 (NStr node) (Kids node), r\<lparr>p_idx := e\<rparr>))"
    unfolding QL_I64_def using r(1) e by (simp add: tryNum_def slice_at_def)
  show ?thesis
  proof (cases "e = p_idx r \<or> e < length (p_input r) \<and> isSym (p_input r ! e) \<or> parseInt ?s = None")
    case True
    then have "tryNum node p = Some (False, node, r)" using eq by auto
    then show ?thesis using fail r by simp
  next
    case False
    then obtain i where i: "parseInt ?s = Some i" by auto
    have "moves p (r\<lparr>p_idx := e\<rparr>)"
      using r(2,3) e(2,3) False by (auto simp: moves_def steps_def inside_def)
    then show ?thesis using ok [of i "r\<lparr>p_idx := e\<rparr>"] False i eq r(4) parseInt_nonneg(2) [OF i] by simp
  qed
qed

lemma strLoop_result:
  "(\<exists>msg. strLoop quote inp i s = Some (Inl msg)) \<or>
   (\<exists>j s'. strLoop quote inp i s = Some (Inr (j, s')) \<and> i \<le> j \<and> (i \<le> length inp \<longrightarrow> j \<le> length inp))"
proof (induction quote inp i s rule: strLoop.induct)
  case (1 quote inp i s)
  show ?case
  proof (cases "i < length inp \<and> inp ! i \<noteq> quote")
    case False
    then show ?thesis by (subst (1 2) strLoop.simps) auto
  next
    case run: True
    show ?thesis
    proof (cases "inp ! i = 92")
      case False
      have "strLoop quote inp i s = strLoop quote inp (i + 1) (s @ [inp ! i])"
        using run False by (subst strLoop.simps) simp
      then show ?thesis using 1(2) [of "inp ! i"] run False by auto
    next
      case esc: True
      consider (stop) "i + 1 = length inp" | (bad) "i + 1 < length inp" "inp ! (i + 1) \<notin> {34, 39, 92}"
        | (good) "i + 1 < length inp" "inp ! (i + 1) \<in> {34, 39, 92}" using run by linarith
      then show ?thesis
      proof cases
        case stop
        then show ?thesis using run esc by (subst strLoop.simps) simp
      next
        case bad
        then show ?thesis using run esc by (subst strLoop.simps) simp
      next
        case good
        have "strLoop quote inp i s = strLoop quote inp (i + 1 + 1) (s @ [inp ! (i + 1)])"
          using run esc good by (subst strLoop.simps) simp
        then show ?thesis using 1(1) [of "inp ! i" "i + 1" "inp ! (i + 1)"] run esc good by auto
      qed
    qed
  qed
qed

lemma tryStr_cases:
  assumes "inside p"
  obtains (fail) q where "tryStr node p = Some (False, node, q)" "steps p q"
    | (ok) s q where "tryStr node p = Some (True, QLNode QL_STR (NI64 node) s (Kids node), q)"
        "moves p q" "p_err q = p_err p"
proof -
  obtain r where r: "skipSpaces p = Some r" "steps p r" "p_input r = p_input p" "p_err r = p_err p"
    by (rule skipSpaces_cases [OF assms])
  let ?i = "p_idx r" and ?inp = "p_input r"
  show ?thesis
  proof (cases "?i < length ?inp \<and> (?inp ! ?i = 34 \<or> ?inp ! ?i = 39)")
    case False
    then have "tryStr node p = Some (False, node, r)" using r(1) by (simp add: tryStr_def del: list_at_simps)
    then show ?thesis using fail r by simp
  next
    case opens: True
    have err: "steps p (pErr msg r)" for msg
      using steps_trans [OF r(2) pErr_steps [OF steps_inside [OF r(2)]]] .
    have start: "tryStr node p = strLoop (?inp ! ?i) ?inp (?i + 1) [] \<bind> (\<lambda>w. case w of
        Inl msg \<Rightarrow> Some (False, node, pErr msg r)
      | Inr (j, s) \<Rightarrow> Some (if \<not> (j < length ?inp \<and> ?inp ! j = ?inp ! ?i)
          then (False, node, pErr (lit ''string not terminated'') r)
          else (True, QLNode QL_STR (NI64 node) s (Kids node), r\<lparr>p_idx := j + 1\<rparr>)))"
      using r(1) opens unfolding tryStr_def
      by (simp add: Let_def) (auto intro!: arg_cong [of _ _ "Option.bind _"] simp: fun_eq_iff split: sum.split prod.split)
    consider (bad) msg where "strLoop (?inp ! ?i) ?inp (?i + 1) [] = Some (Inl msg)"
      | (good) j s where "strLoop (?inp ! ?i) ?inp (?i + 1) [] = Some (Inr (j, s))" "?i + 1 \<le> j" "j \<le> length ?inp"
      using strLoop_result [of "?inp ! ?i" ?inp "?i + 1" "[]"] opens by auto
    then show ?thesis
    proof cases
      case bad
      then show ?thesis using fail [of "pErr msg r"] start err by simp
    next
      case good
      show ?thesis
      proof (cases "j < length ?inp \<and> ?inp ! j = ?inp ! ?i")
        case True
        then have "tryStr node p = Some (True, QLNode QL_STR (NI64 node) s (Kids node), r\<lparr>p_idx := j + 1\<rparr>)"
          using start good(1) by simp
        moreover have "moves p (r\<lparr>p_idx := j + 1\<rparr>)"
          using r(2,3) good(2) True by (auto simp: moves_def steps_def inside_def)
        ultimately show ?thesis using ok r(4) by simp
      next
        case False
        then show ?thesis using fail [of "pErr (lit ''string not terminated'') r"] start good(1) err by auto
      qed
    qed
  qed
qed

section \<open>The contract of a list item\<close>

text \<open>
  The captured variable satisfies \<open>A\<close> all the time, and \<open>W\<close> as long as there is no error;
  without an error the item takes something from the input.
\<close>

locale item_parser =
  fixes f :: "'s action" and bound :: nat and A W :: "'s \<Rightarrow> bool"
  assumes item: "inside p \<Longrightarrow> rem p < bound \<Longrightarrow> A s \<Longrightarrow> (p_err p = None \<Longrightarrow> W s) \<Longrightarrow>
    \<exists>s' q. f s p = Some (s', q) \<and> steps p q \<and> A s' \<and> (p_err q = None \<longrightarrow> moves p q \<and> W s')"
begin

lemma commaLoop:
  assumes "inside p" "rem p < bound" "rem p < n" "A s" "p_err p = None \<Longrightarrow> W s"
  shows "\<exists>s' q. commaLoop n f s p = Some (s', q) \<and> steps p q \<and> A s' \<and> (p_err q = None \<longrightarrow> W s')"
  using assms
proof (induction n arbitrary: s p)
  case (Suc n)
  show ?case
  proof (rule match_cases [OF Suc.prems(1), of "['','']"])
    assume "match ['',''] p = Some (False, p)"
    then show ?thesis using Suc.prems by simp
  next
    fix q assume q: "match ['',''] p = Some (True, q)" "steps p q" "p_err q = p_err p"
      "p_idx p + length (concat ['','']) \<le> p_idx q"
    have q': "moves p q" using q by (simp add: moves_def)
    obtain s' r where r: "f s q = Some (s', r)" "steps q r" "A s'" "p_err r = None \<longrightarrow> moves q r \<and> W s'"
      using item [OF steps_inside [OF q(2)], of s] moves_rem [OF q'] Suc.prems q(3) by auto
    have "rem r < rem p" using moves_rem [OF q'] steps_rem [OF r(2)] by simp
    then obtain s'' t where "commaLoop n f s' r = Some (s'', t)" "steps r t" "A s''"
      "p_err t = None \<longrightarrow> W s''"
      using Suc.IH [OF steps_inside [OF r(2)], of s'] Suc.prems r(3,4) by auto
    then show ?thesis
      using q r by (auto intro: steps_trans [OF q(2) steps_trans [OF r(2)]])
  qed
qed simp

lemma pCommaList:
  assumes "inside p" "rem p < bound" "rem p < n" "A s" "p_err p = None \<Longrightarrow> W s"
  shows "\<exists>s' q. pCommaList n f s p = Some (s', q) \<and> steps p q \<and> A s' \<and>
    (p_err q = None \<longrightarrow> moves p q \<and> W s')"
proof -
  obtain s' q where q: "f s p = Some (s', q)" "steps p q" "A s'" "p_err q = None \<longrightarrow> moves p q \<and> W s'"
    using item [OF assms(1,2,4,5)] by auto
  obtain s'' r where r: "commaLoop n f s' q = Some (s'', r)" "steps q r" "A s''" "p_err r = None \<longrightarrow> W s''"
    using commaLoop [OF steps_inside [OF q(2)] _ _ q(3), of n] steps_rem [OF q(2)] assms(2,3) q(4) by auto
  show ?thesis
    using q r by (auto simp: pCommaList_def intro: steps_trans moves_trans dest: steps_err)
qed

lemma groupLoop:
  assumes "inside p" "rem p < bound" "rem p + 1 < n" "A s" "p_err p = None \<Longrightarrow> W s"
  shows "\<exists>s' q. groupLoop n needComma f s p = Some (s', q) \<and> steps p q \<and> A s' \<and>
    (p_err q = None \<longrightarrow> moves p q \<and> W s')"
  using assms
proof (induction n arbitrary: s p needComma)
  case (Suc n)
  show ?case
  proof (cases "p_err p = None")
    case False
    then show ?thesis using Suc.prems by auto
  next
    case err: True
    show ?thesis
    proof (rule match_cases [OF Suc.prems(1), of "['')'']"])
      fix q assume "match ['')''] p = Some (True, q)" "steps p q" "p_idx p + length (concat ['')'']) \<le> p_idx q"
      then show ?thesis using Suc.prems err by (simp add: moves_def)
    next
      assume m: "match ['')''] p = Some (False, p)"
      obtain p' where c: "(if needComma then consume '','' (''expect '' @ quoted '','') p else Some p) = Some p'"
          and p: "steps p p'"
      proof (cases needComma)
        case True
        then show thesis using consume_cases [OF Suc.prems(1), of "'',''" "''expect '' @ quoted '',''"] that by force
      next
        case False
        then show thesis using that [of p] Suc.prems(1) by simp
      qed
      obtain s' r where r: "f s p' = Some (s', r)" "steps p' r" "A s'"
          "p_err r = None \<longrightarrow> moves p' r \<and> W s'"
        using item [OF steps_inside [OF p], of s] steps_rem [OF p] Suc.prems err by auto
      have pr: "steps p r" using p r(2) by (rule steps_trans)
      have unfold: "groupLoop (Suc n) needComma f s p = groupLoop n True f s' r"
        using m err c r(1) by (simp cong: if_cong split del: if_split)
      show ?thesis
      proof (cases "p_err r = None")
        case True
        then have mv: "moves p r" using r(4) p moves_trans(2) by blast
        obtain s'' t where t: "groupLoop n True f s' r = Some (s'', t)" "steps r t" "A s''"
            "p_err t = None \<longrightarrow> moves r t \<and> W s''"
          using Suc.IH [OF steps_inside [OF pr], of s' True] moves_rem [OF mv] Suc.prems r(3,4) True
          by auto
        show ?thesis
          using t steps_trans [OF pr t(2)] moves_trans(1) [OF mv t(2)] unfolding unfold by simp
      next
        case False
        obtain m where "n = Suc m" using Suc.prems(3) by (cases n) auto
        then have "groupLoop n True f s' r = Some (s', r)" using False by auto
        then show ?thesis using pr r(3) False unfolding unfold by auto
      qed
    qed
  qed
qed simp

lemma pGroupedCommaList:
  assumes "inside p" "rem p < bound" "rem p + 1 < n" "A s" "p_err p = None \<Longrightarrow> W s"
  shows "\<exists>s' q. pGroupedCommaList n f s p = Some (s', q) \<and> steps p q \<and> A s' \<and>
    (p_err q = None \<longrightarrow> moves p q \<and> W s')"
  using groupLoop [OF assms] by (simp add: pGroupedCommaList_def)

end

section \<open>The contract of an expression parser\<close>

locale expr_parser =
  fixes f :: "QLNode action" and bound :: nat
  assumes expr: "inside p \<Longrightarrow> rem p < bound \<Longrightarrow>
    \<exists>node q. f zero_node p = Some (node, q) \<and> steps p q \<and> arity_ok node \<and>
      (p_err q = None \<longrightarrow> moves p q \<and> wf_expr node)"
begin

text \<open>The items of a list of expressions.\<close>

sublocale items: item_parser
  "\<lambda>kids p. f zero_node p \<bind> (\<lambda>(kid, p). Some (kids @ [kid], p))" bound
  "list_all arity_ok" "list_all wf_expr"
proof
  fix p and s :: "QLNode list"
  assume s: "inside p" "rem p < bound" "list_all arity_ok s" "p_err p = None \<Longrightarrow> list_all wf_expr s"
  obtain node q where "f zero_node p = Some (node, q)" "steps p q" "arity_ok node"
    "p_err q = None \<longrightarrow> moves p q \<and> wf_expr node"
    using expr [OF s(1,2)] by auto
  then show "\<exists>s' q. f zero_node p \<bind> (\<lambda>(kid, p). Some (s @ [kid], p)) = Some (s', q) \<and>
      steps p q \<and> list_all arity_ok s' \<and> (p_err q = None \<longrightarrow> moves p q \<and> list_all wf_expr s')"
    using s(3,4) steps_err by auto
qed

lemma binLoop:
  assumes "inside p" "rem p < n" "rem p \<le> bound" "arity_ok left" "p_err p = None \<Longrightarrow> wf_expr left"
    "\<forall>(tok, t) \<in> set ops. tok \<noteq> [] \<and> t \<in> binTypes"
  shows "\<exists>node q. binLoop n ops f left p = Some (node, q) \<and> steps p q \<and> arity_ok node \<and>
    (p_err q = None \<longrightarrow> wf_expr node)"
  using assms
proof (induction n arbitrary: left p)
  case (Suc n)
  have op: "matchOp ops p = Some (None, p) \<or> (\<exists>t q. matchOp ops p = Some (Some t, q) \<and> t \<in> binTypes \<and> moves p q \<and> p_err q = p_err p)"
    using Suc.prems(6)
  proof (induction ops)
    case (Cons op ops)
    obtain tok t where tok: "op = (tok, t)" by (cases op) auto
    show ?case
      using Cons tok by (cases rule: match_cases [OF Suc.prems(1), of "[tok]"]) (auto simp: moves_def Suc_le_eq neq_Nil_conv)
  qed simp
  show ?case
  proof (cases "matchOp ops p = Some (None, p)")
    case True
    then show ?thesis using Suc.prems by simp
  next
    case False
    then obtain t q where q: "matchOp ops p = Some (Some t, q)" "t \<in> binTypes" "moves p q" "p_err q = p_err p"
      using op by auto
    obtain right r where r: "f zero_node q = Some (right, r)" "steps q r" "arity_ok right"
        "p_err r = None \<longrightarrow> moves q r \<and> wf_expr right"
      using expr [of q] moves_rem [OF q(3)] Suc.prems(3) steps_inside [OF moves_steps [OF q(3)]] by auto
    have pr: "steps p r" "rem r < rem p"
      using moves_steps [OF q(3)] r(2) steps_trans moves_rem [OF q(3)] steps_rem [OF r(2)] by (blast, simp)
    have "arity_ok (op_node t [left, right])" "p_err r = None \<Longrightarrow> wf_expr (op_node t [left, right])"
      using Suc.prems(4,5) r(3,4) q(2) steps_err [OF pr(1)] by (auto simp: op_node_def)
    then obtain node u where "binLoop n ops f (op_node t [left, right]) r = Some (node, u)" "steps r u"
        "arity_ok node" "p_err u = None \<longrightarrow> wf_expr node"
      using Suc.IH [of r "op_node t [left, right]"] pr Suc.prems steps_inside [OF pr(1)] by auto
    then show ?thesis using q(1) r(1) steps_trans [OF pr(1)] by auto
  qed
qed simp

lemma binOp:
  assumes "bound \<le> n" "\<forall>(tok, t) \<in> set ops. tok \<noteq> [] \<and> t \<in> binTypes"
  shows "expr_parser (pExprBinOp n ops f) bound"
proof
  fix p assume p: "inside p" "rem p < bound"
  obtain left q where q: "f zero_node p = Some (left, q)" "steps p q" "arity_ok left"
      "p_err q = None \<longrightarrow> moves p q \<and> wf_expr left"
    using expr [OF p] by auto
  obtain node r where r: "binLoop n ops f left q = Some (node, r)" "steps q r" "arity_ok node"
      "p_err r = None \<longrightarrow> wf_expr node"
    using binLoop [OF steps_inside [OF q(2)] _ _ q(3), of n ops] steps_rem [OF q(2)] p assms q(4) by auto
  show "\<exists>node r. pExprBinOp n ops f zero_node p = Some (node, r) \<and> steps p r \<and> arity_ok node \<and>
      (p_err r = None \<longrightarrow> moves p r \<and> wf_expr node)"
    using q r steps_trans [OF q(2) r(2)] steps_err [OF r(2)] moves_trans(1) [OF _ r(2)]
    by (auto simp: pExprBinOp_def)
qed

lemma unOp:
  assumes "op \<noteq> []" "t \<in> {QL_NOT, QL_NEG}"
  shows "expr_parser (pExprUnOp op t f) bound"
proof
  fix p assume p: "inside p" "rem p < bound"
  show "\<exists>node q. pExprUnOp op t f zero_node p = Some (node, q) \<and> steps p q \<and> arity_ok node \<and>
      (p_err q = None \<longrightarrow> moves p q \<and> wf_expr node)"
  proof (rule match_cases [OF p(1), of "[op]"])
    assume "match [op] p = Some (False, p)"
    then show ?thesis using expr [OF p] by (simp add: pExprUnOp_def)
  next
    fix q assume q: "match [op] p = Some (True, q)" "steps p q" "p_err q = p_err p"
      "p_idx p + length (concat [op]) \<le> p_idx q"
    obtain kid r where r: "f zero_node q = Some (kid, r)" "steps q r" "arity_ok kid"
        "p_err r = None \<longrightarrow> moves q r \<and> wf_expr kid"
      using expr [of q] steps_rem [OF q(2)] p(2) steps_inside [OF q(2)] by auto
    have "t \<notin> binTypes" using assms(2) by (auto simp: binTypes_def ql_consts)
    then have "arity_ok (QLNode t 0 [] [kid])" "wf_expr kid \<Longrightarrow> wf_expr (QLNode t 0 [] [kid])"
      using r(3) assms(2) by auto
    then show ?thesis
      using q(1) r steps_trans [OF q(2) r(2)] moves_trans(2) [OF q(2)]
      by (auto simp: pExprUnOp_def zero_node_def)
  qed
qed

lemma tuple:
  assumes "rem p + 1 < n" "rem p < bound" "inside p"
  shows "\<exists>node q. tupleOf n f zero_node p = Some (node, q) \<and> steps p q \<and> arity_ok node \<and>
      (p_err q = None \<longrightarrow> moves p q \<and> wf_expr node)"
proof -
  let ?item = "\<lambda>kids p. f zero_node p \<bind> (\<lambda>(kid, p). Some (kids @ [kid], p))"
  obtain kids q where q: "pGroupedCommaList n ?item [] p = Some (kids, q)" "steps p q"
      "list_all arity_ok kids" "p_err q = None \<longrightarrow> moves p q \<and> list_all wf_expr kids"
    using items.pGroupedCommaList [OF assms(3,2,1), of "[]"] by auto
  have t: "QL_TUP \<notin> binTypes" by (simp add: binTypes_def ql_consts)
  show ?thesis
  proof (cases "length kids = 1")
    case True
    then obtain k where "kids = [k]" by (cases kids) auto
    then show ?thesis using q by (simp add: tupleOf_def)
  next
    case False
    then show ?thesis using q t by (auto simp: tupleOf_def zero_node_def)
  qed
qed

end

lemma atomOf_parser:
  assumes tuple: "\<And>p. inside p \<Longrightarrow> rem p < bound \<Longrightarrow>
    \<exists>node q. f zero_node p = Some (node, q) \<and> steps p q \<and> arity_ok node \<and>
      (p_err q = None \<longrightarrow> moves p q \<and> wf_expr node)"
  shows "expr_parser (atomOf f) (Suc bound)"
proof
  fix p assume p: "inside p" "rem p < Suc bound"
  show "\<exists>node q. atomOf f zero_node p = Some (node, q) \<and> steps p q \<and> arity_ok node \<and>
      (p_err q = None \<longrightarrow> moves p q \<and> wf_expr node)"
  proof (rule match_cases [OF p(1), of "[''('']"])
    fix q assume q: "match [''(''] p = Some (True, q)" "steps p q" "p_idx p + length (concat [''('']) \<le> p_idx q"
    then have mv: "moves p q" by (simp add: moves_def)
    obtain node r where r: "f zero_node q = Some (node, r)" "steps q r" "arity_ok node"
        "p_err r = None \<longrightarrow> moves q r \<and> wf_expr node"
      using tuple [of q] moves_rem [OF mv] p(2) steps_inside [OF q(2)] by auto
    then show ?thesis
      using q(1) steps_trans [OF q(2) r(2)] moves_trans(1) [OF mv r(2)] by (auto simp: atomOf_def)
  next
    assume m: "match [''(''] p = Some (False, p)"
    have leaf: "arity_ok (QLNode t i s [])" if "t \<notin> binTypes" for t i s using that by simp
    have t: "QL_SYM \<notin> binTypes" "QL_I64 \<notin> binTypes" "QL_STR \<notin> binTypes" "0 \<notin> binTypes"
      by (simp_all add: binTypes_def ql_consts TYPE_INT64_def TYPE_BYTES_def)
    show ?thesis
    proof (cases rule: trySym_cases [OF p(1), of zero_node])
      case (2 s q)
      then show ?thesis
        using m leaf [OF t(1)] by (auto simp: atomOf_def zero_node_def moves_def)
    next
      case sym: (1 q)
      show ?thesis
      proof (cases rule: tryNum_cases [OF steps_inside [OF sym(2)], of zero_node])
        case (2 i r)
        then show ?thesis
          using m sym leaf [OF t(2)] steps_trans [OF sym(2)] moves_trans(2) [OF sym(2) 2(2)]
          by (auto simp: atomOf_def zero_node_def moves_def)
      next
        case num: (1 r)
        have pr: "steps p r" using steps_trans [OF sym(2) num(2)] .
        show ?thesis
        proof (cases rule: tryStr_cases [OF steps_inside [OF num(2)], of zero_node])
          case (2 s u)
          then show ?thesis
            using m sym num leaf [OF t(3)] moves_trans(2) [OF pr 2(2)]
            by (auto simp: atomOf_def zero_node_def moves_def)
        next
          case (1 u)
          then show ?thesis
            using m sym num leaf [OF t(4)] steps_trans [OF pr 1(2)]
              steps_trans [OF steps_trans [OF pr 1(2)] pErr_steps [OF steps_inside [OF 1(2)]]]
            by (auto simp: atomOf_def zero_node_def)
        qed
      qed
    qed
  qed
qed

section \<open>The precedence chain\<close>

text \<open>The bound of each level: the fuel \<open>n\<close> is enough for \<open>(n + k) div 10\<close> remaining bytes.\<close>

lemma levels:
  shows "expr_parser (pExprOr n) ((n + 1) div 10) \<and> expr_parser (pExprAnd n) ((n + 2) div 10) \<and>
     expr_parser (pExprNot n) ((n + 3) div 10) \<and> expr_parser (pExprCmp n) ((n + 4) div 10) \<and>
     expr_parser (pExprAdd n) ((n + 5) div 10) \<and> expr_parser (pExprMul n) ((n + 6) div 10) \<and>
     expr_parser (pExprNeg n) ((n + 7) div 10) \<and> expr_parser (pExprAtom n) ((n + 8) div 10) \<and>
     expr_parser (pExprTuple n) (n div 10)"
proof (induction n)
  case 0
  then show ?case by (simp add: expr_parser_def)
next
  case (Suc n)
  have ops: "\<forall>(tok, t) \<in> set orOps. tok \<noteq> [] \<and> t \<in> binTypes" "\<forall>(tok, t) \<in> set andOps. tok \<noteq> [] \<and> t \<in> binTypes"
    "\<forall>(tok, t) \<in> set cmpOps. tok \<noteq> [] \<and> t \<in> binTypes" "\<forall>(tok, t) \<in> set addOps. tok \<noteq> [] \<and> t \<in> binTypes"
    "\<forall>(tok, t) \<in> set mulOps. tok \<noteq> [] \<and> t \<in> binTypes"
    by (simp_all add: orOps_def andOps_def cmpOps_def addOps_def mulOps_def binTypes_def)
  have "expr_parser (pExprOr (Suc n)) ((n + 2) div 10)" "expr_parser (pExprAnd (Suc n)) ((n + 3) div 10)"
    "expr_parser (pExprCmp (Suc n)) ((n + 5) div 10)" "expr_parser (pExprAdd (Suc n)) ((n + 6) div 10)"
    "expr_parser (pExprMul (Suc n)) ((n + 7) div 10)"
    using Suc expr_parser.binOp [OF _ _ ops(1)] expr_parser.binOp [OF _ _ ops(2)]
      expr_parser.binOp [OF _ _ ops(3)] expr_parser.binOp [OF _ _ ops(4)] expr_parser.binOp [OF _ _ ops(5)]
    by auto
  moreover have "expr_parser (pExprNot (Suc n)) ((n + 4) div 10)" "expr_parser (pExprNeg (Suc n)) ((n + 8) div 10)"
    using Suc expr_parser.unOp by simp_all
  moreover have "expr_parser (pExprAtom (Suc n)) ((n + 9) div 10)"
  proof -
    have "expr_parser (atomOf (pExprTuple n)) (Suc (n div 10))"
      using Suc by (intro atomOf_parser) (auto simp: expr_parser_def)
    moreover have "(n + 9) div 10 \<le> Suc (n div 10)" by presburger
    ultimately show ?thesis by (auto simp: expr_parser_def)
  qed
  moreover have "expr_parser (pExprTuple (Suc n)) (Suc n div 10)"
  proof
    fix p assume p: "inside p" "rem p < Suc n div 10"
    then show "\<exists>node q. pExprTuple (Suc n) zero_node p = Some (node, q) \<and> steps p q \<and> arity_ok node \<and>
      (p_err q = None \<longrightarrow> moves p q \<and> wf_expr node)"
      using Suc expr_parser.tuple [of "pExprOr n" "(n + 1) div 10" p n] by simp
  qed
  ultimately show ?case by (simp add: add.commute)
qed

interpretation or_level: expr_parser "pExprOr n" "(n + 1) div 10" for n
  using levels [of n] by blast

interpretation and_level: expr_parser "pExprAnd n" "(n + 2) div 10" for n
  using levels [of n] by blast

end
