(* ===== verification/QLParseProps.thy ===== *)
theory QLParseProps
  imports QLWalk
begin

text \<open>
  The statements: every statement parser returns within a fuel linear in the input, without a
  panic, and a statement parsed without an error is well formed. The list closures of the
  statements interpret \<open>item_parser\<close>.
\<close>

section \<open>Well-formed statements\<close>

text \<open>A key of \<^verbatim>\<open>INDEX BY\<close>: a comparison of a tuple of column names with a tuple of as many values.\<close>

definition wf_key :: "QLNode \<Rightarrow> bool" where
  "wf_key k \<longleftrightarrow> NType k \<in> {QL_CMP_EQ, QL_CMP_GE, QL_CMP_GT, QL_CMP_LT, QL_CMP_LE} \<and>
     (case Kids k of
        [l, r] \<Rightarrow> NType l = QL_TUP \<and> NType r = QL_TUP \<and> length (Kids l) = length (Kids r) \<and>
          list_all (\<lambda>name. NType name = QL_SYM) (Kids l) \<and>
          list_all wf_expr (Kids l) \<and> list_all wf_expr (Kids r)
      | _ \<Rightarrow> False)"

definition wf_scan :: "'a QLScan_scheme \<Rightarrow> bool" where
  "wf_scan s \<longleftrightarrow> good_name (STable s) \<and>
     (Key1 s = zero_node \<and> Key2 s = zero_node \<or>
      wf_key (Key1 s) \<and> (Key2 s = zero_node \<or> wf_key (Key2 s) \<and> NType (Key1 s) \<noteq> QL_CMP_EQ)) \<and>
     (Filter s = zero_node \<or> wf_expr (Filter s)) \<and> 0 \<le> sint (Offset s) \<and> 0 \<le> sint (Limit s)"

definition wf_output :: "bytes \<Rightarrow> QLNode \<Rightarrow> bool" where
  "wf_output name e \<longleftrightarrow> name = lit ''*'' \<and> e = op_node QL_STAR [] \<or>
     (name = [] \<or> good_name name) \<and> wf_expr e"

definition wf_def :: "TableDef \<Rightarrow> bool" where
  "wf_def t \<longleftrightarrow> good_name (Name t) \<and> list_all good_name (Cols t) \<and>
     length (Types t) = length (Cols t) \<and> set (Types t) \<subseteq> {TYPE_BYTES, TYPE_INT64} \<and>
     Indexes t \<noteq> [] \<and> list_all (list_all good_name) (Indexes t) \<and> Prefixes t = []"

fun wf_stmt :: "Stmt \<Rightarrow> bool" where
  "wf_stmt (StmtCreateTable t) \<longleftrightarrow> wf_def t"
| "wf_stmt (StmtSelect s) \<longleftrightarrow> wf_scan s \<and> Output s \<noteq> [] \<and> list_all2 wf_output (SNames s) (Output s)"
| "wf_stmt (StmtInsert i) \<longleftrightarrow> good_name (ITable i) \<and> list_all good_name (INames i) \<and>
     IMode i \<in> {MODE_UPSERT, MODE_UPDATE_ONLY, MODE_INSERT_ONLY} \<and> IValues i \<noteq> [] \<and>
     list_all (\<lambda>row. length row = length (INames i) \<and> list_all wf_expr row) (IValues i)"
| "wf_stmt (StmtDelete s) \<longleftrightarrow> wf_scan s"
| "wf_stmt (StmtUpdate u) \<longleftrightarrow> wf_scan u \<and> UValues u \<noteq> [] \<and>
     list_all2 (\<lambda>name e. good_name name \<and> wf_expr e) (UNames u) (UValues u)"
| "wf_stmt _ \<longleftrightarrow> True"

section \<open>Names\<close>

lemma pSym_cases:
  assumes "inside p"
  obtains s q where "pSym p = Some (s, q)" "steps p q" "p_err q = None \<longrightarrow> moves p q \<and> good_name s"
proof (cases rule: trySym_cases [OF assms, of zero_node])
  case (1 q)
  then show ?thesis
    using that [of "[]" "pErr (lit ''expect name'') q"] steps_trans [OF 1(2) pErr_steps] steps_inside [OF 1(2)]
    by (simp add: pSym_def)
next
  case (2 s q)
  then show ?thesis using that [of s q] by (simp add: pSym_def moves_steps)
qed

interpretation name_item: item_parser
  "\<lambda>names p. pSym p \<bind> (\<lambda>(name, p). Some (names @ [name], p))" bound "\<lambda>_. True" "list_all good_name"
  for bound
proof
  fix p s assume p: "inside p" "p_err p = None \<Longrightarrow> list_all good_name s"
  obtain name q where "pSym p = Some (name, q)" "steps p q" "p_err q = None \<longrightarrow> moves p q \<and> good_name name"
    using pSym_cases [OF p(1)] by blast
  then show "\<exists>s' q. pSym p \<bind> (\<lambda>(name, p). Some (s @ [name], p)) = Some (s', q) \<and> steps p q \<and> True \<and>
      (p_err q = None \<longrightarrow> moves p q \<and> list_all good_name s')"
    using p(2) steps_err [of p q] by auto
qed

lemma pNameList_cases:
  assumes "inside p" "rem p + 1 < n"
  obtains names q where "pNameList n p = Some (names, q)" "steps p q"
    "p_err q = None \<longrightarrow> moves p q \<and> list_all good_name names"
proof -
  obtain r where c: "consume ''('' (''expect '' @ quoted ''('' @ '' before names list'') p = Some r" and p: "steps p r"
    by (rule consume_cases [OF assms(1), of "''(''" "''expect '' @ quoted ''('' @ '' before names list''"]) (simp, rule that)
  obtain names q where q: "pNameList n p = Some (names, q)" "steps r q"
      "p_err q = None \<longrightarrow> moves r q \<and> list_all good_name names"
    using name_item.pGroupedCommaList [OF steps_inside [OF p], of "Suc (rem r)" n "[]"] steps_rem [OF p] assms(2) c
    by (auto simp: pNameList_def)
  show ?thesis
    using that [OF q(1) steps_trans [OF p q(2)]] q(3) moves_trans(2) [OF p] by blast
qed

section \<open>Query conditions\<close>

lemma pErr_result:
  "inside p \<Longrightarrow> \<exists>s' q. Some (s, pErr msg p) = Some (s', q) \<and> steps p q \<and> (p_err q = None \<longrightarrow> X s' q)"
  by (simp add: pErr_steps)

lemma verifyScanKey_result:
  assumes "inside p" "arity_ok node"
  shows "\<exists>node' q. verifyScanKey node p = Some (node', q) \<and> steps p q \<and>
    (p_err q = None \<longrightarrow> q = p \<and> (wf_expr node \<longrightarrow> wf_key node'))"
proof (cases "NType node \<in> {QL_CMP_EQ, QL_CMP_GE, QL_CMP_GT, QL_CMP_LT, QL_CMP_LE}")
  case False
  then show ?thesis using pErr_result [OF assms(1)] unfolding verifyScanKey_def by simp
next
  case True
  then have "NType node \<in> binTypes" by (auto simp: binTypes_def)
  then have "length (Kids node) = 2" using assms(2) by (cases node) auto
  then obtain l r where kids: "Kids node = [l, r]" by (auto simp: numeral_2_eq_2 length_Suc_conv)
  define l' where "l' = (if NType l \<noteq> QL_TUP \<and> NType r \<noteq> QL_TUP then op_node QL_TUP [l] else l)"
  define r' where "r' = (if NType l \<noteq> QL_TUP \<and> NType r \<noteq> QL_TUP then op_node QL_TUP [r] else r)"
  have pair: "(if NType l \<noteq> QL_TUP \<and> NType r \<noteq> QL_TUP then (op_node QL_TUP [l], op_node QL_TUP [r]) else (l, r)) = (l', r')"
    by (simp add: l'_def r'_def)
  let ?node = "QLNode (NType node) (NI64 node) (NStr node) [l', r']"
  have eq: "verifyScanKey node p =
    (if NType l' \<noteq> QL_TUP \<or> NType r' \<noteq> QL_TUP then
       Some (node, pErr (lit (''bad '' @ quoted ''INDEX BY'' @ '': compare tuple and single value'')) p)
     else if length (Kids l') \<noteq> length (Kids r') then
       Some (node, pErr (lit (''bad '' @ quoted ''INDEX BY'' @ '': columns count not match values count'')) p)
     else if \<exists>name \<in> set (Kids l'). NType name \<noteq> QL_SYM then
       Some (node, pErr (lit (''bad '' @ quoted ''INDEX BY'' @
            '': left side of comparison must be column name(s)'')) p)
     else Some (?node, p))"
    unfolding verifyScanKey_def if_P [OF True] by (simp add: kids pair list_set_def cong: if_cong split del: if_split)
  have "wf_expr node \<longrightarrow> wf_key ?node"
    if "NType l' = QL_TUP" "NType r' = QL_TUP" "length (Kids l') = length (Kids r')"
      "\<forall>name \<in> set (Kids l'). NType name = QL_SYM"
  proof
    assume wf: "wf_expr node"
    then have "list_all wf_expr (Kids node)" by (cases node) auto
    then have lr: "wf_expr l" "wf_expr r" using kids by simp_all
    then have "list_all wf_expr (Kids l)" "list_all wf_expr (Kids r)" by (cases l; cases r; auto)+
    then have "list_all wf_expr (Kids l')" "list_all wf_expr (Kids r')"
      using lr by (simp_all add: l'_def r'_def op_node_def)
    then show "wf_key ?node" using that True by (simp add: wf_key_def list_all_iff)
  qed
  then show ?thesis
    using pErr_result [OF assms(1)] assms(1) unfolding eq by auto
qed

lemma pIndexBy_result:
  assumes "inside p" "rem p < (n + 2) div 10" "Key1 s = zero_node" "Key2 s = zero_node"
  shows "\<exists>k1 k2 q. pIndexBy n s p = Some (s\<lparr>Key1 := k1, Key2 := k2\<rparr>, q) \<and> steps p q \<and>
    (p_err q = None \<longrightarrow> wf_key k1 \<and> (k2 = zero_node \<or> wf_key k2 \<and> NType k1 \<noteq> QL_CMP_EQ))"
proof -
  obtain index q where q: "pExprAnd n zero_node p = Some (index, q)" "steps p q" "arity_ok index"
      "p_err q = None \<longrightarrow> moves p q \<and> wf_expr index"
    using and_level.expr [OF assms(1,2)] by auto
  define k1 where "k1 = (if NType index = QL_AND then Kids index ! 0 else index)"
  define k2 where "k2 = (if NType index = QL_AND then Kids index ! 1 else zero_node)"
  have two: "length (Kids index) = 2" if "NType index = QL_AND"
    using that q(3) by (cases index) (auto simp: binTypes_def)
  have k12: "arity_ok k1" "arity_ok k2"
    using q(3) two by (cases index; auto simp: k1_def k2_def list_all_length zero_node_def binTypes_def ql_consts)+
  have wf: "p_err q = None \<longrightarrow> wf_expr k1 \<and> (k2 = zero_node \<or> wf_expr k2)"
    using q(4) two by (cases index) (auto simp: k1_def k2_def list_all_length)
  let ?t = "s\<lparr>Key1 := k1, Key2 := k2\<rparr>"
  have idx: "(if NType index = QL_AND then do {
         k0 \<leftarrow> list_at (Kids index) 0; k1 \<leftarrow> list_at (Kids index) 1; Some (s\<lparr>Key1 := k0, Key2 := k1\<rparr>)
       } else Some (s\<lparr>Key1 := index\<rparr>)) = Some ?t"
    using two assms(4) by (cases s) (auto simp: k1_def k2_def)
  have zero: "NType k2 \<noteq> 0" if "wf_expr k2"
    using that by (cases k2) (auto simp: binTypes_def ql_consts TYPE_INT64_def TYPE_BYTES_def)
  have z: "NType zero_node = 0" by (simp add: zero_node_def)
  show ?thesis
  proof (cases "NType k1 = QL_CMP_EQ \<and> NType k2 \<noteq> 0")
    case True
    then have "pIndexBy n s p = Some (?t, pErr (lit (''bad '' @ quoted ''INDEX BY'' @ '': expect only 1 '' @ quoted ''='')) q)"
      using q(1) idx by (simp add: pIndexBy_def)
    then show ?thesis
      using steps_trans [OF q(2) pErr_steps] steps_inside [OF q(2)] by auto
  next
    case False
    obtain k1' r where r: "verifyScanKey k1 q = Some (k1', r)" "steps q r"
        "p_err r = None \<longrightarrow> r = q \<and> (wf_expr k1 \<longrightarrow> wf_key k1')"
      using verifyScanKey_result [OF steps_inside [OF q(2)] k12(1)] by auto
    have pr: "steps p r" using q(2) r(2) by (rule steps_trans)
    have nt1: "NType k1' = NType k1"
      using r(1) unfolding verifyScanKey_def
      by (auto simp: Let_def split: if_split_asm Option.bind_split_asm)
    show ?thesis
    proof (cases "NType k2 = 0")
      case True
      then have "pIndexBy n s p = Some (s\<lparr>Key1 := k1', Key2 := k2\<rparr>, r)"
        using q(1) idx False r(1) by (simp add: pIndexBy_def)
      moreover have "p_err r = None \<longrightarrow> wf_key k1' \<and> (k2 = zero_node \<or> wf_key k2 \<and> NType k1' \<noteq> QL_CMP_EQ)"
        using r(3) wf True zero steps_err [OF r(2)] by blast
      ultimately show ?thesis
        using pr by (intro exI [of _ k1'] exI [of _ k2] exI [of _ r]) simp
    next
      case nz: False
      obtain k2' u where u: "verifyScanKey k2 r = Some (k2', u)" "steps r u"
          "p_err u = None \<longrightarrow> u = r \<and> (wf_expr k2 \<longrightarrow> wf_key k2')"
        using verifyScanKey_result [OF steps_inside [OF r(2)] k12(2)] by auto
      have "pIndexBy n s p = Some (s\<lparr>Key1 := k1', Key2 := k2'\<rparr>, u)"
        using q(1) idx False r(1) u(1) nz by (simp add: pIndexBy_def)
      then show ?thesis
        using steps_trans [OF pr u(2)] r(3) u(3) wf nz z False nt1 steps_err [OF r(2)] steps_err [OF u(2)] by metis
    qed
  qed
qed

lemma zero_sel: "NI64 zero_node = 0" "NType zero_node = 0" "NStr zero_node = []" "Kids zero_node = []"
  by (simp_all add: zero_node_def)

lemma pLimit_result:
  assumes "inside p" "0 \<le> sint (Offset s)" "0 \<le> sint (Limit s)"
  shows "\<exists>s' q. pLimit s p = Some (s', q) \<and> steps p q \<and> (\<exists>i j. s' = s\<lparr>Offset := i, Limit := j\<rparr>) \<and>
    (p_err q = None \<longrightarrow> 0 \<le> sint (Offset s') \<and> 0 \<le> sint (Limit s'))"
proof -
  have fin: "\<exists>s' q'. (if \<not> ok then Some (s, pErr msg q)
         else let node = s\<lparr>Offset := i\<rparr> in
           Some (if NType c \<noteq> 0 then node\<lparr>Limit := NI64 c\<rparr> else node, q)) = Some (s', q') \<and> steps p q' \<and>
         (\<exists>i j. s' = s\<lparr>Offset := i, Limit := j\<rparr>) \<and>
         (p_err q' = None \<longrightarrow> 0 \<le> sint (Offset s') \<and> 0 \<le> sint (Limit s'))"
    if "steps p q" "0 \<le> sint i" "ok \<Longrightarrow> 0 \<le> sint (NI64 c)" for ok q i c msg
  proof (cases ok)
    case False
    have "s = s\<lparr>Offset := Offset s, Limit := Limit s\<rparr>" by simp
    then have "\<exists>i j. s = s\<lparr>Offset := i, Limit := j\<rparr>" by blast
    then show ?thesis
      using False steps_trans [OF that(1) pErr_steps [OF steps_inside [OF that(1)]]] by simp
  next
    case True
    define j where "j = (if NType c \<noteq> 0 then NI64 c else Limit s)"
    have "(if NType c \<noteq> 0 then s\<lparr>Offset := i\<rparr>\<lparr>Limit := NI64 c\<rparr> else s\<lparr>Offset := i\<rparr>) = s\<lparr>Offset := i, Limit := j\<rparr>"
      by (simp add: j_def)
    moreover have "0 \<le> sint j" using that(3) True assms(3) by (simp add: j_def)
    ultimately show ?thesis using True that(1,2) by (auto simp: Let_def)
  qed
  obtain ok c q where q: "tryNum zero_node p = Some (ok, c, q)" "steps p q" "0 \<le> sint (NI64 c)"
    by (cases rule: tryNum_cases [OF assms(1), of zero_node]) (auto simp: zero_node_def moves_steps)
  show ?thesis
  proof (rule match_cases [OF steps_inside [OF q(2)], of "['','']"])
    assume m: "match ['',''] q = Some (False, q)"
    show ?thesis
      using fin [OF q(2), of "NI64 zero_node" ok c] q(3) zero_sel(1)
      by (simp add: pLimit_def q(1) m split del: if_split)
  next
    fix r assume m: "match ['',''] q = Some (True, r)" "steps q r"
    have pr: "steps p r" using q(2) m(2) by (rule steps_trans)
    obtain ok' c' u where u: "tryNum c r = Some (ok', c', u)" "steps r u" "0 \<le> sint (NI64 c')"
      using q(3) by (cases rule: tryNum_cases [OF steps_inside [OF pr], of c]) (auto simp: moves_steps)
    show ?thesis
      using fin [OF steps_trans [OF pr u(2)] q(3), of ok' c'] fin [OF pr q(3), of False c] u(3)
      by (cases ok) (simp_all add: pLimit_def q(1) m(1) u(1))
  qed
qed

lemma pScan_result:
  fixes s :: "'a QLScan_scheme"
  assumes "inside p" "rem p < (n + 1) div 10" "Key1 s = zero_node" "Key2 s = zero_node" "Filter s = zero_node"
  shows "\<exists>k1 k2 f i j q. pScan n s p = Some (s\<lparr>Key1 := k1, Key2 := k2, Filter := f, Offset := i, Limit := j\<rparr>, q) \<and>
    steps p q \<and> (p_err q = None \<longrightarrow> good_name (STable s) \<longrightarrow>
      wf_scan (s\<lparr>Key1 := k1, Key2 := k2, Filter := f, Offset := i, Limit := j\<rparr>))"
proof -
  have bound: "(n + 1) div 10 \<le> (n + 2) div 10" by (rule div_le_mono) simp
  define ks where "ks = (\<lambda>k1 k2. k1 = zero_node \<and> k2 = zero_node \<or>
    wf_key k1 \<and> (k2 = zero_node \<or> wf_key k2 \<and> NType k1 \<noteq> QL_CMP_EQ))"
  obtain k1 k2 p1 where p1: "match [''index'', ''by''] p \<bind> (\<lambda>(ok, p).
      if ok then pIndexBy n s p else Some (s, p)) = Some (s\<lparr>Key1 := k1, Key2 := k2\<rparr>, p1)"
    "steps p p1" "p_err p1 = None \<longrightarrow> ks k1 k2"
  proof (rule match_cases [OF assms(1), of "[''index'', ''by'']"])
    assume "match [''index'', ''by''] p = Some (False, p)"
    then show thesis using that [of zero_node zero_node p] assms by (cases s) (simp add: ks_def)
  next
    fix q assume q: "match [''index'', ''by''] p = Some (True, q)" "steps p q"
    have b: "rem q < (n + 2) div 10" using steps_rem [OF q(2)] assms(2) bound by simp
    obtain k1 k2 r where r: "pIndexBy n s q = Some (s\<lparr>Key1 := k1, Key2 := k2\<rparr>, r)" "steps q r"
      "p_err r = None \<longrightarrow> wf_key k1 \<and> (k2 = zero_node \<or> wf_key k2 \<and> NType k1 \<noteq> QL_CMP_EQ)"
      using pIndexBy_result [OF steps_inside [OF q(2)] b assms(3,4)] by auto
    have "match [''index'', ''by''] p \<bind> (\<lambda>(ok, p). if ok then pIndexBy n s p else Some (s, p)) =
        Some (s\<lparr>Key1 := k1, Key2 := k2\<rparr>, r)"
      using q(1) r(1) by simp
    then show thesis
      by (rule that [OF _ steps_trans [OF q(2) r(2)]]) (use r(3) in \<open>simp add: ks_def\<close>)
  qed
  obtain f p2 where p2: "match [''filter''] p1 \<bind> (\<lambda>(ok, p).
      if ok then pExprOr n zero_node p \<bind> (\<lambda>(f, p). Some (s\<lparr>Key1 := k1, Key2 := k2, Filter := f\<rparr>, p))
      else Some (s\<lparr>Key1 := k1, Key2 := k2\<rparr>, p)) = Some (s\<lparr>Key1 := k1, Key2 := k2, Filter := f\<rparr>, p2)"
    "steps p1 p2" "p_err p2 = None \<longrightarrow> f = zero_node \<or> wf_expr f"
  proof (rule match_cases [OF steps_inside [OF p1(2)], of "[''filter'']"])
    assume "match [''filter''] p1 = Some (False, p1)"
    then show thesis using that [of zero_node p1] assms(5) steps_inside [OF p1(2)] by (cases s) simp
  next
    fix q assume q: "match [''filter''] p1 = Some (True, q)" "steps p1 q"
    have "rem q < (n + 1) div 10" using steps_rem [OF q(2)] steps_rem [OF p1(2)] assms(2) by simp
    then obtain f r where "pExprOr n zero_node q = Some (f, r)" "steps q r"
        "p_err r = None \<longrightarrow> moves q r \<and> wf_expr f"
      using or_level.expr [OF steps_inside [OF q(2)], of n] by auto
    then show thesis using that [of f r] q(1) steps_trans [OF q(2)] by simp
  qed
  have pp2: "steps p p2" using p1(2) p2(2) by (rule steps_trans)
  let ?s = "s\<lparr>Key1 := k1, Key2 := k2, Filter := f, Offset := 0, Limit := MaxInt64\<rparr>"
  have max: "0 \<le> sint MaxInt64" by (simp add: MaxInt64_def)
  obtain i j p3 where p3: "match [''limit''] p2 \<bind> (\<lambda>(ok, p). if ok then pLimit ?s p else Some (?s, p)) =
      Some (s\<lparr>Key1 := k1, Key2 := k2, Filter := f, Offset := i, Limit := j\<rparr>, p3)"
    "steps p2 p3" "p_err p3 = None \<longrightarrow> 0 \<le> sint i \<and> 0 \<le> sint j"
  proof (rule match_cases [OF steps_inside [OF pp2], of "[''limit'']"])
    assume "match [''limit''] p2 = Some (False, p2)"
    then show thesis using that [of MaxInt64 0 p2] max steps_inside [OF pp2] by simp
  next
    fix q assume q: "match [''limit''] p2 = Some (True, q)" "steps p2 q"
    obtain i j r where "pLimit ?s q = Some (s\<lparr>Key1 := k1, Key2 := k2, Filter := f, Offset := i, Limit := j\<rparr>, r)"
      "steps q r" "p_err r = None \<longrightarrow> 0 \<le> sint i \<and> 0 \<le> sint j"
      using pLimit_result [OF steps_inside [OF q(2)], of ?s] max by auto
    then show thesis using that [of j i r] q(1) steps_trans [OF q(2)] by simp
  qed
  have "pScan n s p = Some (s\<lparr>Key1 := k1, Key2 := k2, Filter := f, Offset := i, Limit := j\<rparr>, p3)"
    using p1(1) p2(1) p3(1) assms(5) unfolding pScan_def
    by (auto split: Option.bind_split_asm if_split_asm)
  then show ?thesis
    using steps_trans [OF pp2 p3(2)] p1(3) p2(3) p3(3) steps_err [OF p3(2)] steps_err [OF p2(2)]
    by (intro exI [of _ k1] exI [of _ k2] exI [of _ f] exI [of _ i] exI [of _ j] exI [of _ p3])
       (simp add: wf_scan_def ks_def)
qed

section \<open>CREATE TABLE\<close>

definition cols_ok :: "TableDef \<Rightarrow> bool" where
  "cols_ok t \<longleftrightarrow> list_all good_name (Cols t) \<and> length (Types t) = length (Cols t) \<and>
     set (Types t) \<subseteq> {TYPE_BYTES, TYPE_INT64} \<and> list_all (list_all good_name) (Indexes t)"

lemma pColType_result:
  assumes "inside p"
  shows "\<exists>t q. pColType p = Some (t, q) \<and> steps p q \<and> (p_err q = None \<longrightarrow> moves p q \<and> t \<in> {TYPE_BYTES, TYPE_INT64})"
proof -
  obtain s q where q: "pSym p = Some (s, q)" "steps p q" "p_err q = None \<longrightarrow> moves p q \<and> good_name s"
    using pSym_cases [OF assms] by blast
  then show ?thesis
    using steps_trans [OF q(2) pErr_steps [OF steps_inside [OF q(2)]]] by (auto simp: pColType_def)
qed

interpretation create_item: item_parser "createItem n" "n - 1"
  "\<lambda>t. Name t = nm \<and> Prefixes t = [] \<and> Indexes t \<noteq> []" cols_ok for n nm
proof
  fix p and t :: TableDef
  assume p: "inside p" "rem p < n - 1" and t: "Name t = nm \<and> Prefixes t = [] \<and> Indexes t \<noteq> []"
    and W: "p_err p = None \<Longrightarrow> cols_ok t"
  let ?goal = "\<exists>t' q. createItem n t p = Some (t', q) \<and> steps p q \<and>
      (Name t' = nm \<and> Prefixes t' = [] \<and> Indexes t' \<noteq> []) \<and> (p_err q = None \<longrightarrow> moves p q \<and> cols_ok t')"
  have names: "\<exists>names r. pNameList n q = Some (names, r) \<and> steps p r \<and>
      (p_err r = None \<longrightarrow> moves p r \<and> list_all good_name names)" if "steps p q" for q
  proof -
    have "rem q + 1 < n" using steps_rem [OF that] p(2) by simp
    then show ?thesis
      using pNameList_cases [OF steps_inside [OF that]] steps_trans [OF that] moves_trans(2) [OF that] by metis
  qed
  show ?goal
  proof (rule match_cases [OF p(1), of "[''index'']"])
    fix q assume q: "match [''index''] p = Some (True, q)" "steps p q"
    obtain names r where r: "pNameList n q = Some (names, r)" "steps p r"
        "p_err r = None \<longrightarrow> moves p r \<and> list_all good_name names"
      using names [OF q(2)] by auto
    then show ?goal
      using q(1) t W steps_err [OF r(2)] by (auto simp: createItem_def cols_ok_def)
  next
    assume m1: "match [''index''] p = Some (False, p)"
    show ?goal
    proof (rule match_cases [OF p(1), of "[''primary'', ''key'']"])
      fix q assume q: "match [''primary'', ''key''] p = Some (True, q)" "steps p q"
      show ?goal
      proof (cases "Indexes t ! 0 = []")
        case False
        then show ?goal
          using m1 q t steps_trans [OF q(2) pErr_steps [OF steps_inside [OF q(2)]]]
          by (simp add: createItem_def)
      next
        case True
        obtain names r where r: "pNameList n q = Some (names, r)" "steps p r"
            "p_err r = None \<longrightarrow> moves p r \<and> list_all good_name names"
          using names [OF q(2)] by auto
        have "list_all (list_all good_name) ((Indexes t)[0 := names])"
          if "list_all (list_all good_name) (Indexes t)" "list_all good_name names"
          using that by (cases "Indexes t") simp_all
        then show ?goal
          using m1 q(1) r t W steps_err [OF r(2)] True by (auto simp: createItem_def cols_ok_def)
      qed
    next
      assume m2: "match [''primary'', ''key''] p = Some (False, p)"
      obtain c q where q: "pSym p = Some (c, q)" "steps p q" "p_err q = None \<longrightarrow> moves p q \<and> good_name c"
        using pSym_cases [OF p(1)] by blast
      obtain ty r where r: "pColType q = Some (ty, r)" "steps q r"
          "p_err r = None \<longrightarrow> moves q r \<and> ty \<in> {TYPE_BYTES, TYPE_INT64}"
        using pColType_result [OF steps_inside [OF q(2)]] by auto
      show ?goal
        using m1 m2 q(1) r(1) t W steps_trans [OF q(2) r(2)] q(3) r(3) steps_err [OF r(2)] steps_err [OF q(2)]
          moves_trans(1) [OF _ r(2), of p]
        by (auto simp: createItem_def cols_ok_def Let_def)
    qed
  qed
qed

lemma pCreateTable_result:
  assumes "inside p" "rem p + 1 < n"
  shows "\<exists>t q. pCreateTable n p = Some (t, q) \<and> steps p q \<and> (p_err q = None \<longrightarrow> wf_def t)"
proof -
  obtain nm q where q: "pSym p = Some (nm, q)" "steps p q" "p_err q = None \<longrightarrow> moves p q \<and> good_name nm"
    using pSym_cases [OF assms(1)] by blast
  define msg where "msg = ''expect '' @ quoted ''('' @ '' after '' @ quoted ''create table <name>''"
  obtain r0 where qc: "consume ''('' msg q = Some r0" and qs: "steps q r0"
    by (rule consume_cases [OF steps_inside [OF q(2)], of "''(''" msg]) (simp, rule that)
  let ?init = "\<lparr>Name = nm, Types = [], Cols = [], Indexes = [[]], Prefixes = []\<rparr>"
  have pq: "steps p r0" using q(2) qs by (rule steps_trans)
  have init: "cols_ok ?init" by (simp add: cols_ok_def)
  have "rem r0 + 1 < n" "rem r0 < n - 1" using steps_rem [OF pq] assms(2) by simp_all
  then obtain t r where r: "pGroupedCommaList n (createItem n) ?init r0 = Some (t, r)" "steps r0 r"
      "Name t = nm \<and> Prefixes t = [] \<and> Indexes t \<noteq> []" "p_err r = None \<longrightarrow> moves r0 r \<and> cols_ok t"
    using create_item.pGroupedCommaList [OF steps_inside [OF pq], of n n ?init nm] init by auto
  have "pCreateTable n p = Some (t, r)"
    using r(1) by (simp add: pCreateTable_def q(1) qc [unfolded msg_def, simplified])
  then show ?thesis
    using q(3) r(3,4) steps_trans [OF pq r(2)] steps_err [OF r(2)] steps_err [OF qs]
    by (auto simp: wf_def_def cols_ok_def)
qed

section \<open>SELECT, INSERT, UPDATE, DELETE\<close>

definition no_cond :: "'a QLScan_scheme \<Rightarrow> bool" where
  "no_cond s \<longleftrightarrow> Key1 s = zero_node \<and> Key2 s = zero_node \<and> Filter s = zero_node"

interpretation select_item: item_parser "pSelectExpr n" "(n + 1) div 10" no_cond
  "\<lambda>s. list_all2 wf_output (SNames s) (Output s)" for n
proof
  fix p and s :: QLSelect
  assume p: "inside p" "rem p < (n + 1) div 10" and s: "no_cond s"
    and W: "p_err p = None \<Longrightarrow> list_all2 wf_output (SNames s) (Output s)"
  let ?goal = "\<exists>s' q. pSelectExpr n s p = Some (s', q) \<and> steps p q \<and> no_cond s' \<and>
      (p_err q = None \<longrightarrow> moves p q \<and> list_all2 wf_output (SNames s') (Output s'))"
  show ?goal
  proof (rule match_cases [OF p(1), of "[''*'']"])
    fix q assume q: "match [''*''] p = Some (True, q)" "steps p q" "p_err q = p_err p"
      "p_idx p + length (concat [''*'']) \<le> p_idx q"
    then show ?goal
      using s W by (auto simp: pSelectExpr_def no_cond_def moves_def wf_output_def list_all2_appendI)
  next
    assume m: "match [''*''] p = Some (False, p)"
    obtain e q where q: "pExprOr n zero_node p = Some (e, q)" "steps p q"
        "p_err q = None \<longrightarrow> moves p q \<and> wf_expr e"
      using or_level.expr [OF p] by auto
    obtain nm r where r: "pSelectExpr n s p = Some (s\<lparr>Output := Output s @ [e], SNames := SNames s @ [nm]\<rparr>, r)"
      "steps q r" "p_err r = None \<longrightarrow> nm = [] \<or> good_name nm"
    proof (rule match_cases [OF steps_inside [OF q(2)], of "[''as'']"])
      assume as: "match [''as''] q = Some (False, q)"
      have "pSelectExpr n s p = Some (s\<lparr>Output := Output s @ [e], SNames := SNames s @ [[]]\<rparr>, q)"
        using m q(1) as by (simp add: pSelectExpr_def)
      then show thesis using that [OF _ iffD2 [OF steps_refl steps_inside [OF q(2)]]] by simp
    next
      fix u assume u: "match [''as''] q = Some (True, u)" "steps q u"
      obtain c v where v: "pSym u = Some (c, v)" "steps u v" "p_err v = None \<longrightarrow> moves u v \<and> good_name c"
        using pSym_cases [OF steps_inside [OF u(2)]] by blast
      have "pSelectExpr n s p = Some (s\<lparr>Output := Output s @ [e], SNames := SNames s @ [c]\<rparr>, v)"
        using m q(1) u(1) v(1) by (simp add: pSelectExpr_def)
      then show thesis using that [OF _ steps_trans [OF u(2) v(2)]] v(3) by simp
    qed
    show ?goal
      using r(1) s W q(3) r(3) steps_trans [OF q(2) r(2)] steps_err [OF r(2)] steps_err [OF q(2)]
        moves_trans(1) [OF _ r(2), of p]
      by (auto simp: no_cond_def wf_output_def list_all2_appendI)
  qed
qed

text \<open>A list of at least one item.\<close>

lemma commaLoop_mono:
  fixes m :: "'s \<Rightarrow> nat"
  assumes "\<And>s p s' q. f s p = Some (s', q) \<Longrightarrow> m s < m s'"
  shows "commaLoop n f s p = Some (s', q) \<Longrightarrow> m s \<le> m s'"
proof (induction n arbitrary: s p)
  case (Suc n)
  obtain ok r where m: "match ['',''] p = Some (ok, r)"
    using Suc.prems by (auto split: Option.bind_split_asm)
  show ?case
  proof (cases ok)
    case False
    then show ?thesis using Suc.prems m by simp
  next
    case True
    then obtain s1 p1 where "f s r = Some (s1, p1)" "commaLoop n f s1 p1 = Some (s', q)"
      using Suc.prems m by (auto split: Option.bind_split_asm)
    then show ?thesis using Suc.IH assms by fastforce
  qed
qed simp

lemma pCommaList_grow:
  fixes m :: "'s \<Rightarrow> nat"
  assumes "\<And>s p s' q. f s p = Some (s', q) \<Longrightarrow> m s < m s'" "pCommaList n f s p = Some (s', q)"
  shows "m s < m s'"
proof -
  obtain s1 p1 where 1: "f s p = Some (s1, p1)" "commaLoop n f s1 p1 = Some (s', q)"
    using assms(2) by (auto simp: pCommaList_def split: Option.bind_split_asm)
  then show ?thesis
    using assms(1) [OF 1(1)] commaLoop_mono [of f m n s1 p1 s' q, OF _ 1(2)] assms(1) by fastforce
qed

lemma pSelectExpr_grow: "pSelectExpr n s p = Some (s', q) \<Longrightarrow> length (Output s) < length (Output s')"
  by (auto simp: pSelectExpr_def Let_def split: prod.split_asm if_split_asm Option.bind_split_asm)

text \<open>A token, then a list or a name, then the conditions.\<close>

lemma pSym_scan:
  fixes s :: "'a QLScan_scheme"
  assumes "inside p" "rem p < (n + 1) div 10" "no_cond s"
  obtains nm q s' r where "pSym p = Some (nm, q)" "pScan n (s\<lparr>STable := nm\<rparr>) q = Some (s', r)" "steps p r"
    "QLScan.more s' = QLScan.more s" "p_err r = None \<longrightarrow> wf_scan s'"
proof -
  obtain nm q where q: "pSym p = Some (nm, q)" "steps p q" "p_err q = None \<longrightarrow> moves p q \<and> good_name nm"
    using pSym_cases [OF assms(1)] by blast
  have "rem q < (n + 1) div 10" using steps_rem [OF q(2)] assms(2) by simp
  then obtain k1 k2 f i j r where r: "pScan n (s\<lparr>STable := nm\<rparr>) q =
      Some (s\<lparr>STable := nm, Key1 := k1, Key2 := k2, Filter := f, Offset := i, Limit := j\<rparr>, r)"
    "steps q r" "p_err r = None \<longrightarrow> good_name nm \<longrightarrow>
      wf_scan (s\<lparr>STable := nm, Key1 := k1, Key2 := k2, Filter := f, Offset := i, Limit := j\<rparr>)"
    using pScan_result [OF steps_inside [OF q(2)], of n "s\<lparr>STable := nm\<rparr>"] assms(3)
    by (auto simp: no_cond_def)
  show thesis
    by (rule that [OF q(1) r(1) steps_trans [OF q(2) r(2)]]) (use r(3) q(3) steps_err [OF r(2)] in auto)
qed

lemma select_more: "QLScan.more s' = QLScan.more s \<Longrightarrow> SNames s' = SNames s \<and> Output s' = Output s"
  and update_more: "QLScan.more u' = QLScan.more u \<Longrightarrow> UNames u' = UNames u \<and> UValues u' = UValues u"
  by (cases s; cases s'; simp) (cases u; cases u'; simp)

lemma pSelect_result:
  assumes "inside p" "rem p < (n + 1) div 10"
  shows "\<exists>s q. pSelect n p = Some (s, q) \<and> steps p q \<and> (p_err q = None \<longrightarrow> wf_stmt (StmtSelect s))"
proof -
  let ?init = "QLScan.extend zero_scan \<lparr>SNames = [], Output = []\<rparr>"
  have init: "no_cond ?init" "list_all2 wf_output (SNames ?init) (Output ?init)" "Output ?init = []"
    by (simp_all add: no_cond_def zero_scan_def QLScan.defs)
  have lt: "rem p < n" using assms(2) by simp
  obtain s q where q: "pCommaList n (pSelectExpr n) ?init p = Some (s, q)" "steps p q" "no_cond s"
      "p_err q = None \<longrightarrow> list_all2 wf_output (SNames s) (Output s)"
    using select_item.pCommaList [OF assms lt, of ?init] init by auto
  have ne: "Output s \<noteq> []"
    using pCommaList_grow [of "pSelectExpr n" "\<lambda>s. length (Output s)", OF pSelectExpr_grow q(1)] by auto
  define msg where "msg = ''expect '' @ quoted ''from'' @ '' after '' @ quoted ''select ...''"
  obtain r0 where qc: "consume ''from'' msg q = Some r0" and qs: "steps q r0"
    by (rule consume_cases [OF steps_inside [OF q(2)], of "''from''" msg]) (simp, rule that)
  have pq: "steps p r0" using q(2) qs by (rule steps_trans)
  have lt': "rem r0 < (n + 1) div 10" using steps_rem [OF pq] assms(2) by simp
  obtain nm u s' r where r: "pSym r0 = Some (nm, u)" "pScan n (s\<lparr>STable := nm\<rparr>) u = Some (s', r)"
    "steps r0 r" "QLScan.more s' = QLScan.more s" "p_err r = None \<longrightarrow> wf_scan s'"
    by (rule pSym_scan [OF steps_inside [OF pq] lt' q(3)])
  have "pSelect n p = Some (s', r)"
    using q(1) r(1,2) by (simp add: pSelect_def qc [unfolded msg_def, simplified])
  then show ?thesis
    using r(5) q(4) ne steps_trans [OF pq r(3)] steps_err [OF steps_trans [OF qs r(3)]]
      select_more [OF r(4)] by auto
qed

lemma pDelete_result:
  assumes "inside p" "rem p < (n + 1) div 10"
  shows "\<exists>s q. pDelete n p = Some (s, q) \<and> steps p q \<and> (p_err q = None \<longrightarrow> wf_stmt (StmtDelete s))"
proof -
  have zero: "no_cond zero_scan" by (simp add: no_cond_def zero_scan_def)
  obtain nm q s' r where "pSym p = Some (nm, q)" "pScan n (zero_scan\<lparr>STable := nm\<rparr>) q = Some (s', r)"
    "steps p r" "QLScan.more s' = QLScan.more zero_scan" "p_err r = None \<longrightarrow> wf_scan s'"
    by (rule pSym_scan [OF assms zero])
  then show ?thesis by (simp add: pDelete_def)
qed

interpretation assign_item: item_parser "pAssign n" "(n + 1) div 10" no_cond
  "\<lambda>u. list_all2 (\<lambda>name e. good_name name \<and> wf_expr e) (UNames u) (UValues u)" for n
proof
  fix p and u :: QLUpdate
  assume p: "inside p" "rem p < (n + 1) div 10" and u: "no_cond u"
    and W: "p_err p = None \<Longrightarrow> list_all2 (\<lambda>name e. good_name name \<and> wf_expr e) (UNames u) (UValues u)"
  obtain nm q where q: "pSym p = Some (nm, q)" "steps p q" "p_err q = None \<longrightarrow> moves p q \<and> good_name nm"
    using pSym_cases [OF p(1)] by blast
  define msg where "msg = ''expect '' @ quoted ''='' @ '' in '' @ quoted ''set ... col = expr ...''"
  obtain r0 where qc: "consume ''='' msg q = Some r0" and qs: "steps q r0"
    by (rule consume_cases [OF steps_inside [OF q(2)], of "''=''" msg]) (simp, rule that)
  have pq: "steps p r0" using q(2) qs by (rule steps_trans)
  have lt: "rem r0 < (n + 1) div 10" using steps_rem [OF pq] p(2) by simp
  obtain e r where r: "pExprOr n zero_node r0 = Some (e, r)" "steps r0 r" "p_err r = None \<longrightarrow> moves r0 r \<and> wf_expr e"
    using or_level.expr [OF steps_inside [OF pq] lt] by auto
  have "pAssign n u p = Some (u\<lparr>UNames := UNames u @ [nm], UValues := UValues u @ [e]\<rparr>, r)"
    using q(1) r(1) by (simp add: pAssign_def qc [unfolded msg_def, simplified])
  then show "\<exists>u' q. pAssign n u p = Some (u', q) \<and> steps p q \<and> no_cond u' \<and>
      (p_err q = None \<longrightarrow> moves p q \<and> list_all2 (\<lambda>name e. good_name name \<and> wf_expr e) (UNames u') (UValues u'))"
    using u W r(3) q(3) steps_trans [OF pq r(2)] moves_trans(1) [OF _ steps_trans [OF qs r(2)], of p]
      steps_err [OF steps_trans [OF qs r(2)]] steps_err [OF steps_trans [OF pq r(2)]]
    by (auto simp: no_cond_def list_all2_appendI)
qed

lemma pAssign_grow: "pAssign n u p = Some (u', q) \<Longrightarrow> length (UValues u) < length (UValues u')"
  by (auto simp: pAssign_def Let_def split: prod.split_asm if_split_asm Option.bind_split_asm)

lemma pUpdate_result:
  assumes "inside p" "rem p < (n + 1) div 10"
  shows "\<exists>u q. pUpdate n p = Some (u, q) \<and> steps p q \<and> (p_err q = None \<longrightarrow> wf_stmt (StmtUpdate u))"
proof -
  obtain nm q where q: "pSym p = Some (nm, q)" "steps p q" "p_err q = None \<longrightarrow> moves p q \<and> good_name nm"
    using pSym_cases [OF assms(1)] by blast
  define msg where "msg = ''expect '' @ quoted ''set'' @ '' after '' @ quoted ''update <table>''"
  obtain r0 where qc: "consume ''set'' msg q = Some r0" and qs: "steps q r0"
    by (rule consume_cases [OF steps_inside [OF q(2)], of "''set''" msg]) (simp, rule that)
  let ?init = "(QLScan.extend zero_scan \<lparr>UNames = [], UValues = []\<rparr>)\<lparr>STable := nm\<rparr>"
  have init: "no_cond ?init" "UNames ?init = []" "UValues ?init = []" "STable ?init = nm"
    by (simp_all add: no_cond_def zero_scan_def QLScan.defs)
  have pq: "steps p r0" using q(2) qs by (rule steps_trans)
  have lt: "rem r0 < (n + 1) div 10" "rem r0 < n" using steps_rem [OF pq] assms(2) by simp_all
  obtain u r where r: "pCommaList n (pAssign n) ?init r0 = Some (u, r)" "steps r0 r" "no_cond u"
      "p_err r = None \<longrightarrow> list_all2 (\<lambda>name e. good_name name \<and> wf_expr e) (UNames u) (UValues u)"
    using assign_item.pCommaList [OF steps_inside [OF pq] lt, of ?init] init by auto
  have ne: "UValues u \<noteq> []"
    using pCommaList_grow [of "pAssign n" "\<lambda>u. length (UValues u)", OF pAssign_grow r(1)] by auto
  have pr: "steps p r" using pq r(2) by (rule steps_trans)
  have table: "pCommaList n (pAssign n) u' p' = Some (u'', p'') \<Longrightarrow> STable u'' = STable u'" for u' p' u'' p''
  proof -
    have one: "pAssign m u' p' = Some (u'', p'') \<Longrightarrow> STable u'' = STable u'" for m u' p' u'' p''
      by (auto simp: pAssign_def Let_def split: prod.split_asm if_split_asm Option.bind_split_asm)
    have "commaLoop m (pAssign n) u' p' = Some (u'', p'') \<Longrightarrow> STable u'' = STable u'" for m u' p'
      by (induction m arbitrary: u' p')
         (auto dest: one split: prod.split_asm if_split_asm Option.bind_split_asm)
    then show "pCommaList n (pAssign n) u' p' = Some (u'', p'') \<Longrightarrow> STable u'' = STable u'"
      by (auto simp: pCommaList_def dest: one split: Option.bind_split_asm)
  qed
  have nm: "STable u = nm" using table [OF r(1)] init(4) by simp
  have lt': "rem r < (n + 1) div 10" using steps_rem [OF pr] assms(2) by simp
  obtain k1 k2 f i j t where t: "pScan n u r =
      Some (u\<lparr>Key1 := k1, Key2 := k2, Filter := f, Offset := i, Limit := j\<rparr>, t)" "steps r t"
      "p_err t = None \<longrightarrow> good_name (STable u) \<longrightarrow>
        wf_scan (u\<lparr>Key1 := k1, Key2 := k2, Filter := f, Offset := i, Limit := j\<rparr>)"
    using pScan_result [OF steps_inside [OF pr] lt', of u] r(3) by (auto simp: no_cond_def)
  have "pUpdate n p = Some (u\<lparr>Key1 := k1, Key2 := k2, Filter := f, Offset := i, Limit := j\<rparr>, t)"
    using r(1) t(1) by (simp add: pUpdate_def q(1) qc [unfolded msg_def, simplified])
  then show ?thesis
    using t(3) q(3) nm r(4) ne steps_trans [OF pr t(2)] steps_err [OF t(2)]
      steps_err [OF steps_trans [OF steps_trans [OF qs r(2)] t(2)]] by auto
qed

interpretation row_item: item_parser
  "\<lambda>vals p. pValueList n p \<bind> (\<lambda>(row, p). Some (vals @ [row], p))" "(n + 1) div 10" "\<lambda>_. True"
  "list_all (list_all wf_expr)" for n
proof
  fix p and s :: "QLNode list list"
  assume p: "inside p" "rem p < (n + 1) div 10" and W: "p_err p = None \<Longrightarrow> list_all (list_all wf_expr) s"
  define msg where "msg = ''expect '' @ quoted ''('' @ '' before values list''"
  obtain r0 where pc: "consume ''('' msg p = Some r0" and ps: "steps p r0"
    by (rule consume_cases [OF p(1), of "''(''" msg]) (simp, rule that)
  let ?item = "\<lambda>kids p. pExprOr n zero_node p \<bind> (\<lambda>(kid, p). Some (kids @ [kid], p))"
  have lt: "rem r0 < (n + 1) div 10" "rem r0 + 1 < n"
    using steps_rem [OF ps] p(2) by simp_all
  obtain row q where q: "pGroupedCommaList n ?item [] r0 = Some (row, q)" "steps r0 q"
      "p_err q = None \<longrightarrow> moves r0 q \<and> list_all wf_expr row"
    using or_level.items.pGroupedCommaList [OF steps_inside [OF ps] lt, of "[]"] by auto
  have "pValueList n p = Some (row, q)"
    using q(1) by (simp add: pValueList_def pc [unfolded msg_def, simplified])
  then show "\<exists>s' q. pValueList n p \<bind> (\<lambda>(row, p). Some (s @ [row], p)) = Some (s', q) \<and> steps p q \<and> True \<and>
      (p_err q = None \<longrightarrow> moves p q \<and> list_all (list_all wf_expr) s')"
    using q(3) W steps_trans [OF ps q(2)] moves_trans(2) [OF ps, of q] steps_err [OF steps_trans [OF ps q(2)]]
    by auto
qed

lemma pInsert_result:
  assumes "inside p" "rem p < (n + 1) div 10" "mode \<in> {MODE_UPSERT, MODE_UPDATE_ONLY, MODE_INSERT_ONLY}"
  shows "\<exists>s q. pInsert n mode p = Some (s, q) \<and> steps p q \<and>
    (p_err q = None \<longrightarrow> (\<exists>i. s = Some i \<and> wf_stmt (StmtInsert i)))"
proof -
  obtain nm q where q: "pSym p = Some (nm, q)" "steps p q" "p_err q = None \<longrightarrow> moves p q \<and> good_name nm"
    using pSym_cases [OF assms(1)] by blast
  have lt: "rem q + 1 < n" using steps_rem [OF q(2)] assms(2) by simp
  obtain names r where r: "pNameList n q = Some (names, r)" "steps q r"
      "p_err r = None \<longrightarrow> moves q r \<and> list_all good_name names"
    using pNameList_cases [OF steps_inside [OF q(2)] lt] by metis
  define msg where "msg = ''expect '' @ quoted ''values'' @ '' after '' @ quoted ''insert into <table> ...''"
  obtain r0 where rc: "consume ''values'' msg r = Some r0" and rs: "steps r r0"
    by (rule consume_cases [OF steps_inside [OF r(2)], of "''values''" msg]) (simp, rule that)
  let ?row = "\<lambda>vals p. pValueList n p \<bind> (\<lambda>(row, p). Some (vals @ [row], p))"
  have pr: "steps p r0" using steps_trans [OF steps_trans [OF q(2) r(2)] rs] .
  have lt': "rem r0 < (n + 1) div 10" "rem r0 < n" using steps_rem [OF pr] assms(2) by simp_all
  obtain vals t where t: "pCommaList n ?row [] r0 = Some (vals, t)" "steps r0 t"
      "p_err t = None \<longrightarrow> list_all (list_all wf_expr) vals"
    using row_item.pCommaList [OF steps_inside [OF pr] lt', of "[]"] by auto
  have "?row v p = Some (v', p') \<Longrightarrow> length v < length v'" for v p v' p'
    by (auto split: Option.bind_split_asm)
  then have ne: "vals \<noteq> []"
    using pCommaList_grow [of ?row length, OF _ t(1)] by fastforce
  have pt: "steps p t" using pr t(2) by (rule steps_trans)
  have errs: "p_err t = None \<Longrightarrow> p_err q = None \<and> p_err r = None"
    using steps_err [OF steps_trans [OF rs t(2)]] steps_err [OF steps_trans [OF r(2) steps_trans [OF rs t(2)]]]
    by simp
  show ?thesis
  proof (cases "\<exists>row \<in> set vals. length row \<noteq> length names")
    case True
    then have "pInsert n mode p = Some (None, pErr (lit ''values length not match columns length'') t)"
      using r(1) t(1) by (simp add: pInsert_def q(1) rc [unfolded msg_def, simplified])
    then show ?thesis using steps_trans [OF pt pErr_steps [OF steps_inside [OF pt]]] by simp
  next
    case False
    then have "pInsert n mode p =
        Some (Some \<lparr>ITable = nm, IMode = mode, INames = names, IValues = vals\<rparr>, t)"
      using r(1) t(1) by (simp add: pInsert_def q(1) rc [unfolded msg_def, simplified])
    then show ?thesis
      using pt errs q(3) r(3) t(3) False ne assms(3) by (auto simp: list_all_iff)
  qed
qed

section \<open>Parsing a statement\<close>

lemma stmtCases_result:
  assumes "inside p" "rem p < (n + 1) div 10"
  shows "\<exists>s q. stmtCases n p = Some (s, q) \<and> steps p q \<and>
    (p_err q = None \<longrightarrow> (\<exists>stmt. s = Some stmt \<and> wf_stmt stmt))"
proof -
  let ?ok = "\<lambda>r. \<exists>s q. r = Some (s, q) \<and> steps p q \<and>
    (p_err q = None \<longrightarrow> (\<exists>stmt. s = Some stmt \<and> wf_stmt stmt))"
  have branch: "?ok (match toks p \<bind> (\<lambda>(ok, p). if ok then f p else g p))"
    if "\<And>q. steps p q \<Longrightarrow> rem q < (n + 1) div 10 \<Longrightarrow> ?ok (f q)" "?ok (g p)" for toks f g
  proof (rule match_cases [OF assms(1), of toks])
    assume "match toks p = Some (False, p)"
    then show ?thesis using that(2) by simp
  next
    fix q assume q: "match toks p = Some (True, q)" "steps p q"
    then show ?thesis using that(1) [OF q(2)] steps_rem [OF q(2)] assms(2) by simp
  qed
  have sub: "?ok (map_option (apfst g) r)"
    if "\<exists>s u. r = Some (s, u) \<and> steps q u \<and> (p_err u = None \<longrightarrow> (\<exists>stmt. g s = Some stmt \<and> wf_stmt stmt))"
      "steps p q" for g :: "'b \<Rightarrow> Stmt option" and r q
    using that steps_trans by fastforce
  have modes: "MODE_UPSERT \<in> {MODE_UPSERT, MODE_UPDATE_ONLY, MODE_INSERT_ONLY}"
    "MODE_UPDATE_ONLY \<in> {MODE_UPSERT, MODE_UPDATE_ONLY, MODE_INSERT_ONLY}"
    "MODE_INSERT_ONLY \<in> {MODE_UPSERT, MODE_UPDATE_ONLY, MODE_INSERT_ONLY}" by simp_all
  have parsers: "?ok (map_option (apfst (\<lambda>s. Some (StmtCreateTable s))) (pCreateTable n q))"
    "?ok (map_option (apfst (\<lambda>s. Some (StmtSelect s))) (pSelect n q))"
    "?ok (map_option (apfst (\<lambda>s. Some (StmtDelete s))) (pDelete n q))"
    "?ok (map_option (apfst (\<lambda>s. Some (StmtUpdate s))) (pUpdate n q))"
    "m \<in> {MODE_UPSERT, MODE_UPDATE_ONLY, MODE_INSERT_ONLY} \<Longrightarrow>
      ?ok (map_option (apfst (map_option StmtInsert)) (pInsert n m q))"
    if "steps p q" "rem q < (n + 1) div 10" for q m
  proof -
    have q: "inside q" "rem q + 1 < n" using steps_inside [OF that(1)] that(2) by simp_all
    show "?ok (map_option (apfst (\<lambda>s. Some (StmtCreateTable s))) (pCreateTable n q))"
      by (rule sub [OF _ that(1)]) (use pCreateTable_result [OF q] in simp)
    show "?ok (map_option (apfst (\<lambda>s. Some (StmtSelect s))) (pSelect n q))"
      by (rule sub [OF _ that(1)]) (use pSelect_result [OF q(1) that(2)] in simp)
    show "?ok (map_option (apfst (\<lambda>s. Some (StmtDelete s))) (pDelete n q))"
      by (rule sub [OF _ that(1)]) (use pDelete_result [OF q(1) that(2)] in simp)
    show "?ok (map_option (apfst (\<lambda>s. Some (StmtUpdate s))) (pUpdate n q))"
      by (rule sub [OF _ that(1)]) (use pUpdate_result [OF q(1) that(2)] in simp)
    show "?ok (map_option (apfst (map_option StmtInsert)) (pInsert n m q))"
      if "m \<in> {MODE_UPSERT, MODE_UPDATE_ONLY, MODE_INSERT_ONLY}"
      by (rule sub [OF _ \<open>steps p q\<close>])
         (use pInsert_result [OF q(1) \<open>rem q < (n + 1) div 10\<close> that] in fastforce)
  qed
  have simple: "?ok (Some (Some s, q))" if "steps p q" "s \<in> {QLBegin, QLCommit, QLRollback}" for s q
    using that by auto
  show ?thesis
    unfolding stmtCases_def
    apply (rule branch, rule simple, assumption, simp)+
    apply (rule branch, rule parsers(1), assumption, assumption)
    apply (rule branch, rule parsers(2), assumption, assumption)
    apply (rule branch, rule parsers(5), assumption, assumption, simp)+
    apply (rule branch, rule parsers(3), assumption, assumption)
    apply (rule branch, rule parsers(4), assumption, assumption)
    apply (simp add: pErr_steps [OF assms(1)])
    done
qed

lemma pStmt_result:
  assumes "inside p" "rem p < (n + 1) div 10"
  shows "\<exists>r q. pStmt n p = Some (r, q) \<and> steps p q \<and> (case r of
      Inl e \<Rightarrow> p_err q = Some e
    | Inr s \<Rightarrow> p_err q = None \<and> (\<exists>stmt. s = Some stmt \<and> wf_stmt stmt))"
proof -
  obtain s q where q: "stmtCases n p = Some (s, q)" "steps p q"
      "p_err q = None \<longrightarrow> (\<exists>stmt. s = Some stmt \<and> wf_stmt stmt)"
    using stmtCases_result [OF assms] by auto
  define msg where "msg = ''expect '' @ quoted '';'' @ '' after statement''"
  obtain r0 where qc: "consume '';'' msg q = Some r0" and qs: "steps q r0"
    by (rule consume_cases [OF steps_inside [OF q(2)], of "'';''" msg]) (simp, rule that)
  have "pStmt n p = Some (case p_err r0 of Some e \<Rightarrow> Inl e | None \<Rightarrow> Inr s, r0)"
    using q(1) by (simp add: pStmt_def qc [unfolded msg_def, simplified])
  then show ?thesis
    using steps_trans [OF q(2) qs] q(3) steps_err [OF qs] by (auto split: option.split)
qed

text \<open>
  C36: The parser terminates without a panic. On every input, whatever its bytes, a fuel linear in
  its length is enough for the recursive descent to return: every loop over a list and every
  parenthesis takes something from the input or reports an error. No byte read and no slice
  leaves the input, and no operand of a node is missing: each of them would make the result
  \<open>None\<close>. The parser stays inside its input, and the result is an error exactly when the
  parser recorded one.
\<close>

theorem parser_terminates:
  "\<exists>r q. pStmt (10 * length inp + 9) (NewParser inp) = Some (r, q) \<and>
     p_input q = inp \<and> p_idx q \<le> length inp \<and>
     (p_err q = None \<longleftrightarrow> (\<exists>s. r = Inr s))"
proof -
  have "inside (NewParser inp)" "rem (NewParser inp) < (10 * length inp + 9 + 1) div 10"
    by (simp_all add: inside_def NewParser_def rem_def)
  from pStmt_result [OF this] show ?thesis
    by (fastforce simp: steps_def inside_def NewParser_def split: sum.splits)
qed

text \<open>
  C37: The parser is well typed. A statement parsed without an error exists and is well formed: names
  are identifiers that are not reserved words, operators have their operands, the keys of
  \<^verbatim>\<open>INDEX BY\<close> are comparisons of a tuple of column names with a tuple of as many values and
  an equality is not followed by a second key, the offset and the limit are not negative, a row
  to insert has a value for every column, a new table has a type for every column, and an
  output column is a star or an expression, whose name is an identifier or, without
  \<^verbatim>\<open>AS\<close>, empty.
\<close>

theorem parser_well_typed:
  assumes "Parse n inp = Some (Inr s)" "10 * length inp + 9 \<le> n"
  shows "\<exists>stmt. s = Some stmt \<and> wf_stmt stmt"
proof -
  have "inside (NewParser inp)" "rem (NewParser inp) < (n + 1) div 10"
    using assms(2) by (simp_all add: inside_def NewParser_def rem_def)
  from pStmt_result [OF this] show ?thesis
    using assms(1) by (auto simp: Parse_def)
qed

theorem parser_well_typed_witness:
  "case Parse 289 (lit ''delete from t index by b>1;'') of Some (Inr (Some stmt)) \<Rightarrow> wf_stmt stmt | _ \<Rightarrow> False"
proof -
  have "case Parse 289 (lit ''delete from t index by b>1;'') of Some (Inr s) \<Rightarrow> True | _ \<Rightarrow> False"
    by code_simp
  then obtain s where s: "Parse 289 (lit ''delete from t index by b>1;'') = Some (Inr s)"
    by (auto split: option.splits sum.splits)
  show ?thesis using parser_well_typed [OF s] by (auto simp: s)
qed

end
