(* ===== verification/QLEval.thy ===== *)
theory QLEval
  imports QLParseProps "HOL-Library.Signed_Division"
begin

text \<open>
  Evaluation of expressions (the first half of \<^verbatim>\<open>db/ql_exec.go\<close>). The context carries the row,
  the last value and the first error; an evaluation takes and returns it, and \<open>None\<close> is a panic.
  After an error the context is passed through unchanged apart from its value, as in the code.

  The reference semantics \<open>meaning\<close> is compositional: it has no context, no sticky error and no
  leftover fields, and reads AND, OR and tuple comparison off the meanings of the operands. The
  theorem shows that the evaluator computes it and never panics on what the parser produces.
\<close>

section \<open>The evaluator\<close>

record QLEvalCtx =
  env :: Record
  out :: Value
  err :: "bytes option"

text \<open>\<^verbatim>\<open>QLEvalCtx{env: env}\<close>\<close>

definition new_ctx :: "Record \<Rightarrow> QLEvalCtx" where
  "new_ctx rec = \<lparr>env = rec, out = zero_value 0, err = None\<rparr>"

definition eErr :: "bytes \<Rightarrow> QLEvalCtx \<Rightarrow> QLEvalCtx" where
  "eErr msg ctx = (if err ctx = None then ctx\<lparr>out := (out ctx)\<lparr>Type := QL_ERR\<rparr>, err := Some msg\<rparr> else ctx)"

definition b2i :: "bool \<Rightarrow> 64 word" where
  "b2i b = (if b then 1 else 0)"

definition cmp2bool :: "int \<Rightarrow> nat \<Rightarrow> bool option" where
  "cmp2bool r op =
     (if op = QL_CMP_EQ then Some (r = 0)
      else if op = QL_CMP_NE then Some (r \<noteq> 0)
      else if op = QL_CMP_GE then Some (r \<ge> 0)
      else if op = QL_CMP_GT then Some (r > 0)
      else if op = QL_CMP_LE then Some (r \<le> 0)
      else if op = QL_CMP_LT then Some (r < 0)
      else None)"

text \<open>\<^verbatim>\<open>cmp.Compare\<close> on \<^verbatim>\<open>int64\<close>\<close>

definition cmpCompare :: "64 word \<Rightarrow> 64 word \<Rightarrow> int" where
  "cmpCompare a b = (if sint a < sint b then -1 else if sint a = sint b then 0 else 1)"

definition valueCmp :: "Value \<Rightarrow> Value \<Rightarrow> QLEvalCtx \<Rightarrow> (int \<times> QLEvalCtx) option" where
  "valueCmp val1 val2 ctx =
     (if err ctx \<noteq> None then Some (0, ctx)
      else if Type val1 \<noteq> Type val2 then Some (0, eErr (lit ''compare different types'') ctx)
      else if Type val1 = TYPE_INT64 then Some (cmpCompare (I64 val1) (I64 val2), ctx)
      else if Type val1 = TYPE_BYTES then Some (bytesCompare (Str val1) (Str val2), ctx)
      else None)"

text \<open>The operators of \<^verbatim>\<open>int64\<close> wrap around; the quotient is truncated towards zero.\<close>

definition binOpI64 :: "nat \<Rightarrow> 64 word \<Rightarrow> 64 word \<Rightarrow> QLEvalCtx \<Rightarrow> 64 word \<times> QLEvalCtx" where
  "binOpI64 op i1 i2 ctx =
     (if op = QL_ADD then (i1 + i2, ctx)
      else if op = QL_SUB then (i1 - i2, ctx)
      else if op = QL_MUL then (i1 * i2, ctx)
      else if op = QL_DIV then
        if i2 = 0 then (0, eErr (lit ''division by 0'') ctx) else (word_of_int (sint i1 sdiv sint i2), ctx)
      else if op = QL_MOD then
        if i2 = 0 then (0, eErr (lit ''division by 0'') ctx) else (word_of_int (sint i1 smod sint i2), ctx)
      else (0, eErr (lit ''bad i64 arithmetic binop'') ctx))"

definition binOpStr :: "nat \<Rightarrow> bytes \<Rightarrow> bytes \<Rightarrow> QLEvalCtx \<Rightarrow> bytes \<times> QLEvalCtx" where
  "binOpStr op s1 s2 ctx = (if op = QL_ADD then (s1 @ s2, ctx) else ([], eErr (lit ''bad str binop'') ctx))"

definition cmpTypes :: "nat set" where
  "cmpTypes = {QL_CMP_EQ, QL_CMP_NE, QL_CMP_GE, QL_CMP_LE, QL_CMP_GT, QL_CMP_LT}"

definition arithTypes :: "nat set" where
  "arithTypes = {QL_ADD, QL_SUB, QL_MUL, QL_DIV, QL_MOD}"

definition set_type :: "nat \<Rightarrow> QLEvalCtx \<Rightarrow> QLEvalCtx" where
  "set_type t ctx = ctx\<lparr>out := (out ctx)\<lparr>Type := t\<rparr>\<rparr>"

definition set_i64 :: "64 word \<Rightarrow> QLEvalCtx \<Rightarrow> QLEvalCtx" where
  "set_i64 i ctx = ctx\<lparr>out := (out ctx)\<lparr>I64 := i\<rparr>\<rparr>"

definition set_str :: "bytes \<Rightarrow> QLEvalCtx \<Rightarrow> QLEvalCtx" where
  "set_str s ctx = ctx\<lparr>out := (out ctx)\<lparr>Str := s\<rparr>\<rparr>"

lemma kid_size: "i < length (Kids node) \<Longrightarrow> size (Kids node ! i) < size node"
proof -
  have "k \<in> set ks \<Longrightarrow> size k < Suc (size_list size ks)" for k and ks :: "QLNode list"
    by (induction ks) auto
  then show "i < length (Kids node) \<Longrightarrow> ?thesis"
    by (cases node) auto
qed

lemma kids_size: "size_list size (Kids node) < size node"
  by (cases node) simp

lemma kids_below: "size node \<le> n \<Longrightarrow> size_list size (Kids node) < n" "size node < n \<Longrightarrow> size_list size (Kids node) < n"
  using kids_size [of node] by simp_all

lemma kid_below:
  "Kids node \<noteq> [] \<Longrightarrow> size (Kids node ! 0) < size node"
  "1 < length (Kids node) \<Longrightarrow> size (Kids node ! Suc 0) < size node"
  by (auto intro: kid_size)

lemma four_below:
  "a < b \<Longrightarrow> Suc (4 * a) < 4 * b" "a < b \<Longrightarrow> 4 * a < Suc (4 * b)" "a < b \<Longrightarrow> Suc (Suc (4 * a)) < 4 * b" for a :: nat
  by simp_all

declare Option.bind_cong [fundef_cong]

function evalExpr :: "QLNode \<Rightarrow> QLEvalCtx \<Rightarrow> QLEvalCtx option"
  and evalBinOp :: "QLNode \<Rightarrow> QLEvalCtx \<Rightarrow> QLEvalCtx option"
  and evalLogic :: "QLNode \<Rightarrow> QLEvalCtx \<Rightarrow> QLEvalCtx option"
  and tupleCmp :: "QLNode \<Rightarrow> QLNode \<Rightarrow> QLEvalCtx \<Rightarrow> (int \<times> QLEvalCtx) option"
  and tupleLoop :: "QLNode list \<Rightarrow> QLNode list \<Rightarrow> QLEvalCtx \<Rightarrow> (int \<times> QLEvalCtx) option" where
  "evalExpr node ctx =
     (if err ctx \<noteq> None then Some ctx
      else if NType node = QL_SYM then do {
        v \<leftarrow> RGet (env ctx) (NStr node);
        Some (case v of
            Some v \<Rightarrow> ctx\<lparr>out := v\<rparr>
          | None \<Rightarrow> eErr (lit ''unknown column: '' @ NStr node) ctx)
      }
      else if NType node = QL_I64 \<or> NType node = QL_STR then
        Some (ctx\<lparr>out := \<lparr>Type = NType node, I64 = NI64 node, Str = NStr node\<rparr>\<rparr>)
      else if NType node = QL_TUP then Some (eErr (lit ''unexpected tuple'') ctx)
      else if NType node = QL_NEG then do {
        k \<leftarrow> list_at (Kids node) 0;
        ctx \<leftarrow> evalExpr k ctx;
        Some (if Type (out ctx) = TYPE_INT64 then set_i64 (- I64 (out ctx)) ctx
              else eErr (lit ''QL_NEG type error'') ctx)
      }
      else if NType node = QL_NOT then do {
        k \<leftarrow> list_at (Kids node) 0;
        ctx \<leftarrow> evalExpr k ctx;
        Some (if Type (out ctx) = TYPE_INT64 then set_i64 (b2i (I64 (out ctx) = 0)) ctx
              else eErr (lit ''QL_NOT type error'') ctx)
      }
      else if NType node \<in> cmpTypes \<union> arithTypes \<union> {QL_AND, QL_OR} then evalBinOp node ctx
      else None)"
| "evalBinOp node ctx =
     (if NType node = QL_AND \<or> NType node = QL_OR then evalLogic node ctx
      else do {
        let isCmp = NType node \<in> cmpTypes;
        k0 \<leftarrow> list_at (Kids node) 0;
        k1 \<leftarrow> list_at (Kids node) 1;
        (if isCmp \<and> NType k0 = QL_TUP \<and> NType k1 = QL_TUP then do {
           (r, ctx) \<leftarrow> tupleCmp k0 k1 ctx;
           b \<leftarrow> cmp2bool r (NType node);
           Some (set_i64 (b2i b) (set_type TYPE_INT64 ctx))
         }
         else do {
           ctx \<leftarrow> evalExpr k0 ctx;
           let val1 = out ctx;
           ctx \<leftarrow> evalExpr k1 ctx;
           let val2 = out ctx;
           (if isCmp then do {
              (r, ctx) \<leftarrow> valueCmp val1 val2 ctx;
              b \<leftarrow> cmp2bool r (NType node);
              Some (set_i64 (b2i b) (set_type TYPE_INT64 ctx))
            }
            else if err ctx \<noteq> None then Some ctx
            else if Type val1 \<noteq> Type val2 then Some (eErr (lit ''binop type mismatch'') ctx)
            else if Type val1 = TYPE_INT64 then
              (let (i, ctx) = binOpI64 (NType node) (I64 val1) (I64 val2) (set_type TYPE_INT64 ctx)
               in Some (set_i64 i ctx))
            else if Type val1 = TYPE_BYTES then
              (let (s, ctx) = binOpStr (NType node) (Str val1) (Str val2) (set_type TYPE_BYTES ctx)
               in Some (set_str s ctx))
            else None)
         })
      })"
| "evalLogic node ctx = do {
     k0 \<leftarrow> list_at (Kids node) 0;
     ctx \<leftarrow> evalExpr k0 ctx;
     let ctx = (if Type (out ctx) \<noteq> TYPE_INT64 then eErr (lit ''invalid AND operand type'') ctx else ctx);
     (if err ctx \<noteq> None then Some ctx
      else if NType node = QL_AND \<and> I64 (out ctx) = 0 then Some ctx
      else if NType node = QL_OR \<and> I64 (out ctx) \<noteq> 0 then Some (set_i64 1 ctx)
      else do {
        k1 \<leftarrow> list_at (Kids node) 1;
        ctx \<leftarrow> evalExpr k1 ctx;
        let ctx = (if Type (out ctx) \<noteq> TYPE_INT64 then eErr (lit ''invalid AND operand type'') ctx else ctx);
        (if err ctx \<noteq> None then Some ctx
         else Some (set_i64 (b2i (I64 (out ctx) \<noteq> 0)) ctx))
      })
   }"
| "tupleCmp n1 n2 ctx =
     (if length (Kids n1) \<noteq> length (Kids n2)
      then Some (0, eErr (lit ''compare tuples of different lengths'') ctx)
      else tupleLoop (Kids n1) (Kids n2) ctx)"
| "tupleLoop ks1 ks2 ctx =
     (case (ks1, ks2) of
        (k1 # ks1, k2 # ks2) \<Rightarrow>
          (if err ctx \<noteq> None then Some (0, ctx)
           else do {
             ctx \<leftarrow> evalExpr k1 ctx;
             let val1 = out ctx;
             ctx \<leftarrow> evalExpr k2 ctx;
             let val2 = out ctx;
             (r, ctx) \<leftarrow> valueCmp val1 val2 ctx;
             (if r \<noteq> 0 then Some (r, ctx) else tupleLoop ks1 ks2 ctx)
           })
      | _ \<Rightarrow> Some (0, ctx))"
  by pat_completeness auto
termination
proof (relation "measure (\<lambda>x. case x of
    Inl (Inl (node, ctx)) \<Rightarrow> 4 * size node + 3
  | Inl (Inr (node, ctx)) \<Rightarrow> 4 * size node + 2
  | Inr (Inl (node, ctx)) \<Rightarrow> 4 * size node + 1
  | Inr (Inr (Inl (n1, n2, ctx))) \<Rightarrow> 4 * max (size n1) (size n2) + 1
  | Inr (Inr (Inr (ks1, ks2, ctx))) \<Rightarrow> 4 * max (size_list size ks1) (size_list size ks2) + 1)", goal_cases)
qed (auto intro!: four_below kid_below simp: kids_size kids_below max_def not_le)

declare evalExpr.simps [simp del] evalBinOp.simps [simp del] evalLogic.simps [simp del] tupleLoop.simps [simp del]

text \<open>\<^verbatim>\<open>evalMulti\<close>: several expressions over the same row.\<close>

fun evalMulti :: "Record \<Rightarrow> QLNode list \<Rightarrow> (bytes + Value list) option" where
  "evalMulti rec [] = Some (Inr [])"
| "evalMulti rec (e # es) = do {
     ctx \<leftarrow> evalExpr e (new_ctx rec);
     (case err ctx of
        Some msg \<Rightarrow> Some (Inl msg)
      | None \<Rightarrow> do {
          r \<leftarrow> evalMulti rec es;
          Some (case r of Inl msg \<Rightarrow> Inl msg | Inr vals \<Rightarrow> Inr (out ctx # vals))
        })
   }"

section \<open>The meaning of an expression\<close>

text \<open>A meaning is a number, a text, a tuple of meanings or a failure.\<close>

datatype meaning = Num "64 word" | Txt bytes | Tup "meaning list" | Fail

definition of_value :: "Value \<Rightarrow> meaning" where
  "of_value v = (if Type v = TYPE_INT64 then Num (I64 v) else if Type v = TYPE_BYTES then Txt (Str v) else Fail)"

definition order_of :: "'a::linorder \<Rightarrow> 'a \<Rightarrow> int" where
  "order_of a b = (if a < b then -1 else if a = b then 0 else 1)"

fun scalar_order :: "meaning \<Rightarrow> meaning \<Rightarrow> int option" where
  "scalar_order (Num a) (Num b) = Some (order_of (sint a) (sint b))"
| "scalar_order (Txt a) (Txt b) = Some (order_of a b)"
| "scalar_order _ _ = None"

text \<open>Tuples compare lexicographically; columns after the first difference are not looked at.\<close>

fun tuple_order :: "meaning list \<Rightarrow> meaning list \<Rightarrow> int option" where
  "tuple_order [] [] = Some 0"
| "tuple_order (x # xs) (y # ys) =
     (case scalar_order x y of None \<Rightarrow> None | Some r \<Rightarrow> if r = 0 then tuple_order xs ys else Some r)"
| "tuple_order _ _ = None"

fun order_of_meanings :: "meaning \<Rightarrow> meaning \<Rightarrow> int option" where
  "order_of_meanings (Tup xs) (Tup ys) = (if length xs = length ys then tuple_order xs ys else None)"
| "order_of_meanings x y = scalar_order x y"

fun arith :: "nat \<Rightarrow> meaning \<Rightarrow> meaning \<Rightarrow> meaning" where
  "arith t (Num a) (Num b) =
     (if t = QL_ADD then Num (a + b) else if t = QL_SUB then Num (a - b) else if t = QL_MUL then Num (a * b)
      else if b = 0 then Fail
      else if t = QL_DIV then Num (word_of_int (sint a sdiv sint b))
      else Num (word_of_int (sint a smod sint b)))"
| "arith t (Txt a) (Txt b) = (if t = QL_ADD then Txt (a @ b) else Fail)"
| "arith t _ _ = Fail"

fun truth :: "meaning \<Rightarrow> bool option" where
  "truth (Num a) = Some (a \<noteq> 0)"
| "truth _ = None"

definition num_of :: "bool option \<Rightarrow> meaning" where
  "num_of b = (case b of None \<Rightarrow> Fail | Some b \<Rightarrow> Num (if b then 1 else 0))"

definition unary :: "nat \<Rightarrow> meaning \<Rightarrow> meaning" where
  "unary t m = (if t = QL_NEG then (case m of Num a \<Rightarrow> Num (- a) | _ \<Rightarrow> Fail)
     else num_of (map_option Not (truth m)))"

definition binary :: "nat \<Rightarrow> meaning \<Rightarrow> meaning \<Rightarrow> meaning" where
  "binary t m1 m2 =
     (if t = QL_AND then num_of (case truth m1 of Some True \<Rightarrow> truth m2 | r \<Rightarrow> r)
      else if t = QL_OR then num_of (case truth m1 of Some False \<Rightarrow> truth m2 | r \<Rightarrow> r)
      else if t \<in> cmpTypes then num_of (do { r \<leftarrow> order_of_meanings m1 m2; cmp2bool r t })
      else arith t m1 m2)"

fun meaning_of :: "(bytes \<Rightarrow> Value option) \<Rightarrow> QLNode \<Rightarrow> meaning" where
  "meaning_of row (QLNode t i s kids) =
     (if t = QL_SYM then (case row s of Some v \<Rightarrow> of_value v | None \<Rightarrow> Fail)
      else if t = QL_I64 then Num i
      else if t = QL_STR then Txt s
      else case map (meaning_of row) kids of
          ms \<Rightarrow> if t = QL_TUP then Tup ms
            else (case ms of [m] \<Rightarrow> unary t m | [m1, m2] \<Rightarrow> binary t m1 m2 | _ \<Rightarrow> Fail))"

section \<open>The evaluator computes the meaning\<close>

definition agrees :: "QLEvalCtx \<Rightarrow> meaning \<Rightarrow> bool" where
  "agrees ctx m \<longleftrightarrow>
     (case m of
        Num i \<Rightarrow> err ctx = None \<and> Type (out ctx) = TYPE_INT64 \<and> I64 (out ctx) = i
      | Txt s \<Rightarrow> err ctx = None \<and> Type (out ctx) = TYPE_BYTES \<and> Str (out ctx) = s
      | _ \<Rightarrow> err ctx \<noteq> None)"

text \<open>A row all of whose cells are integers or strings.\<close>

definition sees_row :: "Record \<Rightarrow> (bytes \<Rightarrow> Value option) \<Rightarrow> bool" where
  "sees_row rec row \<longleftrightarrow> (\<forall>c. RGet rec c = Some (row c) \<and>
     (\<forall>v. row c = Some v \<longrightarrow> Type v \<in> {TYPE_BYTES, TYPE_INT64}))"

lemma ctx_simps [simp]:
  "err (eErr msg ctx) \<noteq> None" "env (eErr msg ctx) = env ctx"
  "err (set_i64 i ctx) = err ctx" "err (set_type t ctx) = err ctx" "err (set_str s ctx) = err ctx"
  "env (set_i64 i ctx) = env ctx" "env (set_type t ctx) = env ctx" "env (set_str s ctx) = env ctx"
  "out (set_i64 i ctx) = (out ctx)\<lparr>I64 := i\<rparr>" "out (set_type t ctx) = (out ctx)\<lparr>Type := t\<rparr>"
  "out (set_str s ctx) = (out ctx)\<lparr>Str := s\<rparr>"
  by (auto simp: eErr_def set_i64_def set_type_def set_str_def)

lemma eErr_errs [simp]: "\<exists>m. err (eErr msg ctx) = Some m"
  using ctx_simps(1) [of msg ctx] by (auto simp del: ctx_simps)

lemma cmp2bool_some: "t \<in> cmpTypes \<Longrightarrow> \<exists>b. cmp2bool r t = Some b"
  by (auto simp: cmpTypes_def cmp2bool_def)

lemma evalExpr_err: "err ctx \<noteq> None \<Longrightarrow> evalExpr node ctx = Some ctx"
  by (simp add: evalExpr.simps)

lemma types_differ [simp]: "TYPE_BYTES \<noteq> TYPE_INT64" "TYPE_INT64 \<noteq> TYPE_BYTES"
  by (simp_all add: TYPE_BYTES_def TYPE_INT64_def)

text \<open>Comparing two values whose expressions have been evaluated one after the other.\<close>

lemma valueCmp_ok:
  assumes "agrees ctx1 m1" "if err ctx1 \<noteq> None then ctx2 = ctx1 else agrees ctx2 m2"
  shows "\<exists>r ctx3. valueCmp (out ctx1) (out ctx2) ctx2 = Some (r, ctx3) \<and> env ctx3 = env ctx2 \<and>
    (case scalar_order m1 m2 of Some r' \<Rightarrow> err ctx3 = None \<and> r = r' | None \<Rightarrow> err ctx3 \<noteq> None \<and> r = 0)"
proof (cases "\<exists>a. scalar_order m1 m2 = Some a")
  case True
  then show ?thesis
    using assms by (cases m1; cases m2)
      (auto simp: agrees_def valueCmp_def cmpCompare_def order_of_def bytesCompare_eq)
next
  case False
  then show ?thesis
    using assms by (cases m1; cases m2) (auto simp: agrees_def valueCmp_def)
qed

definition correct_on :: "Record \<Rightarrow> (bytes \<Rightarrow> Value option) \<Rightarrow> QLNode \<Rightarrow> bool" where
  "correct_on rec row node \<longleftrightarrow> (\<forall>ctx. err ctx = None \<longrightarrow> env ctx = rec \<longrightarrow>
     (\<exists>ctx'. evalExpr node ctx = Some ctx' \<and> env ctx' = rec \<and> agrees ctx' (meaning_of row node)))"

lemma correct_onE:
  assumes "correct_on rec row node" "err ctx = None" "env ctx = rec"
  obtains ctx' where "evalExpr node ctx = Some ctx'" "env ctx' = rec" "agrees ctx' (meaning_of row node)"
  using assms unfolding correct_on_def by blast

text \<open>Two operands, the second after the first; after an error the second changes nothing.\<close>

lemma two_operands:
  assumes "correct_on rec row k0" "correct_on rec row k1" "err ctx = None" "env ctx = rec"
  obtains ctx1 ctx2 where "evalExpr k0 ctx = Some ctx1" "evalExpr k1 ctx1 = Some ctx2"
    "env ctx1 = rec" "env ctx2 = rec" "agrees ctx1 (meaning_of row k0)"
    "if err ctx1 \<noteq> None then ctx2 = ctx1 else agrees ctx2 (meaning_of row k1)"
proof -
  obtain ctx1 where c1: "evalExpr k0 ctx = Some ctx1" "env ctx1 = rec" "agrees ctx1 (meaning_of row k0)"
    using correct_onE [OF assms(1,3,4)] .
  show ?thesis
  proof (cases "err ctx1 = None")
    case True
    then obtain ctx2 where "evalExpr k1 ctx1 = Some ctx2" "env ctx2 = rec" "agrees ctx2 (meaning_of row k1)"
      by (rule correct_onE [OF assms(2) _ c1(2)])
    then show ?thesis using that [OF c1(1)] c1 True by simp
  next
    case False
    then show ?thesis using that [OF c1(1) evalExpr_err] c1 by simp
  qed
qed

lemma tupleLoop_ok:
  assumes "length ks1 = length ks2" "\<forall>k \<in> set ks1 \<union> set ks2. correct_on rec row k" "err ctx = None" "env ctx = rec"
  shows "\<exists>r ctx'. tupleLoop ks1 ks2 ctx = Some (r, ctx') \<and> env ctx' = rec \<and>
    (case tuple_order (map (meaning_of row) ks1) (map (meaning_of row) ks2) of
       Some r' \<Rightarrow> err ctx' = None \<and> r = r' | None \<Rightarrow> err ctx' \<noteq> None)"
  using assms
proof (induction ks1 ks2 arbitrary: ctx rule: list_induct2)
  case Nil
  then show ?case by (simp add: tupleLoop.simps)
next
  case (Cons k1 ks1 k2 ks2)
  have "correct_on rec row k1" "correct_on rec row k2" using Cons.prems by simp_all
  then obtain ctx1 ctx2 where e: "evalExpr k1 ctx = Some ctx1" "evalExpr k2 ctx1 = Some ctx2"
      "env ctx2 = rec" "agrees ctx1 (meaning_of row k1)"
      "if err ctx1 \<noteq> None then ctx2 = ctx1 else agrees ctx2 (meaning_of row k2)"
    by (rule two_operands) (use Cons.prems in auto)
  obtain r ctx3 where v: "valueCmp (out ctx1) (out ctx2) ctx2 = Some (r, ctx3)" "env ctx3 = rec"
    "case scalar_order (meaning_of row k1) (meaning_of row k2) of
       Some r' \<Rightarrow> err ctx3 = None \<and> r = r' | None \<Rightarrow> err ctx3 \<noteq> None \<and> r = 0"
    using valueCmp_ok [OF e(4,5)] e(3) by blast
  have step: "tupleLoop (k1 # ks1) (k2 # ks2) ctx = (if r \<noteq> 0 then Some (r, ctx3) else tupleLoop ks1 ks2 ctx3)"
    using e v Cons.prems by (simp add: tupleLoop.simps [of "k1 # ks1"])
  show ?case
  proof (cases "scalar_order (meaning_of row k1) (meaning_of row k2)")
    case None
    then have "err ctx3 \<noteq> None" "r = 0" using v by auto
    moreover have "tupleLoop ks1 ks2 ctx3 = Some (0, ctx3)"
      using calculation by (simp add: tupleLoop.simps split: list.split)
    ultimately show ?thesis using step v None by simp
  next
    case (Some r')
    then have "err ctx3 = None" "r = r'" using v by auto
    then show ?thesis
      using step v Some Cons.IH [of ctx3] Cons.prems by (cases "r' = 0") auto
  qed
qed

text \<open>The cases of a well-formed node.\<close>

lemma wf_expr_cases:
  assumes "wf_expr node"
  obtains (sym) c where "node = QLNode QL_SYM 0 c []"
    | (int) i where "node = QLNode QL_I64 i [] []"
    | (str) s where "node = QLNode QL_STR 0 s []"
    | (tup) ks where "node = QLNode QL_TUP 0 [] ks" "list_all wf_expr ks"
    | (un) t k where "node = QLNode t 0 [] [k]" "t \<in> {QL_NOT, QL_NEG}" "wf_expr k"
    | (bin) t k0 k1 where "node = QLNode t 0 [] [k0, k1]" "t \<in> binTypes" "wf_expr k0" "wf_expr k1"
  using assms
  by (cases node) (auto simp: length_Suc_conv numeral_2_eq_2 intro: that)

lemma binTypes_split: "binTypes = cmpTypes \<union> arithTypes \<union> {QL_AND, QL_OR}"
  by (auto simp: binTypes_def cmpTypes_def arithTypes_def)

lemma leaf_correct:
  assumes "sees_row rec row"
  shows "correct_on rec row (QLNode QL_SYM 0 c [])"
    and "correct_on rec row (QLNode QL_I64 i [] [])"
    and "correct_on rec row (QLNode QL_STR 0 s [])"
    and "correct_on rec row (QLNode QL_TUP 0 [] ks)"
  using assms
  by (auto simp: correct_on_def evalExpr.simps sees_row_def agrees_def of_value_def ql_consts
      TYPE_INT64_def TYPE_BYTES_def split: option.splits)

lemma unary_correct:
  assumes "correct_on rec row k" "t \<in> {QL_NOT, QL_NEG}"
  shows "correct_on rec row (QLNode t 0 [] [k])"
  unfolding correct_on_def
proof (intro allI impI)
  fix ctx :: QLEvalCtx assume ctx: "err ctx = None" "env ctx = rec"
  obtain ctx' where c: "evalExpr k ctx = Some ctx'" "env ctx' = rec" "agrees ctx' (meaning_of row k)"
    by (rule correct_onE [OF assms(1) ctx])
  show "\<exists>ctx'. evalExpr (QLNode t 0 [] [k]) ctx = Some ctx' \<and> env ctx' = rec \<and>
      agrees ctx' (meaning_of row (QLNode t 0 [] [k]))"
    using c assms(2) ctx
    by (cases "meaning_of row k")
      (auto simp: evalExpr.simps [of "QLNode t 0 [] [k]"] agrees_def unary_def num_of_def b2i_def ql_consts
        TYPE_INT64_def TYPE_BYTES_def)
qed

lemma logic_operand:
  assumes "correct_on rec row k" "err ctx = None" "env ctx = rec"
  obtains ctx1 where "evalExpr k ctx = Some ctx1"
    "let ctx' = (if Type (out ctx1) \<noteq> TYPE_INT64 then eErr msg ctx1 else ctx1) in env ctx' = rec \<and>
      (case truth (meaning_of row k) of
         Some b \<Rightarrow> ctx' = ctx1 \<and> err ctx1 = None \<and> Type (out ctx1) = TYPE_INT64 \<and> b = (I64 (out ctx1) \<noteq> 0)
       | None \<Rightarrow> err ctx' \<noteq> None)"
proof -
  obtain ctx1 where c: "evalExpr k ctx = Some ctx1" "env ctx1 = rec" "agrees ctx1 (meaning_of row k)"
    by (rule correct_onE [OF assms])
  show ?thesis
    by (rule that [OF c(1)], use c(2,3) in \<open>cases "meaning_of row k"\<close>) (auto simp: agrees_def Let_def)
qed

lemma logic_correct:
  assumes k: "correct_on rec row k0" "correct_on rec row k1" and t: "t = QL_AND \<or> t = QL_OR"
  shows "correct_on rec row (QLNode t 0 [] [k0, k1])"
  unfolding correct_on_def
proof (intro allI impI)
  fix ctx :: QLEvalCtx assume ctx: "err ctx = None" "env ctx = rec"
  let ?node = "QLNode t 0 [] [k0, k1]" and ?msg = "lit ''invalid AND operand type''"
  have eval: "evalExpr ?node ctx = evalLogic ?node ctx"
    using t ctx by (auto simp: evalExpr.simps [of ?node] evalBinOp.simps [of ?node] ql_consts TYPE_INT64_def TYPE_BYTES_def)
  have meaning: "meaning_of row ?node = num_of (case truth (meaning_of row k0) of
      Some b \<Rightarrow> if b = (t = QL_AND) then truth (meaning_of row k1) else Some b | None \<Rightarrow> None)"
    using t by (auto simp: binary_def ql_consts TYPE_INT64_def TYPE_BYTES_def split: option.splits bool.splits)
  obtain c1 where c1: "evalExpr k0 ctx = Some c1"
      "let ctx' = (if Type (out c1) \<noteq> TYPE_INT64 then eErr ?msg c1 else c1) in env ctx' = rec \<and>
        (case truth (meaning_of row k0) of
           Some b \<Rightarrow> ctx' = c1 \<and> err c1 = None \<and> Type (out c1) = TYPE_INT64 \<and> b = (I64 (out c1) \<noteq> 0)
         | None \<Rightarrow> err ctx' \<noteq> None)"
    by (rule logic_operand [OF k(1) ctx])
  show "\<exists>ctx'. evalExpr ?node ctx = Some ctx' \<and> env ctx' = rec \<and> agrees ctx' (meaning_of row ?node)"
  proof (cases "truth (meaning_of row k0)")
    case None
    then show ?thesis
      unfolding eval meaning using c1 by (simp add: evalLogic.simps Let_def num_of_def agrees_def)
  next
    case (Some b)
    then have b: "err c1 = None" "env c1 = rec" "Type (out c1) = TYPE_INT64" "b = (I64 (out c1) \<noteq> 0)"
      using c1(2) by (auto simp: Let_def)
    show ?thesis
    proof (cases "b = (t = QL_AND)")
      case False
      then show ?thesis
        unfolding eval meaning using c1(1) b Some t
        by (auto simp: evalLogic.simps Let_def num_of_def agrees_def)
    next
      case True
      obtain c2 where c2: "evalExpr k1 c1 = Some c2"
        "let ctx' = (if Type (out c2) \<noteq> TYPE_INT64 then eErr ?msg c2 else c2) in env ctx' = rec \<and>
          (case truth (meaning_of row k1) of
             Some b \<Rightarrow> ctx' = c2 \<and> err c2 = None \<and> Type (out c2) = TYPE_INT64 \<and> b = (I64 (out c2) \<noteq> 0)
           | None \<Rightarrow> err ctx' \<noteq> None)"
        by (rule logic_operand [OF k(2) b(1,2)])
      have "evalLogic ?node ctx = Some (let ctx' = (if Type (out c2) \<noteq> TYPE_INT64 then eErr ?msg c2 else c2) in
          if err ctx' \<noteq> None then ctx' else set_i64 (b2i (I64 (out ctx') \<noteq> 0)) ctx')"
        using c1(1) c2(1) b True t by (auto simp: evalLogic.simps Let_def ql_consts)
      then show ?thesis
        unfolding eval meaning using c2(2) Some True
        by (cases "truth (meaning_of row k1)") (auto simp: Let_def num_of_def agrees_def b2i_def)
    qed
  qed
qed

lemma meaning_tuple: "meaning_of row k = Tup ms \<Longrightarrow> NType k = QL_TUP \<and> ms = map (meaning_of row) (Kids k)"
proof -
  have "num_of b \<noteq> Tup ms" "unary t m \<noteq> Tup ms" "arith t m m' \<noteq> Tup ms" "of_value v \<noteq> Tup ms" for b t m m' v
    by (auto simp: num_of_def unary_def of_value_def split: option.splits meaning.splits)
       (cases "(t, m, m')" rule: arith.cases, auto split: if_splits)
  then show "meaning_of row k = Tup ms \<Longrightarrow> ?thesis"
    by (cases k) (auto simp: binary_def split: if_splits option.splits list.splits)
qed

lemma tuple_meaning: "NType k = QL_TUP \<Longrightarrow> meaning_of row k = Tup (map (meaning_of row) (Kids k))"
  by (cases k) (simp add: ql_consts TYPE_INT64_def TYPE_BYTES_def)

lemma set_i64_agrees:
  "err ctx = None \<Longrightarrow> agrees (set_i64 (b2i b) (set_type TYPE_INT64 ctx)) (num_of (Some b))"
  "err ctx \<noteq> None \<Longrightarrow> agrees (set_i64 i (set_type TYPE_INT64 ctx)) (num_of None)"
  by (simp_all add: agrees_def num_of_def b2i_def)

lemma scalar_not_both: "\<not> (\<exists>xs ys. m1 = Tup xs \<and> m2 = Tup ys) \<Longrightarrow> order_of_meanings m1 m2 = scalar_order m1 m2"
  by (cases "(m1, m2)" rule: order_of_meanings.cases) auto

lemma cmp_correct:
  assumes k: "correct_on rec row k0" "correct_on rec row k1" and t: "t \<in> cmpTypes"
    and kids: "NType k0 = QL_TUP \<Longrightarrow> NType k1 = QL_TUP \<Longrightarrow> \<forall>k \<in> set (Kids k0) \<union> set (Kids k1). correct_on rec row k"
  shows "correct_on rec row (QLNode t 0 [] [k0, k1])"
  unfolding correct_on_def
proof (intro allI impI)
  fix ctx :: QLEvalCtx assume ctx: "err ctx = None" "env ctx = rec"
  let ?node = "QLNode t 0 [] [k0, k1]"
  let ?tups = "NType k0 = QL_TUP \<and> NType k1 = QL_TUP"
  have ts: "t \<noteq> QL_AND" "t \<noteq> QL_OR" "t \<noteq> QL_SYM" "t \<noteq> QL_I64" "t \<noteq> QL_STR" "t \<noteq> QL_TUP" "t \<noteq> QL_NEG" "t \<noteq> QL_NOT"
    using t by (auto simp: cmpTypes_def ql_consts TYPE_INT64_def TYPE_BYTES_def)
  have eval: "evalExpr ?node ctx = evalBinOp ?node ctx"
    using t ts ctx by (auto simp: evalExpr.simps [of ?node])
  have meaning: "meaning_of row ?node =
      num_of (do { r \<leftarrow> order_of_meanings (meaning_of row k0) (meaning_of row k1); cmp2bool r t })"
    using t ts by (simp add: binary_def)
  have finish: "\<exists>ctx'. do { b \<leftarrow> cmp2bool r t; Some (set_i64 (b2i b) (set_type TYPE_INT64 c)) } = Some ctx' \<and>
      env ctx' = rec \<and> agrees ctx' (meaning_of row ?node)"
    if "env c = rec" "case order_of_meanings (meaning_of row k0) (meaning_of row k1) of
      Some r' \<Rightarrow> err c = None \<and> r = r' | None \<Rightarrow> err c \<noteq> None" for c r
  proof -
    obtain b where "cmp2bool r t = Some b" using cmp2bool_some [OF t] by blast
    then show ?thesis
      using that unfolding meaning
      by (cases "order_of_meanings (meaning_of row k0) (meaning_of row k1)") (auto simp: set_i64_agrees)
  qed
  show "\<exists>ctx'. evalExpr ?node ctx = Some ctx' \<and> env ctx' = rec \<and> agrees ctx' (meaning_of row ?node)"
  proof (cases ?tups)
    case True
    then have m: "order_of_meanings (meaning_of row k0) (meaning_of row k1) =
        (if length (Kids k0) = length (Kids k1)
         then tuple_order (map (meaning_of row) (Kids k0)) (map (meaning_of row) (Kids k1)) else None)"
      by (simp add: tuple_meaning)
    obtain r c where "tupleCmp k0 k1 ctx = Some (r, c)" "env c = rec"
      "case order_of_meanings (meaning_of row k0) (meaning_of row k1) of
         Some r' \<Rightarrow> err c = None \<and> r = r' | None \<Rightarrow> err c \<noteq> None"
    proof (cases "length (Kids k0) = length (Kids k1)")
      case True
      then show ?thesis
        using tupleLoop_ok [OF True kids ctx] \<open>?tups\<close> that unfolding m by (auto simp: tupleCmp.simps)
    next
      case False
      then show ?thesis using that ctx unfolding m by (simp add: tupleCmp.simps)
    qed
    then show ?thesis
      using finish [of c r] True t ts unfolding eval
      by (simp add: evalBinOp.simps [of ?node])
  next
    case False
    obtain c1 c2 where e: "evalExpr k0 ctx = Some c1" "evalExpr k1 c1 = Some c2"
        "env c1 = rec" "env c2 = rec" "agrees c1 (meaning_of row k0)"
        "if err c1 \<noteq> None then c2 = c1 else agrees c2 (meaning_of row k1)"
      by (rule two_operands [OF k ctx])
    have m: "order_of_meanings (meaning_of row k0) (meaning_of row k1) = scalar_order (meaning_of row k0) (meaning_of row k1)"
      by (rule scalar_not_both) (use False meaning_tuple in blast)
    obtain r c3 where v: "valueCmp (out c1) (out c2) c2 = Some (r, c3)" "env c3 = rec"
      "case scalar_order (meaning_of row k0) (meaning_of row k1) of
         Some r' \<Rightarrow> err c3 = None \<and> r = r' | None \<Rightarrow> err c3 \<noteq> None \<and> r = 0"
      using valueCmp_ok [OF e(5,6)] e(4) by auto
    then have "case order_of_meanings (meaning_of row k0) (meaning_of row k1) of
        Some r' \<Rightarrow> err c3 = None \<and> r = r' | None \<Rightarrow> err c3 \<noteq> None"
      unfolding m by (auto split: option.splits)
    from finish [OF v(2) this] show ?thesis
      unfolding eval using False t ts e(1,2) v(1) by (auto simp: evalBinOp.simps [of ?node])
  qed
qed

lemma arith_correct:
  assumes k: "correct_on rec row k0" "correct_on rec row k1" and t: "t \<in> arithTypes"
  shows "correct_on rec row (QLNode t 0 [] [k0, k1])"
  unfolding correct_on_def
proof (intro allI impI)
  fix ctx :: QLEvalCtx assume ctx: "err ctx = None" "env ctx = rec"
  let ?node = "QLNode t 0 [] [k0, k1]"
  have ts: "t \<notin> cmpTypes" "t \<noteq> QL_AND" "t \<noteq> QL_OR" "t \<noteq> QL_SYM" "t \<noteq> QL_I64" "t \<noteq> QL_STR" "t \<noteq> QL_TUP"
      "t \<noteq> QL_NEG" "t \<noteq> QL_NOT"
    using t by (auto simp: arithTypes_def cmpTypes_def ql_consts TYPE_INT64_def TYPE_BYTES_def)
  obtain c1 c2 where e: "evalExpr k0 ctx = Some c1" "evalExpr k1 c1 = Some c2"
      "env c1 = rec" "env c2 = rec" "agrees c1 (meaning_of row k0)"
      "if err c1 \<noteq> None then c2 = c1 else agrees c2 (meaning_of row k1)"
    by (rule two_operands [OF k ctx])
  have eval: "evalExpr ?node ctx =
      (if err c2 \<noteq> None then Some c2
       else if Type (out c1) \<noteq> Type (out c2) then Some (eErr (lit ''binop type mismatch'') c2)
       else if Type (out c1) = TYPE_INT64 then
         (let (i, c) = binOpI64 t (I64 (out c1)) (I64 (out c2)) (set_type TYPE_INT64 c2) in Some (set_i64 i c))
       else if Type (out c1) = TYPE_BYTES then
         (let (s, c) = binOpStr t (Str (out c1)) (Str (out c2)) (set_type TYPE_BYTES c2) in Some (set_str s c))
       else None)"
    using t ts ctx e(1,2) by (simp add: evalExpr.simps [of ?node] evalBinOp.simps [of ?node])
  have meaning: "meaning_of row ?node = arith t (meaning_of row k0) (meaning_of row k1)"
    using ts by (simp add: binary_def)
  show "\<exists>ctx'. evalExpr ?node ctx = Some ctx' \<and> env ctx' = rec \<and> agrees ctx' (meaning_of row ?node)"
    unfolding eval meaning
    using e(3-6) t
    by (cases "meaning_of row k0"; cases "meaning_of row k1")
      (auto simp: agrees_def binOpI64_def binOpStr_def arithTypes_def ql_consts split: prod.splits)
qed

lemma kid_smaller: "k \<in> set (Kids node) \<Longrightarrow> size k < size node"
  using kid_size by (auto simp: in_set_conv_nth)

lemma wf_kid: "wf_expr node \<Longrightarrow> k \<in> set (Kids node) \<Longrightarrow> wf_expr k"
  by (cases node) (simp add: list_all_iff)

lemma every_node_correct:
  assumes "sees_row rec row"
  shows "wf_expr node \<Longrightarrow> correct_on rec row node"
proof (induction node rule: measure_induct_rule [of size])
  case (less node)
  have kids: "correct_on rec row k" if "k \<in> set (Kids node)" for k
    using less.IH [OF kid_smaller [OF that] wf_kid [OF less.prems that]] .
  have deep: "correct_on rec row k'" if "k \<in> set (Kids node)" "k' \<in> set (Kids k)" for k k'
    using less.IH [OF order.strict_trans [OF kid_smaller [OF that(2)] kid_smaller [OF that(1)]]
      wf_kid [OF wf_kid [OF less.prems that(1)] that(2)]] .
  from less.prems show ?case
  proof (cases rule: wf_expr_cases)
    case (un t k)
    then show ?thesis using unary_correct kids by simp
  next
    case (bin t k0 k1)
    then have k: "correct_on rec row k0" "correct_on rec row k1" using kids by simp_all
    have "\<forall>k \<in> set (Kids k0) \<union> set (Kids k1). correct_on rec row k" using deep bin(1) by auto
    moreover have "t \<in> cmpTypes \<or> t \<in> arithTypes \<or> t = QL_AND \<or> t = QL_OR"
      using bin(2) binTypes_split by blast
    ultimately show ?thesis
      using logic_correct [OF k] cmp_correct [OF k] arith_correct [OF k] unfolding bin(1) by blast
  qed (simp_all add: leaf_correct [OF assms])
qed

text \<open>
  C9: Evaluation is total and right: on every expression the parser produces and every row of
  integers and strings, \<^const>\<open>evalExpr\<close> returns without a panic, and what it returns is the
  compositional meaning of the expression - the number or the string, or an error exactly where the
  meaning is undefined (unknown column, type mismatch, division by zero, tuples of different
  lengths, a tuple as a value).
\<close>

theorem eval_is_meaning:
  assumes "wf_expr node" "sees_row rec row"
  shows "\<exists>ctx. evalExpr node (new_ctx rec) = Some ctx \<and>
    (case meaning_of row node of
       Num i \<Rightarrow> err ctx = None \<and> Type (out ctx) = TYPE_INT64 \<and> I64 (out ctx) = i
     | Txt s \<Rightarrow> err ctx = None \<and> Type (out ctx) = TYPE_BYTES \<and> Str (out ctx) = s
     | _ \<Rightarrow> err ctx \<noteq> None)"
proof -
  obtain ctx where "evalExpr node (new_ctx rec) = Some ctx" "agrees ctx (meaning_of row node)"
    by (rule correct_onE [OF every_node_correct [OF assms(2,1)], of "new_ctx rec"]) (simp_all add: new_ctx_def)
  then show ?thesis unfolding agrees_def by blast
qed

theorem eval_is_meaning_witness:
  "\<exists>ctx. evalExpr (QLNode QL_CMP_LT 0 [] [QLNode QL_DIV 0 [] [QLNode QL_SYM 0 (lit ''a'') [], QLNode QL_I64 2 [] []],
       QLNode QL_I64 7 [] []]) (new_ctx (AddInt64 \<lparr>RCols = [], RVals = []\<rparr> (lit ''a'') (-9))) = Some ctx \<and>
     err ctx = None \<and> I64 (out ctx) = 1"
proof -
  let ?rec = "AddInt64 \<lparr>RCols = [], RVals = []\<rparr> (lit ''a'') (-9)"
  let ?row = "\<lambda>c. if c = lit ''a'' then Some \<lparr>Type = TYPE_INT64, I64 = -9, Str = []\<rparr> else None"
  let ?e = "QLNode QL_CMP_LT 0 [] [QLNode QL_DIV 0 [] [QLNode QL_SYM 0 (lit ''a'') [], QLNode QL_I64 2 [] []],
       QLNode QL_I64 7 [] []]"
  have "wf_expr ?e" by code_simp
  moreover have "sees_row ?rec ?row" by (auto simp: sees_row_def RGet_def AddInt64_def)
  ultimately obtain ctx where "evalExpr ?e (new_ctx ?rec) = Some ctx"
    "case meaning_of ?row ?e of
       Num i \<Rightarrow> err ctx = None \<and> Type (out ctx) = TYPE_INT64 \<and> I64 (out ctx) = i
     | Txt s \<Rightarrow> err ctx = None \<and> Type (out ctx) = TYPE_BYTES \<and> Str (out ctx) = s
     | _ \<Rightarrow> err ctx \<noteq> None"
    using eval_is_meaning by blast
  moreover have "meaning_of ?row ?e = Num 1" by code_simp
  ultimately show ?thesis by auto
qed

text \<open>A quotient is truncated towards zero and wraps around in one case.\<close>

lemma division_wraps: "arith QL_DIV (Num (- (2 ^ 63))) (Num (- 1)) = Num (- (2 ^ 63))"
  by code_simp

end
