(* ===== verification/QLExec.thy ===== *)
theory QLExec
  imports Table QLEval
begin

text \<open>
  Execution of statements (the second half of \<^verbatim>\<open>db/ql_exec.go\<close>): the iterators behind a query,
  the five kinds of statements, and the executor with its explicit and implicit transactions.

  Iterators read the transaction they belong to (a row of a secondary index is fetched by primary
  key, which records a read), so their steps take and return it. The loops over the rows of an
  iterator take a bound \<open>n\<close> on the number of their rounds, \<open>None\<close> when it is used up. In the code
  the record that \<^verbatim>\<open>Deref\<close> hands out shares its cells with the iterator, which writes to them
  only in the next step, when the record is no longer used.
\<close>

section \<open>Conditions\<close>

record qlScanIter =
  it_req :: QLScan
  it_sc :: Scanner
  it_count :: "64 word"
  it_end :: bool
  it_rec :: Record
  it_err :: "bytes option"

definition zero_scanner :: Scanner where
  "zero_scanner = \<lparr>Cmp1 = 0, Cmp2 = 0, SKey1 = new_record, SKey2 = new_record,
     sc_tdef = \<lparr>Name = [], Types = [], Cols = [], Indexes = [], Prefixes = []\<rparr>, sc_index = 0, sc_iter = None\<rparr>"

text \<open>A key of INDEX BY as a record and a comparison.\<close>

definition evalScanKey :: "QLNode \<Rightarrow> (bytes + Record \<times> int) option" where
  "evalScanKey node =
     (if NType node = 0 then Some (Inr (new_record, 0))
      else do {
        cmp \<leftarrow> (if NType node = QL_CMP_EQ then Some 0
                 else if NType node = QL_CMP_GE then Some CMP_GE
                 else if NType node = QL_CMP_GT then Some CMP_GT
                 else if NType node = QL_CMP_LE then Some CMP_LE
                 else if NType node = QL_CMP_LT then Some CMP_LT
                 else None);
        names \<leftarrow> list_at (Kids node) 0;
        exprs \<leftarrow> list_at (Kids node) 1;
        _ \<leftarrow> go_assert (NType names = QL_TUP \<and> NType exprs = QL_TUP);
        _ \<leftarrow> go_assert (length (Kids names) = length (Kids exprs));
        vals \<leftarrow> evalMulti new_record (Kids exprs);
        (case vals of
           Inl e \<Rightarrow> Some (Inl e)
         | Inr vals \<Rightarrow> do {
             _ \<leftarrow> go_assert (list_all (\<lambda>name. NType name = QL_SYM) (Kids names));
             Some (Inr (\<lparr>RCols = map NStr (Kids names), RVals = vals\<rparr>, cmp))
           })
      })"

definition initScanner :: "qlScanIter \<Rightarrow> (bytes option \<times> qlScanIter) option" where
  "initScanner it = do {
     let req = it_req it;
     let sc = it_sc it;
     r1 \<leftarrow> evalScanKey (Key1 req);
     (case r1 of
        Inl e \<Rightarrow> Some (Some e, it)
      | Inr (key1, cmp1) \<Rightarrow> do {
          let sc = sc\<lparr>SKey1 := key1, Cmp1 := cmp1\<rparr>;
          r2 \<leftarrow> evalScanKey (Key2 req);
          (case r2 of
             Inl e \<Rightarrow> Some (Some e, it\<lparr>it_sc := sc\<rparr>)
           | Inr (key2, cmp2) \<Rightarrow> do {
               let sc = sc\<lparr>SKey2 := key2, Cmp2 := cmp2\<rparr>;
               sc \<leftarrow>
                 (if NType (Key1 req) = 0 \<and> NType (Key2 req) = 0 then
                    Some (sc\<lparr>Cmp1 := CMP_GE, Cmp2 := CMP_LE\<rparr>)
                  else if NType (Key1 req) = QL_CMP_EQ \<and> NType (Key2 req) = 0 then
                    Some (sc\<lparr>SKey2 := SKey1 sc, Cmp1 := CMP_GE, Cmp2 := CMP_LE\<rparr>)
                  else if NType (Key1 req) \<noteq> 0 \<and> NType (Key2 req) = 0 then
                    Some (if Cmp1 sc > 0 then sc\<lparr>Cmp2 := CMP_LE\<rparr> else sc\<lparr>Cmp2 := CMP_GE\<rparr>)
                  else if NType (Key1 req) \<noteq> 0 \<and> NType (Key2 req) \<noteq> 0 then Some sc
                  else None);
               Some (None, it\<lparr>it_sc := sc\<rparr>)
             })
        })
   }"

text \<open>The depth of the recursion between \<^verbatim>\<open>Deref\<close> and \<^verbatim>\<open>dbGet\<close> for a row of a secondary index.\<close>

abbreviation "deref_depth \<equiv> Suc (Suc 0)"

text \<open>\<^verbatim>\<open>pull\<close>: the current row, and whether it satisfies the filter.\<close>

definition pull :: "KV \<Rightarrow> nat \<Rightarrow> KVTX \<Rightarrow> qlScanIter \<Rightarrow> ((bytes + bool) \<times> qlScanIter \<times> KVTX) option" where
  "pull kv fuel tx it = do {
     (rec, tx) \<leftarrow> sc_Deref deref_depth kv fuel tx (it_sc it) (it_rec it);
     let it = it\<lparr>it_rec := rec\<rparr>;
     (if NType (Filter (it_req it)) \<noteq> 0 then do {
        ctx \<leftarrow> evalExpr (Filter (it_req it)) (new_ctx rec);
        (case err ctx of
           Some e \<Rightarrow> Some (Inl e, it, tx)
         | None \<Rightarrow>
             (if Type (out ctx) \<noteq> TYPE_INT64 then Some (Inl (lit ''filter is not boolean''), it, tx)
              else Some (Inr (I64 (out ctx) \<noteq> 0), it, tx)))
      }
      else Some (Inr True, it, tx))
   }"

text \<open>The loop of \<^verbatim>\<open>qlScanIter.Next\<close>.\<close>

fun nextLoop :: "nat \<Rightarrow> KV \<Rightarrow> nat \<Rightarrow> KVTX \<Rightarrow> qlScanIter \<Rightarrow> (qlScanIter \<times> KVTX) option" where
  "nextLoop 0 kv fuel tx it = None"
| "nextLoop (Suc n) kv fuel tx it = do {
     valid \<leftarrow> sc_Valid (it_sc it);
     (if \<not> valid then Some (it\<lparr>it_end := True\<rparr>, tx)
      else do {
        (r, it, tx) \<leftarrow> pull kv fuel tx it;
        (case r of
           Inl e \<Rightarrow> Some (it\<lparr>it_err := Some e\<rparr>, tx)
         | Inr matched \<Rightarrow> do {
             sc \<leftarrow> sc_Next kv tx (it_sc it);
             let it = it\<lparr>it_sc := sc\<rparr>;
             (if matched then
                let it = it\<lparr>it_count := it_count it + 1\<rparr> in
                if sint (it_count it) \<le> sint (Offset (it_req it)) then nextLoop n kv fuel tx it
                else Some (it, tx)
              else nextLoop n kv fuel tx it)
           })
      })
   }"

definition qi_Next :: "nat \<Rightarrow> KV \<Rightarrow> nat \<Rightarrow> KVTX \<Rightarrow> qlScanIter \<Rightarrow> (qlScanIter \<times> KVTX) option" where
  "qi_Next n kv fuel tx it =
     (if it_count it = Limit (it_req it) then Some (it\<lparr>it_end := True\<rparr>, tx)
      else nextLoop n kv fuel tx it)"

definition qi_Valid :: "qlScanIter \<Rightarrow> bool" where
  "qi_Valid it = (\<not> it_end it)"

definition qi_Deref :: "qlScanIter \<Rightarrow> Record \<Rightarrow> (bytes option \<times> Record) option" where
  "qi_Deref it rec = do {
     _ \<leftarrow> go_assert (qi_Valid it);
     Some (case it_err it of None \<Rightarrow> (None, it_rec it) | Some e \<Rightarrow> (Some e, rec))
   }"

definition execScan :: "json \<Rightarrow> nat \<Rightarrow> nat \<Rightarrow> DB \<Rightarrow> KVTX \<Rightarrow> QLScan \<Rightarrow> ((db_error + qlScanIter) \<times> DB \<times> KVTX) option" where
  "execScan json n fuel db tx req = do {
     (e, it) \<leftarrow> initScanner \<lparr>it_req = req, it_sc = zero_scanner, it_count = 0, it_end = False,
        it_rec = new_record, it_err = None\<rparr>;
     (case e of
        Some e \<Rightarrow> Some (Inl (Msg e), db, tx)
      | None \<Rightarrow> do {
          (e, sc, db, tx) \<leftarrow> tab_Scan json fuel db tx (STable req) (it_sc it);
          (case e of
             Some e \<Rightarrow> Some (Inl e, db, tx)
           | None \<Rightarrow> do {
               (it, tx) \<leftarrow> qi_Next n (db_kv db) fuel tx (it\<lparr>it_sc := sc\<rparr>);
               Some (Inr it, db, tx)
             })
        })
   }"

section \<open>SELECT\<close>

record qlSelectIter =
  sel_iter :: qlScanIter
  sel_names :: "bytes list"
  sel_exprs :: "QLNode list"

definition sel_Valid :: "qlSelectIter \<Rightarrow> bool" where
  "sel_Valid s = qi_Valid (sel_iter s)"

definition sel_Next :: "nat \<Rightarrow> KV \<Rightarrow> nat \<Rightarrow> KVTX \<Rightarrow> qlSelectIter \<Rightarrow> (qlSelectIter \<times> KVTX) option" where
  "sel_Next n kv fuel tx s = do {
     (it, tx) \<leftarrow> qi_Next n kv fuel tx (sel_iter s);
     Some (s\<lparr>sel_iter := it\<rparr>, tx)
   }"

definition sel_Deref :: "qlSelectIter \<Rightarrow> Record \<Rightarrow> (bytes option \<times> Record) option" where
  "sel_Deref s rec = do {
     (e, rec) \<leftarrow> qi_Deref (sel_iter s) rec;
     (case e of
        Some e \<Rightarrow> Some (Some e, rec)
      | None \<Rightarrow> do {
          vals \<leftarrow> evalMulti rec (sel_exprs s);
          (case vals of
             Inl e \<Rightarrow> Some (Some e, rec)
           | Inr vals \<Rightarrow> Some (None, \<lparr>RCols = sel_names s, RVals = vals\<rparr>))
        })
   }"

text \<open>The selected names and expressions with every star replaced by the table's columns.\<close>

fun expandStar :: "TableDef option \<Rightarrow> bytes list \<Rightarrow> QLNode list \<Rightarrow> (bytes list \<times> QLNode list) option" where
  "expandStar tdef [] outs = Some ([], [])"
| "expandStar tdef (name # names) outs =
     (if name \<noteq> lit ''*'' then do {
        e \<leftarrow> list_at outs 0;
        (ns, es) \<leftarrow> expandStar tdef names (drop 1 outs);
        Some (name # ns, e # es)
      }
      else do {
        td \<leftarrow> tdef;
        (ns, es) \<leftarrow> expandStar tdef names (drop 1 outs);
        Some (Cols td @ ns, map (\<lambda>col. QLNode QL_SYM 0 col []) (Cols td) @ es)
      })"

definition defaultNames :: "bytes list \<Rightarrow> QLNode list \<Rightarrow> bytes list option" where
  "defaultNames names exprs = those (map2 (\<lambda>name e. if name \<noteq> [] then Some name else Display e) names exprs)"

definition execSelect :: "json \<Rightarrow> nat \<Rightarrow> nat \<Rightarrow> DB \<Rightarrow> KVTX \<Rightarrow> QLSelect \<Rightarrow> ((db_error + qlSelectIter) \<times> DB \<times> KVTX) option" where
  "execSelect json n fuel db tx req = do {
     (r, db, tx) \<leftarrow> execScan json n fuel db tx (QLScan.truncate req);
     (case r of
        Inl e \<Rightarrow> Some (Inl e, db, tx)
      | Inr records \<Rightarrow> do {
          (tdef, db, tx) \<leftarrow> getTableDef json fuel db tx (STable req);
          (names, exprs) \<leftarrow> expandStar tdef (SNames req) (Output req);
          _ \<leftarrow> go_assert (length names = length exprs);
          names \<leftarrow> defaultNames names exprs;
          Some (Inr \<lparr>sel_iter = records, sel_names = names, sel_exprs = exprs\<rparr>, db, tx)
        })
   }"

section \<open>INSERT, UPDATE, DELETE\<close>

fun insertLoop :: "json \<Rightarrow> nat \<Rightarrow> DB \<Rightarrow> KVTX \<Rightarrow> QLInsert \<Rightarrow> QLNode list list \<Rightarrow> 64 word \<Rightarrow> 64 word
    \<Rightarrow> ((db_error + 64 word \<times> 64 word) \<times> DB \<times> KVTX) option" where
  "insertLoop json fuel db tx req [] added updated = Some (Inr (added, updated), db, tx)"
| "insertLoop json fuel db tx req (exprs # rows) added updated = do {
     vals \<leftarrow> evalMulti new_record exprs;
     (case vals of
        Inl e \<Rightarrow> Some (Inl (Msg e), db, tx)
      | Inr vals \<Rightarrow> do {
          (r, dbReq, db, tx) \<leftarrow> tab_Set json fuel db tx (ITable req)
            (mk_dbreq \<lparr>RCols = INames req, RVals = vals\<rparr> (IMode req));
          (case r of
             Inl e \<Rightarrow> Some (Inl e, db, tx)
           | Inr _ \<Rightarrow> insertLoop json fuel db tx req rows
               (if d_Added dbReq then added + 1 else added) (if d_Updated dbReq then updated + 1 else updated))
        })
   }"

definition execInsert :: "json \<Rightarrow> nat \<Rightarrow> DB \<Rightarrow> KVTX \<Rightarrow> QLInsert \<Rightarrow> ((db_error + 64 word \<times> 64 word) \<times> DB \<times> KVTX) option" where
  "execInsert json fuel db tx req = insertLoop json fuel db tx req (IValues req) 0 0"

text \<open>The check of the assigned columns; \<open>None\<close> as a schema is the nil pointer.\<close>

fun checkAssigned :: "TableDef option \<Rightarrow> bytes list \<Rightarrow> db_error option option" where
  "checkAssigned tdef [] = Some None"
| "checkAssigned tdef (col # cols) = do {
     td \<leftarrow> tdef;
     (if slices_Index (Cols td) col = None then Some (Some (Msg (lit ''unknown column: '' @ col)))
      else do {
        pk \<leftarrow> list_at (Indexes td) 0;
        (if slices_Index pk col \<noteq> None then Some (Some (Msg (lit ''cannot update primary key'')))
         else checkAssigned tdef cols)
      })
   }"

fun assignCells :: "TableDef \<Rightarrow> bytes list \<Rightarrow> Value list \<Rightarrow> Value list \<Rightarrow> Value list option" where
  "assignCells td [] vals cells = Some cells"
| "assignCells td (col # cols) vals cells = do {
     v \<leftarrow> list_at vals 0;
     j \<leftarrow> slices_Index (Cols td) col;
     cells \<leftarrow> list_set cells j v;
     assignCells td cols (drop 1 vals) cells
   }"

fun updateLoop :: "nat \<Rightarrow> json \<Rightarrow> nat \<Rightarrow> DB \<Rightarrow> KVTX \<Rightarrow> QLUpdate \<Rightarrow> TableDef option \<Rightarrow> qlScanIter \<Rightarrow> 64 word
    \<Rightarrow> ((db_error + 64 word) \<times> DB \<times> KVTX) option" where
  "updateLoop 0 json fuel db tx req tdef records updated = None"
| "updateLoop (Suc n) json fuel db tx req tdef records updated =
     (if \<not> qi_Valid records then Some (Inr updated, db, tx)
      else do {
        (e, rec) \<leftarrow> qi_Deref records new_record;
        (case e of
           Some e \<Rightarrow> Some (Inl (Msg e), db, tx)
         | None \<Rightarrow> do {
             vals \<leftarrow> evalMulti rec (UValues req);
             (case vals of
                Inl e \<Rightarrow> Some (Inl (Msg e), db, tx)
              | Inr vals \<Rightarrow> do {
                  cells \<leftarrow> (case tdef of
                      Some td \<Rightarrow> assignCells td (UNames req) vals (RVals rec)
                    | None \<Rightarrow> if UNames req = [] then Some (RVals rec) else None);
                  (r, dbReq, db, tx) \<leftarrow> tab_Set json fuel db tx (STable req)
                    (mk_dbreq (rec\<lparr>RVals := cells\<rparr>) MODE_UPDATE_ONLY);
                  (case r of
                     Inl e \<Rightarrow> Some (Inl e, db, tx)
                   | Inr up \<Rightarrow> do {
                       _ \<leftarrow> go_assert (up = d_Updated dbReq);
                       (records, tx) \<leftarrow> qi_Next n (db_kv db) fuel tx records;
                       updateLoop n json fuel db tx req tdef records (if up then updated + 1 else updated)
                     })
                })
           })
      })"

definition execUpdate :: "json \<Rightarrow> nat \<Rightarrow> nat \<Rightarrow> DB \<Rightarrow> KVTX \<Rightarrow> QLUpdate \<Rightarrow> ((db_error + 64 word) \<times> DB \<times> KVTX) option" where
  "execUpdate json n fuel db tx req = do {
     _ \<leftarrow> go_assert (length (UNames req) = length (UValues req));
     (tdef, db, tx) \<leftarrow> getTableDef json fuel db tx (STable req);
     e \<leftarrow> checkAssigned tdef (UNames req);
     (case e of
        Some e \<Rightarrow> Some (Inl e, db, tx)
      | None \<Rightarrow> do {
          (r, db, tx) \<leftarrow> execScan json n fuel db tx (QLScan.truncate req);
          (case r of
             Inl e \<Rightarrow> Some (Inl e, db, tx)
           | Inr records \<Rightarrow> updateLoop n json fuel db tx req tdef records 0)
        })
   }"

fun deleteLoop :: "nat \<Rightarrow> json \<Rightarrow> nat \<Rightarrow> DB \<Rightarrow> KVTX \<Rightarrow> QLScan \<Rightarrow> TableDef option \<Rightarrow> qlScanIter \<Rightarrow> 64 word
    \<Rightarrow> ((db_error + 64 word) \<times> DB \<times> KVTX) option" where
  "deleteLoop 0 json fuel db tx req tdef records deleted = None"
| "deleteLoop (Suc n) json fuel db tx req tdef records deleted =
     (if \<not> qi_Valid records then Some (Inr deleted, db, tx)
      else do {
        (e, rec) \<leftarrow> qi_Deref records new_record;
        (case e of
           Some e \<Rightarrow> Some (Inl (Msg e), db, tx)
         | None \<Rightarrow> do {
             td \<leftarrow> tdef;
             pk \<leftarrow> list_at (Indexes td) 0;
             vals \<leftarrow> getValues td rec pk;
             (case vals of
                Inl e \<Rightarrow> Some (Inl (Msg e), db, tx)
              | Inr vals \<Rightarrow> do {
                  (r, db, tx) \<leftarrow> tab_Delete json fuel db tx (STable req) \<lparr>RCols = pk, RVals = vals\<rparr>;
                  (case r of
                     Inl e \<Rightarrow> Some (Inl e, db, tx)
                   | Inr ok \<Rightarrow> do {
                       _ \<leftarrow> go_assert ok;
                       (records, tx) \<leftarrow> qi_Next n (db_kv db) fuel tx records;
                       deleteLoop n json fuel db tx req tdef records (deleted + 1)
                     })
                })
           })
      })"

definition execDelete :: "json \<Rightarrow> nat \<Rightarrow> nat \<Rightarrow> DB \<Rightarrow> KVTX \<Rightarrow> QLScan \<Rightarrow> ((db_error + 64 word) \<times> DB \<times> KVTX) option" where
  "execDelete json n fuel db tx req = do {
     (r, db, tx) \<leftarrow> execScan json n fuel db tx req;
     (case r of
        Inl e \<Rightarrow> Some (Inl e, db, tx)
      | Inr records \<Rightarrow> do {
          (tdef, db, tx) \<leftarrow> getTableDef json fuel db tx (STable req);
          deleteLoop n json fuel db tx req tdef records 0
        })
   }"

section \<open>Statements\<close>

record QLResult =
  res_Records :: "qlSelectIter option"
  res_Added :: "64 word"
  res_Updated :: "64 word"
  res_Deleted :: "64 word"

definition no_result :: QLResult where
  "no_result = \<lparr>res_Records = None, res_Added = 0, res_Updated = 0, res_Deleted = 0\<rparr>"

definition execCreateTable :: "json \<Rightarrow> nat \<Rightarrow> DB \<Rightarrow> KVTX \<Rightarrow> TableDef \<Rightarrow> (db_error option \<times> DB \<times> KVTX) option" where
  "execCreateTable json fuel db tx tdef = do {
     (e, tdef, tx) \<leftarrow> TableNew json fuel db tx tdef;
     Some (e, db, tx)
   }"

text \<open>The switch of \<^verbatim>\<open>execStmt\<close>.\<close>

definition execCases :: "json \<Rightarrow> nat \<Rightarrow> nat \<Rightarrow> DB \<Rightarrow> KVTX \<Rightarrow> Stmt \<Rightarrow> ((db_error + QLResult) \<times> DB \<times> KVTX) option" where
  "execCases json n fuel db tx stmt =
     (case stmt of
        StmtCreateTable tdef \<Rightarrow> do {
          (e, db, tx) \<leftarrow> execCreateTable json fuel db tx tdef;
          Some (case e of None \<Rightarrow> Inr no_result | Some e \<Rightarrow> Inl e, db, tx)
        }
      | StmtSelect req \<Rightarrow> do {
          (r, db, tx) \<leftarrow> execSelect json n fuel db tx req;
          Some (map_sum id (\<lambda>it. no_result\<lparr>res_Records := Some it\<rparr>) r, db, tx)
        }
      | StmtInsert req \<Rightarrow> do {
          (r, db, tx) \<leftarrow> execInsert json fuel db tx req;
          Some (map_sum id (\<lambda>(added, updated). no_result\<lparr>res_Added := added, res_Updated := updated\<rparr>) r, db, tx)
        }
      | StmtUpdate req \<Rightarrow> do {
          (r, db, tx) \<leftarrow> execUpdate json n fuel db tx req;
          Some (map_sum id (\<lambda>updated. no_result\<lparr>res_Updated := updated\<rparr>) r, db, tx)
        }
      | StmtDelete req \<Rightarrow> do {
          (r, db, tx) \<leftarrow> execDelete json n fuel db tx req;
          Some (map_sum id (\<lambda>deleted. no_result\<lparr>res_Deleted := deleted\<rparr>) r, db, tx)
        }
      | _ \<Rightarrow> None)"

definition execStmt :: "json \<Rightarrow> nat \<Rightarrow> nat \<Rightarrow> DB \<Rightarrow> KVTX \<Rightarrow> Stmt \<Rightarrow> ((db_error + QLResult) \<times> DB \<times> KVTX) option" where
  "execStmt json n fuel db tx stmt = do {
     let saved = tx_Save tx;
     (r, db, tx) \<leftarrow> execCases json n fuel db tx stmt;
     Some (r, db, case r of Inl e \<Rightarrow> tx_Revert tx saved | Inr res \<Rightarrow> tx)
   }"

section \<open>The executor\<close>

record Executor =
  ex_db :: DB
  ex_activeTx :: "KVTX option"

definition NewExecutor :: "DB \<Rightarrow> Executor" where
  "NewExecutor db = \<lparr>ex_db = db, ex_activeTx = None\<rparr>"

definition inTx :: "Executor \<Rightarrow> bool" where
  "inTx ex = (ex_activeTx ex \<noteq> None)"

datatype exec_error = ParseError bytes | StateError bytes | StmtError db_error | CommitError commit_error

text \<open>
  \<^verbatim>\<open>ExecStr\<close>: the result, the flag, and the transaction that the records of the result read from.
  \<open>mo\<close>, \<open>rounds\<close> and \<open>fuel\<close> are those of a commit, \<open>n\<close> bounds the loops over rows.
\<close>

definition ExecStr :: "((nat \<rightharpoonup> bytes) \<Rightarrow> nat list) \<Rightarrow> json \<Rightarrow> nat \<Rightarrow> nat \<Rightarrow> nat \<Rightarrow> Executor \<Rightarrow> bytes
    \<Rightarrow> ((exec_error + QLResult) \<times> bool \<times> KVTX \<times> Executor) option" where
  "ExecStr mo json n rounds fuel ex stmtStr = do {
     parsed \<leftarrow> Parse (10 * length stmtStr + 9) stmtStr;
     (case parsed of
        Inl e \<Rightarrow> Some (Inl (ParseError e), inTx ex, new_tx, ex)
      | Inr None \<Rightarrow> None
      | Inr (Some QLBegin) \<Rightarrow>
          (if inTx ex then Some (Inl (StateError (lit ''already in a transaction'')), True, new_tx, ex)
           else let (db, tx) = db_Begin (ex_db ex) new_tx in
             Some (Inr no_result, True, tx, ex\<lparr>ex_db := db, ex_activeTx := Some tx\<rparr>))
      | Inr (Some QLCommit) \<Rightarrow>
          (case ex_activeTx ex of
             None \<Rightarrow> Some (Inl (StateError (lit ''no active transaction to commit'')), False, new_tx, ex)
           | Some tx \<Rightarrow> do {
               (e, db, tx) \<leftarrow> db_Commit mo rounds fuel (ex_db ex) tx;
               Some (case e of None \<Rightarrow> Inr no_result | Some e \<Rightarrow> Inl (CommitError e), False, tx,
                 ex\<lparr>ex_db := db, ex_activeTx := None\<rparr>)
             })
      | Inr (Some QLRollback) \<Rightarrow>
          (case ex_activeTx ex of
             None \<Rightarrow> Some (Inl (StateError (lit ''no active transaction to rollback'')), False, new_tx, ex)
           | Some tx \<Rightarrow> do {
               (db, tx) \<leftarrow> db_Abort (ex_db ex) tx;
               Some (Inr no_result, False, tx, ex\<lparr>ex_db := db, ex_activeTx := None\<rparr>)
             })
      | Inr (Some stmt) \<Rightarrow>
          (case ex_activeTx ex of
             Some tx \<Rightarrow> do {
               (r, db, tx) \<leftarrow> execStmt json n fuel (ex_db ex) tx stmt;
               Some (map_sum StmtError id r, True, tx, ex\<lparr>ex_db := db, ex_activeTx := Some tx\<rparr>)
             }
           | None \<Rightarrow> do {
               let (db, tx) = db_Begin (ex_db ex) new_tx;
               (r, db, tx) \<leftarrow> execStmt json n fuel db tx stmt;
               (case r of
                  Inl e \<Rightarrow> do {
                    (db, tx) \<leftarrow> db_Abort db tx;
                    Some (Inl (StmtError e), False, tx, ex\<lparr>ex_db := db\<rparr>)
                  }
                | Inr res \<Rightarrow> do {
                    (e, db, tx) \<leftarrow> db_Commit mo rounds fuel db tx;
                    Some (case e of None \<Rightarrow> Inr res | Some e \<Rightarrow> Inl (CommitError e), False, tx, ex\<lparr>ex_db := db\<rparr>)
                  })
             }))
   }"

end
