(* ===== verification/TableFrame.thy ===== *)
theory TableFrame
  imports QLExec TableProps
begin

text \<open>
  What the table layer and the execution of statements leave alone: the committed store, the
  snapshot of the transaction, its version, and the pages of its pending tree so far. This is all
  that reverting a failed statement relies on.
\<close>

section \<open>The key-value interface\<close>

named_theorems grows \<open>steps of a transaction only add pages\<close>

lemma bindE: "Option.bind x f = Some y \<Longrightarrow> (\<And>a. x = Some a \<Longrightarrow> f a = Some y \<Longrightarrow> thesis) \<Longrightarrow> thesis"
  by (cases x) auto

lemma tx_Get_grows [grows]: "tx_Get kv fuel tx key = Some (v, tx') \<Longrightarrow> tx_grows tx tx'"
  by (auto simp: tx_Get_def Let_def tx_grows_def add_read_def elim!: bindE split: option.split_asm if_split_asm)

lemma tx_Seek_grows [grows]: "tx_Seek kv fuel tx k1 c1 k2 c2 = Some (it, tx') \<Longrightarrow> tx_grows tx tx'"
  by (auto simp: tx_Seek_def Let_def tx_grows_def add_read_def bind_eq_Some_conv split_beta)

lemma pend_Update_grows [grows]:
  assumes "pend_Update fuel tx key val = Some (res, tx')"
  shows "tx_grows tx tx'"
proof -
  obtain req root pages where u: "btree_Update mem_callbacks fuel (mk_update key val MODE_UPSERT) (pend_root tx) (pend_pages tx) =
      Some (res, req, root, pages)" "tx' = tx\<lparr>pend_root := root, pend_pages := pages\<rparr>"
    using assms by (auto simp: pend_Update_def bind_eq_Some_conv split: prod.split_asm)
  have "prefix (pend_pages tx) pages" by (rule memf.btree_Update_keeps [OF u(1)]) simp
  then show ?thesis using u(2) by (simp add: tx_grows_def)
qed

lemma attempted_grows [simp]: "tx_grows (tx\<lparr>updateAttempted := b\<rparr>) tx' \<longleftrightarrow> tx_grows tx tx'"
  by (simp add: tx_grows_def)

lemma tx_Update_grows [grows]: "tx_Update kv fuel tx req = Some (res, req', tx') \<Longrightarrow> tx_grows tx tx'"
  by (auto simp: tx_Update_def Let_def elim!: bindE split: prod.split_asm if_split_asm sum.split_asm
      dest!: tx_Get_grows pend_Update_grows; meson tx_grows_trans)

lemma tx_Del_grows [grows]: "tx_Del kv fuel tx req = Some (res, req', tx') \<Longrightarrow> tx_grows tx tx'"
  by (auto simp: tx_Del_def Let_def elim!: bindE split: prod.split_asm option.split_asm sum.split_asm
      dest!: tx_Get_grows pend_Update_grows; meson tx_grows_trans)

section \<open>The table layer\<close>

lemma dbScan_grows [grows]: "dbScan kv fuel tx tdef req = Some (e, req', tx') \<Longrightarrow> tx_grows tx tx'"
  by (auto simp: dbScan_def Let_def elim!: bindE split: prod.split_asm if_split_asm option.split_asm dest!: tx_Seek_grows)

declare dbGet.simps [simp del] sc_Deref.simps [simp del]

lemma dbGet_step:
  assumes "\<And>tx sc rec rec' tx'. sc_Deref d kv fuel tx sc rec = Some (rec', tx') \<Longrightarrow> tx_grows tx tx'"
    and "dbGet (Suc d) kv fuel tx tdef rec = Some (r, rec', tx')"
  shows "tx_grows tx tx'"
  using assms(2) unfolding dbGet.simps Let_def
  by (auto elim!: bindE split: sum.split_asm option.split_asm prod.split_asm if_split_asm
      dest!: dbScan_grows assms(1); meson tx_grows_trans)

lemma sc_Deref_step:
  assumes "\<And>d' tx tdef rec r rec' tx'. d = Suc d' \<Longrightarrow> dbGet d' kv fuel tx tdef rec = Some (r, rec', tx') \<Longrightarrow> tx_grows tx tx'"
    and "sc_Deref d kv fuel tx sc rec = Some (rec', tx')"
  shows "tx_grows tx tx'"
  using assms(2) unfolding sc_Deref.simps Let_def
  by (auto elim!: bindE split: nat.split_asm prod.split_asm if_split_asm dest!: assms(1))

lemma dbGet_Deref_grows:
  "dbGet d kv fuel tx tdef rec = Some (r, rec', tx') \<Longrightarrow> tx_grows tx tx'"
  "sc_Deref d kv fuel tx sc rec = Some (rec'', tx'') \<Longrightarrow> tx_grows tx tx''"
proof (induction d arbitrary: tx tdef sc rec r rec' tx' rec'' tx'')
  case 0
  { case 1 then show ?case by (simp add: dbGet.simps) }
  { case 2 then show ?case using sc_Deref_step [of 0] by blast }
next
  case (Suc d)
  { case 1 show ?case by (rule dbGet_step [OF Suc.IH(2) 1]) }
  { case 2 show ?case by (rule sc_Deref_step [OF _ 2]) (use Suc.IH(1) in blast) }
qed

lemmas dbGet_grows [grows] = dbGet_Deref_grows(1) and sc_Deref_grows [grows] = dbGet_Deref_grows(2)

lemma indexLoop_grows [grows]: "indexLoop kv fuel tx tdef op rec i ixs = Some (e, tx') \<Longrightarrow> tx_grows tx tx'"
proof (induction ixs arbitrary: tx i e tx')
  case (Cons index rest)
  let ?step = "\<lambda>key. if op = INDEX_ADD then do {
        (res, req, tx) \<leftarrow> tx_Update kv fuel tx (mk_update key [] MODE_UPSERT);
        (case res of Inl e \<Rightarrow> Some (Some (UpdateError e), tx)
         | Inr b \<Rightarrow> do { _ \<leftarrow> go_assert (Added req); Some (None, tx) })
      }
      else if op = INDEX_DEL then do {
        (res, req, tx) \<leftarrow> tx_Del kv fuel tx (mk_delete key);
        (case res of Inl e \<Rightarrow> Some (Some (DeleteError e), tx)
         | Inr deleted \<Rightarrow> do { _ \<leftarrow> go_assert deleted; Some (None, tx) })
      }
      else None"
  from Cons.prems obtain key err tx1 where step: "?step key = Some (err, tx1)"
    and rest: "err = None \<and> indexLoop kv fuel tx1 tdef op rec (i + 1) rest = Some (e, tx') \<or> tx' = tx1"
    unfolding indexLoop.simps
    by (elim bindE) (auto elim!: bindE split: sum.split_asm option.split_asm prod.split_asm simp del: indexLoop.simps)
  have "tx_grows tx tx1"
    using step by (auto elim!: bindE split: sum.split_asm if_split_asm prod.split_asm dest!: tx_Update_grows tx_Del_grows)
  then show ?case using rest Cons.IH by (meson tx_grows_trans)
qed simp

lemma indexOp_grows [grows]: "indexOp kv fuel tx tdef op rec = Some (e, tx') \<Longrightarrow> tx_grows tx tx'"
  unfolding indexOp_def by (rule indexLoop_grows)

lemma dbUpdate_grows [grows]: "dbUpdate kv fuel tx tdef req = Some (res, req', tx') \<Longrightarrow> tx_grows tx tx'"
  by (auto simp: dbUpdate_def Let_def elim!: bindE split: prod.split_asm sum.split_asm option.split_asm if_split_asm
      dest!: tx_Update_grows indexOp_grows; meson tx_grows_trans)

lemma dbDelete_grows [grows]: "dbDelete kv fuel tx tdef rec = Some (res, tx') \<Longrightarrow> tx_grows tx tx'"
  by (auto simp: dbDelete_def Let_def elim!: bindE split: prod.split_asm sum.split_asm option.split_asm if_split_asm
      dest!: tx_Del_grows indexOp_grows; meson tx_grows_trans)

lemma getTableDefDB_grows [grows]: "getTableDefDB json kv fuel tx name = Some (tdef, tx') \<Longrightarrow> tx_grows tx tx'"
  by (auto simp: getTableDefDB_def elim!: bindE split: prod.split_asm sum.split_asm if_split_asm dest!: dbGet_grows)

lemma getTableDef_grows [grows]:
  "getTableDef json fuel db tx name = Some (tdef, db', tx') \<Longrightarrow> tx_grows tx tx' \<and> db_kv db' = db_kv db"
  by (auto simp: getTableDef_def elim!: bindE split: prod.split_asm option.split_asm dest!: getTableDefDB_grows)

lemma TableNew_grows [grows]:
  assumes "TableNew json fuel db tx tdef = Some (e, tdef', tx')"
  shows "tx_grows tx tx'"
  using assms unfolding TableNew_def Let_def
  by (auto elim!: bindE split: prod.split_asm sum.split_asm option.split_asm if_split_asm
      dest!: dbGet_grows dbUpdate_grows; meson tx_grows_trans)

lemma tab_Set_grows [grows]:
  "tab_Set json fuel db tx table req = Some (r, req', db', tx') \<Longrightarrow> tx_grows tx tx' \<and> db_kv db' = db_kv db"
  by (auto simp: tab_Set_def elim!: bindE split: prod.split_asm option.split_asm
      dest!: getTableDef_grows dbUpdate_grows; meson tx_grows_trans)

lemma tab_Delete_grows [grows]:
  "tab_Delete json fuel db tx table rec = Some (r, db', tx') \<Longrightarrow> tx_grows tx tx' \<and> db_kv db' = db_kv db"
  by (auto simp: tab_Delete_def elim!: bindE split: prod.split_asm option.split_asm
      dest!: getTableDef_grows dbDelete_grows; meson tx_grows_trans)

lemma tab_Scan_grows [grows]:
  "tab_Scan json fuel db tx table req = Some (e, req', db', tx') \<Longrightarrow> tx_grows tx tx' \<and> db_kv db' = db_kv db"
  by (auto simp: tab_Scan_def elim!: bindE split: prod.split_asm option.split_asm
      dest!: getTableDef_grows dbScan_grows; meson tx_grows_trans)

section \<open>Statements\<close>

lemma pull_grows [grows]: "pull kv fuel tx it = Some (r, it', tx') \<Longrightarrow> tx_grows tx tx'"
  by (auto simp: pull_def Let_def elim!: bindE split: prod.split_asm option.split_asm if_split_asm dest!: sc_Deref_grows)

lemma nextLoop_grows [grows]: "nextLoop n kv fuel tx it = Some (it', tx') \<Longrightarrow> tx_grows tx tx'"
proof (induction n arbitrary: tx it it' tx')
  case (Suc n)
  from Suc.prems consider "tx' = tx"
    | r it1 tx1 where "pull kv fuel tx it = Some (r, it1, tx1)" "tx' = tx1 \<or> (\<exists>it2. nextLoop n kv fuel tx1 it2 = Some (it', tx'))"
    unfolding nextLoop.simps Let_def
    by (auto elim!: bindE split: sum.split_asm if_split_asm prod.split_asm simp del: nextLoop.simps; blast)
  then show ?case
    by cases (use Suc.IH pull_grows in \<open>auto, meson tx_grows_trans\<close>)
qed simp

lemma qi_Next_grows [grows]: "qi_Next n kv fuel tx it = Some (it', tx') \<Longrightarrow> tx_grows tx tx'"
  by (auto simp: qi_Next_def split: if_split_asm dest!: nextLoop_grows)

lemma execScan_grows [grows]:
  "execScan json n fuel db tx req = Some (r, db', tx') \<Longrightarrow> tx_grows tx tx' \<and> db_kv db' = db_kv db"
  by (auto simp: execScan_def elim!: bindE split: prod.split_asm option.split_asm
      dest!: tab_Scan_grows qi_Next_grows; meson tx_grows_trans)

lemma execSelect_grows [grows]:
  "execSelect json n fuel db tx req = Some (r, db', tx') \<Longrightarrow> tx_grows tx tx' \<and> db_kv db' = db_kv db"
  by (auto simp: execSelect_def elim!: bindE split: prod.split_asm sum.split_asm
      dest!: execScan_grows getTableDef_grows; meson tx_grows_trans)

lemma insertLoop_grows [grows]:
  "insertLoop json fuel db tx req rows added updated = Some (r, db', tx') \<Longrightarrow> tx_grows tx tx' \<and> db_kv db' = db_kv db"
proof (induction rows arbitrary: db tx added updated r db' tx')
  case (Cons exprs rows)
  from Cons.prems consider "tx' = tx" "db' = db"
    | q dbReq r1 where "tab_Set json fuel db tx (ITable req) r1 = Some (q, dbReq, db', tx')"
    | q dbReq db1 tx1 r1 a u where "tab_Set json fuel db tx (ITable req) r1 = Some (q, dbReq, db1, tx1)"
      "insertLoop json fuel db1 tx1 req rows a u = Some (r, db', tx')"
    unfolding insertLoop.simps
    by (auto elim!: bindE split: sum.split_asm prod.split_asm simp del: insertLoop.simps; blast)
  then show ?case
  proof cases
    case 2
    then show ?thesis using tab_Set_grows by blast
  next
    case 3
    then show ?thesis using tab_Set_grows [OF 3(1)] Cons.IH [OF 3(2)] by (metis tx_grows_trans)
  qed simp
qed simp

lemma execInsert_grows [grows]:
  "execInsert json fuel db tx req = Some (r, db', tx') \<Longrightarrow> tx_grows tx tx' \<and> db_kv db' = db_kv db"
  unfolding execInsert_def by (rule insertLoop_grows)

lemma updateLoop_grows [grows]:
  "updateLoop n json fuel db tx req tdef records k = Some (r, db', tx') \<Longrightarrow> tx_grows tx tx' \<and> db_kv db' = db_kv db"
proof (induction n arbitrary: db tx records k r db' tx')
  case (Suc n)
  from Suc.prems consider "tx' = tx" "db' = db"
    | q dbReq db1 tx1 r1 where "tab_Set json fuel db tx (STable req) r1 = Some (q, dbReq, db1, tx1)" "tx' = tx1" "db' = db1"
    | q dbReq db1 tx1 r1 it tx2 k' where "tab_Set json fuel db tx (STable req) r1 = Some (q, dbReq, db1, tx1)"
      "qi_Next n (db_kv db1) fuel tx1 records = Some (it, tx2)"
      "updateLoop n json fuel db1 tx2 req tdef it k' = Some (r, db', tx')"
    unfolding updateLoop.simps
    by (auto elim!: bindE split: sum.split_asm option.split_asm prod.split_asm if_split_asm simp del: updateLoop.simps; blast)
  then show ?case
  proof cases
    case 2
    then show ?thesis using tab_Set_grows [OF 2(1)] by simp
  next
    case 3
    then show ?thesis using tab_Set_grows [OF 3(1)] qi_Next_grows [OF 3(2)] Suc.IH [OF 3(3)]
      by (metis tx_grows_trans)
  qed simp
qed simp

lemma execUpdate_grows [grows]:
  "execUpdate json n fuel db tx req = Some (r, db', tx') \<Longrightarrow> tx_grows tx tx' \<and> db_kv db' = db_kv db"
  by (auto simp: execUpdate_def elim!: bindE split: sum.split_asm option.split_asm prod.split_asm
      dest!: getTableDef_grows execScan_grows updateLoop_grows; meson tx_grows_trans)

lemma deleteLoop_grows [grows]:
  "deleteLoop n json fuel db tx req tdef records k = Some (r, db', tx') \<Longrightarrow> tx_grows tx tx' \<and> db_kv db' = db_kv db"
proof (induction n arbitrary: db tx records k r db' tx')
  case (Suc n)
  from Suc.prems consider "tx' = tx" "db' = db"
    | q db1 tx1 rec where "tab_Delete json fuel db tx (STable req) rec = Some (q, db1, tx1)" "tx' = tx1" "db' = db1"
    | q db1 tx1 rec it tx2 k' where "tab_Delete json fuel db tx (STable req) rec = Some (q, db1, tx1)"
      "qi_Next n (db_kv db1) fuel tx1 records = Some (it, tx2)"
      "deleteLoop n json fuel db1 tx2 req tdef it k' = Some (r, db', tx')"
    unfolding deleteLoop.simps
    by (auto elim!: bindE split: sum.split_asm option.split_asm prod.split_asm if_split_asm simp del: deleteLoop.simps; blast)
  then show ?case
  proof cases
    case 2
    then show ?thesis using tab_Delete_grows [OF 2(1)] by simp
  next
    case 3
    then show ?thesis using tab_Delete_grows [OF 3(1)] qi_Next_grows [OF 3(2)] Suc.IH [OF 3(3)]
      by (metis tx_grows_trans)
  qed simp
qed simp

lemma execDelete_grows [grows]:
  "execDelete json n fuel db tx req = Some (r, db', tx') \<Longrightarrow> tx_grows tx tx' \<and> db_kv db' = db_kv db"
  by (auto simp: execDelete_def elim!: bindE split: sum.split_asm prod.split_asm
      dest!: getTableDef_grows execScan_grows deleteLoop_grows; meson tx_grows_trans)

lemma execCases_grows [grows]:
  "execCases json n fuel db tx stmt = Some (r, db', tx') \<Longrightarrow> tx_grows tx tx' \<and> db_kv db' = db_kv db"
  by (cases stmt)
    (auto simp: execCases_def execCreateTable_def elim!: bindE split: prod.split_asm
      dest!: TableNew_grows execSelect_grows execInsert_grows execUpdate_grows execDelete_grows)

text \<open>After a statement, failed or not, the transaction still sees the snapshot it began with.\<close>

lemma tx_Revert_grows: "tx_grows tx tx' \<Longrightarrow> tx_grows tx (tx_Revert tx' saved)"
  by (simp add: tx_grows_def tx_Revert_def)

lemma execStmt_grows [grows]:
  "execStmt json n fuel db tx stmt = Some (r, db', tx') \<Longrightarrow> tx_grows tx tx' \<and> db_kv db' = db_kv db"
  by (auto simp: execStmt_def Let_def elim!: bindE split: prod.split_asm dest!: execCases_grows
      intro: tx_Revert_grows split: sum.split)

end
