(* ===== verification/QLRepl.thy ===== *)
theory QLRepl
  imports QLExec QLScanner
begin

text \<open>
  The prompt \<^verbatim>\<open>cmd/ql.go\<close>: one line typed by the user as a step of the program's state, with the
  text it prints. The terminal (raw mode, echo, the wait for the line) is not part of the model;
  a line is the bytes of a valid UTF-8 string.
\<close>

section \<open>Printing\<close>

definition vDisplay :: "Value \<Rightarrow> bytes option" where
  "vDisplay v = (if Type v = TYPE_BYTES then Some (Str v)
     else if Type v = TYPE_INT64 then Some (formatInt (I64 v))
     else None)"

text \<open>The prompt, and the line end of the terminal's raw mode.\<close>

definition getPrompt :: "bool \<Rightarrow> bool \<Rightarrow> bytes" where
  "getPrompt stmtIncomplete inTransaction =
     (if inTransaction then (if stmtIncomplete then lit ''(tx)...> '' else lit ''ql (tx)> '')
      else (if stmtIncomplete then lit ''...> '' else lit ''ql> ''))"

definition crlf :: bytes where
  "crlf = [13, 10]"

definition countLine :: "string \<Rightarrow> 64 word \<Rightarrow> bytes" where
  "countLine verb n = (if n > 0 then lit verb @ formatNat (unat n) @ lit '' rows'' @ crlf else [])"

definition printStats :: "QLResult \<Rightarrow> bytes option" where
  "printStats res = do {
     _ \<leftarrow> go_assert (res_Deleted res * res_Updated res = 0);
     _ \<leftarrow> go_assert (res_Updated res \<ge> res_Added res);
     let modified = res_Updated res - res_Added res;
     Some (countLine ''Deleted '' (res_Deleted res) @ countLine ''Inserted '' (res_Added res) @ countLine ''Modified '' modified)
   }"

fun printCells :: "bytes list \<Rightarrow> Value list \<Rightarrow> bytes option" where
  "printCells [] vals = Some []"
| "printCells (c # cols) vals = do {
     v \<leftarrow> list_at vals 0;
     d \<leftarrow> vDisplay v;
     text \<leftarrow> printCells cols (drop 1 vals);
     Some (c @ lit '': '' @ d @ crlf @ text)
   }"

definition printRecord :: "Record \<Rightarrow> bytes option" where
  "printRecord rec = do {
     _ \<leftarrow> go_assert (length (RCols rec) = length (RVals rec));
     printCells (RCols rec) (RVals rec)
   }"

text \<open>\<^verbatim>\<open>printRecords\<close>: the error of a row if any, and what has been printed.\<close>

fun printRecords :: "nat \<Rightarrow> KV \<Rightarrow> nat \<Rightarrow> KVTX \<Rightarrow> qlSelectIter \<Rightarrow> (bytes option \<times> bytes \<times> KVTX) option" where
  "printRecords 0 kv fuel tx it = None"
| "printRecords (Suc n) kv fuel tx it =
     (if \<not> sel_Valid it then Some (None, [], tx)
      else do {
        (e, rec) \<leftarrow> sel_Deref it new_record;
        (case e of
           Some e \<Rightarrow> Some (Some e, [], tx)
         | None \<Rightarrow> do {
             text \<leftarrow> printRecord rec;
             (it, tx) \<leftarrow> sel_Next n kv fuel tx it;
             (e, rest, tx) \<leftarrow> printRecords n kv fuel tx it;
             Some (e, text @ crlf @ rest, tx)
           })
      })"

definition printResult :: "nat \<Rightarrow> KV \<Rightarrow> nat \<Rightarrow> KVTX \<Rightarrow> QLResult \<Rightarrow> (bytes option \<times> bytes \<times> KVTX) option" where
  "printResult n kv fuel tx res =
     (case res_Records res of
        Some it \<Rightarrow> printRecords n kv fuel tx it
      | None \<Rightarrow> do { text \<leftarrow> printStats res; Some (None, text, tx) })"

section \<open>Running statements\<close>

text \<open>What is printed: text, and the two kinds of error lines.\<close>

datatype printed = Text bytes | ExecutionError exec_error | ShowError bytes

text \<open>
  The loop over the buffered statements. The records of a result read from the transaction they
  were selected in, which is the executor's own while a transaction block is open.
\<close>

fun runStmts :: "((nat \<rightharpoonup> bytes) \<Rightarrow> nat list) \<Rightarrow> json \<Rightarrow> nat \<Rightarrow> nat \<Rightarrow> nat \<Rightarrow> Executor \<Rightarrow> bool \<Rightarrow> bytes list
    \<Rightarrow> (printed list \<times> bool \<times> Executor) option" where
  "runStmts mo json n rounds fuel ex inTransaction [] = Some ([], inTransaction, ex)"
| "runStmts mo json n rounds fuel ex inTransaction (stmtStr # strs) = do {
     (r, inTX, tx, ex) \<leftarrow> ExecStr mo json n rounds fuel ex stmtStr;
     (case r of
        Inl e \<Rightarrow> Some ([ExecutionError e], inTX, ex)
      | Inr res \<Rightarrow> do {
          (e, text, tx) \<leftarrow> printResult n (db_kv (ex_db ex)) fuel tx res;
          let ex = (if inTx ex then ex\<lparr>ex_activeTx := Some tx\<rparr> else ex);
          (case e of
             Some e \<Rightarrow> Some ([Text text, ShowError e], inTX, ex)
           | None \<Rightarrow> do {
               (outs, inTX, ex) \<leftarrow> runStmts mo json n rounds fuel ex inTX strs;
               Some (Text text # outs, inTX, ex)
             })
        })
   }"

section \<open>A line\<close>

text \<open>\<^verbatim>\<open>strings.TrimSpace\<close>: the white space characters of Unicode in UTF-8.\<close>

definition spaceRunes :: "bytes list" where
  "spaceRunes = map (\<lambda>c. [c]) [9, 10, 11, 12, 13, 32] @ [[0xC2, 0x85], [0xC2, 0xA0], [0xE1, 0x9A, 0x80]] @
     map (\<lambda>c. [0xE2, 0x80, c]) [0x80, 0x81, 0x82, 0x83, 0x84, 0x85, 0x86, 0x87, 0x88, 0x89, 0x8A, 0xA8, 0xA9, 0xAF] @
     [[0xE2, 0x81, 0x9F], [0xE3, 0x80, 0x80]]"

function trimLeft :: "bytes list \<Rightarrow> bytes \<Rightarrow> bytes" where
  "trimLeft runes s =
     (case find (\<lambda>r. r \<noteq> [] \<and> take (length r) s = r) runes of
        None \<Rightarrow> s
      | Some r \<Rightarrow> trimLeft runes (drop (length r) s))"
  by pat_completeness auto
termination
  by (relation "measure (\<lambda>(runes, s). length s)") (auto simp: find_Some_iff intro!: diff_less)

definition trimSpace :: "bytes \<Rightarrow> bytes" where
  "trimSpace s = rev (trimLeft (map rev spaceRunes) (rev (trimLeft spaceRunes s)))"

record Repl =
  rp_scanner :: StmtScanner
  rp_executor :: Executor
  rp_incomplete :: bool
  rp_inTx :: bool
  rp_buf :: "bytes list"

text \<open>The variables of \<^verbatim>\<open>repl\<close> before the first line.\<close>

definition newRepl :: "DB \<Rightarrow> Repl" where
  "newRepl db = \<lparr>rp_scanner = NewStmtScanner, rp_executor = NewExecutor db, rp_incomplete = False, rp_inTx = False, rp_buf = []\<rparr>"

text \<open>One round of the loop of \<^verbatim>\<open>repl\<close> for a line read: whether it quits, and what it prints.\<close>

definition replRound :: "((nat \<rightharpoonup> bytes) \<Rightarrow> nat list) \<Rightarrow> json \<Rightarrow> nat \<Rightarrow> nat \<Rightarrow> nat \<Rightarrow> Repl \<Rightarrow> bytes
    \<Rightarrow> (bool \<times> printed list \<times> Repl) option" where
  "replRound mo json n rounds fuel rp line =
     (if \<not> rp_incomplete rp \<and> trimSpace line = lit ''.quit'' then Some (True, [], rp)
      else do {
        scanned \<leftarrow> replLine n line (rp_buf rp) (rp_scanner rp);
        (incomplete, buf, scanner) \<leftarrow> scanned;
        let rp = rp\<lparr>rp_incomplete := incomplete, rp_buf := buf, rp_scanner := scanner\<rparr>;
        (if incomplete then Some (False, [], rp)
         else do {
           (outs, inTX, ex) \<leftarrow> runStmts mo json n rounds fuel (rp_executor rp) (rp_inTx rp) buf;
           Some (False, outs, rp\<lparr>rp_executor := ex, rp_inTx := inTX, rp_scanner := sReset scanner, rp_buf := take 0 buf\<rparr>)
         })
      })"

end
