(* ===== verification/QLProps.thy ===== *)
theory QLProps
  imports TableFrame QLRepl
begin

text \<open>
  What holds across a statement: a failed statement leaves no trace in its transaction, the
  executor and the store agree on which transactions are running, and LIMIT selects a window of
  the rows a scan yields.
\<close>

section \<open>Failed statements\<close>

text \<open>
  C10: A statement that fails is undone. Whatever the statement did before it failed (rows inserted,
  index entries, catalogue updates), the transaction afterwards has the same snapshot and the same
  pending changes as before, so every key reads as before; its recorded reads and its version are
  those from before, and the committed store is untouched.
\<close>

theorem failed_statement_undone:
  assumes sees: "tx_sees (db_kv db) fuel tx h m pend" "h < fuel"
    and ev: "execStmt json n fuel db tx stmt = Some (Inl e, db', tx')"
    and "length (pend_pages tx') < 2 ^ 64"
  shows "db_kv db' = db_kv db \<and> tx_sees (db_kv db') fuel tx' h m pend
    \<and> tx_reads tx' = tx_reads tx \<and> tx_version tx' = tx_version tx \<and> tx_done tx' = tx_done tx
    \<and> (\<forall>key. key \<noteq> [] \<longrightarrow> (\<exists>t. tx_Get (db_kv db') fuel tx' key = Some (overlay m pend key, t)))"
proof -
  obtain tx1 where run: "execCases json n fuel db tx stmt = Some (Inl e, db', tx1)" "tx' = tx_Revert tx1 (tx_Save tx)"
    using ev by (auto simp: execStmt_def Let_def elim!: bindE split: prod.split_asm sum.split_asm)
  then have g: "tx_grows tx tx1" "db_kv db' = db_kv db" using execCases_grows by blast+
  have "length (pend_pages tx1) < 2 ^ 64" using assms(4) run(2) by (simp add: tx_Revert_def)
  note r = tx_Revert_ok [OF sees(1) g(1) this, folded run(2)]
  have "tx_version tx' = tx_version tx" "tx_done tx' = tx_done tx" using g(1) run(2) by (simp_all add: tx_grows_def tx_Revert_def)
  moreover have "\<exists>t. tx_Get (db_kv db') fuel tx' key = Some (overlay m pend key, t)" if "key \<noteq> []" for key
    using tx_Get_ok [OF r(1) sees(2)] that g(2) by auto
  ultimately show ?thesis using r g(2) by simp
qed

definition no_json :: json where
  "no_json = \<lparr>json_Marshal = (\<lambda>tdef. []), json_Unmarshal = (\<lambda>data. None)\<rparr>"

text \<open>INSERT INTO t (a, b) VALUES (7, 'x'), (1 / 0, 'y')\<close>

definition example_insert :: QLInsert where
  "example_insert = \<lparr>ITable = lit ''t'', IMode = MODE_INSERT_ONLY, INames = [lit ''a'', lit ''b''],
     IValues = [[QLNode QL_I64 7 [] [], QLNode QL_STR 0 (lit ''x'') []],
       [QLNode QL_DIV 0 [] [QLNode QL_I64 1 [] [], QLNode QL_I64 0 [] []], QLNode QL_STR 0 (lit ''y'') []]]\<rparr>"

lemma example_insert_eval:
  "evalMulti new_record [QLNode QL_I64 7 [] [], QLNode QL_STR 0 (lit ''x'') []] = Some (Inr (RVals example_row))"
  "evalMulti new_record [QLNode QL_DIV 0 [] [QLNode QL_I64 1 [] [], QLNode QL_I64 0 [] []], QLNode QL_STR 0 (lit ''y'') []] =
    Some (Inl (lit ''division by 0''))"
  "\<lparr>RCols = [lit ''a'', lit ''b''], RVals = RVals example_row\<rparr> = example_row"
  "INTERNAL_TABLES (lit ''t'') = None"
  by code_simp+

theorem failed_statement_undone_witness:
  "\<exists>db tx db' tx' t. execStmt no_json 1 20 db tx (StmtInsert example_insert) = Some (Inl (Msg (lit ''division by 0'')), db', tx') \<and>
     pend_root tx' = pend_root tx \<and> tx_Get (db_kv db') 20 tx' (row_key example_table example_key) = Some (None, t)"
proof -
  obtain kv tx where room: "tx_room kv 20 (0 + 2 * length (Indexes example_table)) (map_of [([1], [10])]) tx"
    by (rule example_start [of "0 + 2 * length (Indexes example_table)"]) (simp_all add: example_schema)
  let ?db = "\<lparr>db_path = [], db_kv = kv, db_tables = [lit ''t'' \<mapsto> example_table]\<rparr>"
  obtain h m pend where sees: "tx_sees kv 20 tx h m pend" "overlay m pend = map_of [([1], [10])]" "h < 20"
    using room unfolding tx_room_def by auto
  have rec: "d_Record (mk_dbreq example_row MODE_INSERT_ONLY) = example_row" "d_Mode (mk_dbreq example_row MODE_INSERT_ONLY) = MODE_INSERT_ONLY"
    by (simp_all add: mk_dbreq_def)
  have modes: "MODE_INSERT_ONLY \<noteq> MODE_UPDATE_ONLY" by (simp add: MODE_INSERT_ONLY_def MODE_UPDATE_ONLY_def)
  have row: "holds_row example_table example_row example_key example_rest"
    using holds_own_row [OF example_schema(1) example_record(1)] example_record(2,3) unfolding example_schema(2,3) by simp
  obtain req' tx1 M1 where set: "dbUpdate kv 20 tx example_table (mk_dbreq example_row MODE_INSERT_ONLY) = Some (Inr True, req', tx1)"
    "tx_room kv 20 0 M1 tx1"
    using kvc.dbUpdate_ok [OF example_schema(1) example_empty, where req = "mk_dbreq example_row MODE_INSERT_ONLY"
        and pkv = example_key and rv = example_rest and n = 0 and kv = kv and fuel = 20 and tx = tx]
      row example_small room modes unfolding rec by auto
  have run: "execStmt no_json 1 20 ?db tx (StmtInsert example_insert) =
      Some (Inl (Msg (lit ''division by 0'')), ?db, tx_Revert tx1 (tx_Save tx))"
    by (simp add: execStmt_def execCases_def execInsert_def example_insert_def example_insert_eval tab_Set_def getTableDef_def set(1)
        del: evalMulti.simps)
  have small: "length (pend_pages (tx_Revert tx1 (tx_Save tx))) < 2 ^ 64"
    using set(2) by (auto simp: tx_room_def tx_sees_def pend_holds_def tx_Revert_def)
  have "row_key example_table example_key \<noteq> []" "length (row_key example_table example_key) \<noteq> 1"
    by (simp_all add: ekey_def enc_def TYPE_INT64_def)
  then have "map_of [([1], [10 :: byte])] (row_key example_table example_key) = None" "row_key example_table example_key \<noteq> []" by auto
  then obtain t where "tx_Get kv 20 (tx_Revert tx1 (tx_Save tx)) (row_key example_table example_key) = Some (None, t)"
    using failed_statement_undone [OF _ sees(3) run small, of m pend, THEN conjunct2] sees(1,2) by (metis DB.select_convs(2))
  moreover have "pend_root (tx_Revert tx1 (tx_Save tx)) = pend_root tx" by (simp add: tx_Revert_def tx_Save_def)
  ultimately show ?thesis using run by fastforce
qed

section \<open>The executor\<close>

text \<open>The entry of the list of running transactions that belongs to the executor.\<close>

definition own_versions :: "Executor \<Rightarrow> nat multiset" where
  "own_versions ex = (case ex_activeTx ex of None \<Rightarrow> {#} | Some tx \<Rightarrow> {#tx_version tx#})"

definition ex_inv :: "nat multiset \<Rightarrow> Executor \<Rightarrow> bool" where
  "ex_inv others ex \<longleftrightarrow> mset (kv_ongoing (db_kv (ex_db ex))) = others + own_versions ex
     \<and> (\<forall>tx. ex_activeTx ex = Some tx \<longrightarrow> \<not> tx_done tx)"

definition same_store :: "Executor \<Rightarrow> Executor \<Rightarrow> bool" where
  "same_store ex ex' \<longleftrightarrow> kv_root (db_kv (ex_db ex')) = kv_root (db_kv (ex_db ex))
     \<and> kv_version (db_kv (ex_db ex')) = kv_version (db_kv (ex_db ex)) \<and> kv_os (db_kv (ex_db ex')) = kv_os (db_kv (ex_db ex))"

lemma db_Begin_ongoing:
  "db_Begin db new_tx = (db', tx) \<Longrightarrow> mset (kv_ongoing (db_kv db')) = mset (kv_ongoing (db_kv db)) + {#tx_version tx#}
     \<and> kv_root (db_kv db') = kv_root (db_kv db) \<and> kv_version (db_kv db') = kv_version (db_kv db)
     \<and> kv_os (db_kv db') = kv_os (db_kv db) \<and> \<not> tx_done tx"
  by (auto simp: db_Begin_def kv_Begin_def new_tx_def Let_def)

lemma db_Abort_ongoing:
  "db_Abort db tx = Some (db', tx') \<Longrightarrow> mset (kv_ongoing (db_kv db)) = others + {#tx_version tx#} \<Longrightarrow>
     mset (kv_ongoing (db_kv db')) = others \<and> kv_root (db_kv db') = kv_root (db_kv db)
     \<and> kv_version (db_kv db') = kv_version (db_kv db) \<and> kv_os (db_kv db') = kv_os (db_kv db)"
  by (auto simp: db_Abort_def kv_Abort_def txFinalize_def Let_def elim!: bindE)

lemma db_Commit_ongoing:
  assumes "db_Commit mo rounds fuel db tx = Some (e, db', tx')" "kv_version (db_kv db) + 1 < 2 ^ 64"
    "mset (kv_ongoing (db_kv db)) = others + {#tx_version tx#}"
  shows "mset (kv_ongoing (db_kv db')) = others"
proof -
  obtain kv' where c: "kv_Commit mo rounds fuel (db_kv db) tx = Some (e, kv', tx')" "db_kv db' = kv'"
    using assms(1) by (auto simp: db_Commit_def elim!: bindE)
  obtain k1 t where b: "commit_books rounds fuel (db_kv db) tx e k1" "tx_version t = tx_version tx" "txFinalize k1 t = Some kv'"
    by (rule kv_Commit_books [OF c(1) assms(2)])
  show ?thesis using txFinalize_books(1) [OF b(3)] b(1,2) c(2) assms(3) by (simp add: commit_books_def)
qed

lemma execStmt_ongoing:
  "execStmt json n fuel db tx stmt = Some (r, db', tx') \<Longrightarrow>
     db_kv db' = db_kv db \<and> tx_version tx' = tx_version tx \<and> tx_done tx' = tx_done tx"
  using execStmt_grows [of json n fuel db tx stmt r db' tx'] by (simp add: tx_grows_def)

lemma implicit_tx_ongoing:
  assumes inv: "mset (kv_ongoing (db_kv db)) = others" "kv_version (db_kv db) + 1 < 2 ^ 64"
    and b: "db_Begin db new_tx = (db1, tx1)" "execStmt json n fuel db1 tx1 stmt = Some (r, db2, tx2)"
  shows "db_Abort db2 tx2 = Some (db3, tx3) \<Longrightarrow> mset (kv_ongoing (db_kv db3)) = others \<and> kv_root (db_kv db3) = kv_root (db_kv db)
     \<and> kv_version (db_kv db3) = kv_version (db_kv db) \<and> kv_os (db_kv db3) = kv_os (db_kv db)"
    "db_Commit mo rounds fuel db2 tx2 = Some (e, db3, tx3) \<Longrightarrow> mset (kv_ongoing (db_kv db3)) = others"
proof -
  note k = db_Begin_ongoing [OF b(1)] execStmt_ongoing [OF b(2)]
  have m: "mset (kv_ongoing (db_kv db2)) = others + {#tx_version tx2#}" "kv_version (db_kv db2) + 1 < 2 ^ 64"
    using k inv by simp_all
  show "db_Abort db2 tx2 = Some (db3, tx3) \<Longrightarrow> mset (kv_ongoing (db_kv db3)) = others \<and> kv_root (db_kv db3) = kv_root (db_kv db)
     \<and> kv_version (db_kv db3) = kv_version (db_kv db) \<and> kv_os (db_kv db3) = kv_os (db_kv db)"
    using db_Abort_ongoing [OF _ m(1)] k by simp
  show "db_Commit mo rounds fuel db2 tx2 = Some (e, db3, tx3) \<Longrightarrow> mset (kv_ongoing (db_kv db3)) = others"
    using db_Commit_ongoing [OF _ m(2,1)] by simp
qed

lemma ExecStr_cases:
  assumes "ExecStr mo json n rounds fuel ex s = Some (r, flag, tx, ex')"
  obtains (Refused) e where "r = Inl e" "\<And>c. e \<noteq> CommitError c" "flag = inTx ex" "ex' = ex"
  | (Begins) db where "\<not> inTx ex" "db_Begin (ex_db ex) new_tx = (db, tx)" "flag" "ex' = ex\<lparr>ex_db := db, ex_activeTx := Some tx\<rparr>"
  | (Commits) t e db where "ex_activeTx ex = Some t" "db_Commit mo rounds fuel (ex_db ex) t = Some (e, db, tx)" "\<not> flag"
      "ex' = ex\<lparr>ex_db := db, ex_activeTx := None\<rparr>" "r = (case e of None \<Rightarrow> Inr no_result | Some c \<Rightarrow> Inl (CommitError c))"
  | (Aborts) t db where "ex_activeTx ex = Some t" "db_Abort (ex_db ex) t = Some (db, tx)" "\<not> flag"
      "ex' = ex\<lparr>ex_db := db, ex_activeTx := None\<rparr>"
  | (Runs) t stmt q db where "ex_activeTx ex = Some t" "execStmt json n fuel (ex_db ex) t stmt = Some (q, db, tx)" "flag"
      "ex' = ex\<lparr>ex_db := db, ex_activeTx := Some tx\<rparr>"
  | (Fails) stmt db1 tx1 e db2 tx2 db where "ex_activeTx ex = None" "db_Begin (ex_db ex) new_tx = (db1, tx1)"
      "execStmt json n fuel db1 tx1 stmt = Some (Inl e, db2, tx2)" "db_Abort db2 tx2 = Some (db, tx)" "\<not> flag" "ex' = ex\<lparr>ex_db := db\<rparr>"
  | (Succeeds) stmt db1 tx1 q db2 tx2 e db where "ex_activeTx ex = None" "db_Begin (ex_db ex) new_tx = (db1, tx1)"
      "execStmt json n fuel db1 tx1 stmt = Some (Inr q, db2, tx2)" "db_Commit mo rounds fuel db2 tx2 = Some (e, db, tx)" "\<not> flag"
      "ex' = ex\<lparr>ex_db := db\<rparr>" "r = (case e of None \<Rightarrow> Inr q | Some c \<Rightarrow> Inl (CommitError c))"
proof -
  obtain p where p: "Parse (10 * length s + 9) s = Some p" using assms by (auto simp: ExecStr_def elim!: bindE)
  note step = assms [unfolded ExecStr_def p Option.bind.simps]
  have run: thesis if st: "p = Inr (Some st)" "st \<noteq> QLBegin" "st \<noteq> QLCommit" "st \<noteq> QLRollback" for st
  proof (cases "ex_activeTx ex")
    case (Some t)
    have "(do { (r, db, tx) \<leftarrow> execStmt json n fuel (ex_db ex) t st;
        Some (map_sum StmtError id r, True, tx, ex\<lparr>ex_db := db, ex_activeTx := Some tx\<rparr>) }) = Some (r, flag, tx, ex')"
      using step st Some by (cases st) simp_all
    then show thesis using Runs [OF Some, of st] by (auto elim!: bindE split: prod.split_asm)
  next
    case None
    obtain db1 tx1 where b: "db_Begin (ex_db ex) new_tx = (db1, tx1)" by fastforce
    have "(do { (q, db, tx) \<leftarrow> execStmt json n fuel db1 tx1 st;
        (case q of
           Inl e \<Rightarrow> do { (db, tx) \<leftarrow> db_Abort db tx; Some (Inl (StmtError e), False, tx, ex\<lparr>ex_db := db\<rparr>) }
         | Inr res \<Rightarrow> do {
             (e, db, tx) \<leftarrow> db_Commit mo rounds fuel db tx;
             Some (case e of None \<Rightarrow> Inr res | Some e \<Rightarrow> Inl (CommitError e), False, tx, ex\<lparr>ex_db := db\<rparr>) }) })
      = Some (r, flag, tx, ex')"
      using step st None b by (cases st) simp_all
    then show thesis
      using Fails [OF None b, of st] Succeeds [OF None b, of st] by (auto elim!: bindE split: prod.split_asm sum.split_asm)
  qed
  show thesis
  proof (cases p)
    case (Inl e)
    then have "r = Inl (ParseError e)" "flag = inTx ex" "ex' = ex" using step by auto
    then show thesis by (intro Refused [of "ParseError e"]) simp_all
  next
    case (Inr q)
    then obtain st where q: "p = Inr (Some st)" using step by (cases q) simp_all
    show thesis
    proof (cases "st = QLBegin \<or> st = QLCommit \<or> st = QLRollback")
      case False
      then show thesis using run [OF q] by blast
    next
      case True
      then consider "st = QLBegin" | "st = QLCommit" | "st = QLRollback" by blast
      then show thesis
      proof cases
        case 1
        then have "\<exists>e. r = Inl (StateError e) \<and> flag = inTx ex \<and> ex' = ex" if "inTx ex" using step q that by auto
        moreover have "\<exists>db. db_Begin (ex_db ex) new_tx = (db, tx) \<and> flag \<and> ex' = ex\<lparr>ex_db := db, ex_activeTx := Some tx\<rparr>"
          if "\<not> inTx ex" using step q 1 that by (auto simp: Let_def split: prod.split_asm)
        ultimately show thesis using Refused [of "StateError _"] Begins by blast
      next
        case 2
        then have "\<exists>e. r = Inl (StateError e) \<and> flag = inTx ex \<and> ex' = ex" if "ex_activeTx ex = None"
          using step q that by (auto simp: inTx_def)
        moreover have "\<exists>e db. db_Commit mo rounds fuel (ex_db ex) t = Some (e, db, tx) \<and> \<not> flag \<and>
            ex' = ex\<lparr>ex_db := db, ex_activeTx := None\<rparr> \<and> r = (case e of None \<Rightarrow> Inr no_result | Some c \<Rightarrow> Inl (CommitError c))"
          if "ex_activeTx ex = Some t" for t using step q 2 that by (auto elim!: bindE)
        ultimately show thesis using Refused [of "StateError _"] Commits by (cases "ex_activeTx ex") blast+
      next
        case 3
        then have "\<exists>e. r = Inl (StateError e) \<and> flag = inTx ex \<and> ex' = ex" if "ex_activeTx ex = None"
          using step q that by (auto simp: inTx_def)
        moreover have "\<exists>db. db_Abort (ex_db ex) t = Some (db, tx) \<and> \<not> flag \<and> ex' = ex\<lparr>ex_db := db, ex_activeTx := None\<rparr>"
          if "ex_activeTx ex = Some t" for t using step q 3 that by (auto elim!: bindE)
        ultimately show thesis using Refused [of "StateError _"] Aborts by (cases "ex_activeTx ex") blast+
      qed
    qed
  qed
qed

text \<open>
  C11: The executor owns exactly one entry of the store's list of running transactions while it is in
  a transaction and none otherwise: every statement string that is executed (parse errors, statement
  errors, BEGIN, COMMIT, ROLLBACK, statements with and without a transaction, failed commits) keeps
  that balance, so no version is leaked or released twice, and the executor never keeps a finished
  transaction. The flag it returns says whether it is in a transaction. The root, version and file of
  the store can only change where a transaction has just been committed or rolled back: not when the
  executor is in a transaction afterwards, and not when the result is any error but that of a commit.
\<close>

theorem executor_balance:
  assumes inv: "ex_inv others ex" and "kv_version (db_kv (ex_db ex)) + 1 < 2 ^ 64"
    and ev: "ExecStr mo json n rounds fuel ex s = Some (r, flag, tx, ex')"
  shows "ex_inv others ex' \<and> flag = inTx ex'
    \<and> (inTx ex' \<or> (\<exists>e. r = Inl e \<and> (\<forall>c. e \<noteq> CommitError c)) \<longrightarrow> same_store ex ex')"
  using ev
proof (cases rule: ExecStr_cases)
  case (Refused e)
  then show ?thesis using inv by (simp add: same_store_def)
next
  case (Begins db)
  then show ?thesis using inv db_Begin_ongoing [OF Begins(2)] by (simp add: ex_inv_def own_versions_def inTx_def same_store_def)
next
  case (Commits t e db)
  then show ?thesis using inv db_Commit_ongoing [OF Commits(2) assms(2), of others]
    by (auto simp: ex_inv_def own_versions_def inTx_def split: option.split_asm)
next
  case (Aborts t db)
  then show ?thesis using inv db_Abort_ongoing [OF Aborts(2), of others]
    by (auto simp: ex_inv_def own_versions_def inTx_def same_store_def)
next
  case (Runs t stmt q db)
  then show ?thesis using inv execStmt_ongoing [OF Runs(2)] by (simp add: ex_inv_def own_versions_def inTx_def same_store_def)
next
  case (Fails stmt db1 tx1 e db2 tx2 db)
  then show ?thesis using inv implicit_tx_ongoing(1) [OF _ assms(2) Fails(2,3), of others db tx]
    by (auto simp: ex_inv_def own_versions_def inTx_def same_store_def)
next
  case (Succeeds stmt db1 tx1 q db2 tx2 e db)
  then show ?thesis using inv implicit_tx_ongoing(2) [OF _ assms(2) Succeeds(2,3), of others mo rounds e db tx]
    by (auto simp: ex_inv_def own_versions_def inTx_def split: option.split_asm)
qed

lemma example_session:
  assumes "kv_ongoing (db_kv db) = []"
  obtains tx1 ex1 tx2 ex2 where "ExecStr mo json n rounds fuel (NewExecutor db) (lit ''begin;'') = Some (Inr no_result, True, tx1, ex1)"
    "ExecStr mo json n rounds fuel ex1 (lit ''rollback;'') = Some (Inr no_result, False, tx2, ex2)"
    "kv_version (db_kv (ex_db ex1)) = kv_version (db_kv db)"
proof -
  have parses: "Parse 69 (lit ''begin;'') = Some (Inr (Some QLBegin))" "Parse 99 (lit ''rollback;'') = Some (Inr (Some QLRollback))"
    by code_simp+
  have lens: "10 * length (lit ''begin;'') + 9 = 69" "10 * length (lit ''rollback;'') + 9 = 99" by (simp_all add: lit_def)
  obtain db1 tx1 where b: "db_Begin db new_tx = (db1, tx1)" by fastforce
  then have t: "tx_version tx1 = kv_version (db_kv db)" "kv_ongoing (db_kv db1) = [kv_version (db_kv db)]" "\<not> tx_done tx1"
    "kv_version (db_kv db1) = kv_version (db_kv db)"
    using assms by (auto simp: db_Begin_def kv_Begin_def new_tx_def Let_def)
  obtain db2 tx2 where a: "db_Abort db1 tx1 = Some (db2, tx2)"
    using t by (simp add: db_Abort_def kv_Abort_def txFinalize_def Let_def)
  show thesis
    by (rule that [of tx1 "\<lparr>ex_db = db1, ex_activeTx = Some tx1\<rparr>" tx2 "\<lparr>ex_db = db2, ex_activeTx = None\<rparr>"])
      (use a b t in \<open>simp_all add: ExecStr_def lens parses NewExecutor_def inTx_def\<close>)
qed

theorem executor_balance_witness:
  "\<exists>db tx1 ex1 tx2 ex2. ExecStr (\<lambda>m. []) no_json 1 1 1 (NewExecutor db) (lit ''begin;'') = Some (Inr no_result, True, tx1, ex1) \<and>
     ExecStr (\<lambda>m. []) no_json 1 1 1 ex1 (lit ''rollback;'') = Some (Inr no_result, False, tx2, ex2) \<and>
     length (kv_ongoing (db_kv (ex_db ex1))) = 1 \<and> kv_ongoing (db_kv (ex_db ex2)) = []"
proof -
  let ?db = "\<lparr>db_path = [], db_kv = new_kv \<lparr>os_file = [], os_synced = [], os_unsynced = [], os_outcomes = []\<rparr>, db_tables = Map.empty\<rparr>"
  have kv: "kv_ongoing (db_kv ?db) = []" "kv_version (db_kv ?db) = 0" by (simp_all add: new_kv_def)
  obtain tx1 ex1 tx2 ex2 where
    e: "ExecStr (\<lambda>m. []) no_json 1 1 1 (NewExecutor ?db) (lit ''begin;'') = Some (Inr no_result, True, tx1, ex1)"
    "ExecStr (\<lambda>m. []) no_json 1 1 1 ex1 (lit ''rollback;'') = Some (Inr no_result, False, tx2, ex2)"
    "kv_version (db_kv (ex_db ex1)) = 0"
    by (rule example_session [OF kv(1)]) (use kv(2) in auto)
  have inv0: "ex_inv {#} (NewExecutor ?db)" using kv(1) by (simp add: ex_inv_def own_versions_def NewExecutor_def)
  have i1: "ex_inv {#} ex1 \<and> inTx ex1"
    using executor_balance [OF inv0 _ e(1)] kv(2) by (simp add: NewExecutor_def)
  have i2: "ex_inv {#} ex2 \<and> \<not> inTx ex2" using executor_balance [OF _ _ e(2), of "{#}"] i1 e(3) by simp
  have "length (kv_ongoing (db_kv (ex_db ex1))) = 1" using i1 by (auto simp: ex_inv_def own_versions_def inTx_def)
  moreover have "kv_ongoing (db_kv (ex_db ex2)) = []" using i2 by (auto simp: ex_inv_def own_versions_def inTx_def)
  ultimately show ?thesis using e(1,2) by blast
qed

end
