(* ===== verification/QLLimit.thy ===== *)
theory QLLimit
  imports TableFrame
begin

text \<open>
  LIMIT: the rows that the loop of a query fetches from its iterator, against the rows the scan
  behind it yields.
\<close>

section \<open>The rows of a scan\<close>

text \<open>Whether a row passes a filter; \<open>None\<close> when the filter fails on the row.\<close>

definition satisfies :: "QLNode \<Rightarrow> Record \<Rightarrow> bool option" where
  "satisfies flt rec =
     (if NType flt = 0 then Some True
      else do {
        ctx \<leftarrow> evalExpr flt (new_ctx rec);
        _ \<leftarrow> go_assert (err ctx = None \<and> Type (out ctx) = TYPE_INT64);
        Some (I64 (out ctx) \<noteq> 0)
      })"

text \<open>
  \<open>scan_yields kv fuel flt k tx sc rows\<close>: from the scanner \<open>sc\<close> on there are \<open>k\<close> rows, and those that
  pass the filter are \<open>rows\<close>, in their order.
\<close>

inductive scan_yields :: "KV \<Rightarrow> nat \<Rightarrow> QLNode \<Rightarrow> nat \<Rightarrow> KVTX \<Rightarrow> Scanner \<Rightarrow> Record list \<Rightarrow> bool"
  for kv fuel flt where
  no_row: "sc_Valid sc = Some False \<Longrightarrow> scan_yields kv fuel flt 0 tx sc []"
| a_row: "sc_Valid sc = Some True \<Longrightarrow> sc_Deref deref_depth kv fuel tx sc new_record = Some (r, tx1) \<Longrightarrow>
     satisfies flt r = Some b \<Longrightarrow> sc_Next kv tx1 sc = Some sc1 \<Longrightarrow> scan_yields kv fuel flt k tx1 sc1 rows \<Longrightarrow>
     scan_yields kv fuel flt (Suc k) tx sc (if b then r # rows else rows)"

text \<open>The loop over an iterator: \<^verbatim>\<open>Next\<close>, \<^verbatim>\<open>Valid\<close>, \<^verbatim>\<open>Deref\<close> until the end.\<close>

fun fetchRows :: "nat \<Rightarrow> nat \<Rightarrow> KV \<Rightarrow> nat \<Rightarrow> KVTX \<Rightarrow> qlScanIter \<Rightarrow> Record list option" where
  "fetchRows 0 n kv fuel tx it = None"
| "fetchRows (Suc m) n kv fuel tx it = do {
     (it, tx) \<leftarrow> qi_Next n kv fuel tx it;
     (if \<not> qi_Valid it then Some []
      else do {
        (e, rec) \<leftarrow> qi_Deref it new_record;
        _ \<leftarrow> go_assert (e = None);
        rows \<leftarrow> fetchRows m n kv fuel tx it;
        Some (rec # rows)
      })
   }"

section \<open>One step of the iterator\<close>

lemma sc_Deref_record: "sc_Deref d kv fuel tx sc rec = sc_Deref d kv fuel tx sc rec'"
  by (subst (1 2) sc_Deref.simps) (rule refl)

lemma pull_ok:
  assumes "sc_Deref deref_depth kv fuel tx (it_sc it) new_record = Some (r, tx1)" "satisfies (Filter (it_req it)) r = Some b"
  shows "pull kv fuel tx it = Some (Inr b, it\<lparr>it_rec := r\<rparr>, tx1)"
proof -
  have d: "sc_Deref deref_depth kv fuel tx (it_sc it) (it_rec it) = Some (r, tx1)"
    using assms(1) sc_Deref_record by metis
  show ?thesis
  proof (cases "NType (Filter (it_req it)) = 0")
    case True
    then show ?thesis using assms(2) d by (simp add: pull_def satisfies_def)
  next
    case False
    then obtain ctx where "evalExpr (Filter (it_req it)) (new_ctx r) = Some ctx" "err ctx = None" "Type (out ctx) = TYPE_INT64"
      "b = (I64 (out ctx) \<noteq> 0)" using assms(2) by (auto simp: satisfies_def elim!: bindE)
    then show ?thesis using d False by (simp add: pull_def)
  qed
qed

lemma sint_nat: "c < 2 ^ 63 \<Longrightarrow> sint (of_nat c :: 64 word) = int c"
  by (simp add: signed_of_nat signed_take_bit_int_eq_self)

text \<open>Where the iterator stands after a step that starts with \<open>c\<close> rows counted and \<open>rows\<close> to come.\<close>

definition fetched :: "KV \<Rightarrow> nat \<Rightarrow> QLScan \<Rightarrow> nat \<Rightarrow> nat \<Rightarrow> nat \<Rightarrow> Record list \<Rightarrow> qlScanIter \<Rightarrow> KVTX \<Rightarrow> bool" where
  "fetched kv fuel req off c k rows it tx \<longleftrightarrow> it_req it = req \<and> it_err it = None \<and>
     (case drop (off - c) rows of
        [] \<Rightarrow> it_end it
      | r # rs \<Rightarrow> \<not> it_end it \<and> it_rec it = r \<and> it_count it = of_nat (c + (off - c) + 1)
          \<and> (\<exists>k' < k. scan_yields kv fuel (Filter req) k' tx (it_sc it) rs))"

lemma fetched_more: "fetched kv fuel req off c k rows it tx \<Longrightarrow> fetched kv fuel req off c (Suc k) rows it tx"
  by (cases "drop (off - c) rows") (auto simp: fetched_def intro: less_SucI)

lemma fetched_skip:
  "c < off \<Longrightarrow> fetched kv fuel req off (Suc c) k rows it tx \<Longrightarrow> fetched kv fuel req off c (Suc k) (r # rows) it tx"
proof -
  assume c: "c < off"
  then have d: "drop (off - c) (r # rows) = drop (off - Suc c) rows" "c + (off - c) = Suc c + (off - Suc c)"
    by (simp_all add: Suc_diff_Suc [symmetric])
  show "fetched kv fuel req off (Suc c) k rows it tx \<Longrightarrow> fetched kv fuel req off c (Suc k) (r # rows) it tx"
    unfolding fetched_def d by (cases "drop (off - Suc c) rows") (auto intro: less_SucI)
qed

lemma nextLoop_yields:
  assumes "scan_yields kv fuel flt k tx sc rows" "it_sc it = sc" "Filter (it_req it) = flt" "\<not> it_end it" "it_err it = None"
    "it_count it = of_nat c" "Offset (it_req it) = of_nat off" "off < 2 ^ 63" "c + length rows < 2 ^ 63" "k < n"
  shows "\<exists>it' tx'. nextLoop n kv fuel tx it = Some (it', tx') \<and> fetched kv fuel (it_req it) off c k rows it' tx'"
  using assms
proof (induction arbitrary: it c n)
  case (no_row sc tx)
  then obtain n' where "n = Suc n'" by (cases n) auto
  then show ?case using no_row by (simp add: fetched_def)
next
  case (a_row sc tx r tx1 b sc1 k rows)
  obtain n' where n: "n = Suc n'" "k < n'" using a_row.prems(9) by (cases n) auto
  have pl: "pull kv fuel tx it = Some (Inr b, it\<lparr>it_rec := r\<rparr>, tx1)"
    using a_row by (intro pull_ok) simp_all
  let ?it = "it\<lparr>it_rec := r, it_sc := sc1\<rparr>"
  show ?case
  proof (cases b)
    case False
    obtain it' tx' where "nextLoop n' kv fuel tx1 ?it = Some (it', tx')" "fetched kv fuel (it_req it) off c k rows it' tx'"
      using a_row.IH [of ?it c n'] a_row.prems n(2) False by auto
    then show ?thesis using a_row.hyps a_row.prems(1) n(1) pl False fetched_more by (auto simp: Let_def)
  next
    case True
    let ?it1 = "?it\<lparr>it_count := of_nat (Suc c)\<rparr>"
    have len: "Suc c + length rows < 2 ^ 63" using a_row.prems(8) True by simp
    have s: "sint (of_nat (Suc c) :: 64 word) = int (Suc c)" "sint (Offset (it_req it)) = int off"
      using sint_nat [of "Suc c"] sint_nat [of off] len a_row.prems(6,7) by simp_all
    have inc: "it_count it + 1 = of_nat (Suc c)" using a_row.prems(5) by simp
    show ?thesis
    proof (cases "Suc c \<le> off")
      case less: True
      obtain it' tx' where "nextLoop n' kv fuel tx1 ?it1 = Some (it', tx')" "fetched kv fuel (it_req it) off (Suc c) k rows it' tx'"
        using a_row.IH [of ?it1 "Suc c" n'] a_row.prems n(2) len by auto
      then show ?thesis using a_row.hyps a_row.prems(1) n(1) pl True less s inc fetched_skip [of c off]
        by (auto simp: Let_def simp del: of_nat_Suc)
    next
      case False
      then show ?thesis using a_row.hyps a_row.prems n(1) pl True s inc
        by (auto simp: Let_def fetched_def simp del: of_nat_Suc)
    qed
  qed
qed

section \<open>The whole loop\<close>

definition window :: "nat \<Rightarrow> nat \<Rightarrow> 'a list \<Rightarrow> 'a list" where
  "window off lim rows =
     (if lim = 0 then [] else if off < lim then take (lim - off) (drop off rows) else drop off rows)"

text \<open>The window that is left when \<open>c\<close> rows have been counted.\<close>

definition window_from :: "nat \<Rightarrow> nat \<Rightarrow> nat \<Rightarrow> 'a list \<Rightarrow> 'a list" where
  "window_from c off lim rows =
     (if c = lim then [] else if max c off < lim then take (lim - max c off) (drop (off - c) rows) else drop (off - c) rows)"

lemma window_from_0: "window_from 0 off lim rows = window off lim rows"
  by (simp add: window_from_def window_def)

lemma window_from_step:
  "c \<noteq> lim \<Longrightarrow> drop (off - c) rows = r # rs \<Longrightarrow> window_from c off lim rows = r # window_from (c + (off - c) + 1) off lim rs"
  by (auto simp: window_from_def max_def take_Cons' Suc_diff_Suc)

lemma fetchRows_from:
  assumes "scan_yields kv fuel (Filter (it_req it)) k tx (it_sc it) rows" "\<not> it_end it" "it_err it = None"
    "it_count it = of_nat c" "Offset (it_req it) = of_nat off" "Limit (it_req it) = of_nat lim"
    "off < 2 ^ 63" "lim < 2 ^ 63" "c + length rows < 2 ^ 63" "k < n" "k < m"
  shows "fetchRows m n kv fuel tx it = Some (window_from c off lim rows)"
  using assms
proof (induction m arbitrary: it k tx rows c)
  case (Suc m)
  have eq: "it_count it = Limit (it_req it) \<longleftrightarrow> c = lim"
    using sint_nat [of c] sint_nat [of lim] Suc.prems(4,6,8,9) by (metis add_lessD1 of_nat_eq_iff)
  show ?case
  proof (cases "c = lim")
    case True
    then show ?thesis using eq by (simp add: qi_Next_def qi_Valid_def window_from_def)
  next
    case False
    obtain it' tx' where "nextLoop n kv fuel tx it = Some (it', tx')" and f: "fetched kv fuel (it_req it) off c k rows it' tx'"
      using nextLoop_yields [OF Suc.prems(1) refl refl Suc.prems(2-5,7,9,10)] by blast
    then have nx: "qi_Next n kv fuel tx it = Some (it', tx')" using eq False by (simp add: qi_Next_def)
    show ?thesis
    proof (cases "drop (off - c) rows")
      case Nil
      then have "it_end it'" using f by (simp add: fetched_def)
      then show ?thesis using nx Nil False by (simp add: qi_Valid_def window_from_def)
    next
      case (Cons r rs)
      then obtain k' where i: "it_req it' = it_req it" "it_err it' = None" "\<not> it_end it'" "it_rec it' = r"
        "it_count it' = of_nat (c + (off - c) + 1)" "k' < k" "scan_yields kv fuel (Filter (it_req it')) k' tx' (it_sc it') rs"
        using f by (auto simp: fetched_def simp del: of_nat_Suc of_nat_add)
      have len: "length rows = (off - c) + Suc (length rs)" using arg_cong [OF Cons, of length] by simp
      have "fetchRows m n kv fuel tx' it' = Some (window_from (c + (off - c) + 1) off lim rs)"
        by (rule Suc.IH [OF i(7,3,2,5)]) (use Suc.prems i(1,6) len in simp_all)
      then show ?thesis using nx i window_from_step [OF False Cons] by (simp add: qi_Valid_def qi_Deref_def)
    qed
  qed
qed simp

section \<open>An example scan\<close>

text \<open>A transaction whose pending tree is one leaf with the rows (7, 'x') and (9, 'y') of the example table.\<close>

definition example_leaf :: BNode where
  "example_leaf = [2, 0, 3, 0] @ [0, 0, 0, 0, 0, 0, 0, 0, 0, 0, 0, 0, 0, 0, 0, 0, 0, 0, 0, 0, 0, 0, 0, 0]
     @ [4, 0, 25, 0, 46, 0] @ [0, 0, 0, 0]
     @ [13, 0, 4, 0] @ [0, 0, 0, 100, 2, 128, 0, 0, 0, 0, 0, 0, 7] @ [2, 1, 120, 0]
     @ [13, 0, 4, 0] @ [0, 0, 0, 100, 2, 128, 0, 0, 0, 0, 0, 0, 9] @ [2, 1, 121, 0]"

definition example_tx :: KVTX where
  "example_tx = new_tx\<lparr>pend_root := 1, pend_pages := [example_leaf]\<rparr>"

definition example_kv :: KV where
  "example_kv = new_kv \<lparr>os_file = [], os_synced = [], os_unsynced = [], os_outcomes = []\<rparr>"

definition example_row2 :: Record where
  "example_row2 = AddStr (AddInt64 new_record (lit ''a'') 9) (lit ''b'') (lit ''y'')"

text \<open>A scan of the whole table, at entry \<open>p\<close> of the leaf.\<close>

definition example_iter :: "nat \<Rightarrow> CombinedIter" where
  "example_iter p = \<lparr>ci_top = \<lparr>path = [example_leaf], pos = [p]\<rparr>, ci_bottom = \<lparr>path = [], pos = []\<rparr>, ci_direction = 1,
     ci_endKey = [0, 0, 0, 100, 255], ci_endCmp = CMP_LE\<rparr>"

definition example_scan :: "nat \<Rightarrow> Scanner" where
  "example_scan p = \<lparr>Cmp1 = CMP_GE, Cmp2 = CMP_LE, SKey1 = new_record, SKey2 = new_record, sc_tdef = example_table, sc_index = 0,
     sc_iter = Some (example_iter p)\<rparr>"

lemma example_nkeys: "nkeys example_leaf = Some 3"
  by (simp add: nkeys_def get_le_def example_leaf_def sub_def)

lemma example_offsets:
  "getOffset example_leaf 0 = Some 0" "getOffset example_leaf (Suc 0) = Some 4" "getOffset example_leaf 2 = Some 25"
  by (simp_all add: getOffset_def offsetPos_def example_nkeys HEADER_SIZE_def u16_def)
     (simp_all add: get_le_def example_leaf_def sub_def)

lemma example_pos: "kvPos example_leaf 0 = Some 34" "kvPos example_leaf (Suc 0) = Some 38" "kvPos example_leaf 2 = Some 59"
  by (simp_all add: kvPos_def example_nkeys example_offsets HEADER_SIZE_def u16_def)

lemma example_cells:
  "getKey example_leaf (Suc 0) = Some [0, 0, 0, 100, 2, 128, 0, 0, 0, 0, 0, 0, 7]"
  "getKey example_leaf 2 = Some [0, 0, 0, 100, 2, 128, 0, 0, 0, 0, 0, 0, 9]"
  "getVal example_leaf (Suc 0) = Some [2, 1, 120, 0]" "getVal example_leaf 2 = Some [2, 1, 121, 0]"
  by (simp_all add: getKey_def getVal_def example_nkeys example_pos HEADER_SIZE_def u16_def)
     (simp_all add: get_le_def slice_at_def example_leaf_def sub_def)

lemmas example_iter_defs = iterValid_def iterIsFirst_def iterIsEnd_def iterDeref_def iter_Next_def example_nkeys example_cells

lemma example_iter_deref:
  "ci_Deref (example_iter (Suc 0)) = Some ([0, 0, 0, 100, 2, 128, 0, 0, 0, 0, 0, 0, 7], [1, 120, 0])"
  "ci_Deref (example_iter 2) = Some ([0, 0, 0, 100, 2, 128, 0, 0, 0, 0, 0, 0, 9], [1, 121, 0])"
  by (simp_all add: example_iter_def ci_Deref_def example_iter_defs)

lemma example_ends:
  "iterValid (ci_top (example_iter (Suc 0))) = Some True" "iterValid (ci_top (example_iter 2)) = Some True"
  "iterValid (ci_top (example_iter 3)) = Some False" "iterValid (ci_bottom (example_iter p)) = Some False"
  "cmpOK key (ci_endCmp (example_iter p)) (ci_endKey (example_iter p)) = Some (key \<le> [0, 0, 0, 100, 255])"
  by (simp_all add: example_iter_def example_iter_defs cmpOK_def CMP_LE_def CMP_GE_def CMP_GT_def CMP_LT_def)

lemma example_valid:
  "sc_Valid (example_scan (Suc 0)) = Some True" "sc_Valid (example_scan 2) = Some True" "sc_Valid (example_scan 3) = Some False"
  by (simp_all add: sc_Valid_def example_scan_def ci_Valid_def example_iter_deref example_ends)

lemma example_next:
  "sc_Next example_kv example_tx (example_scan (Suc 0)) = Some (example_scan 2)"
  "sc_Next example_kv example_tx (example_scan 2) = Some (example_scan 3)"
  by (simp_all add: sc_Next_def example_scan_def example_iter_def ci_Next_def example_iter_defs moveIter_def iterNext.simps
      setPos_def reloadKid_def)

lemma example_columns:
  "list_at (Indexes example_table) 0 = Some [lit ''a'']" "nonPrimaryKeyCols example_table = Some [lit ''b'']"
  "typed_cells example_table [lit ''a'', lit ''b''] = Some [zero_value TYPE_INT64, zero_value TYPE_BYTES]"
  "\<lparr>RCols = [lit ''a'', lit ''b''], RVals = take 1 (RVals example_row) @ drop 1 (RVals example_row)\<rparr> = example_row"
  "\<lparr>RCols = [lit ''a'', lit ''b''], RVals = take 1 (RVals example_row2) @ drop 1 (RVals example_row2)\<rparr> = example_row2"
  by code_simp+

lemma example_keys:
  "decodeKey [0, 0, 0, 100, 2, 128, 0, 0, 0, 0, 0, 0, 7] [zero_value TYPE_INT64] = Some (take 1 (RVals example_row))"
  "decodeKey [0, 0, 0, 100, 2, 128, 0, 0, 0, 0, 0, 0, 9] [zero_value TYPE_INT64] = Some (take 1 (RVals example_row2))"
  by (simp_all add: decodeKey_def zero_value_def slice_at_def sub_def be_val_def TYPE_INT64_def sign_bit_def
      example_row_def example_row2_def AddInt64_def AddStr_def new_record_def)

lemma example_values:
  "decodeValues [1, 120, 0] [zero_value TYPE_BYTES] = Some (drop 1 (RVals example_row))"
  "decodeValues [1, 121, 0] [zero_value TYPE_BYTES] = Some (drop 1 (RVals example_row2))"
  by code_simp+

lemma example_rows:
  "sc_Deref deref_depth example_kv 1 example_tx (example_scan (Suc 0)) new_record = Some (example_row, example_tx)"
  "sc_Deref deref_depth example_kv 1 example_tx (example_scan 2) new_record = Some (example_row2, example_tx)"
  unfolding sc_Deref.simps example_valid
  by (simp_all add: example_columns(1-3) example_columns(4,5) [simplified] example_keys [simplified]
      example_values [simplified] example_scan_def example_iter_deref Let_def del: list_at_simps)

section \<open>The theorem\<close>

text \<open>
  C12: LIMIT fetches a window. When a scan yields rows without an error, the loop over its iterator
  ends, panics nowhere, and returns a window of the rows that pass the filter, in their order. The
  second number of LIMIT is where the window ends, not how long it is: of LIMIT \<open>off\<close>, \<open>lim\<close> the rows
  from \<open>off\<close> up to \<open>lim\<close> are returned, so never more than \<open>lim - off\<close>; when \<open>off\<close> is not below a
  positive \<open>lim\<close>, all the rows from \<open>off\<close> on.
\<close>

theorem limit_is_window:
  assumes "scan_yields kv fuel (Filter (it_req it)) k tx (it_sc it) rows" "\<not> it_end it" "it_err it = None" "it_count it = 0"
    "Offset (it_req it) = of_nat off" "Limit (it_req it) = of_nat lim"
    "off < 2 ^ 63" "lim < 2 ^ 63" "length rows < 2 ^ 63" "k < n" "k < m"
  shows "fetchRows m n kv fuel tx it = Some (window off lim rows)
    \<and> (off < lim \<longrightarrow> length (window off lim rows) \<le> lim - off)"
  using fetchRows_from [OF assms(1-3), of 0 off lim n m] assms(4-) by (simp add: window_from_0 window_def)

text \<open>SELECT ... FILTER a >= 0 LIMIT 1, 2\<close>

definition example_query :: qlScanIter where
  "example_query = \<lparr>it_req = \<lparr>STable = lit ''t'', Key1 = zero_node, Key2 = zero_node,
       Filter = QLNode QL_CMP_GE 0 [] [QLNode QL_SYM 0 (lit ''a'') [], QLNode QL_I64 0 [] []], Offset = 1, Limit = 2\<rparr>,
     it_sc = example_scan (Suc 0), it_count = 0, it_end = False, it_rec = new_record, it_err = None\<rparr>"

lemma example_filter:
  "satisfies (Filter (it_req example_query)) example_row = Some True" "satisfies (Filter (it_req example_query)) example_row2 = Some True"
  by code_simp+

theorem limit_is_window_witness: "fetchRows 4 4 example_kv 1 example_tx example_query = Some [example_row2]"
proof -
  let ?flt = "Filter (it_req example_query)"
  note row = a_row [where b = True, simplified]
  have "scan_yields example_kv 1 ?flt 0 example_tx (example_scan 3) []" by (rule no_row [OF example_valid(3)])
  then have "scan_yields example_kv 1 ?flt (Suc 0) example_tx (example_scan 2) [example_row2]"
    by (rule row [OF example_valid(2) example_rows(2) example_filter(2) example_next(2)])
  then have "scan_yields example_kv 1 ?flt (Suc (Suc 0)) example_tx (example_scan (Suc 0)) [example_row, example_row2]"
    by (rule row [OF example_valid(1) example_rows(1) example_filter(1) example_next(1)])
  then show ?thesis
    using limit_is_window [of example_kv 1 example_query "Suc (Suc 0)" example_tx "[example_row, example_row2]" 1 2 4 4]
    by (simp add: example_query_def window_def)
qed

end
