(* ===== verification/Spec2Isabelle.thy ===== *)
theory Spec2Isabelle
  imports TxScan QLScanner TableProps QLProps QLLimit QLRepl
begin

text \<open>
  A verification development for \<^verbatim>\<open>mini-database-v2\<close>, a small transactional database in Go.

  \<^bold>\<open>The program.\<close> \<^verbatim>\<open>db/btree.go\<close> keeps sorted key-value pairs in a copy-on-write B+tree of 4096-byte
  pages that it reads, stores and drops through three callbacks; \<^verbatim>\<open>db/btree_iter.go\<close> walks such a tree.
  \<^verbatim>\<open>db/kv.go\<close> implements the callbacks over a memory-mapped file with pending page updates, reuses pages
  through the queue of \<^verbatim>\<open>db/free_list.go\<close>, and makes a set of updates durable in two phases: the pages,
  then the meta page, each followed by an fsync. \<^verbatim>\<open>db/transaction.go\<close> puts snapshots on top: a transaction
  reads the committed tree of its beginning, collects its changes in a second B+tree in memory, and
  a commit carries them over unless a newer commit touched what the transaction has read.
  \<^verbatim>\<open>db/table.go\<close> stores records under keys whose byte order is the order of the columns,
  \<^verbatim>\<open>db/ql_parse.go\<close> and \<^verbatim>\<open>db/ql_exec.go\<close> are a query language over tables, \<^verbatim>\<open>cmd/ql.go\<close> its prompt.

  \<^bold>\<open>Conventions.\<close> A Go panic is \<open>None\<close>, an error is a value inside \<open>Some\<close>. Unsigned integers are natural
  numbers with the wrap-around of each operation written out. State is passed explicitly. What the
  code takes from a map or from the operating system is an argument: the order in which a Go map
  is walked, the outcome of each system call. Recursion along page pointers, which a damaged file
  could make cyclic, carries fuel; the theorems ask for more fuel than the height of the tree and
  show that this is enough for the code to return.

  \<^bold>\<open>Theories.\<close>
  \<^item> \<^verbatim>\<open>Prelude\<close>: bytes, machine integers, slices, \<^verbatim>\<open>bytes.Compare\<close>, panics.
  \<^item> \<^verbatim>\<open>BNode\<close>, \<^verbatim>\<open>NodeOps\<close>, \<^verbatim>\<open>NodeProps\<close>: the page layout and the edits of one page; \<open>node_rep\<close> says which
    entries the bytes of a page stand for, and every edit is shown to be the list operation it
    should be. Splitting is characterised exactly, with the case in which it panics.
  \<^item> \<^verbatim>\<open>BTree\<close>: the tree's methods over a record of callbacks. \<^verbatim>\<open>TreeShape\<close> states the contract of the
    callbacks as the locale \<open>pager\<close> and relates stored pages to abstract trees; \<^verbatim>\<open>TreeGet\<close>, \<^verbatim>\<open>TreeUpdate\<close>,
    \<^verbatim>\<open>TreeRoot\<close> prove in it that lookup and insertion are those of a sorted list. \<^verbatim>\<open>TreeFrame\<close> (locales
    \<open>page_frame\<close>, \<open>page_morph\<close>) shows what no operation of the tree can change or depend on.
  \<^item> \<^verbatim>\<open>BIter\<close>: positions in a tree, seeking and moving, as indices into the list of pairs.
  \<^item> \<^verbatim>\<open>Codec\<close>: the encoding of records into bytes, its order and its inverse.
  \<^item> \<^verbatim>\<open>TxPages\<close>: the in-memory pages of a transaction, an instance of \<open>pager\<close>, with the properties of the
    tree and the iterator over them.
  \<^item> \<^verbatim>\<open>FreeList\<close>: the linked list of pages as a queue of items with versions, over the locale \<open>list_store\<close>.
  \<^item> \<^verbatim>\<open>KVStore\<close>: the store and the operating system; \<^verbatim>\<open>KVPages\<close>: the store as a \<open>list_store\<close> and a \<open>pager\<close> that
    never writes to a page of a protected snapshot; \<^verbatim>\<open>KVCommit\<close>: what files a crash can leave at each
    point of a two-phase update; \<^verbatim>\<open>KVProps\<close>: crash safety, durability and undoing of updates, and the two
    failures that leave a file which cannot be opened again.
  \<^item> \<^verbatim>\<open>Transaction\<close>: transactions and the iterator that merges pending changes with a snapshot. \<^verbatim>\<open>TxState\<close>:
    what a commit leaves of the bookkeeping. \<^verbatim>\<open>TxMachine\<close>: concurrent transactions as a step relation
    and the invariant of its reachable states. \<^verbatim>\<open>TxOps\<close>: one transaction as a map. \<^verbatim>\<open>TxCommit\<close>: a commit
    is a store update, or changes nothing when every value set is already stored. \<^verbatim>\<open>TxProps\<close>: what transactions promise. \<^verbatim>\<open>TxScan\<close>: a range read yields the pairs between
    two keys, pending changes merged with the snapshot, in trees of at most two levels.
  \<^item> \<^verbatim>\<open>Schema\<close>: schemas and records, and what \<^verbatim>\<open>tableDefChecK\<close> accepts. \<^verbatim>\<open>Table\<close>: the rest of \<^verbatim>\<open>db/table.go\<close>:
    reads, writes, deletions and scans of rows over a transaction, the secondary indexes, the schema
    cache and the catalogue tables. \<^verbatim>\<open>TableWrites\<close>: the locale \<open>kv_contract\<close>, what the table layer relies on in
    a transaction; the abstract table (\<open>represents\<close>: a map from primary keys to rows, with every index
    entry and nothing else under the table's prefixes), and what \<^verbatim>\<open>dbUpdate\<close> and \<^verbatim>\<open>dbDelete\<close> do to it.
    \<^verbatim>\<open>TableProps\<close>: transactions meet the contract, so writes and deletions of rows refine updates of the
    map. \<^verbatim>\<open>TableFrame\<close>: what no operation of the table layer and no statement can change.
  \<^item> \<^verbatim>\<open>QLParse\<close>: the parser of \<^verbatim>\<open>db/ql_parse.go\<close> over bytes, with its error state and with the panic of
    an index outside the input. \<^verbatim>\<open>QLWalk\<close>: how far each
    function moves, so that the recursion ends; \<^verbatim>\<open>QLParseProps\<close>: the parser returns on every input, and
    what it returns is well-formed. \<^verbatim>\<open>QLScanner\<close>: cutting the input into statements, and the reading loop.
  \<^item> \<^verbatim>\<open>QLEval\<close>: evaluation of expressions (the first half of \<^verbatim>\<open>db/ql_exec.go\<close>) and a reference semantics.
    \<^verbatim>\<open>QLExec\<close>: iterators, the kinds of statements, the executor. \<^verbatim>\<open>QLProps\<close>: failed statements are undone,
    and the executor keeps its books. \<^verbatim>\<open>QLLimit\<close>: what LIMIT selects. \<^verbatim>\<open>QLRepl\<close>: a line of \<^verbatim>\<open>cmd/ql.go\<close> as a
    step of the prompt's state, with the text printed.

  \<^bold>\<open>Bounds.\<close> Insertion is proved for pairs whose key and value together take at most 280 bytes
  (\<open>small_op\<close>): the code's own limit of 1000 and 3000 bytes lets \<^verbatim>\<open>nodeSplit3\<close> panic. Commits are proved
  for pending trees of at most two levels: on higher ones the walk of \<^verbatim>\<open>Commit\<close> need not end. The
  theorems on commits are about a store at rest (\<open>store_holds\<close>: open, consistent, nothing pending, the last
  update not failed), what a failed update does to the next one is \<open>rewrite_failure_keeps_update\<close>; those
  on crashes and failures need that the store has been committed to before, and \<open>first_commit_bricks\<close> is
  the reason. Page
  numbers stay below \<open>2 ^ 51\<close>, so that file offsets are 63-bit numbers, and versions below \<open>2 ^ 64\<close>.
  The parser has fuel \<open>10 * length + 9\<close>, which is proved to be enough. The loops over the rows of a scan
  have a bound of their own, since a scan of a high tree need not end; \<open>limit_is_window\<close> shows that one
  more than the rows scanned is enough. \<^verbatim>\<open>dbGet\<close> and \<^verbatim>\<open>Deref\<close> call each other at most twice in depth: a row
  of a secondary index is fetched by primary key, and that row is decoded in place.

  \<^bold>\<open>The operating system.\<close> The file is a byte list, together with the contents last synced and the
  writes since; a crash keeps the synced contents and any of the unsynced page writes, and the
  first 72 bytes of the meta page go to disk as a whole: a write survives a crash completely or not
  at all. A failing write may have stored any part of its bytes. That has two consequences, which the
  theorems on atomic commits name as exceptions: a file whose length is no multiple of the page size
  (\<open>torn_file\<close>; \<open>torn_append_bricks\<close> shows that it occurs) and a meta page of which only a part was
  written (\<open>torn_meta\<close>). \<open>untorn\<close> and \<open>meta_whole\<close> are the conditions on the failing writes that rule the
  one and the other out. A machine that stops in the middle of a commit is covered by a system call that
  fails there, since a failed commit writes nothing more. Mappings see the file. \<^verbatim>\<open>pwrite\<close> that succeeds writes everything (the code does not look at
  the count either).

  \<^bold>\<open>Parameters.\<close> \<^verbatim>\<open>encoding/json\<close> is a pair of functions (\<open>json\<close>) that the catalogue uses to store schemas;
  the theorems hold for every such pair.

  \<^bold>\<open>Not modelled.\<close> Aliasing of byte slices: pages are values, since the code never changes a page after
  storing it, except for free-list nodes, which the callbacks hand out for writing; the records an
  iterator hands out are copies, since the iterator writes to its own only when they are no longer
  used. Go's scheduler: methods that hold the store's mutex are single steps, and a transaction's own
  methods touch only its own state; the mutex of the schema cache is not modelled, so statements of
  several executors on one database are not interleaved. Of \<^verbatim>\<open>cmd/ql.go\<close> the terminal (raw mode, echo,
  waiting for a line) and \<^verbatim>\<open>main\<close> are left out. Range
  reads are followed down to the two trees (\<open>range_scan\<close>); that a SELECT returns exactly the rows of
  the abstract table does not hold for the code once the transaction has deleted a row, since a range
  read still hands out its key.
\<close>

end
